(* ===== verification/Prelude.thy ===== *)
theory Prelude
  imports Main "HOL-Library.Word"
begin

text \<open>
  Shared vocabulary of the development: the fixed-width integers of the C code, the result
  type in which a failed assertion or an out-of-range access is a value, the checked array
  accesses and the loop shapes that several source files share (first match, shift down by
  one, bounded iteration), with the lemmas the component theories use to compute with them.
\<close>

section \<open>Integers\<close>

type_synonym u8 = "8 word"
type_synonym u16 = "16 word"
type_synonym u32 = "32 word"
type_synonym u64 = "64 word"

named_theorems u8_simps \<open>unsigned 8-bit arithmetic read as natural numbers\<close>

lemma unat_lt_256 [simp]: "unat (x :: u8) < 256"
proof -
  have "unat x < 2 ^ LENGTH(8)" by (rule unsigned_less)
  then show ?thesis by simp
qed

lemma unat_le_255 [simp]: "unat (x :: u8) \<le> 255"
  using unat_lt_256 [of x] by linarith

lemma u8_le_iff [u8_simps]: "(x :: u8) \<le> y \<longleftrightarrow> unat x \<le> unat y"
  by (rule word_le_nat_alt)

lemma u8_less_iff [u8_simps]: "(x :: u8) < y \<longleftrightarrow> unat x < unat y"
  by (rule word_less_nat_alt)

lemma u8_eq_iff: "(x :: u8) = y \<longleftrightarrow> unat x = unat y"
  by (rule word_unat_eq_iff)

lemma unat_u8_inc [u8_simps]: "unat (x :: u8) < 255 \<Longrightarrow> unat (x + 1) = Suc (unat x)"
  by (simp add: unat_word_ariths)

lemma unat_u8_dec [u8_simps]: "0 < unat (x :: u8) \<Longrightarrow> unat (x - 1) = unat x - 1"
proof -
  assume h: "0 < unat x"
  then have "(1 :: u8) \<le> x" by (simp add: word_le_nat_alt)
  then show ?thesis by (simp add: unat_sub)
qed

lemma unat_u8_of_nat [u8_simps]: "n < 256 \<Longrightarrow> unat (of_nat n :: u8) = n"
  by (simp add: unat_of_nat)

lemma u8_of_nat_unat [simp]: "of_nat (unat (x :: u8)) = x"
  by simp

lemma u8_of_nat_inj:
  "m < 256 \<Longrightarrow> n < 256 \<Longrightarrow> (of_nat m :: u8) = of_nat n \<longleftrightarrow> m = n"
  by (metis unat_u8_of_nat)

lemma unat_ucast_u16 [simp]: "unat (ucast (x :: u8) :: u16) = unat x"
proof -
  have "unat x < 2 ^ 16" using unat_lt_256 [of x] by (rule less_trans) simp
  then show ?thesis by (simp add: unsigned_ucast_eq take_bit_nat_eq_self)
qed

lemma u8_numeral_of_nat: "of_nat (numeral k) = (numeral k :: u8)"
  by simp

section \<open>Results\<close>

text \<open>
  What can keep a C function from returning a value: \<open>Assert_Failed\<close> is a
  \<^verbatim>\<open>microbusAssert\<close> whose condition is false (the default \<^verbatim>\<open>assertMessage\<close> of
  common.c then spins forever), \<open>Null_Pointer\<close> and \<open>Out_Of_Bounds\<close> are undefined
  behaviour that the model refuses to give a value, and \<open>No_Return\<close> is a loop of the
  code that never ends.
\<close>

datatype fault = Assert_Failed | Null_Pointer | Out_Of_Bounds | No_Return

type_synonym 'a res = "fault + 'a"

definition and_then :: "'a res \<Rightarrow> ('a \<Rightarrow> 'b res) \<Rightarrow> 'b res" where
  "and_then m f = (case m of Inl e \<Rightarrow> Inl e | Inr x \<Rightarrow> f x)"

named_theorems res_simps \<open>computing with results and checked accesses\<close>

lemma and_then_Inr [simp, res_simps]: "and_then (Inr x) f = f x"
  by (simp add: and_then_def)

lemma and_then_Inl [simp, res_simps]: "and_then (Inl e) f = Inl e"
  by (simp add: and_then_def)

lemma and_then_eq_Inr: "and_then m f = Inr y \<longleftrightarrow> (\<exists>x. m = Inr x \<and> f x = Inr y)"
  by (cases m) auto

lemma and_then_assoc: "and_then (and_then m f) g = and_then m (\<lambda>x. and_then (f x) g)"
  by (cases m) auto

lemma and_then_Inr_right [simp]: "and_then m Inr = m"
  by (cases m) auto

lemma and_then_cong [fundef_cong]:
  "m = m' \<Longrightarrow> (\<And>x. m' = Inr x \<Longrightarrow> f x = f' x) \<Longrightarrow> and_then m f = and_then m' f'"
  by (cases m') auto

lemma and_then_if:
  "and_then (if b then m else n) f = (if b then and_then m f else and_then n f)"
  by simp

definition microbusAssert :: "bool \<Rightarrow> unit res" where
  "microbusAssert p = (if p then Inr () else Inl Assert_Failed)"

lemma microbusAssert_True [simp, res_simps]: "p \<Longrightarrow> microbusAssert p = Inr ()"
  by (simp add: microbusAssert_def)

lemma microbusAssert_False [simp, res_simps]: "\<not> p \<Longrightarrow> microbusAssert p = Inl Assert_Failed"
  by (simp add: microbusAssert_def)

lemma microbusAssert_eq_Inr [simp]: "microbusAssert p = Inr u \<longleftrightarrow> p"
  by (simp add: microbusAssert_def)

section \<open>Checked array accesses\<close>

definition rd :: "'a list \<Rightarrow> nat \<Rightarrow> 'a res" where
  "rd xs i = (if i < length xs then Inr (xs ! i) else Inl Out_Of_Bounds)"

definition wr :: "'a list \<Rightarrow> nat \<Rightarrow> 'a \<Rightarrow> 'a list res" where
  "wr xs i x = (if i < length xs then Inr (xs[i := x]) else Inl Out_Of_Bounds)"

lemma rd_in [simp, res_simps]: "i < length xs \<Longrightarrow> rd xs i = Inr (xs ! i)"
  by (simp add: rd_def)

lemma rd_out [simp, res_simps]: "length xs \<le> i \<Longrightarrow> rd xs i = Inl Out_Of_Bounds"
  by (simp add: rd_def)

lemma wr_in [simp, res_simps]: "i < length xs \<Longrightarrow> wr xs i x = Inr (xs[i := x])"
  by (simp add: wr_def)

lemma wr_out [simp, res_simps]: "length xs \<le> i \<Longrightarrow> wr xs i x = Inl Out_Of_Bounds"
  by (simp add: wr_def)

lemma rd_eq_Inr: "rd xs i = Inr x \<longleftrightarrow> i < length xs \<and> x = xs ! i"
  by (auto simp: rd_def)

lemma wr_eq_Inr: "wr xs i x = Inr ys \<longleftrightarrow> i < length xs \<and> ys = xs[i := x]"
  by (auto simp: wr_def)

lemma nth_upd: "xs[i := x] ! j = (if i = j \<and> i < length xs then x else xs ! j)"
  by (cases "i < length xs") (auto simp: nth_list_update list_update_beyond)

section \<open>Loop shapes\<close>

text \<open>
  \<^verbatim>\<open>for (i = from; i < from + k; i++) if (P(xs[i])) return i;\<close> --- the first match among
  \<open>k\<close> entries, reading the array entry by entry.
\<close>

fun find_from :: "('a \<Rightarrow> bool) \<Rightarrow> 'a list \<Rightarrow> nat \<Rightarrow> nat \<Rightarrow> nat option res" where
  "find_from P xs i 0 = Inr None"
| "find_from P xs i (Suc k) =
     and_then (rd xs i) (\<lambda>x. if P x then Inr (Some i) else find_from P xs (Suc i) k)"

fun find_index :: "('a \<Rightarrow> bool) \<Rightarrow> 'a list \<Rightarrow> nat option" where
  "find_index P [] = None"
| "find_index P (x # xs) = (if P x then Some 0 else map_option Suc (find_index P xs))"

lemma find_from_take:
  "i + k \<le> length xs \<Longrightarrow>
   find_from P xs i k = Inr (map_option (\<lambda>j. i + j) (find_index P (take k (drop i xs))))"
proof (induction k arbitrary: i)
  case 0
  then show ?case by simp
next
  case (Suc k)
  then have "i < length xs" by simp
  then have "take (Suc k) (drop i xs) = xs ! i # take k (drop (Suc i) xs)"
    by (metis Cons_nth_drop_Suc take_Suc_Cons)
  with Suc show ?case by (simp add: option.map_comp comp_def)
qed

lemma find_from_0:
  "k \<le> length xs \<Longrightarrow> find_from P xs 0 k = Inr (find_index P (take k xs))"
  by (simp add: find_from_take option.map_ident)

lemma find_index_None_iff: "find_index P xs = None \<longleftrightarrow> (\<forall>x\<in>set xs. \<not> P x)"
  by (induction xs) auto

lemma find_index_SomeD:
  "find_index P xs = Some i \<Longrightarrow> i < length xs \<and> P (xs ! i) \<and> (\<forall>j<i. \<not> P (xs ! j))"
proof (induction xs arbitrary: i)
  case Nil
  then show ?case by simp
next
  case (Cons x xs)
  show ?case
  proof (cases "P x")
    case True
    with Cons.prems show ?thesis by simp
  next
    case False
    with Cons.prems obtain i' where "find_index P xs = Some i'" "i = Suc i'"
      by auto
    with Cons.IH [of i'] False show ?thesis
      by (auto simp: less_Suc_eq_0_disj)
  qed
qed

lemma find_index_SomeI:
  "i < length xs \<Longrightarrow> P (xs ! i) \<Longrightarrow> (\<And>j. j < i \<Longrightarrow> \<not> P (xs ! j)) \<Longrightarrow> find_index P xs = Some i"
proof (induction xs arbitrary: i)
  case Nil
  then show ?case by simp
next
  case (Cons x xs)
  show ?case
  proof (cases i)
    case 0
    with Cons.prems show ?thesis by simp
  next
    case (Suc i')
    have "\<not> P x" using Cons.prems(3) [of 0] Suc by simp
    moreover have "find_index P xs = Some i'"
    proof (rule Cons.IH)
      show "i' < length xs" "P (xs ! i')" using Cons.prems(1,2) Suc by simp_all
      show "\<not> P (xs ! j)" if "j < i'" for j
        using Cons.prems(3) [of "Suc j"] that Suc by simp
    qed
    ultimately show ?thesis using Suc by simp
  qed
qed

lemma find_index_Some_ex: "x \<in> set xs \<Longrightarrow> P x \<Longrightarrow> \<exists>i. find_index P xs = Some i"
  by (metis find_index_None_iff not_None_eq)

text \<open>
  \<^verbatim>\<open>for (j = from; j < from + k; j++) xs[j] = xs[j+1];\<close> --- shift down by one.
\<close>

fun shift_down :: "'a list \<Rightarrow> nat \<Rightarrow> nat \<Rightarrow> 'a list res" where
  "shift_down xs j 0 = Inr xs"
| "shift_down xs j (Suc k) =
     and_then (rd xs (Suc j)) (\<lambda>x. and_then (wr xs j x) (\<lambda>xs'. shift_down xs' (Suc j) k))"

lemma shift_down_take:
  "j + k < length xs \<Longrightarrow>
   shift_down xs j k = Inr (take j xs @ take k (drop (Suc j) xs) @ drop (j + k) xs)"
proof (induction k arbitrary: xs j)
  case 0
  then show ?case by simp
next
  case (Suc k)
  let ?xs = "xs[j := xs ! Suc j]"
  have j: "Suc j < length xs" and "Suc j + k < length ?xs" using Suc.prems by simp_all
  then have "shift_down ?xs (Suc j) k =
    Inr (take (Suc j) ?xs @ take k (drop (Suc (Suc j)) ?xs) @ drop (Suc j + k) ?xs)"
    by (intro Suc.IH) simp
  moreover have "take (Suc j) ?xs = take j xs @ [xs ! Suc j]"
    using j by (simp add: take_Suc_conv_app_nth)
  moreover have "drop (Suc (Suc j)) ?xs = drop (Suc (Suc j)) xs" and
    "drop (Suc j + k) ?xs = drop (j + Suc k) xs"
    by simp_all
  moreover have "take (Suc k) (drop (Suc j) xs) = xs ! Suc j # take k (drop (Suc (Suc j)) xs)"
    using j by (metis Cons_nth_drop_Suc take_Suc_Cons)
  ultimately show ?case using j by simp
qed

text \<open>Removing position \<open>j\<close> from the first \<open>n\<close> entries, as the shift does.\<close>

lemma take_shift_down:
  assumes "j < n" and "n \<le> length xs"
  shows "\<exists>ys. shift_down xs j (n - 1 - j) = Inr ys \<and> length ys = length xs \<and>
    take (n - 1) ys = take j xs @ drop (Suc j) (take n xs)"
proof -
  let ?k = "n - 1 - j"
  let ?ys = "take j xs @ take ?k (drop (Suc j) xs) @ drop (j + ?k) xs"
  have len: "j + ?k < length xs" using assms by simp
  have "shift_down xs j ?k = Inr ?ys" using len by (rule shift_down_take)
  moreover have "length ?ys = length xs" using assms by simp
  moreover have "take (n - 1) ?ys = take j xs @ drop (Suc j) (take n xs)"
    using assms by (simp add: drop_take)
  ultimately show ?thesis by blast
qed

text \<open>\<^verbatim>\<open>for (i : is) s = body(i, s);\<close> --- bounded iteration over a list of indices.\<close>

fun for_each :: "('i \<Rightarrow> 's \<Rightarrow> 's res) \<Rightarrow> 'i list \<Rightarrow> 's \<Rightarrow> 's res" where
  "for_each body [] s = Inr s"
| "for_each body (i # is) s = and_then (body i s) (for_each body is)"

lemma for_each_append:
  "for_each body (is @ js) s = and_then (for_each body is s) (for_each body js)"
proof (induction "is" arbitrary: s)
  case Nil
  then show ?case by simp
next
  case (Cons i "is")
  then have "for_each body (is @ js) = (\<lambda>x. and_then (for_each body is x) (for_each body js))"
    by (intro ext)
  then show ?case by (simp add: and_then_assoc)
qed

text \<open>An invariant of the body that also rules out faults is one of the loop.\<close>

lemma for_each_invariant:
  assumes "I s" and "\<And>i s. i \<in> set is \<Longrightarrow> I s \<Longrightarrow> \<exists>s'. body i s = Inr s' \<and> I s'"
  shows "\<exists>s'. for_each body is s = Inr s' \<and> I s'"
  using assms
proof (induction "is" arbitrary: s)
  case Nil
  then show ?case by simp
next
  case (Cons i "is")
  then obtain s1 where "body i s = Inr s1" "I s1" by force
  with Cons show ?case by simp
qed

lemma for_each_pure:
  "(\<And>i s. i \<in> set is \<Longrightarrow> body i s = Inr (f i s)) \<Longrightarrow> for_each body is s = Inr (fold f is s)"
  by (induction "is" arbitrary: s) auto

section \<open>The pointers in a list that are not NULL\<close>

fun somes :: "'a option list \<Rightarrow> 'a list" where
  "somes [] = []"
| "somes (None # xs) = somes xs"
| "somes (Some x # xs) = x # somes xs"

lemma somes_append [simp]: "somes (xs @ ys) = somes xs @ somes ys"
  by (induction xs rule: somes.induct) auto

lemma set_somes [simp]: "x \<in> set (somes xs) \<longleftrightarrow> Some x \<in> set xs"
  by (induction xs rule: somes.induct) auto

lemma somes_map_Some [simp]: "somes (map Some xs) = xs"
  by (induction xs) auto

lemma length_somes_le: "length (somes xs) \<le> length xs"
  by (induction xs rule: somes.induct) auto

text \<open>Overwriting with NULL the cells whose pointer fails a test filters the pointers.\<close>

lemma somes_map_drop:
  "somes (map (\<lambda>c. case c of None \<Rightarrow> None | Some p \<Rightarrow> if P p then None else Some p) xs)
     = filter (\<lambda>p. \<not> P p) (somes xs)"
  by (induction xs rule: somes.induct) auto

section \<open>Postconditions of fallible code\<close>

text \<open>\<open>all_res P r\<close>: if \<open>r\<close> returns, its value satisfies \<open>P\<close>.\<close>

definition all_res :: "('a \<Rightarrow> bool) \<Rightarrow> 'a res \<Rightarrow> bool" where
  "all_res P r \<longleftrightarrow> (case r of Inl _ \<Rightarrow> True | Inr x \<Rightarrow> P x)"

lemma all_res_simps [simp]:
  "all_res P (Inr x) = P x" "all_res P (Inl e)"
  by (simp_all add: all_res_def)

lemma all_res_assert [simp]: "all_res P (microbusAssert b) = (b \<longrightarrow> P ())"
  by (simp add: all_res_def microbusAssert_def)

lemma all_res_and_then: "all_res P (and_then r f) \<longleftrightarrow> all_res (\<lambda>x. all_res P (f x)) r"
  by (cases r) (simp_all add: all_res_def)

lemma all_res_weaken: "all_res P r \<Longrightarrow> (\<And>x. P x \<Longrightarrow> Q x) \<Longrightarrow> all_res Q r"
  by (cases r) (simp_all add: all_res_def)

lemma all_res_True [simp]: "all_res (\<lambda>_. True) r"
  by (cases r) simp_all

lemma all_res_any: "(\<And>x. P x) \<Longrightarrow> all_res P r"
  by (cases r) simp_all

lemma all_resI: "(\<And>x. r = Inr x \<Longrightarrow> P x) \<Longrightarrow> all_res P r"
  by (cases r) simp_all

lemma all_res_bind: "(\<And>x. r = Inr x \<Longrightarrow> all_res P (f x)) \<Longrightarrow> all_res P (and_then r f)"
  by (simp add: all_res_and_then all_resI)

lemma all_res_if: "(b \<Longrightarrow> all_res P r) \<Longrightarrow> (\<not> b \<Longrightarrow> all_res P r') \<Longrightarrow> all_res P (if b then r else r')"
  by simp

lemma all_resD: "all_res P r \<Longrightarrow> r = Inr x \<Longrightarrow> P x"
  by simp

end
