(* ===== verification/Microbus.thy ===== *)
theory Microbus
  imports Prelude
begin

text \<open>
  The definitions of \<^verbatim>\<open>src/src/microbus.h\<close> that every module uses: the protocol
  constants, the packet with its two overlaid views (master and node), the header macros,
  the sequence number step, the circular buffer macros and the statistics block.
  Wrap-around counters (sequence numbers, ring indices) share one interface, the locale
  \<open>cyclic\<close>, which both are shown to satisfy.
\<close>

unbundle bit_operations_syntax

section \<open>Constants\<close>

abbreviation (input) MAX_NODES :: nat where "MAX_NODES \<equiv> 64"
abbreviation (input) SLIDING_WINDOW_SIZE :: u8 where "SLIDING_WINDOW_SIZE \<equiv> 4"
abbreviation (input) MICROBUS_VERSION :: u8 where "MICROBUS_VERSION \<equiv> 1"
abbreviation (input) MASTER_NODE_ID :: u8 where "MASTER_NODE_ID \<equiv> 0"
abbreviation (input) FIRST_NODE_ID :: nat where "FIRST_NODE_ID \<equiv> 1"
abbreviation (input) UNALLOCATED_NODE_ID :: u8 where "UNALLOCATED_NODE_ID \<equiv> 0xFE"
abbreviation (input) INVALID_NODE_ID :: u8 where "INVALID_NODE_ID \<equiv> 0xFF"
abbreviation (input) MAX_TX_NODES_SCHEDULED :: nat where "MAX_TX_NODES_SCHEDULED \<equiv> 4"
abbreviation (input) INVALID_SEQUENCE_NUM :: u8 where "INVALID_SEQUENCE_NUM \<equiv> 255"
abbreviation (input) NULL_SEQUENCE_NUM :: u8 where "NULL_SEQUENCE_NUM \<equiv> 255"
abbreviation (input) MAX_SEQUENCE_NUM :: u8 where "MAX_SEQUENCE_NUM \<equiv> 255"

definition MB_PACKET_SIZE :: nat where "MB_PACKET_SIZE = 192"

definition MB_HEADER_SIZE :: nat where "MB_HEADER_SIZE = 6 + 2 * MAX_TX_NODES_SCHEDULED"

definition MASTER_PACKET_DATA_SIZE :: nat where
  "MASTER_PACKET_DATA_SIZE = MB_PACKET_SIZE - MB_HEADER_SIZE"

definition MAX_PACKET_DATA_SIZE :: nat where
  "MAX_PACKET_DATA_SIZE = max MASTER_PACKET_DATA_SIZE MASTER_PACKET_DATA_SIZE"

definition SLOT_TIME_US :: nat where "SLOT_TIME_US = (8 * MB_PACKET_SIZE * 10) div 45"

lemmas packet_sizes [simp] =
  MB_PACKET_SIZE_def MB_HEADER_SIZE_def MASTER_PACKET_DATA_SIZE_def MAX_PACKET_DATA_SIZE_def

section \<open>Packets\<close>

datatype tPacketType =
    NULL_PACKET | MASTER_DATA_PACKET | NODE_DATA_PACKET | MASTER_EMPTY_PACKET
  | NODE_EMPTY_PACKET | NEW_NODE_REQUEST_PACKET | NEW_NODE_RESPONSE_PACKET
  | MASTER_RESET_PACKET | MAX_PACKET_TYPE

primrec packet_code :: "tPacketType \<Rightarrow> u8" where
  "packet_code NULL_PACKET = 0"
| "packet_code MASTER_DATA_PACKET = 1"
| "packet_code NODE_DATA_PACKET = 2"
| "packet_code MASTER_EMPTY_PACKET = 3"
| "packet_code NODE_EMPTY_PACKET = 4"
| "packet_code NEW_NODE_REQUEST_PACKET = 5"
| "packet_code NEW_NODE_RESPONSE_PACKET = 6"
| "packet_code MASTER_RESET_PACKET = 7"
| "packet_code MAX_PACKET_TYPE = 8"

text \<open>
  A packet is four common bytes and a union. The union is kept as its bytes, so that the
  master view and the node view overlay as they do in memory: \<open>uhdr\<close> holds the ten bytes
  before the payload (offsets 0 to 9) and \<open>udata\<close> the payload that both views place
  at offset 10. A \<^verbatim>\<open>tPacketHeader\<close> is a packet whose payload is empty.
\<close>

record tPacket =
  protocolVersionAndPacketType :: u8
  txSeqNum :: u8
  dataSize1 :: u8
  dataSize2 :: u8
  uhdr :: "u8 list"
  udata :: "u8 list"

definition UNION_HEADER_SIZE :: nat where "UNION_HEADER_SIZE = 10"

lemma UNION_HEADER_SIZE [simp]: "UNION_HEADER_SIZE = 10"
  by (simp add: UNION_HEADER_SIZE_def)

definition wf_packet :: "tPacket \<Rightarrow> bool" where
  "wf_packet p \<longleftrightarrow> length (uhdr p) = UNION_HEADER_SIZE \<and> length (udata p) = MASTER_PACKET_DATA_SIZE"

definition wf_header :: "tPacket \<Rightarrow> bool" where
  "wf_header p \<longleftrightarrow> length (uhdr p) = UNION_HEADER_SIZE"

definition zero_packet :: tPacket where
  "zero_packet = \<lparr>protocolVersionAndPacketType = 0, txSeqNum = 0, dataSize1 = 0, dataSize2 = 0,
     uhdr = replicate UNION_HEADER_SIZE 0, udata = replicate MASTER_PACKET_DATA_SIZE 0\<rparr>"

definition zero_header :: tPacket where
  "zero_header = zero_packet\<lparr>udata := []\<rparr>"

text \<open>The bytes of a packet in transmission order; a DMA transfer copies exactly these.\<close>

definition packet_bytes :: "tPacket \<Rightarrow> u8 list" where
  "packet_bytes p = [protocolVersionAndPacketType p, txSeqNum p, dataSize1 p, dataSize2 p]
     @ uhdr p @ udata p"

subsection \<open>The master view (tMasterPacket)\<close>

definition master_nextTxNodeId :: "tPacket \<Rightarrow> nat \<Rightarrow> u8" where
  "master_nextTxNodeId p i = uhdr p ! i"

definition master_nextTxNodeAckSeqNum :: "tPacket \<Rightarrow> nat \<Rightarrow> u8" where
  "master_nextTxNodeAckSeqNum p i = uhdr p ! (MAX_TX_NODES_SCHEDULED + i)"

definition master_dstNodeId :: "tPacket \<Rightarrow> u8" where
  "master_dstNodeId p = uhdr p ! 8"

definition set_master_nextTxNodeId :: "nat \<Rightarrow> u8 \<Rightarrow> tPacket \<Rightarrow> tPacket" where
  "set_master_nextTxNodeId i v p = p\<lparr>uhdr := (uhdr p)[i := v]\<rparr>"

definition set_master_nextTxNodeAckSeqNum :: "nat \<Rightarrow> u8 \<Rightarrow> tPacket \<Rightarrow> tPacket" where
  "set_master_nextTxNodeAckSeqNum i v p = p\<lparr>uhdr := (uhdr p)[MAX_TX_NODES_SCHEDULED + i := v]\<rparr>"

definition set_master_dstNodeId :: "u8 \<Rightarrow> tPacket \<Rightarrow> tPacket" where
  "set_master_dstNodeId v p = p\<lparr>uhdr := (uhdr p)[8 := v]\<rparr>"

subsection \<open>The node view (tNodePacket)\<close>

definition node_ackSeqNum :: "tPacket \<Rightarrow> u8" where
  "node_ackSeqNum p = uhdr p ! 0"

definition node_srcNodeId :: "tPacket \<Rightarrow> u8" where
  "node_srcNodeId p = uhdr p ! 1"

definition node_bufferLevel :: "tPacket \<Rightarrow> u8" where
  "node_bufferLevel p = uhdr p ! 3"

definition set_node_ackSeqNum :: "u8 \<Rightarrow> tPacket \<Rightarrow> tPacket" where
  "set_node_ackSeqNum v p = p\<lparr>uhdr := (uhdr p)[0 := v]\<rparr>"

definition set_node_srcNodeId :: "u8 \<Rightarrow> tPacket \<Rightarrow> tPacket" where
  "set_node_srcNodeId v p = p\<lparr>uhdr := (uhdr p)[1 := v]\<rparr>"

definition set_node_bufferLevel :: "u8 \<Rightarrow> tPacket \<Rightarrow> tPacket" where
  "set_node_bufferLevel v p = p\<lparr>uhdr := (uhdr p)[3 := v]\<rparr>"

lemmas packet_view_defs =
  master_nextTxNodeId_def master_nextTxNodeAckSeqNum_def master_dstNodeId_def
  set_master_nextTxNodeId_def set_master_nextTxNodeAckSeqNum_def set_master_dstNodeId_def
  node_ackSeqNum_def node_srcNodeId_def node_bufferLevel_def
  set_node_ackSeqNum_def set_node_srcNodeId_def set_node_bufferLevel_def

subsection \<open>Header macros\<close>

definition SET_PROTOCOL_VERSION_AND_PACKET_TYPE :: "tPacketType \<Rightarrow> tPacket \<Rightarrow> tPacket" where
  "SET_PROTOCOL_VERSION_AND_PACKET_TYPE t p =
     p\<lparr>protocolVersionAndPacketType := push_bit 4 MICROBUS_VERSION OR (packet_code t AND 0xF)\<rparr>"

definition SET_PACKET_DATA_SIZE :: "u16 \<Rightarrow> tPacket \<Rightarrow> tPacket" where
  "SET_PACKET_DATA_SIZE n p =
     p\<lparr>dataSize1 := ucast (drop_bit 8 n), dataSize2 := ucast (n AND 0xFF)\<rparr>"

definition GET_PROTOCOL_VERSION :: "tPacket \<Rightarrow> u8" where
  "GET_PROTOCOL_VERSION p = drop_bit 4 (protocolVersionAndPacketType p) AND 0xF"

definition GET_PACKET_TYPE :: "tPacket \<Rightarrow> u8" where
  "GET_PACKET_TYPE p = protocolVersionAndPacketType p AND 0xF"

definition GET_PACKET_DATA_SIZE :: "tPacket \<Rightarrow> u16" where
  "GET_PACKET_DATA_SIZE p = push_bit 8 (ucast (dataSize1 p)) OR ucast (dataSize2 p)"

lemma version_of_set [simp]:
  "GET_PROTOCOL_VERSION (SET_PROTOCOL_VERSION_AND_PACKET_TYPE t p) = MICROBUS_VERSION"
  by (cases t) (simp_all add: GET_PROTOCOL_VERSION_def SET_PROTOCOL_VERSION_AND_PACKET_TYPE_def)

lemma type_of_set [simp]:
  "GET_PACKET_TYPE (SET_PROTOCOL_VERSION_AND_PACKET_TYPE t p) = packet_code t"
  by (cases t) (simp_all add: GET_PACKET_TYPE_def SET_PROTOCOL_VERSION_AND_PACKET_TYPE_def)

lemma packet_code_eq [simp]: "packet_code s = packet_code t \<longleftrightarrow> s = t"
  by (cases s; cases t) simp_all

lemma size_of_set [simp]: "GET_PACKET_DATA_SIZE (SET_PACKET_DATA_SIZE n p) = n"
proof -
  have mask: "(255 :: u16) = mask 8"
    by (simp add: mask_eq_exp_minus_1)
  have "push_bit 8 (ucast (ucast (drop_bit 8 n) :: u8)) OR ucast (ucast (n AND 0xFF) :: u8) = n"
    unfolding mask by (rule bit_word_eqI) (auto simp: bit_simps)
  then show ?thesis
    by (simp add: GET_PACKET_DATA_SIZE_def SET_PACKET_DATA_SIZE_def)
qed

lemma unat_data_size: "unat (GET_PACKET_DATA_SIZE p) = 256 * unat (dataSize1 p) + unat (dataSize2 p)"
proof -
  have "push_bit 8 (ucast (dataSize1 p)) AND (ucast (dataSize2 p) :: u16) = 0"
  proof (rule bit_word_eqI)
    fix i
    show "bit (push_bit 8 (ucast (dataSize1 p)) AND (ucast (dataSize2 p) :: u16)) i = bit (0 :: u16) i"
      by (auto simp: bit_simps dest: bit_imp_le_length)
  qed
  then have "GET_PACKET_DATA_SIZE p = push_bit 8 (ucast (dataSize1 p)) + (ucast (dataSize2 p) :: u16)"
    by (simp add: GET_PACKET_DATA_SIZE_def disjunctive_add_eq_or)
  moreover have "unat (push_bit 8 (ucast (dataSize1 p)) :: u16) = 256 * unat (dataSize1 p)"
  proof -
    have "256 * unat (dataSize1 p) < 65536" using unat_lt_256 [of "dataSize1 p"] by linarith
    then show ?thesis
      by (simp add: push_bit_eq_mult unat_word_ariths unat_ucast_u16)
  qed
  moreover have "unat (ucast (dataSize2 p) :: u16) = unat (dataSize2 p)"
    by (simp add: unat_ucast_u16)
  moreover have "256 * unat (dataSize1 p) + unat (dataSize2 p) < 65536"
    using unat_lt_256 [of "dataSize1 p"] unat_lt_256 [of "dataSize2 p"] by linarith
  ultimately show ?thesis by (simp add: unat_word_ariths)
qed

text \<open>The header macros and the views touch disjoint bytes.\<close>

lemma header_of_views [simp]:
  "GET_PACKET_TYPE (p\<lparr>uhdr := h\<rparr>) = GET_PACKET_TYPE p"
  "GET_PACKET_TYPE (p\<lparr>udata := d\<rparr>) = GET_PACKET_TYPE p"
  "GET_PACKET_TYPE (p\<lparr>txSeqNum := s\<rparr>) = GET_PACKET_TYPE p"
  "GET_PACKET_TYPE (SET_PACKET_DATA_SIZE n p) = GET_PACKET_TYPE p"
  "GET_PROTOCOL_VERSION (p\<lparr>uhdr := h\<rparr>) = GET_PROTOCOL_VERSION p"
  "GET_PROTOCOL_VERSION (p\<lparr>udata := d\<rparr>) = GET_PROTOCOL_VERSION p"
  "GET_PROTOCOL_VERSION (p\<lparr>txSeqNum := s\<rparr>) = GET_PROTOCOL_VERSION p"
  "GET_PROTOCOL_VERSION (SET_PACKET_DATA_SIZE n p) = GET_PROTOCOL_VERSION p"
  "GET_PACKET_DATA_SIZE (p\<lparr>uhdr := h\<rparr>) = GET_PACKET_DATA_SIZE p"
  "GET_PACKET_DATA_SIZE (p\<lparr>udata := d\<rparr>) = GET_PACKET_DATA_SIZE p"
  "GET_PACKET_DATA_SIZE (p\<lparr>txSeqNum := s\<rparr>) = GET_PACKET_DATA_SIZE p"
  "GET_PACKET_DATA_SIZE (SET_PROTOCOL_VERSION_AND_PACKET_TYPE t p) = GET_PACKET_DATA_SIZE p"
  by (simp_all add: GET_PACKET_TYPE_def GET_PROTOCOL_VERSION_def GET_PACKET_DATA_SIZE_def
      SET_PACKET_DATA_SIZE_def SET_PROTOCOL_VERSION_AND_PACKET_TYPE_def)

lemma set_header_fields [simp]:
  "uhdr (SET_PROTOCOL_VERSION_AND_PACKET_TYPE t p) = uhdr p"
  "udata (SET_PROTOCOL_VERSION_AND_PACKET_TYPE t p) = udata p"
  "txSeqNum (SET_PROTOCOL_VERSION_AND_PACKET_TYPE t p) = txSeqNum p"
  "uhdr (SET_PACKET_DATA_SIZE n p) = uhdr p"
  "udata (SET_PACKET_DATA_SIZE n p) = udata p"
  "txSeqNum (SET_PACKET_DATA_SIZE n p) = txSeqNum p"
  by (simp_all add: SET_PROTOCOL_VERSION_AND_PACKET_TYPE_def SET_PACKET_DATA_SIZE_def)

lemma zero_packet_wf [simp]: "wf_packet zero_packet" "wf_header zero_header" "wf_header zero_packet"
  by (simp_all add: wf_packet_def wf_header_def zero_packet_def zero_header_def)

lemma wf_packet_header: "wf_packet p \<Longrightarrow> wf_header p"
  by (simp add: wf_packet_def wf_header_def)

section \<open>Wrap-around counters\<close>

text \<open>
  The contract of a counter that steps through \<open>M\<close> codes and starts over: the code of a
  running count, and a step that follows it. Sequence numbers and ring indices both meet
  it; everything the window and queue proofs need about wrap-around is proved here once.
\<close>

locale cyclic =
  fixes M :: nat and code :: "nat \<Rightarrow> 'a" and step :: "'a \<Rightarrow> 'a"
  assumes modulus_pos: "0 < M"
    and code_eq: "code j = code k \<longleftrightarrow> j mod M = k mod M"
    and step_code: "step (code k) = code (Suc k)"
begin

lemma code_near: "j \<le> k \<Longrightarrow> k - j < M \<Longrightarrow> code j = code k \<longleftrightarrow> j = k"
proof
  assume le: "j \<le> k" and near: "k - j < M" and "code j = code k"
  then have "(k - j) mod M = 0"
    by (metis code_eq mod_eq_dvd_iff_nat mod_eq_0_iff_dvd)
  with near le show "j = k" by simp
qed simp

lemma code_window: "i < n \<Longrightarrow> n < M \<Longrightarrow> code (b + i) \<noteq> code (b + n)"
  using code_near [of "b + i" "b + n"] by simp

lemma code_window_eq:
  assumes "i < M" and "j < M"
  shows "code (b + i) = code (b + j) \<longleftrightarrow> i = j"
proof (cases "i \<le> j")
  case True
  with assms code_near [of "b + i" "b + j"] show ?thesis by simp
next
  case False
  moreover from assms have "i - j < M" by linarith
  ultimately have "code (b + j) = code (b + i) \<longleftrightarrow> j = i"
    using code_near [of "b + j" "b + i"] by simp
  then show ?thesis by metis
qed

lemma step_funpow: "(step ^^ n) (code k) = code (k + n)"
  by (induction n) (simp_all add: step_code)

lemma code_add_modulus [simp]: "code (k + M) = code k"
  by (simp add: code_eq)

end

subsection \<open>Sequence numbers: INCR\_SEQUENCE\_NUM\<close>

definition INCR_SEQUENCE_NUM :: "u8 \<Rightarrow> u8" where
  "INCR_SEQUENCE_NUM s = (let s' = s + 1 in if s' \<ge> MAX_SEQUENCE_NUM then 0 else s')"

text \<open>The code of the \<open>k\<close>-th packet of a stream.\<close>

definition seq_of :: "nat \<Rightarrow> u8" where
  "seq_of k = of_nat (k mod 255)"

lemma unat_seq_of: "unat (seq_of k) = k mod 255"
  by (simp add: seq_of_def unat_u8_of_nat less_imp_le_nat)

lemma seq_of_less: "unat (seq_of k) < 255"
  by (simp add: unat_seq_of)

lemma seq_of_not_255 [simp]: "seq_of k \<noteq> 255" "255 \<noteq> seq_of k"
  using seq_of_less [of k] by (auto simp: u8_eq_iff)

lemma seq_of_0 [simp]: "seq_of 0 = 0"
  by (simp add: seq_of_def)

lemma unat_INCR_SEQUENCE_NUM:
  "unat s < 255 \<Longrightarrow> unat (INCR_SEQUENCE_NUM s) = (if unat s = 254 then 0 else Suc (unat s))"
  by (auto simp: INCR_SEQUENCE_NUM_def Let_def u8_simps)

lemma INCR_SEQUENCE_NUM_less: "unat (INCR_SEQUENCE_NUM s) < 255"
  by (auto simp: INCR_SEQUENCE_NUM_def Let_def u8_simps)

lemma INCR_seq_of: "INCR_SEQUENCE_NUM (seq_of k) = seq_of (Suc k)"
proof -
  have "unat (INCR_SEQUENCE_NUM (seq_of k)) = unat (seq_of (Suc k))"
    by (auto simp: unat_INCR_SEQUENCE_NUM unat_seq_of mod_Suc)
  then show ?thesis by (simp add: u8_eq_iff)
qed

interpretation seqnum: cyclic 255 seq_of INCR_SEQUENCE_NUM
  by unfold_locales (simp_all add: INCR_seq_of u8_eq_iff unat_seq_of)

lemma seq_of_surj: "unat a < 255 \<Longrightarrow> seq_of (unat a) = a"
  by (simp add: u8_eq_iff unat_seq_of)

section \<open>Circular buffers\<close>

text \<open>
  The macros compute in \<^verbatim>\<open>int\<close> (both operands are promoted) and store the result in a
  \<^verbatim>\<open>uint8_t\<close>.
\<close>

definition INCR_AND_WRAP :: "int \<Rightarrow> int \<Rightarrow> int \<Rightarrow> int" where
  "INCR_AND_WRAP val incr m = (if val \<ge> m - incr then incr - (m - val) else val + incr)"

definition DECR_AND_WRAP :: "int \<Rightarrow> int \<Rightarrow> int \<Rightarrow> int" where
  "DECR_AND_WRAP val decr m = (if val < decr then m - decr + val else val - decr)"

definition CIRCULAR_BUFFER_FULL :: "u8 \<Rightarrow> u8 \<Rightarrow> u8 \<Rightarrow> bool" where
  "CIRCULAR_BUFFER_FULL head tail sz \<longleftrightarrow> uint head = INCR_AND_WRAP (uint tail) 1 (uint sz)"

definition CIRCULAR_BUFFER_EMPTY :: "u8 \<Rightarrow> u8 \<Rightarrow> u8 \<Rightarrow> bool" where
  "CIRCULAR_BUFFER_EMPTY head tail sz \<longleftrightarrow> head = tail"

definition CIRCULAR_BUFFER_LENGTH :: "u8 \<Rightarrow> u8 \<Rightarrow> u8 \<Rightarrow> u8" where
  "CIRCULAR_BUFFER_LENGTH head tail sz =
     word_of_int (DECR_AND_WRAP (uint tail) (uint head) (uint sz))"

definition CIRCULAR_BUFFER_APPEND ::
    "'a list \<Rightarrow> u8 \<Rightarrow> u8 \<Rightarrow> u8 \<Rightarrow> 'a \<Rightarrow> ('a list \<times> u8) res" where
  "CIRCULAR_BUFFER_APPEND entries head tail sz newEntry =
     (if CIRCULAR_BUFFER_FULL head tail sz then Inl Assert_Failed
      else and_then (wr entries (unat tail) newEntry) (\<lambda>entries'.
        Inr (entries', word_of_int (INCR_AND_WRAP (uint tail) 1 (uint sz)))))"

definition CIRCULAR_BUFFER_PEEK :: "u8 \<Rightarrow> u8 \<Rightarrow> u8 \<Rightarrow> nat option" where
  "CIRCULAR_BUFFER_PEEK head tail sz =
     (if CIRCULAR_BUFFER_EMPTY head tail sz then None else Some (unat head))"

definition CIRCULAR_BUFFER_POP :: "u8 \<Rightarrow> u8 \<Rightarrow> u8 \<Rightarrow> u8 res" where
  "CIRCULAR_BUFFER_POP head tail sz =
     (if CIRCULAR_BUFFER_EMPTY head tail sz then Inl Assert_Failed
      else Inr (word_of_int (INCR_AND_WRAP (uint head) 1 (uint sz))))"

definition CIRCULAR_BUFFER_SHIFT :: "u8 \<Rightarrow> u8 \<Rightarrow> u8 \<Rightarrow> u8 res" where
  "CIRCULAR_BUFFER_SHIFT head tail sz =
     (if CIRCULAR_BUFFER_EMPTY head tail sz then Inl Assert_Failed
      else Inr (word_of_int (DECR_AND_WRAP (uint tail) 1 (uint sz))))"

subsection \<open>Ring indices as wrap-around counters\<close>

definition ring_step :: "u8 \<Rightarrow> u8 \<Rightarrow> u8" where
  "ring_step sz t = word_of_int (INCR_AND_WRAP (uint t) 1 (uint sz))"

definition ring_index :: "u8 \<Rightarrow> nat \<Rightarrow> u8" where
  "ring_index sz k = of_nat (k mod unat sz)"

lemma unat_ring_index: "0 < unat s \<Longrightarrow> unat (ring_index s k) = k mod unat s"
proof -
  assume "0 < unat s"
  then have "k mod unat s < 256"
    using unat_lt_256 [of s] by (meson less_trans mod_less_divisor)
  then show ?thesis by (simp add: ring_index_def unat_u8_of_nat)
qed

lemma ring_index_unat [simp]: "unat t < unat s \<Longrightarrow> ring_index s (unat t) = t"
  by (simp add: ring_index_def)

lemma uint_u8: "uint (x :: u8) = int (unat x)"
  by simp

text \<open>The macros on natural numbers below the size.\<close>

lemma INCR_AND_WRAP_nat:
  "t < s \<Longrightarrow> INCR_AND_WRAP (int t) 1 (int s) = int (Suc t mod s)"
  by (cases "Suc t = s") (auto simp: INCR_AND_WRAP_def)

lemma INCR_AND_WRAP_u8:
  "unat t < unat s \<Longrightarrow> INCR_AND_WRAP (uint t) 1 (uint s) = int (Suc (unat t) mod unat s)"
  for t s :: u8
  by (simp only: uint_u8 INCR_AND_WRAP_nat)

lemma DECR_AND_WRAP_nat:
  "t < s \<Longrightarrow> h < s \<Longrightarrow> DECR_AND_WRAP (int t) (int h) (int s) = int ((s + t - h) mod s)"
  by (auto simp: DECR_AND_WRAP_def mod_if of_nat_diff)

lemma DECR_AND_WRAP_u8:
  "unat t < unat s \<Longrightarrow> unat h < unat s \<Longrightarrow>
   DECR_AND_WRAP (uint t) (uint h) (uint s) = int ((unat s + unat t - unat h) mod unat s)"
  for t h s :: u8
  by (simp only: uint_u8 DECR_AND_WRAP_nat)

lemma word_of_int_int: "word_of_int (int n) = (of_nat n :: u8)"
  by simp

lemma mod_u8_lt: "0 < unat s \<Longrightarrow> n mod unat s < 256" for s :: u8
  by (rule less_trans [OF mod_less_divisor unat_lt_256])

lemma unat_ring_step:
  assumes "unat t < unat s"
  shows "unat (ring_step s t) = Suc (unat t) mod unat s"
proof -
  have "0 < unat s" using assms by linarith
  then show ?thesis
    unfolding ring_step_def INCR_AND_WRAP_u8 [OF assms] word_of_int_int
    by (intro unat_u8_of_nat mod_u8_lt)
qed

lemma ring_step_index: "0 < unat s \<Longrightarrow> ring_step s (ring_index s k) = ring_index s (Suc k)"
  by (simp add: u8_eq_iff unat_ring_step unat_ring_index mod_Suc_eq)

lemma unat_max_1: "0 < unat (max 1 (s :: u8))"
  by (simp add: max_def u8_simps)

interpretation ring: cyclic "unat (max 1 s)" "ring_index (max 1 s)" "ring_step (max 1 s)" for s :: u8
  by unfold_locales
    (simp_all add: unat_max_1 u8_eq_iff unat_ring_index ring_step_index)

lemma max_1_pos [simp]: "0 < unat s \<Longrightarrow> max 1 s = (s :: u8)"
  by (simp add: max_def u8_simps)

lemma ring_full_iff:
  "unat t < unat s \<Longrightarrow> CIRCULAR_BUFFER_FULL h t s \<longleftrightarrow> h = ring_step s t"
proof -
  assume t: "unat t < unat s"
  have "CIRCULAR_BUFFER_FULL h t s \<longleftrightarrow> unat h = Suc (unat t) mod unat s"
    unfolding CIRCULAR_BUFFER_FULL_def INCR_AND_WRAP_u8 [OF t]
    unfolding uint_u8 of_nat_eq_iff by (rule refl)
  then show ?thesis
    using t by (simp add: u8_eq_iff unat_ring_step)
qed

lemma unat_ring_length:
  assumes "unat h < unat s" and "unat t < unat s"
  shows "unat (CIRCULAR_BUFFER_LENGTH h t s) = (unat s + unat t - unat h) mod unat s"
proof -
  have "0 < unat s" using assms by linarith
  then show ?thesis
    unfolding CIRCULAR_BUFFER_LENGTH_def DECR_AND_WRAP_u8 [OF assms(2,1)] word_of_int_int
    by (intro unat_u8_of_nat mod_u8_lt)
qed

subsection \<open>The list a ring holds\<close>

definition ring_list :: "'a list \<Rightarrow> nat \<Rightarrow> nat \<Rightarrow> 'a list" where
  "ring_list xs h n = map (\<lambda>i. xs ! ((h + i) mod length xs)) [0..<n]"

lemma length_ring_list [simp]: "length (ring_list xs h n) = n"
  by (simp add: ring_list_def)

lemma ring_list_0 [simp]: "ring_list xs h 0 = []"
  by (simp add: ring_list_def)

lemma nth_ring_list: "i < n \<Longrightarrow> ring_list xs h n ! i = xs ! ((h + i) mod length xs)"
  by (simp add: ring_list_def)

lemma ring_list_Suc: "ring_list xs h (Suc n) = ring_list xs h n @ [xs ! ((h + n) mod length xs)]"
  by (simp add: ring_list_def)

lemma ring_list_Cons:
  "ring_list xs h (Suc n) = xs ! (h mod length xs) # ring_list xs (Suc h mod length xs) n"
proof -
  have "[0..<Suc n] = 0 # map Suc [0..<n]"
    by (simp add: upt_conv_Cons map_Suc_upt del: upt_Suc)
  then show ?thesis
    by (simp add: ring_list_def mod_add_left_eq comp_def del: upt_Suc)
qed

lemma mod_window_inj:
  "i < m \<Longrightarrow> j < m \<Longrightarrow> (h + i) mod m = (h + j) mod m \<longleftrightarrow> i = j" for h i j m :: nat
proof -
  have main: "i = j" if "(h + i) mod m = (h + j) mod m" "i \<le> j" "j < m" for i j
  proof -
    have "(h + j - (h + i)) mod m = 0"
      using that by (metis mod_eq_dvd_iff_nat mod_eq_0_iff_dvd add_le_cancel_left)
    with that show ?thesis by simp
  qed
  assume "i < m" "j < m"
  then show ?thesis using main [of i j] main [of j i] by (metis nle_le)
qed

lemma ring_list_update:
  "n < length xs \<Longrightarrow>
   ring_list (xs[(h + n) mod length xs := x]) h (Suc n) = ring_list xs h n @ [x]"
proof -
  assume n: "n < length xs"
  then have m: "(h + n) mod length xs < length xs" by (intro mod_less_divisor) linarith
  have "(h + n) mod length xs \<noteq> (h + i) mod length xs" if "i < n" for i
    using mod_window_inj [of n "length xs" i h] that n by simp
  with m show ?thesis
    by (auto simp: ring_list_Suc ring_list_def)
qed

lemma ring_list_set:
  "k < n \<Longrightarrow> n \<le> length xs \<Longrightarrow>
   ring_list (xs[(h + k) mod length xs := x]) h n = (ring_list xs h n)[k := x]"
proof (rule nth_equalityI)
  assume k: "k < n" "n \<le> length xs"
  show "ring_list (xs[(h + k) mod length xs := x]) h n ! i = (ring_list xs h n)[k := x] ! i"
    if "i < length (ring_list (xs[(h + k) mod length xs := x]) h n)" for i
  proof -
    from k that have i: "i < n" "i < length xs" "k < length xs" by simp_all
    then have m: "(h + k) mod length xs < length xs" by (intro mod_less_divisor) linarith
    have "(h + k) mod length xs = (h + i) mod length xs \<longleftrightarrow> k = i"
      using i by (intro mod_window_inj)
    with i m k show ?thesis by (auto simp: nth_ring_list nth_upd)
  qed
qed simp

lemma ring_distance:
  fixes h t m :: nat
  assumes "h < m" and "t < m"
  shows "(h + (m + t - h) mod m) mod m = t" and "(m + t - h) mod m < m"
  using assms by (auto simp: mod_if)

lemma ring_distance_step:
  fixes h t m :: nat
  assumes "h < m" and "t < m" and "h \<noteq> Suc t mod m"
  shows "(m + Suc t mod m - h) mod m = Suc ((m + t - h) mod m)"
  using assms by (auto simp: mod_if split: if_splits)

lemma ring_distance_pop:
  fixes h t m :: nat
  assumes "h < m" and "t < m" and "h \<noteq> t"
  shows "(m + t - h) mod m = Suc ((m + t - Suc h mod m) mod m)"
  using assms by (auto simp: mod_if split: if_splits)

section \<open>Statistics (tNodeStats)\<close>

text \<open>
  Field names carry the prefix \<open>st_\<close>: record fields are global constants in HOL and
  several of these names recur in other structs.
\<close>

record tNodeStats =
  st_txPackets :: u64
  st_txDataPackets :: u64
  st_emptyRx :: u64
  st_rxValid :: u64
  st_rxPacketEntries :: u64
  st_rxNodePackets :: u64
  st_rxDataPackets :: u64
  st_rxCrcFailures :: u64
  st_rxInvalidProtocol :: u64
  st_rxInvalidDataSize :: u64
  st_rxInvalidPacketType :: u64
  st_rxBufferFull :: u64
  st_txBufferFull :: u64
  st_txWindowRestarts :: u64
  st_nodeLeftNw :: u32
  st_nodeJoinedNw :: u32
  st_networkFullCount :: u32
  st_newNodeRequest :: u32
  st_newNodeRequestRx :: u32
  st_newNodeAllocated :: u32
  st_newNodeAllocatedRx :: u32

definition zero_stats :: tNodeStats where
  "zero_stats = \<lparr>st_txPackets = 0, st_txDataPackets = 0, st_emptyRx = 0, st_rxValid = 0,
     st_rxPacketEntries = 0, st_rxNodePackets = 0, st_rxDataPackets = 0, st_rxCrcFailures = 0,
     st_rxInvalidProtocol = 0, st_rxInvalidDataSize = 0, st_rxInvalidPacketType = 0,
     st_rxBufferFull = 0, st_txBufferFull = 0, st_txWindowRestarts = 0, st_nodeLeftNw = 0,
     st_nodeJoinedNw = 0, st_networkFullCount = 0, st_newNodeRequest = 0,
     st_newNodeRequestRx = 0, st_newNodeAllocated = 0, st_newNodeAllocatedRx = 0\<rparr>"

section \<open>Buffer entries (tPacketEntry)\<close>

record tPacketEntry =
  inUse :: bool
  packet :: tPacket

definition zero_entry :: tPacketEntry where
  "zero_entry = \<lparr>inUse = False, packet = zero_packet\<rparr>"

end
