(* ===== verification/NodeQueue.thy ===== *)
theory NodeQueue
  imports Microbus
begin

text \<open>
  The queue of node ids of \<^verbatim>\<open>src/src/common.c\<close> (\<^verbatim>\<open>tNodeQueue\<close> of microbus.h): add without
  duplicates, remove by shifting down, and the round-robin cursor \<open>lastIndex\<close>. The locale
  \<open>rotating_queue\<close> states what the scheduler, the network manager and the tx manager rely
  on; it is interpreted on the code's operations at the end.
\<close>

section \<open>The code\<close>

record tNodeQueue =
  nodeIds :: "u8 list"
  numNodes :: u8
  lastIndex :: u8

definition zero_queue :: tNodeQueue where
  "zero_queue = \<lparr>nodeIds = replicate MAX_NODES 0, numNodes = 0, lastIndex = 0\<rparr>"

definition nodeQueueAdd :: "tNodeQueue \<Rightarrow> u8 \<Rightarrow> (bool \<times> tNodeQueue) res" where
  "nodeQueueAdd queue nodeId =
     (if unat (numNodes queue) < MAX_NODES then
        and_then (find_from (\<lambda>x. x = nodeId) (nodeIds queue) 0 (unat (numNodes queue))) (\<lambda>found.
          case found of
            Some _ \<Rightarrow> Inr (True, queue)
          | None \<Rightarrow>
              and_then (wr (nodeIds queue) (unat (numNodes queue)) nodeId) (\<lambda>ids.
                Inr (True, queue\<lparr>nodeIds := ids, numNodes := numNodes queue + 1\<rparr>)))
      else Inl Assert_Failed)"

definition nodeQueueRemoveIfExists :: "tNodeQueue \<Rightarrow> u8 \<Rightarrow> tNodeQueue res" where
  "nodeQueueRemoveIfExists queue nodeId =
     (if numNodes queue > 0 then
        and_then (find_from (\<lambda>x. x = nodeId) (nodeIds queue) 0 (unat (numNodes queue))) (\<lambda>found.
          case found of
            None \<Rightarrow> Inr queue
          | Some i \<Rightarrow>
              and_then (shift_down (nodeIds queue) i (unat (numNodes queue) - 1 - i)) (\<lambda>ids.
                let n = numNodes queue - 1 in
                Inr (queue\<lparr>nodeIds := ids, numNodes := n,
                  lastIndex := (if lastIndex queue \<ge> n then 0 else lastIndex queue)\<rparr>)))
      else Inr queue)"

definition nodeQueueRemove :: "tNodeQueue \<Rightarrow> u8 \<Rightarrow> tNodeQueue res" where
  "nodeQueueRemove queue nodeId =
     and_then (microbusAssert (numNodes queue > 0)) (\<lambda>_.
     and_then (nodeQueueRemoveIfExists queue nodeId) (\<lambda>queue'.
     and_then (microbusAssert (unat (numNodes queue) = unat (numNodes queue') + 1)) (\<lambda>_.
     Inr queue')))"

definition queueReachedEnd :: "tNodeQueue \<Rightarrow> bool" where
  "queueReachedEnd queue \<longleftrightarrow> unat (lastIndex queue) + 1 \<ge> unat (numNodes queue)"

definition getNextNodeInQueue :: "tNodeQueue \<Rightarrow> (u8 \<times> tNodeQueue) res" where
  "getNextNodeInQueue queue =
     and_then (rd (nodeIds queue) (unat (lastIndex queue))) (\<lambda>node.
       let i = lastIndex queue + 1 in
       Inr (node, queue\<lparr>lastIndex := (if i \<ge> numNodes queue then 0 else i)\<rparr>))"

section \<open>Invariant and abstraction\<close>

definition queue_ids :: "tNodeQueue \<Rightarrow> u8 list" where
  "queue_ids q = take (unat (numNodes q)) (nodeIds q)"

definition wf_queue :: "tNodeQueue \<Rightarrow> bool" where
  "wf_queue q \<longleftrightarrow> length (nodeIds q) = MAX_NODES \<and> unat (numNodes q) \<le> MAX_NODES \<and>
     distinct (queue_ids q) \<and> (lastIndex q < numNodes q \<or> lastIndex q = 0)"

lemma length_queue_ids [simp]: "wf_queue q \<Longrightarrow> length (queue_ids q) = unat (numNodes q)"
  by (simp add: wf_queue_def queue_ids_def)

lemma wf_zero_queue [simp]: "wf_queue zero_queue" "queue_ids zero_queue = []"
  by (simp_all add: wf_queue_def zero_queue_def queue_ids_def)

lemma queue_find:
  "wf_queue q \<Longrightarrow> find_from (\<lambda>x. x = nodeId) (nodeIds q) 0 (unat (numNodes q))
     = Inr (find_index (\<lambda>x. x = nodeId) (queue_ids q))"
  by (simp add: find_from_0 wf_queue_def queue_ids_def)

lemma nodeQueueAdd_spec:
  assumes wf: "wf_queue q" and room: "unat (numNodes q) < MAX_NODES"
  shows "\<exists>q'. nodeQueueAdd q x = Inr (True, q') \<and> wf_queue q' \<and> lastIndex q' = lastIndex q \<and>
    queue_ids q' = (if x \<in> set (queue_ids q) then queue_ids q else queue_ids q @ [x])"
proof (cases "find_index (\<lambda>y. y = x) (queue_ids q)")
  case None
  then have x: "x \<notin> set (queue_ids q)" by (auto simp: find_index_None_iff)
  let ?q = "q\<lparr>nodeIds := (nodeIds q)[unat (numNodes q) := x], numNodes := numNodes q + 1\<rparr>"
  have n: "unat (numNodes q + 1) = Suc (unat (numNodes q))"
    using room by (simp add: unat_u8_inc)
  have ids: "queue_ids ?q = queue_ids q @ [x]"
    using wf room by (simp add: queue_ids_def n wf_queue_def take_Suc_conv_app_nth)
  have "wf_queue ?q"
    using wf room x by (auto simp: wf_queue_def ids n u8_simps)
  moreover have "length (nodeIds q) = MAX_NODES" using wf by (simp add: wf_queue_def)
  ultimately show ?thesis
    using wf room x ids by (simp add: nodeQueueAdd_def queue_find None)
next
  case (Some i)
  then have "x \<in> set (queue_ids q)" by (auto dest: find_index_SomeD)
  then show ?thesis
    using wf room by (simp add: nodeQueueAdd_def queue_find Some)
qed

lemma nodeQueueAdd_full: "\<not> unat (numNodes q) < MAX_NODES \<Longrightarrow> nodeQueueAdd q x = Inl Assert_Failed"
  by (simp add: nodeQueueAdd_def)

lemma remove1_at:
  "i < length xs \<Longrightarrow> xs ! i = x \<Longrightarrow> (\<And>j. j < i \<Longrightarrow> xs ! j \<noteq> x) \<Longrightarrow>
   remove1 x xs = take i xs @ drop (Suc i) xs"
proof (induction xs arbitrary: i)
  case Nil
  then show ?case by simp
next
  case (Cons y ys)
  show ?case
  proof (cases i)
    case 0
    with Cons.prems show ?thesis by simp
  next
    case (Suc k)
    have "y \<noteq> x" using Cons.prems(3) [of 0] Suc by simp
    moreover have "remove1 x ys = take k ys @ drop (Suc k) ys"
    proof (rule Cons.IH)
      show "k < length ys" "ys ! k = x" using Cons.prems(1,2) Suc by simp_all
      show "ys ! j \<noteq> x" if "j < k" for j using Cons.prems(3) [of "Suc j"] that Suc by simp
    qed
    ultimately show ?thesis using Suc by simp
  qed
qed

lemma nodeQueueRemoveIfExists_spec:
  assumes wf: "wf_queue q"
  shows "\<exists>q'. nodeQueueRemoveIfExists q x = Inr q' \<and> wf_queue q' \<and>
    queue_ids q' = remove1 x (queue_ids q)"
proof (cases "find_index (\<lambda>y. y = x) (queue_ids q)")
  case None
  then have "x \<notin> set (queue_ids q)" by (auto simp: find_index_None_iff)
  then show ?thesis
    using wf by (simp add: nodeQueueRemoveIfExists_def queue_find None remove1_idem)
next
  case (Some i)
  let ?n = "unat (numNodes q)"
  have i: "i < length (queue_ids q)" "queue_ids q ! i = x" "\<And>j. j < i \<Longrightarrow> queue_ids q ! j \<noteq> x"
    using find_index_SomeD [OF Some] by auto
  then have in_n: "i < ?n" using wf by simp
  then have pos: "numNodes q > 0" and dec: "unat (numNodes q - 1) = ?n - 1"
    by (simp_all add: u8_simps)
  obtain ids where ids: "shift_down (nodeIds q) i (?n - 1 - i) = Inr ids"
    "length ids = length (nodeIds q)"
    "take (?n - 1) ids = take i (nodeIds q) @ drop (Suc i) (take ?n (nodeIds q))"
    using take_shift_down [of i ?n "nodeIds q"] in_n wf by (auto simp: wf_queue_def)
  let ?q = "q\<lparr>nodeIds := ids, numNodes := numNodes q - 1,
     lastIndex := (if lastIndex q \<ge> numNodes q - 1 then 0 else lastIndex q)\<rparr>"
  have abs: "queue_ids ?q = remove1 x (queue_ids q)"
    using remove1_at [OF i] ids(3) in_n by (simp add: queue_ids_def dec min_def)
  have "distinct (queue_ids ?q)" using wf by (simp only: abs wf_queue_def distinct_remove1)
  then have "wf_queue ?q"
    using wf ids(2) by (auto simp: wf_queue_def dec)
  then show ?thesis
    using wf pos abs ids(1) by (simp add: nodeQueueRemoveIfExists_def queue_find Some Let_def)
qed

lemma nodeQueueRemove_member:
  assumes "wf_queue q" and x: "x \<in> set (queue_ids q)"
  shows "\<exists>q'. nodeQueueRemove q x = Inr q' \<and> wf_queue q' \<and> queue_ids q' = remove1 x (queue_ids q)"
proof -
  obtain q' where q': "nodeQueueRemoveIfExists q x = Inr q'" "wf_queue q'"
    "queue_ids q' = remove1 x (queue_ids q)"
    using nodeQueueRemoveIfExists_spec [OF assms(1), of x] by blast
  have pos: "0 < unat (numNodes q)"
    using x length_queue_ids [OF assms(1)] by (metis length_pos_if_in_set)
  have "unat (numNodes q') = unat (numNodes q) - 1"
    using length_queue_ids [OF assms(1)] length_queue_ids [OF q'(2)] q'(3) x
    by (simp add: length_remove1)
  with q' pos show ?thesis by (simp add: nodeQueueRemove_def u8_simps)
qed

text \<open>Removing a node that is not queued fails the second assertion, or the first when empty.\<close>

lemma nodeQueueRemove_absent:
  assumes "wf_queue q" and x: "x \<notin> set (queue_ids q)"
  shows "nodeQueueRemove q x = Inl Assert_Failed"
proof -
  have "find_index (\<lambda>y. y = x) (queue_ids q) = None"
    using x by (auto simp: find_index_None_iff)
  with assms(1) show ?thesis
    by (cases "numNodes q > 0")
      (simp_all add: nodeQueueRemove_def nodeQueueRemoveIfExists_def queue_find)
qed

lemma getNextNodeInQueue_spec:
  assumes wf: "wf_queue q" and ne: "queue_ids q \<noteq> []"
  shows "\<exists>q'. getNextNodeInQueue q = Inr (queue_ids q ! unat (lastIndex q), q') \<and> wf_queue q' \<and>
    queue_ids q' = queue_ids q \<and>
    unat (lastIndex q') = Suc (unat (lastIndex q)) mod length (queue_ids q) \<and>
    nodeIds q' = nodeIds q \<and> numNodes q' = numNodes q"
proof -
  let ?n = "unat (numNodes q)" and ?l = "unat (lastIndex q)"
  let ?q = "q\<lparr>lastIndex := (if lastIndex q + 1 \<ge> numNodes q then 0 else lastIndex q + 1)\<rparr>"
  have pos: "0 < ?n" using ne length_queue_ids [OF wf] by (cases "?n = 0") auto
  have n: "?n \<le> 64" and len: "length (nodeIds q) = 64" using wf by (simp_all add: wf_queue_def)
  have l: "?l < ?n"
    using wf pos by (auto simp: wf_queue_def u8_simps)
  have inc: "unat (lastIndex q + 1) = Suc ?l" using l n by (simp add: unat_u8_inc)
  have "queue_ids ?q = queue_ids q" by (simp add: queue_ids_def)
  moreover have "wf_queue ?q" using wf by (auto simp: wf_queue_def queue_ids_def not_le)
  moreover have "unat (lastIndex ?q) = Suc ?l mod length (queue_ids q)"
    using l wf by (cases "Suc ?l = ?n") (auto simp: u8_simps inc)
  moreover have "nodeIds q ! ?l = queue_ids q ! ?l" using l by (simp add: queue_ids_def)
  ultimately show ?thesis
    using l n len by (simp add: getNextNodeInQueue_def Let_def)
qed

section \<open>The interface of a rotating queue\<close>

text \<open>Calling the round-robin step \<open>k\<close> times and collecting what it hands out.\<close>

fun serve :: "('q \<Rightarrow> ('n \<times> 'q) res) \<Rightarrow> nat \<Rightarrow> 'q \<Rightarrow> ('n list \<times> 'q) res" where
  "serve nxt 0 q = Inr ([], q)"
| "serve nxt (Suc k) q =
     and_then (nxt q) (\<lambda>(n, q'). and_then (serve nxt k q') (\<lambda>(ns, q''). Inr (n # ns, q'')))"

locale rotating_queue =
  fixes ok :: "'q \<Rightarrow> bool" and members :: "'q \<Rightarrow> 'n list" and cursor :: "'q \<Rightarrow> nat"
    and capacity :: nat
    and add :: "'q \<Rightarrow> 'n \<Rightarrow> (bool \<times> 'q) res"
    and discard :: "'q \<Rightarrow> 'n \<Rightarrow> 'q res"
    and nxt :: "'q \<Rightarrow> ('n \<times> 'q) res"
  assumes ok_distinct: "ok q \<Longrightarrow> distinct (members q)"
    and ok_cursor: "ok q \<Longrightarrow> members q \<noteq> [] \<Longrightarrow> cursor q < length (members q)"
    and add_law: "ok q \<Longrightarrow> length (members q) < capacity \<Longrightarrow>
      \<exists>q'. add q x = Inr (True, q') \<and> ok q' \<and> cursor q' = cursor q \<and>
        members q' = (if x \<in> set (members q) then members q else members q @ [x])"
    and discard_law: "ok q \<Longrightarrow>
      \<exists>q'. discard q x = Inr q' \<and> ok q' \<and> members q' = remove1 x (members q)"
    and next_law: "ok q \<Longrightarrow> members q \<noteq> [] \<Longrightarrow>
      \<exists>q'. nxt q = Inr (members q ! cursor q, q') \<and> ok q' \<and> members q' = members q \<and>
        cursor q' = Suc (cursor q) mod length (members q)"
begin

lemma serve_law:
  assumes "ok q" and "members q \<noteq> []"
  shows "\<exists>q'. serve nxt k q = Inr (map (\<lambda>i. members q ! ((cursor q + i) mod length (members q))) [0..<k], q')
    \<and> ok q' \<and> members q' = members q"
  using assms
proof (induction k arbitrary: q)
  case 0
  then show ?case by simp
next
  case (Suc k)
  let ?n = "length (members q)"
  obtain q1 where q1: "nxt q = Inr (members q ! cursor q, q1)" "ok q1" "members q1 = members q"
    "cursor q1 = Suc (cursor q) mod ?n"
    using next_law [OF Suc.prems] by blast
  obtain q2 where q2: "serve nxt k q1 =
      Inr (map (\<lambda>i. members q ! ((cursor q1 + i) mod ?n)) [0..<k], q2)" "ok q2" "members q2 = members q"
    using Suc.IH [OF q1(2)] q1(3) Suc.prems(2) by auto
  have "map (\<lambda>i. members q ! ((cursor q1 + i) mod ?n)) [0..<k]
      = map (\<lambda>i. members q ! ((cursor q + Suc i) mod ?n)) [0..<k]"
    by (simp add: q1(4) mod_add_left_eq)
  moreover have "members q ! cursor q = members q ! ((cursor q + 0) mod ?n)"
    using ok_cursor [OF Suc.prems] by simp
  moreover have "[0..<Suc k] = 0 # map Suc [0..<k]" by (simp add: upt_conv_Cons map_Suc_upt del: upt_Suc)
  ultimately show ?case
    using q1 q2 by (simp add: comp_def)
qed

lemma rotate_members:
  "n = length xs \<Longrightarrow> c < n \<Longrightarrow> map (\<lambda>i. xs ! ((c + i) mod n)) [0..<n] = rotate c xs"
  by (rule nth_equalityI) (simp_all add: nth_rotate)

text \<open>A full round hands out every member exactly once, in queue order from the cursor.\<close>

lemma full_round:
  assumes "ok q" and "members q \<noteq> []"
  shows "\<exists>q'. serve nxt (length (members q)) q = Inr (rotate (cursor q) (members q), q')
    \<and> ok q' \<and> members q' = members q"
  using serve_law [OF assms, of "length (members q)"]
    rotate_members [OF refl ok_cursor [OF assms]] by simp

lemma served_within_round:
  assumes "ok q" and "x \<in> set (members q)"
  shows "\<exists>ns q'. serve nxt (length (members q)) q = Inr (ns, q') \<and> x \<in> set ns \<and> distinct ns"
proof -
  have "members q \<noteq> []" using assms(2) by auto
  then obtain q' where "serve nxt (length (members q)) q = Inr (rotate (cursor q) (members q), q')"
    using full_round [OF assms(1)] by blast
  with assms show ?thesis using ok_distinct by auto
qed

text \<open>Members drawn from a set smaller than the capacity never fill the queue.\<close>

lemma add_never_fails:
  assumes "ok q" and "set (members q) \<subseteq> A" and "finite A" and "card A < capacity"
  shows "\<exists>q'. add q x = Inr (True, q') \<and> ok q' \<and> set (members q') = insert x (set (members q))"
proof -
  have "length (members q) = card (set (members q))"
    using ok_distinct [OF assms(1)] by (simp add: distinct_card)
  then have "length (members q) < capacity"
    using card_mono [OF assms(3,2)] assms(4) by linarith
  from add_law [OF assms(1) this, of x] show ?thesis by (auto split: if_splits)
qed

end

interpretation nodeq: rotating_queue wf_queue queue_ids "\<lambda>q. unat (lastIndex q)" MAX_NODES
  nodeQueueAdd nodeQueueRemoveIfExists getNextNodeInQueue
proof unfold_locales
  fix q :: tNodeQueue and x :: u8
  assume wf: "wf_queue q"
  then show "distinct (queue_ids q)" by (simp add: wf_queue_def)
  show "\<exists>q'. nodeQueueRemoveIfExists q x = Inr q' \<and> wf_queue q' \<and> queue_ids q' = remove1 x (queue_ids q)"
    using wf by (rule nodeQueueRemoveIfExists_spec)
  show "unat (lastIndex q) < length (queue_ids q)" if "queue_ids q \<noteq> []"
  proof -
    have "0 < unat (numNodes q)" using that length_queue_ids [OF wf] by (cases "unat (numNodes q)") auto
    with wf show ?thesis by (auto simp: wf_queue_def queue_ids_def u8_simps)
  qed
  show "\<exists>q'. nodeQueueAdd q x = Inr (True, q') \<and> wf_queue q' \<and>
      unat (lastIndex q') = unat (lastIndex q) \<and>
      queue_ids q' = (if x \<in> set (queue_ids q) then queue_ids q else queue_ids q @ [x])"
    if "length (queue_ids q) < MAX_NODES"
  proof -
    from that wf have "unat (numNodes q) < MAX_NODES" by simp
    from nodeQueueAdd_spec [OF wf this, of x] show ?thesis by auto
  qed
  show "\<exists>q'. getNextNodeInQueue q = Inr (queue_ids q ! unat (lastIndex q), q') \<and> wf_queue q' \<and>
      queue_ids q' = queue_ids q \<and>
      unat (lastIndex q') = Suc (unat (lastIndex q)) mod length (queue_ids q)"
    if "queue_ids q \<noteq> []"
    using getNextNodeInQueue_spec [OF wf that] by auto
qed

section \<open>Properties\<close>

text \<open>
  The calls the modules make on one queue: add and remove-if-present for ids of nodes (1 to
  63), and the round-robin step, which every caller guards with \<open>numNodes > 0\<close>.
\<close>

datatype queue_call = Call_Add u8 | Call_Remove u8 | Call_Next

definition queue_call :: "queue_call \<Rightarrow> tNodeQueue \<Rightarrow> tNodeQueue res" where
  "queue_call c q = (case c of
     Call_Add x \<Rightarrow> and_then (nodeQueueAdd q x) (\<lambda>(_, q'). Inr q')
   | Call_Remove x \<Rightarrow> nodeQueueRemoveIfExists q x
   | Call_Next \<Rightarrow> if numNodes q > 0 then and_then (getNextNodeInQueue q) (\<lambda>(_, q'). Inr q') else Inr q)"

fun set_after :: "queue_call \<Rightarrow> u8 set \<Rightarrow> u8 set" where
  "set_after (Call_Add x) A = insert x A"
| "set_after (Call_Remove x) A = A - {x}"
| "set_after Call_Next A = A"

definition node_id :: "u8 \<Rightarrow> bool" where
  "node_id x \<longleftrightarrow> 1 \<le> unat x \<and> unat x < MAX_NODES"

fun call_ok :: "queue_call \<Rightarrow> bool" where
  "call_ok (Call_Add x) = node_id x"
| "call_ok (Call_Remove x) = True"
| "call_ok Call_Next = True"

lemma node_ids_bounded: "finite {x. node_id x}" "card {x. node_id x} < MAX_NODES"
proof -
  have "unat ` {x. node_id x} \<subseteq> {1..<64}" by (auto simp: node_id_def)
  moreover have inj: "inj_on unat {x. node_id x}" by (auto simp: inj_on_def u8_eq_iff)
  ultimately have "card {x. node_id x} \<le> card {1..<(64 :: nat)}"
    by (metis card_image card_mono finite_atLeastLessThan)
  then show "card {x. node_id x} < MAX_NODES" by simp
  show "finite {x. node_id x}" by simp
qed

lemma queue_ids_empty_iff: "wf_queue q \<Longrightarrow> queue_ids q = [] \<longleftrightarrow> \<not> numNodes q > 0"
  using length_queue_ids [of q] by (metis length_0_conv unat_eq_zero word_gt_0)

lemma queue_call_step:
  assumes "wf_queue q" and "\<forall>x\<in>set (queue_ids q). node_id x" and "call_ok c"
  shows "\<exists>q'. queue_call c q = Inr q' \<and> wf_queue q' \<and> (\<forall>x\<in>set (queue_ids q'). node_id x) \<and>
    set (queue_ids q') = set_after c (set (queue_ids q))"
proof (cases c)
  case (Call_Add x)
  have "set (queue_ids q) \<subseteq> {x. node_id x}" using assms(2) by auto
  from nodeq.add_never_fails [OF assms(1) this node_ids_bounded, of x] Call_Add assms(2,3)
  show ?thesis by (auto simp: queue_call_def)
next
  case (Call_Remove x)
  have "distinct (queue_ids q)" using assms(1) by (simp add: wf_queue_def)
  with nodeq.discard_law [OF assms(1), of x] Call_Remove assms(2) show ?thesis
    by (auto simp: queue_call_def)
next
  case Call_Next
  with assms nodeq.next_law [OF assms(1)] queue_ids_empty_iff [OF assms(1)] show ?thesis
    by (cases "numNodes q > 0") (auto simp: queue_call_def)
qed

text \<open>
  Claim C19. From the empty queue, no sequence of adds, removes and round-robin steps on node
  ids 1 to 63 ever fails an assertion or leaves the array; the queue stays free of duplicates
  with its cursor inside, and holds exactly the ids added and not removed since.
\<close>

theorem queue_calls_total:
  assumes "\<forall>c\<in>set cs. call_ok c"
  shows "\<exists>q. for_each queue_call cs zero_queue = Inr q \<and> wf_queue q \<and>
    set (queue_ids q) = fold set_after cs {}"
proof -
  have "\<exists>q. for_each queue_call cs q0 = Inr q \<and> wf_queue q \<and>
      set (queue_ids q) = fold set_after cs (set (queue_ids q0))"
    if "wf_queue q0" "\<forall>x\<in>set (queue_ids q0). node_id x" for q0
    using assms that
  proof (induction cs arbitrary: q0)
    case Nil
    then show ?case by simp
  next
    case (Cons c cs)
    have "call_ok c" using Cons.prems(1) by simp
    from queue_call_step [OF Cons.prems(2,3) this]
    obtain q1 where q1: "queue_call c q0 = Inr q1" "wf_queue q1" "\<forall>x\<in>set (queue_ids q1). node_id x"
      "set (queue_ids q1) = set_after c (set (queue_ids q0))" by blast
    from Cons.IH [OF _ q1(2,3)] Cons.prems(1) q1(1,4) show ?case by simp
  qed
  from this [of zero_queue] show ?thesis by simp
qed

theorem queue_calls_total_witness:
  "\<exists>q. for_each queue_call [Call_Add 5, Call_Add 7, Call_Add 5, Call_Next, Call_Remove 5] zero_queue = Inr q \<and>
     set (queue_ids q) = {7}"
  using queue_calls_total [of "[Call_Add 5, Call_Add 7, Call_Add 5, Call_Next, Call_Remove 5]"]
  by (auto simp: node_id_def)

text \<open>
  The round robin is fair: as many steps as the queue has members hand out every
  member exactly once, in queue order from the cursor, and leave the members unchanged.
\<close>

lemma queue_round_robin_fair:
  assumes "wf_queue q" and "queue_ids q \<noteq> []"
  shows "\<exists>q'. serve getNextNodeInQueue (unat (numNodes q)) q
      = Inr (rotate (unat (lastIndex q)) (queue_ids q), q') \<and>
    wf_queue q' \<and> queue_ids q' = queue_ids q"
  using nodeq.full_round [OF assms] by (simp add: assms(1))

lemma queue_round_robin_fair_witness:
  "\<exists>q'. serve getNextNodeInQueue 3
      \<lparr>nodeIds = [4, 8, 9] @ replicate 61 0, numNodes = 3, lastIndex = 2\<rparr> = Inr ([9, 4, 8], q')"
proof -
  let ?q = "\<lparr>nodeIds = [4, 8, 9] @ replicate 61 0, numNodes = 3, lastIndex = 2\<rparr>"
  have ids: "queue_ids ?q = [4, 8, 9]" by (simp add: queue_ids_def)
  have "wf_queue ?q" unfolding wf_queue_def ids by simp
  from queue_round_robin_fair [OF this] obtain q' where
    "serve getNextNodeInQueue (unat (numNodes ?q)) ?q = Inr (rotate (unat (lastIndex ?q)) [4, 8, 9], q')"
    unfolding ids by auto
  moreover have "rotate (unat (lastIndex ?q)) [4, 8, 9 :: u8] = [9, 4, 8]"
    by (simp add: rotate_drop_take)
  moreover have "unat (numNodes ?q) = 3" by simp
  ultimately show ?thesis by metis
qed

text \<open>
  \<^verbatim>\<open>nodeQueueRemove\<close> removes the id, keeping the order of the others, when it is
  queued, and stops at an assertion exactly when it is not.
\<close>

theorem queue_strict_remove:
  assumes "wf_queue q"
  shows "if x \<in> set (queue_ids q)
    then \<exists>q'. nodeQueueRemove q x = Inr q' \<and> wf_queue q' \<and> queue_ids q' = remove1 x (queue_ids q)
    else nodeQueueRemove q x = Inl Assert_Failed"
  using nodeQueueRemove_member [OF assms] nodeQueueRemove_absent [OF assms] by simp

theorem queue_strict_remove_witness:
  "nodeQueueRemove zero_queue 3 = Inl Assert_Failed"
  using queue_strict_remove [OF wf_zero_queue(1), of 3] by simp

end
