(* ===== verification/RxManager.thy ===== *)
theory RxManager
  imports Microbus
begin

text \<open>
  The receive buffer of \<^verbatim>\<open>src/src/rxManager.c\<close>: a pool of packet entries and a circular
  queue of pointers into it. A pointer is an index into the pool, \<open>None\<close> the NULL pointer.
  The theory shows that the queue is first-in first-out, that entries are neither leaked nor
  shared, what removing a node's packets does, and exactly when that removal never returns.
\<close>

section \<open>The code\<close>

record tRxPacketManager =
  maxRxPacketEntries :: u8
  rxPacketEntries :: "tPacketEntry list"
  rxPacketQueue :: "nat option list"
  rx_start :: u8
  rx_end :: u8
  rxBufferLevel :: u8

definition set_rx_inUse :: "nat \<Rightarrow> bool \<Rightarrow> tRxPacketManager \<Rightarrow> tRxPacketManager res" where
  "set_rx_inUse p b rpm =
     and_then (rd (rxPacketEntries rpm) p) (\<lambda>e.
       Inr (rpm\<lparr>rxPacketEntries := (rxPacketEntries rpm)[p := e\<lparr>inUse := b\<rparr>]\<rparr>))"

definition findFreeRxPacket :: "tRxPacketManager \<Rightarrow> (nat option \<times> tRxPacketManager) res" where
  "findFreeRxPacket rpm =
     (if CIRCULAR_BUFFER_FULL (rx_start rpm) (rx_end rpm) (maxRxPacketEntries rpm) then Inr (None, rpm)
      else and_then (find_from (\<lambda>e. \<not> inUse e) (rxPacketEntries rpm) 0 (unat (maxRxPacketEntries rpm)))
        (\<lambda>found. case found of
           None \<Rightarrow> Inr (None, rpm)
         | Some i \<Rightarrow> and_then (set_rx_inUse i True rpm) (\<lambda>rpm'. Inr (Some i, rpm'))))"

definition addRxDataPacket :: "tRxPacketManager \<Rightarrow> nat \<Rightarrow> tRxPacketManager res" where
  "addRxDataPacket rpm packetEntry =
     and_then (CIRCULAR_BUFFER_APPEND (rxPacketQueue rpm) (rx_start rpm) (rx_end rpm)
                 (maxRxPacketEntries rpm) (Some packetEntry)) (\<lambda>(q, t).
       let level = CIRCULAR_BUFFER_LENGTH (rx_start rpm) t (maxRxPacketEntries rpm) in
       Inr (rpm\<lparr>rxPacketQueue := q, rx_end := t, rxBufferLevel := max (rxBufferLevel rpm) level\<rparr>))"

text \<open>The body of the removal loop for one queue index.\<close>

definition rxRemoveAt :: "u8 \<Rightarrow> nat \<Rightarrow> tRxPacketManager \<Rightarrow> tRxPacketManager res" where
  "rxRemoveAt nodeId i rpm =
     and_then (rd (rxPacketQueue rpm) i) (\<lambda>entry.
       case entry of
         None \<Rightarrow> Inr rpm
       | Some p \<Rightarrow>
           and_then (rd (rxPacketEntries rpm) p) (\<lambda>e.
             if node_srcNodeId (packet e) = nodeId then
               and_then (set_rx_inUse p False rpm) (\<lambda>rpm'.
                 Inr (rpm'\<lparr>rxPacketQueue := (rxPacketQueue rpm')[i := None]\<rparr>))
             else Inr rpm))"

text \<open>
  \<^verbatim>\<open>for (i = start; i != end; i++) { if (i >= max) i = 0; ... }\<close>: the wrap to 0 is inside the
  body, so the loop may step over its end; \<open>None\<close> is a run that never returns.
\<close>

partial_function (option) rxRemoveLoop ::
    "u8 \<Rightarrow> nat \<Rightarrow> tRxPacketManager \<Rightarrow> tRxPacketManager res option" where
  "rxRemoveLoop nodeId i rpm =
     (if i = unat (rx_end rpm) then Some (Inr rpm)
      else (case rxRemoveAt nodeId (if i \<ge> unat (maxRxPacketEntries rpm) then 0 else i) rpm of
              Inl e \<Rightarrow> Some (Inl e)
            | Inr rpm' \<Rightarrow>
                rxRemoveLoop nodeId (Suc (if i \<ge> unat (maxRxPacketEntries rpm) then 0 else i)) rpm'))"

definition rxManagerRemoveAllPackets :: "tRxPacketManager \<Rightarrow> u8 \<Rightarrow> tRxPacketManager res" where
  "rxManagerRemoveAllPackets rpm nodeId =
     (case rxRemoveLoop nodeId (unat (rx_start rpm)) rpm of None \<Rightarrow> Inl No_Return | Some r \<Rightarrow> r)"

text \<open>\<open>k\<close> counts the iterations that the \<^verbatim>\<open>for\<close> loop still allows.\<close>

fun peekLoop :: "nat \<Rightarrow> tRxPacketManager \<Rightarrow> (nat option \<times> tRxPacketManager) res" where
  "peekLoop 0 rpm = Inl Assert_Failed"
| "peekLoop (Suc k) rpm =
     (if CIRCULAR_BUFFER_EMPTY (rx_start rpm) (rx_end rpm) (maxRxPacketEntries rpm) then Inr (None, rpm)
      else and_then (rd (rxPacketQueue rpm) (unat (rx_start rpm))) (\<lambda>entry.
        case entry of
          None \<Rightarrow>
            and_then (CIRCULAR_BUFFER_POP (rx_start rpm) (rx_end rpm) (maxRxPacketEntries rpm)) (\<lambda>h.
              peekLoop k (rpm\<lparr>rx_start := h\<rparr>))
        | Some p \<Rightarrow> Inr (Some p, rpm)))"

definition peekNextRxDataPacket :: "tRxPacketManager \<Rightarrow> (nat option \<times> tRxPacketManager) res" where
  "peekNextRxDataPacket rpm = peekLoop (unat (maxRxPacketEntries rpm)) rpm"

definition popNextDataPacket :: "tRxPacketManager \<Rightarrow> tRxPacketManager res" where
  "popNextDataPacket rpm =
     (case CIRCULAR_BUFFER_PEEK (rx_start rpm) (rx_end rpm) (maxRxPacketEntries rpm) of
        None \<Rightarrow> Inl Null_Pointer
      | Some cell \<Rightarrow>
          and_then (rd (rxPacketQueue rpm) cell) (\<lambda>entry.
            case entry of
              None \<Rightarrow> Inl Null_Pointer
            | Some p \<Rightarrow>
                and_then (set_rx_inUse p False rpm) (\<lambda>rpm'.
                and_then (CIRCULAR_BUFFER_POP (rx_start rpm') (rx_end rpm') (maxRxPacketEntries rpm')) (\<lambda>h.
                Inr (rpm'\<lparr>rx_start := h\<rparr>)))))"

text \<open>
  \<^verbatim>\<open>rxManagerInit\<close> clears both arrays (\<^verbatim>\<open>memset\<close>) and leaves the indices to the caller's
  own \<^verbatim>\<open>memset\<close> of the enclosing struct.
\<close>

definition rxManagerInit :: "u8 \<Rightarrow> tRxPacketManager \<Rightarrow> tRxPacketManager" where
  "rxManagerInit maxEntries rpm =
     rpm\<lparr>maxRxPacketEntries := maxEntries,
         rxPacketEntries := replicate (unat maxEntries) zero_entry,
         rxPacketQueue := replicate (unat maxEntries) None\<rparr>"

definition zero_rpm :: tRxPacketManager where
  "zero_rpm = \<lparr>maxRxPacketEntries = 0, rxPacketEntries = [], rxPacketQueue = [],
     rx_start = 0, rx_end = 0, rxBufferLevel = 0\<rparr>"

section \<open>Invariant and abstraction\<close>

abbreviation rx_max :: "tRxPacketManager \<Rightarrow> nat" where
  "rx_max rpm \<equiv> unat (maxRxPacketEntries rpm)"

definition rx_count :: "tRxPacketManager \<Rightarrow> nat" where
  "rx_count rpm = (rx_max rpm + unat (rx_end rpm) - unat (rx_start rpm)) mod rx_max rpm"

text \<open>The queue cells between start and end, and the pointers in them that are not NULL.\<close>

definition rx_cells :: "tRxPacketManager \<Rightarrow> nat option list" where
  "rx_cells rpm = ring_list (rxPacketQueue rpm) (unat (rx_start rpm)) (rx_count rpm)"

definition rx_pointers :: "tRxPacketManager \<Rightarrow> nat list" where
  "rx_pointers rpm = somes (rx_cells rpm)"

definition rx_packet :: "tRxPacketManager \<Rightarrow> nat \<Rightarrow> tPacket" where
  "rx_packet rpm p = packet (rxPacketEntries rpm ! p)"

definition rx_contents :: "tRxPacketManager \<Rightarrow> tPacket list" where
  "rx_contents rpm = map (rx_packet rpm) (rx_pointers rpm)"

definition wf_rpm :: "tRxPacketManager \<Rightarrow> bool" where
  "wf_rpm rpm \<longleftrightarrow>
     length (rxPacketEntries rpm) = rx_max rpm \<and> length (rxPacketQueue rpm) = rx_max rpm \<and>
     unat (rx_start rpm) < rx_max rpm \<and> unat (rx_end rpm) < rx_max rpm \<and>
     distinct (rx_pointers rpm) \<and>
     (\<forall>p\<in>set (rx_pointers rpm). inUse (rxPacketEntries rpm ! p)) \<and>
     (\<forall>p. Some p \<in> set (rxPacketQueue rpm) \<longrightarrow> p < rx_max rpm)"

text \<open>
  Ownership: an entry is in use exactly when a queue cell points to it or the driver holds it
  (the entry being received into and the one being processed).
\<close>

definition rx_owned :: "nat set \<Rightarrow> tRxPacketManager \<Rightarrow> bool" where
  "rx_owned held rpm \<longleftrightarrow>
     held \<inter> set (rx_pointers rpm) = {} \<and>
     (\<forall>p<rx_max rpm. inUse (rxPacketEntries rpm ! p) \<longleftrightarrow> p \<in> held \<or> p \<in> set (rx_pointers rpm))"

lemma wf_rpmD:
  assumes "wf_rpm rpm"
  shows "length (rxPacketEntries rpm) = rx_max rpm" "length (rxPacketQueue rpm) = rx_max rpm"
    "unat (rx_start rpm) < rx_max rpm" "unat (rx_end rpm) < rx_max rpm"
    "distinct (rx_pointers rpm)" "0 < rx_max rpm" "rx_count rpm < rx_max rpm"
    "p \<in> set (rx_pointers rpm) \<Longrightarrow> p < rx_max rpm"
    "p \<in> set (rx_pointers rpm) \<Longrightarrow> inUse (rxPacketEntries rpm ! p)"
    "Some p \<in> set (rxPacketQueue rpm) \<Longrightarrow> p < rx_max rpm"
proof -
  have pos: "0 < rx_max rpm" using assms by (auto simp: wf_rpm_def)
  then show "0 < rx_max rpm" "rx_count rpm < rx_max rpm" by (simp_all add: rx_count_def)
  show "p < rx_max rpm" if "p \<in> set (rx_pointers rpm)"
  proof -
    from that have "Some p \<in> set (rx_cells rpm)" by (simp add: rx_pointers_def)
    then obtain i where "rxPacketQueue rpm ! ((unat (rx_start rpm) + i) mod length (rxPacketQueue rpm)) = Some p"
      by (auto simp: rx_cells_def ring_list_def)
    then have "Some p \<in> set (rxPacketQueue rpm)"
      using pos assms by (metis mod_less_divisor nth_mem wf_rpm_def)
    with assms show ?thesis by (simp add: wf_rpm_def)
  qed
qed (use assms in \<open>simp_all add: wf_rpm_def\<close>)

lemma length_rx_cells [simp]: "length (rx_cells rpm) = rx_count rpm"
  by (simp add: rx_cells_def)

lemma rx_full_iff:
  assumes "wf_rpm rpm"
  shows "CIRCULAR_BUFFER_FULL (rx_start rpm) (rx_end rpm) (maxRxPacketEntries rpm)
    \<longleftrightarrow> Suc (rx_count rpm) = rx_max rpm"
proof -
  have "CIRCULAR_BUFFER_FULL (rx_start rpm) (rx_end rpm) (maxRxPacketEntries rpm)
      \<longleftrightarrow> unat (rx_start rpm) = Suc (unat (rx_end rpm)) mod rx_max rpm"
    using assms by (simp add: wf_rpm_def ring_full_iff u8_eq_iff unat_ring_step)
  also have "\<dots> \<longleftrightarrow> Suc (rx_count rpm) = rx_max rpm"
    using assms by (auto simp: wf_rpm_def rx_count_def mod_if split: if_splits)
  finally show ?thesis .
qed

lemma rx_empty_iff:
  assumes "wf_rpm rpm"
  shows "CIRCULAR_BUFFER_EMPTY (rx_start rpm) (rx_end rpm) (maxRxPacketEntries rpm)
    \<longleftrightarrow> rx_count rpm = 0"
  using assms
  by (auto simp: wf_rpm_def rx_count_def CIRCULAR_BUFFER_EMPTY_def mod_if u8_eq_iff split: if_splits)

lemma rx_frame [simp]:
  "rx_count (rpm\<lparr>rxPacketEntries := es\<rparr>) = rx_count rpm"
  "rx_cells (rpm\<lparr>rxPacketEntries := es\<rparr>) = rx_cells rpm"
  "rx_pointers (rpm\<lparr>rxPacketEntries := es\<rparr>) = rx_pointers rpm"
  by (simp_all add: rx_count_def rx_cells_def rx_pointers_def)

section \<open>What the operations do\<close>

subsection \<open>findFreeRxPacket\<close>

lemma findFreeRxPacket_cases:
  assumes wf: "wf_rpm rpm"
  obtains "findFreeRxPacket rpm = Inr (None, rpm)"
      and "Suc (rx_count rpm) = rx_max rpm \<or> (\<forall>p<rx_max rpm. inUse (rxPacketEntries rpm ! p))"
    | i where "findFreeRxPacket rpm = Inr (Some i,
        rpm\<lparr>rxPacketEntries := (rxPacketEntries rpm)[i := (rxPacketEntries rpm ! i)\<lparr>inUse := True\<rparr>]\<rparr>)"
      and "i < rx_max rpm" "\<not> inUse (rxPacketEntries rpm ! i)" "Suc (rx_count rpm) < rx_max rpm"
proof -
  let ?P = "\<lambda>e. \<not> inUse e"
  have len: "length (rxPacketEntries rpm) = rx_max rpm" using wf by (simp add: wf_rpm_def)
  then have find: "find_from ?P (rxPacketEntries rpm) 0 (rx_max rpm)
      = Inr (find_index ?P (rxPacketEntries rpm))"
    by (simp add: find_from_0)
  show thesis
  proof (cases "Suc (rx_count rpm) = rx_max rpm")
    case True
    with wf that(1) show thesis by (simp add: findFreeRxPacket_def rx_full_iff)
  next
    case notfull: False
    show thesis
    proof (cases "find_index ?P (rxPacketEntries rpm)")
      case None
      then have "\<forall>e\<in>set (rxPacketEntries rpm). inUse e" by (simp add: find_index_None_iff)
      then have "\<forall>p<rx_max rpm. inUse (rxPacketEntries rpm ! p)"
        unfolding len [symmetric] by (intro allI impI) (rule bspec, assumption, rule nth_mem)
      with wf None find notfull that(1) show thesis
        by (simp add: findFreeRxPacket_def rx_full_iff)
    next
      case (Some i)
      note i = find_index_SomeD [OF Some]
      show thesis
      proof (rule that(2))
        show "i < rx_max rpm" "\<not> inUse (rxPacketEntries rpm ! i)" using i len by simp_all
        show "Suc (rx_count rpm) < rx_max rpm" using notfull wf_rpmD(7) [OF wf] by simp
        show "findFreeRxPacket rpm = Inr (Some i,
            rpm\<lparr>rxPacketEntries := (rxPacketEntries rpm)[i := (rxPacketEntries rpm ! i)\<lparr>inUse := True\<rparr>]\<rparr>)"
          using i Some find notfull wf by (simp add: findFreeRxPacket_def rx_full_iff set_rx_inUse_def)
      qed
    qed
  qed
qed

lemma wf_rpm_set_inUse:
  assumes "wf_rpm rpm" and "b \<or> p \<notin> set (rx_pointers rpm)"
  shows "wf_rpm (rpm\<lparr>rxPacketEntries := (rxPacketEntries rpm)[p := (rxPacketEntries rpm ! p)\<lparr>inUse := b\<rparr>]\<rparr>)"
  using assms by (auto simp: wf_rpm_def nth_upd)

lemma rx_packet_set_inUse [simp]:
  "rx_packet (rpm\<lparr>rxPacketEntries := (rxPacketEntries rpm)[p := (rxPacketEntries rpm ! p)\<lparr>inUse := b\<rparr>]\<rparr>)
     = rx_packet rpm"
proof
  fix k
  show "rx_packet (rpm\<lparr>rxPacketEntries := (rxPacketEntries rpm)[p := (rxPacketEntries rpm ! p)\<lparr>inUse := b\<rparr>]\<rparr>) k
     = rx_packet rpm k"
    by (cases "p < length (rxPacketEntries rpm)"; cases "k = p")
      (simp_all add: rx_packet_def list_update_beyond)
qed

lemma findFreeRxPacket_spec:
  assumes wf: "wf_rpm rpm" and own: "rx_owned held rpm"
  shows "\<exists>r rpm'. findFreeRxPacket rpm = Inr (r, rpm') \<and> wf_rpm rpm' \<and>
    rx_pointers rpm' = rx_pointers rpm \<and> rx_contents rpm' = rx_contents rpm \<and>
    rx_packet rpm' = rx_packet rpm \<and> rx_max rpm' = rx_max rpm \<and>
    (case r of None \<Rightarrow> rpm' = rpm
     | Some i \<Rightarrow> i < rx_max rpm \<and> i \<notin> held \<and> i \<notin> set (rx_pointers rpm) \<and>
         rx_owned (insert i held) rpm' \<and> Suc (rx_count rpm') < rx_max rpm')"
proof (cases rule: findFreeRxPacket_cases [OF wf])
  case 1
  then show ?thesis using wf by simp
next
  case (2 i)
  have "i \<notin> held" "i \<notin> set (rx_pointers rpm)" using 2 own by (auto simp: rx_owned_def)
  with 2 wf own wf_rpm_set_inUse [OF wf, of True i] show ?thesis
    by (auto simp: rx_owned_def rx_contents_def nth_list_update wf_rpmD(1))
qed

subsection \<open>addRxDataPacket\<close>

lemma rx_cells_add:
  assumes wf: "wf_rpm rpm" and room: "Suc (rx_count rpm) < rx_max rpm"
  shows "rx_cells (rpm\<lparr>rxPacketQueue := (rxPacketQueue rpm)[unat (rx_end rpm) := c],
      rx_end := ring_step (maxRxPacketEntries rpm) (rx_end rpm), rxBufferLevel := l\<rparr>)
    = rx_cells rpm @ [c]"
proof -
  let ?m = "rx_max rpm" and ?s = "unat (rx_start rpm)" and ?e = "unat (rx_end rpm)"
  note wf' = wf_rpmD [OF wf]
  have e: "(?s + rx_count rpm) mod ?m = ?e"
    using ring_distance(1) [of ?s ?m ?e] wf' by (simp add: rx_count_def)
  have "?s \<noteq> Suc ?e mod ?m"
    using room wf' rx_full_iff [OF wf] by (auto simp: ring_full_iff u8_eq_iff unat_ring_step)
  then have "(?m + Suc ?e mod ?m - ?s) mod ?m = Suc (rx_count rpm)"
    unfolding rx_count_def by (intro ring_distance_step wf')
  then show ?thesis
    using ring_list_update [of "rx_count rpm" "rxPacketQueue rpm" ?s c] wf' e
    by (simp add: rx_cells_def rx_count_def unat_ring_step)
qed

lemma addRxDataPacket_spec:
  assumes wf: "wf_rpm rpm" and room: "Suc (rx_count rpm) < rx_max rpm"
    and p: "p < rx_max rpm" "inUse (rxPacketEntries rpm ! p)" "p \<notin> set (rx_pointers rpm)"
  shows "\<exists>rpm'. addRxDataPacket rpm p = Inr rpm' \<and> wf_rpm rpm' \<and>
    rx_cells rpm' = rx_cells rpm @ [Some p] \<and> rx_pointers rpm' = rx_pointers rpm @ [p] \<and>
    rxPacketEntries rpm' = rxPacketEntries rpm \<and> rx_max rpm' = rx_max rpm"
proof -
  note wf' = wf_rpmD [OF wf]
  let ?t = "ring_step (maxRxPacketEntries rpm) (rx_end rpm)"
  let ?l = "max (rxBufferLevel rpm) (CIRCULAR_BUFFER_LENGTH (rx_start rpm) ?t (maxRxPacketEntries rpm))"
  let ?r = "rpm\<lparr>rxPacketQueue := (rxPacketQueue rpm)[unat (rx_end rpm) := Some p],
      rx_end := ?t, rxBufferLevel := ?l\<rparr>"
  have run: "addRxDataPacket rpm p = Inr ?r"
    using wf wf' room rx_full_iff [OF wf]
    by (simp add: addRxDataPacket_def CIRCULAR_BUFFER_APPEND_def Let_def ring_step_def)
  have cells: "rx_cells ?r = rx_cells rpm @ [Some p]" by (rule rx_cells_add [OF wf room])
  then have ptrs: "rx_pointers ?r = rx_pointers rpm @ [p]" by (simp add: rx_pointers_def)
  have "wf_rpm ?r"
    using wf p wf' set_update_subset_insert [of "rxPacketQueue rpm" "unat (rx_end rpm)" "Some p"]
    by (auto simp: wf_rpm_def ptrs unat_ring_step)
  with run cells ptrs show ?thesis by simp
qed

lemma addRxDataPacket_full:
  "wf_rpm rpm \<Longrightarrow> Suc (rx_count rpm) = rx_max rpm \<Longrightarrow> addRxDataPacket rpm p = Inl Assert_Failed"
  by (simp add: addRxDataPacket_def CIRCULAR_BUFFER_APPEND_def rx_full_iff)

subsection \<open>Advancing the start: peek and pop\<close>

lemma rx_cells_advance:
  assumes wf: "wf_rpm rpm" and ne: "rx_count rpm \<noteq> 0"
  shows "rx_cells rpm = rxPacketQueue rpm ! unat (rx_start rpm)
      # rx_cells (rpm\<lparr>rx_start := ring_step (maxRxPacketEntries rpm) (rx_start rpm)\<rparr>)"
    and "wf_rpm (rpm\<lparr>rx_start := ring_step (maxRxPacketEntries rpm) (rx_start rpm)\<rparr>)"
proof -
  let ?m = "rx_max rpm" and ?s = "unat (rx_start rpm)" and ?e = "unat (rx_end rpm)"
  let ?r = "rpm\<lparr>rx_start := ring_step (maxRxPacketEntries rpm) (rx_start rpm)\<rparr>"
  note wf' = wf_rpmD [OF wf]
  have start': "unat (rx_start ?r) = Suc ?s mod ?m" using wf' by (simp add: unat_ring_step)
  have "?s \<noteq> ?e" using ne wf' by (auto simp: rx_count_def mod_if)
  then have "rx_count rpm = Suc ((?m + ?e - Suc ?s mod ?m) mod ?m)"
    unfolding rx_count_def by (intro ring_distance_pop wf')
  then have "rx_count rpm = Suc (rx_count ?r)"
    using start' by (simp add: rx_count_def)
  then show cells: "rx_cells rpm = rxPacketQueue rpm ! ?s # rx_cells ?r"
    using wf' start' by (simp add: rx_cells_def ring_list_Cons)
  have sub: "set (rx_pointers ?r) \<subseteq> set (rx_pointers rpm)" "distinct (rx_pointers ?r)"
    using wf'(5) unfolding rx_pointers_def cells
    by (cases "rxPacketQueue rpm ! ?s"; auto)+
  then show "wf_rpm ?r"
    using wf wf' start' by (auto simp: wf_rpm_def)
qed

lemma rx_pop_step:
  assumes "wf_rpm rpm" and "rx_count rpm \<noteq> 0"
  shows "CIRCULAR_BUFFER_POP (rx_start rpm) (rx_end rpm) (maxRxPacketEntries rpm)
      = Inr (ring_step (maxRxPacketEntries rpm) (rx_start rpm))"
  using assms by (simp add: CIRCULAR_BUFFER_POP_def rx_empty_iff ring_step_def)

lemma peekLoop_spec:
  assumes "wf_rpm rpm" and "rx_count rpm < k"
  shows "\<exists>rpm'. peekLoop k rpm = Inr (case rx_pointers rpm of [] \<Rightarrow> None | p # _ \<Rightarrow> Some p, rpm') \<and>
    wf_rpm rpm' \<and> rx_pointers rpm' = rx_pointers rpm \<and> rxPacketEntries rpm' = rxPacketEntries rpm \<and>
    maxRxPacketEntries rpm' = maxRxPacketEntries rpm \<and>
    (rx_pointers rpm \<noteq> [] \<longrightarrow> hd (rx_cells rpm') = Some (hd (rx_pointers rpm)))"
  using assms
proof (induction k arbitrary: rpm)
  case 0
  then show ?case by simp
next
  case (Suc k)
  note wf = wf_rpmD [OF Suc.prems(1)]
  show ?case
  proof (cases "rx_count rpm = 0")
    case True
    then have "rx_pointers rpm = []" by (simp add: rx_pointers_def rx_cells_def)
    with True Suc.prems show ?thesis by (simp add: rx_empty_iff)
  next
    case False
    let ?r = "rpm\<lparr>rx_start := ring_step (maxRxPacketEntries rpm) (rx_start rpm)\<rparr>"
    note adv = rx_cells_advance [OF Suc.prems(1) False]
    show ?thesis
    proof (cases "rxPacketQueue rpm ! unat (rx_start rpm)")
      case None
      then have ptrs: "rx_pointers rpm = rx_pointers ?r" using adv(1) by (simp add: rx_pointers_def)
      have "rx_count ?r < k"
        using Suc.prems(2) arg_cong [OF adv(1), of length] by simp
      from Suc.IH [OF adv(2) this] show ?thesis
        using None False Suc.prems(1) wf ptrs by (simp add: rx_empty_iff rx_pop_step)
    next
      case (Some p)
      then have "rx_pointers rpm = p # rx_pointers ?r" using adv(1) by (simp add: rx_pointers_def)
      moreover have "hd (rx_cells rpm) = Some p" using adv(1) Some by simp
      ultimately show ?thesis
        using Some False Suc.prems(1) wf by (simp add: rx_empty_iff)
    qed
  qed
qed

lemma peekNextRxDataPacket_spec:
  assumes "wf_rpm rpm"
  shows "\<exists>rpm'. peekNextRxDataPacket rpm = Inr (case rx_pointers rpm of [] \<Rightarrow> None | p # _ \<Rightarrow> Some p, rpm') \<and>
    wf_rpm rpm' \<and> rx_pointers rpm' = rx_pointers rpm \<and> rxPacketEntries rpm' = rxPacketEntries rpm \<and>
    maxRxPacketEntries rpm' = maxRxPacketEntries rpm \<and>
    (rx_pointers rpm \<noteq> [] \<longrightarrow> hd (rx_cells rpm') = Some (hd (rx_pointers rpm)))"
  unfolding peekNextRxDataPacket_def
  using assms by (intro peekLoop_spec wf_rpmD)

lemma popNextDataPacket_spec:
  assumes wf: "wf_rpm rpm" and ne: "rx_cells rpm \<noteq> []" and hd: "hd (rx_cells rpm) = Some p"
  shows "\<exists>rpm'. popNextDataPacket rpm = Inr rpm' \<and> wf_rpm rpm' \<and>
    rx_pointers rpm = p # rx_pointers rpm' \<and> rx_cells rpm' = tl (rx_cells rpm) \<and>
    rx_packet rpm' = rx_packet rpm \<and> maxRxPacketEntries rpm' = maxRxPacketEntries rpm \<and>
    rxPacketEntries rpm' = (rxPacketEntries rpm)[p := (rxPacketEntries rpm ! p)\<lparr>inUse := False\<rparr>]"
proof -
  have cnt: "rx_count rpm \<noteq> 0" using ne by (metis length_0_conv length_rx_cells)
  let ?r = "rpm\<lparr>rx_start := ring_step (maxRxPacketEntries rpm) (rx_start rpm)\<rparr>"
  let ?r' = "?r\<lparr>rxPacketEntries := (rxPacketEntries ?r)[p := (rxPacketEntries ?r ! p)\<lparr>inUse := False\<rparr>]\<rparr>"
  note adv = rx_cells_advance [OF wf cnt] and wf' = wf_rpmD [OF wf]
  have cell: "rxPacketQueue rpm ! unat (rx_start rpm) = Some p" using adv(1) hd by simp
  then have ptrs: "rx_pointers rpm = p # rx_pointers ?r" using adv(1) by (simp add: rx_pointers_def)
  then have p: "p < rx_max rpm" and fresh: "p \<notin> set (rx_pointers ?r)"
    using wf'(5) wf'(8) [of p] by simp_all
  have wfr: "wf_rpm ?r'" by (rule wf_rpm_set_inUse) (use adv(2) fresh in simp_all)
  have run: "popNextDataPacket rpm = Inr ?r'"
    using cnt cell p wf' wf rx_pop_step [OF wf cnt]
    by (simp add: popNextDataPacket_def CIRCULAR_BUFFER_PEEK_def rx_empty_iff set_rx_inUse_def)
  have "rx_packet ?r' = rx_packet rpm"
    by (simp add: fun_eq_iff rx_packet_def nth_upd)
  then show ?thesis using run wfr ptrs adv(1) by simp
qed

text \<open>Popping an empty queue, or one whose first packet was removed, dereferences NULL.\<close>

lemma popNextDataPacket_null:
  assumes "wf_rpm rpm" and "rx_cells rpm = [] \<or> hd (rx_cells rpm) = None"
  shows "popNextDataPacket rpm = Inl Null_Pointer"
proof (cases "rx_count rpm = 0")
  case True
  with assms(1) show ?thesis
    by (simp add: popNextDataPacket_def CIRCULAR_BUFFER_PEEK_def rx_empty_iff)
next
  case False
  with assms(2) have "rxPacketQueue rpm ! unat (rx_start rpm) = None"
    using rx_cells_advance(1) [OF assms(1) False] by auto
  with False assms(1) wf_rpmD(2,3) [OF assms(1)] show ?thesis
    by (simp add: popNextDataPacket_def CIRCULAR_BUFFER_PEEK_def rx_empty_iff)
qed

subsection \<open>Removing a node's packets\<close>

definition rx_from :: "u8 \<Rightarrow> tRxPacketManager \<Rightarrow> nat \<Rightarrow> bool" where
  "rx_from nodeId rpm p \<longleftrightarrow> node_srcNodeId (rx_packet rpm p) = nodeId"

lemma somes_upd_None:
  "k < length xs \<Longrightarrow> xs ! k = Some p \<Longrightarrow> distinct (somes xs) \<Longrightarrow>
   somes (xs[k := None]) = filter (\<lambda>q. q \<noteq> p) (somes xs)"
proof -
  assume k: "k < length xs" "xs ! k = Some p" and dist: "distinct (somes xs)"
  have split: "xs = take k xs @ Some p # drop (Suc k) xs" using k by (metis id_take_nth_drop)
  have upd: "xs[k := None] = take k xs @ None # drop (Suc k) xs"
    using k(1) by (simp add: upd_conv_take_nth_drop)
  have eq: "somes xs = somes (take k xs) @ p # somes (drop (Suc k) xs)"
    by (subst split) (simp only: somes_append somes.simps)
  have "distinct (somes (take k xs) @ p # somes (drop (Suc k) xs))"
    using dist unfolding eq .
  then have "p \<notin> set (somes (take k xs))" "p \<notin> set (somes (drop (Suc k) xs))"
    by (simp_all del: set_somes)
  then have "filter (\<lambda>q. q \<noteq> p) (somes (take k xs)) = somes (take k xs)"
    and "filter (\<lambda>q. q \<noteq> p) (somes (drop (Suc k) xs)) = somes (drop (Suc k) xs)"
    unfolding filter_id_conv by blast+
  then show ?thesis unfolding eq upd by simp
qed

lemma rxRemoveAt_other:
  assumes "i < rx_max rpm" and "wf_rpm rpm"
    and "\<And>p. rxPacketQueue rpm ! i = Some p \<Longrightarrow> \<not> rx_from nodeId rpm p"
  shows "rxRemoveAt nodeId i rpm = Inr rpm"
proof (cases "rxPacketQueue rpm ! i")
  case None
  with assms wf_rpmD(2) [OF assms(2)] show ?thesis by (simp add: rxRemoveAt_def)
next
  case (Some p)
  note wf = wf_rpmD [OF assms(2)]
  have "p < rx_max rpm" using Some assms(1) wf(2) by (intro wf(10)) (metis nth_mem)
  with Some assms wf show ?thesis by (simp add: rxRemoveAt_def rx_from_def rx_packet_def)
qed

lemma rxRemoveAt_cell:
  assumes wf: "wf_rpm rpm" and k: "k < rx_count rpm" and c: "rx_cells rpm ! k = Some p"
    and sel: "rx_from nodeId rpm p"
  shows "\<exists>rpm'. rxRemoveAt nodeId ((unat (rx_start rpm) + k) mod rx_max rpm) rpm = Inr rpm' \<and>
    wf_rpm rpm' \<and> rx_cells rpm' = (rx_cells rpm)[k := None] \<and>
    rx_pointers rpm' = filter (\<lambda>q. q \<noteq> p) (rx_pointers rpm) \<and>
    rx_packet rpm' = rx_packet rpm \<and> rx_start rpm' = rx_start rpm \<and> rx_end rpm' = rx_end rpm \<and>
    maxRxPacketEntries rpm' = maxRxPacketEntries rpm \<and>
    rxPacketEntries rpm' = (rxPacketEntries rpm)[p := (rxPacketEntries rpm ! p)\<lparr>inUse := False\<rparr>]"
proof -
  let ?j = "(unat (rx_start rpm) + k) mod rx_max rpm"
  let ?es = "(rxPacketEntries rpm)[p := (rxPacketEntries rpm ! p)\<lparr>inUse := False\<rparr>]"
  let ?q = "(rxPacketQueue rpm)[?j := None]"
  let ?r = "rpm\<lparr>rxPacketEntries := ?es, rxPacketQueue := ?q\<rparr>"
  note wf' = wf_rpmD [OF wf]
  have j: "?j < rx_max rpm" using wf'(6) by simp
  have qj: "rxPacketQueue rpm ! ?j = Some p"
    using c k wf'(2) by (simp add: rx_cells_def nth_ring_list)
  have p: "p < rx_max rpm" using qj j wf'(2) by (intro wf'(10)) (metis nth_mem)
  have cells: "rx_cells ?r = (rx_cells rpm)[k := None]"
    using ring_list_set [OF k, of "rxPacketQueue rpm" "unat (rx_start rpm)" None] wf'(2,7)
    by (simp add: rx_cells_def rx_count_def)
  then have ptrs: "rx_pointers ?r = filter (\<lambda>q. q \<noteq> p) (rx_pointers rpm)"
    using somes_upd_None [of k "rx_cells rpm" p] k c wf'(5) by (simp add: rx_pointers_def)
  have "wf_rpm ?r"
    using wf wf' set_update_subset_insert [of "rxPacketQueue rpm" ?j None]
    by (auto simp: wf_rpm_def ptrs nth_upd)
  moreover have "rxRemoveAt nodeId ?j rpm = Inr ?r"
    using j qj p sel wf' by (simp add: rxRemoveAt_def set_rx_inUse_def rx_from_def rx_packet_def)
  moreover have "rx_packet ?r = rx_packet rpm" by (simp add: fun_eq_iff rx_packet_def nth_upd)
  ultimately show ?thesis using cells ptrs by simp
qed

text \<open>
  The value of the loop variable at the \<open>k\<close>-th test. It meets \<open>end\<close> after \<open>rx_count\<close>
  iterations unless the window ends exactly at the wrap.
\<close>

definition loop_index :: "tRxPacketManager \<Rightarrow> nat \<Rightarrow> nat" where
  "loop_index rpm k = (let i = unat (rx_start rpm) + k in if i \<le> rx_max rpm then i else i - rx_max rpm)"

lemma loop_index_facts:
  assumes wf: "wf_rpm rpm" and noncrit: "rx_end rpm \<noteq> 0 \<or> rx_start rpm = 0" and k: "k \<le> rx_count rpm"
  shows "loop_index rpm k = unat (rx_end rpm) \<longleftrightarrow> k = rx_count rpm"
    and "k < rx_count rpm \<Longrightarrow> (if loop_index rpm k \<ge> rx_max rpm then 0 else loop_index rpm k)
      = (unat (rx_start rpm) + k) mod rx_max rpm"
    and "k < rx_count rpm \<Longrightarrow> Suc (if loop_index rpm k \<ge> rx_max rpm then 0 else loop_index rpm k)
      = loop_index rpm (Suc k)"
proof -
  note wf' = wf_rpmD [OF wf]
  have e: "rx_end rpm \<noteq> 0 \<Longrightarrow> 0 < unat (rx_end rpm)" by (simp add: unat_gt_0)
  have s: "rx_start rpm = 0 \<Longrightarrow> unat (rx_start rpm) = 0" by simp
  show "loop_index rpm k = unat (rx_end rpm) \<longleftrightarrow> k = rx_count rpm"
    using wf'(3,4) noncrit k e s
    by (auto simp: loop_index_def rx_count_def Let_def mod_if split: if_splits)
  show "k < rx_count rpm \<Longrightarrow> (if loop_index rpm k \<ge> rx_max rpm then 0 else loop_index rpm k)
      = (unat (rx_start rpm) + k) mod rx_max rpm"
    using wf'(3,4,7) by (auto simp: loop_index_def Let_def mod_if)
  show "k < rx_count rpm \<Longrightarrow> Suc (if loop_index rpm k \<ge> rx_max rpm then 0 else loop_index rpm k)
      = loop_index rpm (Suc k)"
    using wf'(3,4,7) by (auto simp: loop_index_def Let_def)
qed

lemma rxRemoveLoop_spec:
  assumes "wf_rpm rpm" and "rx_end rpm \<noteq> 0 \<or> rx_start rpm = 0"
    and "k \<le> rx_count rpm" and "\<forall>j<k. \<forall>p. rx_cells rpm ! j = Some p \<longrightarrow> \<not> rx_from nodeId rpm p"
  shows "\<exists>rpm'. rxRemoveLoop nodeId (loop_index rpm k) rpm = Some (Inr rpm') \<and> wf_rpm rpm' \<and>
    rx_pointers rpm' = filter (\<lambda>p. \<not> rx_from nodeId rpm p) (rx_pointers rpm) \<and>
    rx_packet rpm' = rx_packet rpm \<and> maxRxPacketEntries rpm' = maxRxPacketEntries rpm \<and>
    (\<forall>p. inUse (rxPacketEntries rpm' ! p) \<longleftrightarrow>
       inUse (rxPacketEntries rpm ! p) \<and> \<not> (p \<in> set (rx_pointers rpm) \<and> rx_from nodeId rpm p))"
  using assms
proof (induction "rx_count rpm - k" arbitrary: rpm k)
  case 0
  then have k: "k = rx_count rpm" by simp
  have "\<not> rx_from nodeId rpm p" if "p \<in> set (rx_pointers rpm)" for p
  proof -
    from that have "Some p \<in> set (rx_cells rpm)" by (simp add: rx_pointers_def)
    then obtain j where "j < rx_count rpm" "rx_cells rpm ! j = Some p"
      by (metis in_set_conv_nth length_rx_cells)
    with 0 k show ?thesis by blast
  qed
  then have "filter (\<lambda>p. \<not> rx_from nodeId rpm p) (rx_pointers rpm) = rx_pointers rpm"
    and "\<forall>p\<in>set (rx_pointers rpm). \<not> rx_from nodeId rpm p"
    by simp_all
  moreover have "rxRemoveLoop nodeId (loop_index rpm k) rpm = Some (Inr rpm)"
    using loop_index_facts(1) [OF 0(2-4)] k by (simp add: rxRemoveLoop.simps)
  ultimately show ?case using 0(2) by auto
next
  case (Suc n)
  let ?i = "loop_index rpm k" and ?j = "(unat (rx_start rpm) + k) mod rx_max rpm"
  note wf = wf_rpmD [OF Suc.prems(1)]
  have k: "k < rx_count rpm" using Suc(2) by simp
  note idx = loop_index_facts [OF Suc.prems(1-3)]
  have step: "rxRemoveLoop nodeId ?i rpm = (case rxRemoveAt nodeId ?j rpm of
      Inl e \<Rightarrow> Some (Inl e) | Inr rpm' \<Rightarrow> rxRemoveLoop nodeId (loop_index rpm (Suc k)) rpm')"
  proof -
    have "?i \<noteq> unat (rx_end rpm)" using idx(1) k by simp
    moreover have "Suc ?j = loop_index rpm (Suc k)" using idx(3) [OF k] unfolding idx(2) [OF k] .
    ultimately show ?thesis
      by (subst rxRemoveLoop.simps) (simp only: idx(2) [OF k] if_False)
  qed
  show ?case
  proof (cases "\<exists>p. rx_cells rpm ! k = Some p \<and> rx_from nodeId rpm p")
    case False
    have j: "?j < rx_max rpm" "rxPacketQueue rpm ! ?j = rx_cells rpm ! k"
      using wf(2,6) k by (simp_all add: rx_cells_def nth_ring_list)
    have "rxRemoveAt nodeId ?j rpm = Inr rpm"
      by (rule rxRemoveAt_other) (use j False Suc.prems(1) in auto)
    moreover have "\<exists>rpm'. rxRemoveLoop nodeId (loop_index rpm (Suc k)) rpm = Some (Inr rpm') \<and> wf_rpm rpm' \<and>
      rx_pointers rpm' = filter (\<lambda>p. \<not> rx_from nodeId rpm p) (rx_pointers rpm) \<and>
      rx_packet rpm' = rx_packet rpm \<and> maxRxPacketEntries rpm' = maxRxPacketEntries rpm \<and>
      (\<forall>p. inUse (rxPacketEntries rpm' ! p) \<longleftrightarrow>
         inUse (rxPacketEntries rpm ! p) \<and> \<not> (p \<in> set (rx_pointers rpm) \<and> rx_from nodeId rpm p))"
      by (rule Suc.hyps(1)) (use Suc(2) Suc.prems k False in \<open>auto simp: less_Suc_eq\<close>)
    ultimately show ?thesis by (simp add: step)
  next
    case True
    then obtain p where p: "rx_cells rpm ! k = Some p" "rx_from nodeId rpm p" by blast
    obtain r where r: "rxRemoveAt nodeId ?j rpm = Inr r" "wf_rpm r"
      "rx_cells r = (rx_cells rpm)[k := None]"
      "rx_pointers r = filter (\<lambda>q. q \<noteq> p) (rx_pointers rpm)" "rx_packet r = rx_packet rpm"
      "rx_start r = rx_start rpm" "rx_end r = rx_end rpm"
      "maxRxPacketEntries r = maxRxPacketEntries rpm"
      "rxPacketEntries r = (rxPacketEntries rpm)[p := (rxPacketEntries rpm ! p)\<lparr>inUse := False\<rparr>]"
      using rxRemoveAt_cell [OF Suc.prems(1) k p] by blast
    have cnt: "rx_count r = rx_count rpm" and li: "loop_index r = loop_index rpm"
      and frm: "rx_from nodeId r = rx_from nodeId rpm"
      using r by (simp_all add: rx_count_def loop_index_def Let_def rx_from_def fun_eq_iff)
    have pin: "p \<in> set (rx_pointers rpm)"
      using p(1) k by (simp add: rx_pointers_def) (metis length_rx_cells nth_mem)
    have before: "\<forall>j<Suc k. \<forall>q. rx_cells r ! j = Some q \<longrightarrow> \<not> rx_from nodeId r q"
      using Suc.prems(4) k by (auto simp: r(3) frm nth_upd less_Suc_eq)
    have "\<exists>rpm'. rxRemoveLoop nodeId (loop_index r (Suc k)) r = Some (Inr rpm') \<and> wf_rpm rpm' \<and>
      rx_pointers rpm' = filter (\<lambda>p. \<not> rx_from nodeId r p) (rx_pointers r) \<and>
      rx_packet rpm' = rx_packet r \<and> maxRxPacketEntries rpm' = maxRxPacketEntries r \<and>
      (\<forall>p. inUse (rxPacketEntries rpm' ! p) \<longleftrightarrow>
         inUse (rxPacketEntries r ! p) \<and> \<not> (p \<in> set (rx_pointers r) \<and> rx_from nodeId r p))"
      by (rule Suc.hyps(1)) (use Suc(2) Suc.prems k r before cnt in auto)
    moreover have "filter (\<lambda>q. \<not> rx_from nodeId rpm q) (rx_pointers r)
        = filter (\<lambda>q. \<not> rx_from nodeId rpm q) (rx_pointers rpm)"
      using p(2) by (simp add: r(4) filter_filter) (metis (mono_tags, lifting) filter_cong)
    moreover have "inUse (rxPacketEntries r ! q) \<and> \<not> (q \<in> set (rx_pointers r) \<and> rx_from nodeId rpm q) \<longleftrightarrow>
        inUse (rxPacketEntries rpm ! q) \<and> \<not> (q \<in> set (rx_pointers rpm) \<and> rx_from nodeId rpm q)" for q
      using p(2) pin wf(1,8) by (auto simp: r(4,9) nth_upd)
    ultimately show ?thesis
      using r by (simp add: step li frm)
  qed
qed

lemma rxManagerRemoveAllPackets_returns:
  assumes wf: "wf_rpm rpm" and noncrit: "rx_end rpm \<noteq> 0 \<or> rx_start rpm = 0" and own: "rx_owned held rpm"
  shows "\<exists>rpm'. rxManagerRemoveAllPackets rpm nodeId = Inr rpm' \<and> wf_rpm rpm' \<and> rx_owned held rpm' \<and>
    rx_contents rpm' = filter (\<lambda>pkt. node_srcNodeId pkt \<noteq> nodeId) (rx_contents rpm) \<and>
    rx_packet rpm' = rx_packet rpm \<and> maxRxPacketEntries rpm' = maxRxPacketEntries rpm"
proof -
  have "loop_index rpm 0 = unat (rx_start rpm)"
    using wf_rpmD(3) [OF wf] by (simp add: loop_index_def Let_def)
  then obtain r where r: "rxRemoveLoop nodeId (unat (rx_start rpm)) rpm = Some (Inr r)" "wf_rpm r"
    "rx_pointers r = filter (\<lambda>p. \<not> rx_from nodeId rpm p) (rx_pointers rpm)"
    "rx_packet r = rx_packet rpm" "maxRxPacketEntries r = maxRxPacketEntries rpm"
    "\<forall>p. inUse (rxPacketEntries r ! p) \<longleftrightarrow>
       inUse (rxPacketEntries rpm ! p) \<and> \<not> (p \<in> set (rx_pointers rpm) \<and> rx_from nodeId rpm p)"
    using rxRemoveLoop_spec [OF wf noncrit, of 0 nodeId] by auto
  have "rx_contents r = filter (\<lambda>pkt. node_srcNodeId pkt \<noteq> nodeId) (rx_contents rpm)"
    by (simp add: rx_contents_def r(3,4) filter_map comp_def rx_from_def)
  moreover have "rx_owned held r"
    using own by (auto simp: rx_owned_def r(3,5,6))
  ultimately show ?thesis using r by (simp add: rxManagerRemoveAllPackets_def)
qed

text \<open>
  With \<open>end = 0\<close> and \<open>start \<noteq> 0\<close> the wrap resets the variable to 0 inside the body and the
  increment takes it past \<open>end\<close>: the test never succeeds.
\<close>

lemma rxRemoveAt_total:
  assumes "i < length (rxPacketQueue rpm)" and "\<forall>p. Some p \<in> set (rxPacketQueue rpm) \<longrightarrow> p < length (rxPacketEntries rpm)"
  shows "\<exists>rpm'. rxRemoveAt nodeId i rpm = Inr rpm' \<and> rx_end rpm' = rx_end rpm \<and>
    maxRxPacketEntries rpm' = maxRxPacketEntries rpm \<and>
    length (rxPacketQueue rpm') = length (rxPacketQueue rpm) \<and>
    length (rxPacketEntries rpm') = length (rxPacketEntries rpm) \<and>
    (\<forall>p. Some p \<in> set (rxPacketQueue rpm') \<longrightarrow> p < length (rxPacketEntries rpm'))"
proof (cases "rxPacketQueue rpm ! i")
  case None
  with assms show ?thesis by (simp add: rxRemoveAt_def)
next
  case (Some p)
  then have "p < length (rxPacketEntries rpm)" using assms by (metis nth_mem)
  with Some assms set_update_subset_insert [of "rxPacketQueue rpm" i None] show ?thesis
    by (auto simp: rxRemoveAt_def set_rx_inUse_def)
qed

definition rx_overrun :: "nat \<Rightarrow> tRxPacketManager \<Rightarrow> bool" where
  "rx_overrun i rpm \<longleftrightarrow> i \<noteq> 0 \<and> rx_end rpm = 0 \<and> 0 < rx_max rpm \<and>
     length (rxPacketQueue rpm) = rx_max rpm \<and>
     (\<forall>p. Some p \<in> set (rxPacketQueue rpm) \<longrightarrow> p < length (rxPacketEntries rpm))"

lemma rxRemoveLoop_diverges:
  assumes "rxRemoveLoop nodeId i rpm = Some r"
  shows "\<not> rx_overrun i rpm"
proof (rule rxRemoveLoop.raw_induct [where P = "\<lambda>nodeId i rpm r. \<not> rx_overrun i rpm", OF _ assms])
  fix loop nodeId i rpm r
  let ?i = "if i \<ge> rx_max rpm then 0 else i"
  assume IH: "\<And>nodeId i rpm r. loop nodeId i rpm = Some r \<Longrightarrow> \<not> rx_overrun i rpm"
    and run: "(if i = unat (rx_end rpm) then Some (Inr rpm)
      else (case rxRemoveAt nodeId ?i rpm of Inl e \<Rightarrow> Some (Inl e)
        | Inr rpm' \<Rightarrow> loop nodeId (Suc ?i) rpm')) = Some r"
  show "\<not> rx_overrun i rpm"
  proof
    assume over: "rx_overrun i rpm"
    then have "?i < length (rxPacketQueue rpm)" by (auto simp: rx_overrun_def)
    moreover have ptrs: "\<forall>p. Some p \<in> set (rxPacketQueue rpm) \<longrightarrow> p < length (rxPacketEntries rpm)"
      using over by (simp add: rx_overrun_def)
    ultimately obtain rpm' where
      r': "rxRemoveAt nodeId ?i rpm = Inr rpm'" "rx_end rpm' = rx_end rpm"
      "maxRxPacketEntries rpm' = maxRxPacketEntries rpm"
      "length (rxPacketQueue rpm') = length (rxPacketQueue rpm)"
      "\<forall>p. Some p \<in> set (rxPacketQueue rpm') \<longrightarrow> p < length (rxPacketEntries rpm')"
      using rxRemoveAt_total [of ?i rpm nodeId] by blast
    have "i \<noteq> unat (rx_end rpm)" using over by (simp add: rx_overrun_def)
    then have "loop nodeId (Suc ?i) rpm' = Some r"
      using run by (simp only: r'(1) if_False sum.case)
    from IH [OF this] over r' show False by (simp add: rx_overrun_def)
  qed
qed

lemma rxManagerRemoveAllPackets_hangs:
  assumes wf: "wf_rpm rpm" and crit: "rx_end rpm = 0" "rx_start rpm \<noteq> 0"
  shows "rxManagerRemoveAllPackets rpm nodeId = Inl No_Return"
proof -
  have "unat (rx_start rpm) \<noteq> 0" using crit(2) by (simp add: unat_eq_zero)
  then have "rx_overrun (unat (rx_start rpm)) rpm"
    using crit(1) wf_rpmD(1,2,6,10) [OF wf] by (simp add: rx_overrun_def)
  then have "rxRemoveLoop nodeId (unat (rx_start rpm)) rpm = None"
    using rxRemoveLoop_diverges by (cases "rxRemoveLoop nodeId (unat (rx_start rpm)) rpm") blast+
  then show ?thesis by (simp add: rxManagerRemoveAllPackets_def)
qed

section \<open>Ownership of the other operations\<close>

lemma addRxDataPacket_owned:
  assumes wf: "wf_rpm rpm" and own: "rx_owned (insert p held) rpm" and p: "p < rx_max rpm" "p \<notin> held"
    and room: "Suc (rx_count rpm) < rx_max rpm"
  shows "\<exists>rpm'. addRxDataPacket rpm p = Inr rpm' \<and> wf_rpm rpm' \<and> rx_owned held rpm' \<and>
    rx_contents rpm' = rx_contents rpm @ [rx_packet rpm p] \<and>
    maxRxPacketEntries rpm' = maxRxPacketEntries rpm \<and> rxPacketEntries rpm' = rxPacketEntries rpm"
proof -
  have "inUse (rxPacketEntries rpm ! p)" "p \<notin> set (rx_pointers rpm)"
    using own p by (auto simp: rx_owned_def)
  with addRxDataPacket_spec [OF wf room p(1)] obtain r where r: "addRxDataPacket rpm p = Inr r" "wf_rpm r"
    "rx_pointers r = rx_pointers rpm @ [p]" "rxPacketEntries r = rxPacketEntries rpm" "rx_max r = rx_max rpm"
    by blast
  have "rx_owned held r"
    using own p by (auto simp: rx_owned_def r(3-5))
  moreover have "rx_contents r = rx_contents rpm @ [rx_packet rpm p]"
    by (simp add: rx_contents_def r(3,4) rx_packet_def)
  ultimately show ?thesis using r by (simp add: u8_eq_iff)
qed

lemma peekNextRxDataPacket_owned:
  assumes wf: "wf_rpm rpm" and own: "rx_owned held rpm"
  shows "\<exists>rpm'. peekNextRxDataPacket rpm = Inr (case rx_pointers rpm of [] \<Rightarrow> None | p # _ \<Rightarrow> Some p, rpm') \<and>
    wf_rpm rpm' \<and> rx_owned held rpm' \<and> rx_contents rpm' = rx_contents rpm \<and>
    rx_packet rpm' = rx_packet rpm \<and>
    (rx_contents rpm \<noteq> [] \<longrightarrow> rx_cells rpm' \<noteq> [] \<and> hd (rx_cells rpm') \<noteq> None)"
proof -
  obtain r where r: "peekNextRxDataPacket rpm = Inr (case rx_pointers rpm of [] \<Rightarrow> None | p # _ \<Rightarrow> Some p, r)"
    "wf_rpm r" "rx_pointers r = rx_pointers rpm" "rxPacketEntries r = rxPacketEntries rpm"
    "maxRxPacketEntries r = maxRxPacketEntries rpm"
    "rx_pointers rpm \<noteq> [] \<longrightarrow> hd (rx_cells r) = Some (hd (rx_pointers rpm))"
    using peekNextRxDataPacket_spec [OF wf] by blast
  have "rx_packet r = rx_packet rpm" by (simp add: fun_eq_iff rx_packet_def r(4))
  moreover have "rx_pointers rpm \<noteq> [] \<Longrightarrow> rx_cells r \<noteq> []"
    using r(3) by (auto simp: rx_pointers_def)
  ultimately show ?thesis
    using r own by (auto simp: rx_owned_def rx_contents_def)
qed

lemma popNextDataPacket_owned:
  assumes wf: "wf_rpm rpm" and own: "rx_owned held rpm"
    and ready: "rx_cells rpm \<noteq> []" "hd (rx_cells rpm) \<noteq> None"
  shows "\<exists>rpm'. popNextDataPacket rpm = Inr rpm' \<and> wf_rpm rpm' \<and> rx_owned held rpm' \<and>
    rx_contents rpm \<noteq> [] \<and> rx_contents rpm' = tl (rx_contents rpm)"
proof -
  obtain p where p: "hd (rx_cells rpm) = Some p" using ready(2) by blast
  obtain r where r: "popNextDataPacket rpm = Inr r" "wf_rpm r" "rx_pointers rpm = p # rx_pointers r"
    "rx_packet r = rx_packet rpm" "maxRxPacketEntries r = maxRxPacketEntries rpm"
    "rxPacketEntries r = (rxPacketEntries rpm)[p := (rxPacketEntries rpm ! p)\<lparr>inUse := False\<rparr>]"
    using popNextDataPacket_spec [OF wf ready(1) p] by blast
  have "p \<notin> set (rx_pointers r)" "p \<notin> held" "p < rx_max rpm"
    using wf_rpmD(5) [OF wf] wf_rpmD(8) [OF wf, of p] own by (auto simp: r(3) rx_owned_def)
  then have "rx_owned held r"
    using own wf_rpmD(1) [OF wf] by (auto simp: rx_owned_def r(3,5,6) nth_upd)
  then show ?thesis using r by (simp add: rx_contents_def)
qed

section \<open>The interface of a receive queue\<close>

text \<open>How the application reads: peek, use the packet, pop.\<close>

definition take_front ::
    "('q \<Rightarrow> ('p option \<times> 'q) res) \<Rightarrow> ('q \<Rightarrow> 'q res) \<Rightarrow> ('q \<Rightarrow> 'p \<Rightarrow> 'm) \<Rightarrow> 'q \<Rightarrow> ('m option \<times> 'q) res" where
  "take_front peek pop val q =
     and_then (peek q) (\<lambda>(r, q1). case r of
         None \<Rightarrow> Inr (None, q1)
       | Some p \<Rightarrow> and_then (pop q1) (\<lambda>q2. Inr (Some (val q1 p), q2)))"

fun drain ::
    "('q \<Rightarrow> ('p option \<times> 'q) res) \<Rightarrow> ('q \<Rightarrow> 'q res) \<Rightarrow> ('q \<Rightarrow> 'p \<Rightarrow> 'm) \<Rightarrow> nat \<Rightarrow> 'q \<Rightarrow> ('m list \<times> 'q) res" where
  "drain peek pop val 0 q = Inr ([], q)"
| "drain peek pop val (Suc n) q =
     and_then (take_front peek pop val q) (\<lambda>(r, q1). case r of
         None \<Rightarrow> Inr ([], q1)
       | Some m \<Rightarrow> and_then (drain peek pop val n q1) (\<lambda>(ms, q2). Inr (m # ms, q2)))"

locale fifo_reader =
  fixes ok :: "'q \<Rightarrow> bool" and contents :: "'q \<Rightarrow> 'm list" and ready :: "'q \<Rightarrow> bool"
    and peek :: "'q \<Rightarrow> ('p option \<times> 'q) res" and pop :: "'q \<Rightarrow> 'q res" and val :: "'q \<Rightarrow> 'p \<Rightarrow> 'm"
  assumes peek_empty: "ok q \<Longrightarrow> contents q = [] \<Longrightarrow>
      \<exists>q'. peek q = Inr (None, q') \<and> ok q' \<and> contents q' = []"
    and peek_front: "ok q \<Longrightarrow> contents q = m # ms \<Longrightarrow>
      \<exists>p q'. peek q = Inr (Some p, q') \<and> ok q' \<and> contents q' = m # ms \<and> ready q' \<and> val q' p = m"
    and pop_front: "ok q \<Longrightarrow> ready q \<Longrightarrow>
      \<exists>q'. pop q = Inr q' \<and> ok q' \<and> contents q' = tl (contents q)"
begin

lemma take_front_law:
  assumes "ok q"
  shows "\<exists>q'. take_front peek pop val q =
      Inr (case contents q of [] \<Rightarrow> None | m # _ \<Rightarrow> Some m, q') \<and> ok q' \<and> contents q' = tl (contents q)"
proof (cases "contents q")
  case Nil
  with peek_empty [OF assms] show ?thesis by (auto simp: take_front_def)
next
  case (Cons m ms)
  from peek_front [OF assms Cons] obtain p q1 where
    q1: "peek q = Inr (Some p, q1)" "ok q1" "contents q1 = m # ms" "ready q1" "val q1 p = m"
    by blast
  from pop_front [OF q1(2,4)] q1 Cons show ?thesis by (auto simp: take_front_def)
qed

lemma drain_law:
  assumes "ok q"
  shows "\<exists>q'. drain peek pop val n q = Inr (take n (contents q), q') \<and> ok q' \<and>
    contents q' = drop n (contents q)"
  using assms
proof (induction n arbitrary: q)
  case 0
  then show ?case by simp
next
  case (Suc n)
  from take_front_law [OF Suc.prems] obtain q1 where
    q1: "take_front peek pop val q = Inr (case contents q of [] \<Rightarrow> None | m # _ \<Rightarrow> Some m, q1)"
    "ok q1" "contents q1 = tl (contents q)" by blast
  from Suc.IH [OF q1(2)] q1 show ?case by (cases "contents q") auto
qed

end

interpretation rxq: fifo_reader "\<lambda>rpm. wf_rpm rpm \<and> rx_owned held rpm" rx_contents
  "\<lambda>rpm. rx_cells rpm \<noteq> [] \<and> hd (rx_cells rpm) \<noteq> None"
  peekNextRxDataPacket popNextDataPacket rx_packet for held
proof (unfold_locales, goal_cases)
  case (1 q)
  then have "rx_pointers q = []" by (simp add: rx_contents_def)
  with 1 peekNextRxDataPacket_owned [of q held] show ?case by auto
next
  case (2 q m ms)
  then obtain p ps where p: "rx_pointers q = p # ps" "rx_packet q p = m" "rx_contents q \<noteq> []"
    by (auto simp: rx_contents_def)
  with 2 peekNextRxDataPacket_owned [of q held] show ?case by auto
next
  case (3 q)
  then show ?case using popNextDataPacket_owned [of q held] by auto
qed

section \<open>Properties\<close>

lemma wf_rxManagerInit:
  assumes "0 < n"
  shows "wf_rpm (rxManagerInit n zero_rpm)" "rx_pointers (rxManagerInit n zero_rpm) = []"
    "rx_owned {} (rxManagerInit n zero_rpm)"
proof -
  have n: "0 < unat n" using assms by (simp add: u8_less_iff)
  have "rx_cells (rxManagerInit n zero_rpm) = []"
    using n by (simp add: rx_cells_def rx_count_def rxManagerInit_def zero_rpm_def)
  then show ptrs: "rx_pointers (rxManagerInit n zero_rpm) = []" by (simp add: rx_pointers_def)
  show "wf_rpm (rxManagerInit n zero_rpm)"
    using n unfolding wf_rpm_def ptrs by (simp add: rxManagerInit_def zero_rpm_def)
  show "rx_owned {} (rxManagerInit n zero_rpm)"
    unfolding rx_owned_def ptrs by (simp add: rxManagerInit_def zero_rpm_def zero_entry_def)
qed

text \<open>The entries in use that no queue cell points to: what the driver holds.\<close>

definition rx_held :: "tRxPacketManager \<Rightarrow> nat set" where
  "rx_held rpm = {p. p < rx_max rpm \<and> inUse (rxPacketEntries rpm ! p) \<and> p \<notin> set (rx_pointers rpm)}"

lemma rx_owned_held: "wf_rpm rpm \<Longrightarrow> rx_owned (rx_held rpm) rpm"
  by (auto simp: rx_owned_def rx_held_def wf_rpmD(9))

text \<open>A buffer whose only packet, from node 7, sits in the last cell, just before the wrap.\<close>

definition rx_demo :: "u8 \<Rightarrow> u8 \<Rightarrow> nat option list \<Rightarrow> tRxPacketManager" where
  "rx_demo s e q = \<lparr>maxRxPacketEntries = 3,
     rxPacketEntries = [\<lparr>inUse = True, packet = set_node_srcNodeId 7 zero_packet\<rparr>, zero_entry,
       \<lparr>inUse = True, packet = set_node_srcNodeId 9 zero_packet\<rparr>],
     rxPacketQueue = q, rx_start = s, rx_end = e, rxBufferLevel = 1\<rparr>"

lemma rx_demo_facts:
  "wf_rpm (rx_demo 2 0 [None, None, Some 0])"
  "wf_rpm (rx_demo 0 2 [Some 0, Some 2, None])"
  "rx_contents (rx_demo 0 2 [Some 0, Some 2, None]) =
     [set_node_srcNodeId 7 zero_packet, set_node_srcNodeId 9 zero_packet]"
  by (auto simp: wf_rpm_def rx_demo_def rx_pointers_def rx_cells_def rx_count_def ring_list_def
      rx_contents_def rx_packet_def upt_rec)

text \<open>
  Claim C17. Removing a node's received packets returns in every well-formed state of the
  buffer except one shape: when the queue ends exactly at the wrap (\<open>end = 0\<close>) and does not
  start there, \<^verbatim>\<open>rxManagerRemoveAllPackets\<close> loops for ever.
\<close>

theorem rx_remove_returns_iff:
  assumes "wf_rpm rpm"
  shows "rxManagerRemoveAllPackets rpm nodeId = Inl No_Return \<longleftrightarrow> rx_end rpm = 0 \<and> rx_start rpm \<noteq> 0"
proof (cases "rx_end rpm = 0 \<and> rx_start rpm \<noteq> 0")
  case True
  then show ?thesis using rxManagerRemoveAllPackets_hangs [OF assms] by simp
next
  case False
  then obtain rpm' where "rxManagerRemoveAllPackets rpm nodeId = Inr rpm'"
    using rxManagerRemoveAllPackets_returns [OF assms _ rx_owned_held [OF assms], of nodeId] by blast
  with False show ?thesis by auto
qed

theorem rx_remove_returns_iff_witness:
  "rxManagerRemoveAllPackets (rx_demo 2 0 [None, None, Some 0]) 7 = Inl No_Return \<and>
   rxManagerRemoveAllPackets (rx_demo 0 2 [Some 0, Some 2, None]) 7 \<noteq> Inl No_Return"
  using rx_remove_returns_iff [OF rx_demo_facts(1), of 7] rx_remove_returns_iff [OF rx_demo_facts(2), of 7]
  by (simp add: rx_demo_def)

text \<open>
  Claim C18. Where it returns, the removal keeps the well-formedness and ownership of the
  buffer, frees exactly the entries of that node's queued packets, and leaves the packets of
  every other node queued in their order.
\<close>

theorem rx_remove_filters:
  assumes "wf_rpm rpm" and "rx_owned held rpm" and "rxManagerRemoveAllPackets rpm nodeId \<noteq> Inl No_Return"
  shows "\<exists>rpm'. rxManagerRemoveAllPackets rpm nodeId = Inr rpm' \<and> wf_rpm rpm' \<and> rx_owned held rpm' \<and>
    rx_contents rpm' = filter (\<lambda>pkt. node_srcNodeId pkt \<noteq> nodeId) (rx_contents rpm)"
proof -
  have "rx_end rpm \<noteq> 0 \<or> rx_start rpm = 0"
    using assms rxManagerRemoveAllPackets_hangs by blast
  from rxManagerRemoveAllPackets_returns [OF assms(1) this assms(2), of nodeId] show ?thesis by blast
qed

theorem rx_remove_filters_witness:
  "\<exists>rpm'. rxManagerRemoveAllPackets (rx_demo 0 2 [Some 0, Some 2, None]) 7 = Inr rpm' \<and>
     rx_contents rpm' = [set_node_srcNodeId 9 zero_packet]"
proof -
  have "rxManagerRemoveAllPackets (rx_demo 0 2 [Some 0, Some 2, None]) 7 \<noteq> Inl No_Return"
    using rxManagerRemoveAllPackets_returns [OF rx_demo_facts(2) _ rx_owned_held [OF rx_demo_facts(2)], of 7]
    by (auto simp: rx_demo_def)
  from rx_remove_filters [OF rx_demo_facts(2) rx_owned_held [OF rx_demo_facts(2)] this] show ?thesis
    by (auto simp: rx_demo_facts(3) node_srcNodeId_def set_node_srcNodeId_def zero_packet_def)
qed

text \<open>
  Reading in the application's way (peek, then pop) hands out the queued packets in
  the order they were received, skips the holes that removed nodes left, never meets the
  assertion at the end of \<^verbatim>\<open>peekNextRxDataPacket\<close>, and frees each entry as it goes.
\<close>

lemma rx_drain_in_order:
  assumes "wf_rpm rpm" and "rx_owned held rpm"
  shows "\<exists>rpm'. drain peekNextRxDataPacket popNextDataPacket rx_packet n rpm
      = Inr (take n (rx_contents rpm), rpm') \<and>
    wf_rpm rpm' \<and> rx_owned held rpm' \<and> rx_contents rpm' = drop n (rx_contents rpm)"
  using rxq.drain_law [of rpm held n] assms by blast

lemma rx_drain_in_order_witness:
  "\<exists>rpm'. drain peekNextRxDataPacket popNextDataPacket rx_packet 5 (rx_demo 0 2 [Some 0, Some 2, None])
     = Inr ([set_node_srcNodeId 7 zero_packet, set_node_srcNodeId 9 zero_packet], rpm') \<and>
     rx_contents rpm' = []"
  using rx_drain_in_order [OF rx_demo_facts(2) rx_owned_held [OF rx_demo_facts(2)], of 5]
  by (auto simp: rx_demo_facts(3))

text \<open>
  A packet the driver hands over is appended behind all queued packets and its entry
  changes hands from the driver to the queue; only when the ring holds one packet less than
  its size does the append stop at its assertion.
\<close>

lemma rx_add_appends:
  assumes "wf_rpm rpm" and "rx_owned (insert p held) rpm" and "p < rx_max rpm" and "p \<notin> held"
  shows "if Suc (rx_count rpm) = rx_max rpm then addRxDataPacket rpm p = Inl Assert_Failed
    else \<exists>rpm'. addRxDataPacket rpm p = Inr rpm' \<and> wf_rpm rpm' \<and> rx_owned held rpm' \<and>
      rx_contents rpm' = rx_contents rpm @ [rx_packet rpm p]"
proof (cases "Suc (rx_count rpm) = rx_max rpm")
  case True
  with addRxDataPacket_full [OF assms(1)] show ?thesis by simp
next
  case False
  with wf_rpmD(7) [OF assms(1)] have "Suc (rx_count rpm) < rx_max rpm" by simp
  with addRxDataPacket_owned [OF assms this] False show ?thesis by auto
qed

lemma rx_add_appends_witness:
  "\<exists>rpm'. addRxDataPacket (rx_demo 2 0 [None, None, Some 0]) 2 = Inr rpm' \<and>
     rx_contents rpm' = rx_contents (rx_demo 2 0 [None, None, Some 0]) @ [set_node_srcNodeId 9 zero_packet]"
proof -
  let ?d = "rx_demo 2 0 [None, None, Some 0]"
  have ptrs: "rx_pointers ?d = [0]"
    by (simp add: rx_demo_def rx_pointers_def rx_cells_def rx_count_def ring_list_def)
  have owned: "rx_owned (insert 2 {}) ?d"
  proof -
    have all3: "(\<forall>p<3. P p) \<longleftrightarrow> P 0 \<and> P 1 \<and> P 2" for P :: "nat \<Rightarrow> bool"
      by (auto simp: numeral_eq_Suc less_Suc_eq)
    have "rx_max ?d = 3" by (simp add: rx_demo_def)
    then show ?thesis
      unfolding rx_owned_def ptrs by (simp add: all3) (simp add: rx_demo_def zero_entry_def)
  qed
  have facts: "(2 :: nat) < rx_max ?d" "Suc (rx_count ?d) \<noteq> rx_max ?d"
    "rx_packet ?d 2 = set_node_srcNodeId 9 zero_packet"
    by (simp_all add: rx_demo_def rx_count_def rx_packet_def)
  from rx_add_appends [OF rx_demo_facts(1) owned facts(1)] facts(2,3) show ?thesis by auto
qed

end
