(* ===== verification/TxManager.thy ===== *)
theory TxManager
  imports NodeQueue
begin

text \<open>
  The transmit side of \<^verbatim>\<open>src/src/txManager.c\<close>: the packet store, the per-destination sliding
  window with retransmission, and the receiver's sequence number check. Pointers into the
  store are indices. The array of destinations has one entry on a node (the master) and
  \<open>MAX_NODES\<close> on the master; the queue \<open>activeTxNodes\<close>, to which the scheduler holds
  a second pointer, is kept here and is \<open>None\<close> (NULL) on a node.
\<close>

section \<open>The packet store\<close>

record tPacketStore =
  entries :: "tPacketEntry list"
  maxEntries :: u8
  numStored :: u32
  numFreed :: u32

definition matchesEntry :: "u8 \<Rightarrow> u8 \<Rightarrow> bool \<Rightarrow> tPacketEntry \<Rightarrow> bool" where
  "matchesEntry dstNodeId seqNum isMaster e \<longleftrightarrow>
     inUse e \<and> (if isMaster then master_dstNodeId (packet e) = dstNodeId else True) \<and>
     txSeqNum (packet e) = seqNum"

definition findPacketEntry :: "tPacketStore \<Rightarrow> u8 \<Rightarrow> u8 \<Rightarrow> bool \<Rightarrow> nat res" where
  "findPacketEntry store dstNodeId seqNum isMaster =
     and_then (find_from (matchesEntry dstNodeId seqNum isMaster) (entries store) 0 (unat (maxEntries store)))
       (\<lambda>found. case found of Some i \<Rightarrow> Inr i | None \<Rightarrow> Inl Assert_Failed)"

definition allocatePacketEntry :: "tPacketStore \<Rightarrow> (nat option \<times> tPacketStore) res" where
  "allocatePacketEntry store =
     and_then (find_from (\<lambda>e. \<not> inUse e) (entries store) 0 (unat (maxEntries store))) (\<lambda>found.
       case found of
         None \<Rightarrow> Inr (None, store)
       | Some i \<Rightarrow> Inr (Some i, store\<lparr>entries := (entries store)[i := (entries store ! i)\<lparr>inUse := True\<rparr>],
           numStored := numStored store + 1\<rparr>))"

definition freePacket :: "tPacketStore \<Rightarrow> u8 \<Rightarrow> u8 \<Rightarrow> bool \<Rightarrow> (bool \<times> tPacketStore) res" where
  "freePacket store dstNodeId seqNum isMaster =
     and_then (findPacketEntry store dstNodeId seqNum isMaster) (\<lambda>i.
       Inr (True, store\<lparr>numFreed := numFreed store + 1,
         entries := (entries store)[i := (entries store ! i)\<lparr>inUse := False\<rparr>]\<rparr>))"

section \<open>The manager\<close>

record tTxManager =
  allocatedPacket :: "nat option"
  packetStore :: tPacketStore
  txSeqNumStart :: "u8 list"
  txSeqNumEnd :: "u8 list"
  txSeqNumNext :: "u8 list"
  txSeqNumPauseCount :: "u8 list"
  rxSeqNum :: "u8 list"
  maxTxNodes :: u8
  maxTxBufferLevel :: u8
  txBufferLevel :: u8
  activeTxNodes :: "tNodeQueue option"
  lastTxQueueIndex :: u8
  lastTxQueueCount :: u8

definition IS_TX_BUFFER_EMPTY :: "tTxManager \<Rightarrow> u8 \<Rightarrow> bool res" where
  "IS_TX_BUFFER_EMPTY m dstNodeId =
     and_then (rd (txSeqNumEnd m) (unat dstNodeId)) (\<lambda>e.
     and_then (rd (txSeqNumStart m) (unat dstNodeId)) (\<lambda>s. Inr (e = s)))"

definition getNumAllBufferedTxPackets :: "tTxManager \<Rightarrow> u8" where
  "getNumAllBufferedTxPackets m =
     of_nat (length (filter inUse (take (unat (maxEntries (packetStore m))) (entries (packetStore m)))))"

definition tx_queue :: "tTxManager \<Rightarrow> tNodeQueue res" where
  "tx_queue m = (case activeTxNodes m of None \<Rightarrow> Inl Null_Pointer | Some q \<Rightarrow> Inr q)"

definition upd_packet :: "nat \<Rightarrow> (tPacket \<Rightarrow> tPacket) \<Rightarrow> tTxManager \<Rightarrow> tTxManager" where
  "upd_packet i f m = m\<lparr>packetStore := (packetStore m)\<lparr>entries := (entries (packetStore m))
     [i := (entries (packetStore m) ! i)\<lparr>packet := f (packet (entries (packetStore m) ! i))\<rparr>]\<rparr>\<rparr>"

text \<open>
  The entry is taken before the two checks that can still refuse it; a refusal does not give
  it back.
\<close>

definition allocateTxPacket :: "tTxManager \<Rightarrow> (nat option \<times> tTxManager) res" where
  "allocateTxPacket m =
     and_then (allocatePacketEntry (packetStore m)) (\<lambda>(r, store).
       case r of
         None \<Rightarrow> Inr (None, m\<lparr>packetStore := store\<rparr>)
       | Some i \<Rightarrow>
           if allocatedPacket m \<noteq> None then Inl Assert_Failed
           else if (case activeTxNodes m of None \<Rightarrow> False | Some q \<Rightarrow> unat (numNodes q) \<ge> MAX_NODES)
             then Inr (None, m\<lparr>packetStore := store\<rparr>)
           else Inr (Some i, m\<lparr>packetStore := store, allocatedPacket := Some i\<rparr>))"

definition masterTxManagerRemoveNode :: "tTxManager \<Rightarrow> u8 \<Rightarrow> u8 \<Rightarrow> (u8 \<times> tTxManager) res" where
  "masterTxManagerRemoveNode m nodeId numTxPacketsFreed =
     and_then (tx_queue m) (\<lambda>q.
     and_then (nodeQueueRemoveIfExists q nodeId) (\<lambda>q'.
       let store = packetStore m;
           k = unat (maxEntries store);
           gone = (\<lambda>e. master_dstNodeId (packet e) = nodeId \<and> inUse e);
           n = length (filter gone (take k (entries store)));
           m1 = m\<lparr>activeTxNodes := Some q',
             packetStore := store\<lparr>
               entries := map (\<lambda>e. if gone e then e\<lparr>inUse := False\<rparr> else e) (take k (entries store))
                 @ drop k (entries store),
               numFreed := numFreed store + of_nat n\<rparr>\<rparr> in
       and_then (wr (txSeqNumStart m1) (unat nodeId) 0) (\<lambda>a.
       and_then (wr (txSeqNumEnd m1) (unat nodeId) 0) (\<lambda>b.
       and_then (wr (txSeqNumNext m1) (unat nodeId) 0) (\<lambda>c.
       and_then (wr (txSeqNumPauseCount m1) (unat nodeId) 0) (\<lambda>d.
       and_then (wr (rxSeqNum m1) (unat nodeId) NULL_SEQUENCE_NUM) (\<lambda>e.
       Inr (numTxPacketsFreed + of_nat n,
         m1\<lparr>txSeqNumStart := a, txSeqNumEnd := b, txSeqNumNext := c, txSeqNumPauseCount := d,
           rxSeqNum := e\<rparr>))))))))"

text \<open>
  \<open>ttl\<close> and \<open>ttl'\<close> are the destination's time to live as read at the start and at the
  end: the timer or interrupt thread may have changed it in between. A node passes NULL and
  never reads it.
\<close>

definition stampPacket :: "bool \<Rightarrow> tPacketType \<Rightarrow> u16 \<Rightarrow> u8 \<Rightarrow> u8 \<Rightarrow> u8 \<Rightarrow> tPacket \<Rightarrow> tPacket" where
  "stampPacket isMaster packetType dataSize srcNodeId dstNodeId seq p =
     (let p' = SET_PACKET_DATA_SIZE dataSize (SET_PROTOCOL_VERSION_AND_PACKET_TYPE packetType p) in
      (if isMaster then set_master_dstNodeId dstNodeId p' else set_node_srcNodeId srcNodeId p')\<lparr>txSeqNum := seq\<rparr>)"

definition submitAllocatedTxPacket ::
    "tTxManager \<Rightarrow> bool \<Rightarrow> u8 \<Rightarrow> u8 \<Rightarrow> u8 \<Rightarrow> u8 \<Rightarrow> tPacketType \<Rightarrow> u16 \<Rightarrow> tTxManager res" where
  "submitAllocatedTxPacket m isMaster ttl ttl' srcNodeId dstNodeId packetType dataSize =
     (if isMaster \<and> ttl \<le> 0 then Inr (m\<lparr>allocatedPacket := None\<rparr>)
      else
        and_then (microbusAssert (unat srcNodeId < MAX_NODES \<and> unat dstNodeId < MAX_NODES)) (\<lambda>_.
        and_then (case allocatedPacket m of None \<Rightarrow> Inl Null_Pointer | Some i \<Rightarrow> Inr i) (\<lambda>i.
        and_then (microbusAssert (isMaster \<or> dstNodeId = 0)) (\<lambda>_.
        and_then (microbusAssert (isMaster \<or> packetType \<noteq> MASTER_DATA_PACKET)) (\<lambda>_.
        and_then (rd (txSeqNumEnd m) (unat dstNodeId)) (\<lambda>seq.
        and_then (rd (txSeqNumStart m) (unat dstNodeId)) (\<lambda>start.
          let m1 = (upd_packet i (stampPacket isMaster packetType dataSize srcNodeId dstNodeId seq) m)
                \<lparr>txSeqNumEnd := (txSeqNumEnd m)[unat dstNodeId := INCR_SEQUENCE_NUM seq]\<rparr>
          in
          and_then
            (if isMaster \<and> seq = start
             then and_then (tx_queue m1) (\<lambda>q.
                  and_then (nodeQueueAdd q dstNodeId) (\<lambda>(added, q').
                  and_then (microbusAssert added) (\<lambda>_. Inr (m1\<lparr>activeTxNodes := Some q'\<rparr>))))
             else Inr m1) (\<lambda>m2.
          let level = INCR_SEQUENCE_NUM seq - start;
              m3 = m2\<lparr>txBufferLevel := level, maxTxBufferLevel := max (maxTxBufferLevel m2) level,
                allocatedPacket := None\<rparr>
          in
          if isMaster \<and> ttl' = 0
          then and_then (masterTxManagerRemoveNode m3 dstNodeId 0) (\<lambda>(_, m4). Inr m4)
          else Inr m3))))))))"

definition getNextTxPacketForNode :: "tTxManager \<Rightarrow> bool \<Rightarrow> u8 \<Rightarrow> (nat option \<times> tTxManager) res" where
  "getNextTxPacketForNode m isMaster dstNodeId =
     and_then (rd (txSeqNumStart m) (unat dstNodeId)) (\<lambda>start.
     and_then (rd (txSeqNumEnd m) (unat dstNodeId)) (\<lambda>end'.
     and_then (rd (txSeqNumNext m) (unat dstNodeId)) (\<lambda>next.
     and_then (rd (txSeqNumPauseCount m) (unat dstNodeId)) (\<lambda>pauseCount.
       if pauseCount > 0 then Inr (None, m)
       else if start = end' then Inr (None, m)
       else
         and_then (microbusAssert (if end' \<ge> start then next \<ge> start \<and> next \<le> end'
                                   else next \<ge> start \<or> next \<le> end')) (\<lambda>_.
         let windowEnd = start + SLIDING_WINDOW_SIZE in
         if next = end' \<or> next = windowEnd
         then Inr (None, m\<lparr>txSeqNumPauseCount := (txSeqNumPauseCount m)[unat dstNodeId := 2]\<rparr>)
         else
           and_then (findPacketEntry (packetStore m) dstNodeId next isMaster) (\<lambda>i.
             Inr (Some i, m\<lparr>txSeqNumNext := (txSeqNumNext m)[unat dstNodeId := INCR_SEQUENCE_NUM next]\<rparr>)))))))"

definition nodeGetNextTxDataPacket :: "tTxManager \<Rightarrow> (nat option \<times> tTxManager) res" where
  "nodeGetNextTxDataPacket m =
     and_then (rd (txSeqNumStart m) (unat MASTER_NODE_ID)) (\<lambda>start.
     and_then (rd (txSeqNumEnd m) (unat MASTER_NODE_ID)) (\<lambda>end'.
       if start = end' then Inr (None, m)
       else
         and_then (getNextTxPacketForNode m False MASTER_NODE_ID) (\<lambda>(r, m1).
           case r of
             None \<Rightarrow> Inr (None, m1)
           | Some i \<Rightarrow>
               and_then (rd (rxSeqNum m1) (unat MASTER_NODE_ID)) (\<lambda>ack.
                 Inr (Some i, upd_packet i (set_node_ackSeqNum ack) m1)))))"

text \<open>
  The \<^verbatim>\<open>do ... while (i != lastQueueIndex && packetEntry == NULL)\<close> scan over the active
  destinations; \<open>k\<close> bounds its iterations (one per queued destination is enough).
\<close>

fun masterScan :: "nat \<Rightarrow> tNodeQueue \<Rightarrow> nat \<Rightarrow> nat \<Rightarrow> tTxManager \<Rightarrow> (nat option \<times> nat \<times> tTxManager) res" where
  "masterScan 0 q lastIdx i m = Inl No_Return"
| "masterScan (Suc k) q lastIdx i m =
     (let i' = (if Suc i \<ge> unat (numNodes q) then 0 else Suc i) in
      and_then (rd (nodeIds q) i') (\<lambda>dstNodeId.
      and_then (getNextTxPacketForNode m True dstNodeId) (\<lambda>(r, m').
        if i' \<noteq> lastIdx \<and> r = None then masterScan k q lastIdx i' m' else Inr (r, i', m'))))"

definition masterGetNextTxDataPacket :: "tTxManager \<Rightarrow> u8 \<Rightarrow> (nat option \<times> tTxManager) res" where
  "masterGetNextTxDataPacket m burstSize =
     and_then (tx_queue m) (\<lambda>q.
       if numNodes q = 0 then Inr (None, m)
       else
         let lastIdx = (if lastTxQueueIndex m \<ge> numNodes q then unat (numNodes q) - 1
                     else unat (lastTxQueueIndex m)) in
         and_then
           (if burstSize > 1 \<and> lastTxQueueCount m < burstSize
            then and_then (rd (nodeIds q) lastIdx) (\<lambda>dstNodeId. getNextTxPacketForNode m True dstNodeId)
            else Inr (None, m)) (\<lambda>(r, m1).
         case r of
           Some i \<Rightarrow> Inr (Some i, m1\<lparr>lastTxQueueCount := lastTxQueueCount m1 + 1\<rparr>)
         | None \<Rightarrow>
             and_then (masterScan (unat (numNodes q)) q lastIdx lastIdx m1) (\<lambda>(r', i, m2).
               let m3 = m2\<lparr>lastTxQueueIndex := of_nat i\<rparr> in
               case r' of
                 Some p \<Rightarrow> Inr (Some p, m3\<lparr>lastTxQueueCount := 1\<rparr>)
               | None \<Rightarrow> Inr (None, m3))))"

text \<open>
  Freeing the packets from \<open>seqNum\<close> up to and including the acknowledged one. The loop
  stops because \<open>INCR_SEQUENCE_NUM\<close> visits every number below 255.
\<close>

function rxAckLoop :: "u8 \<Rightarrow> u8 \<Rightarrow> bool \<Rightarrow> u8 \<Rightarrow> u8 \<Rightarrow> tTxManager \<Rightarrow> (u8 \<times> tTxManager) res" where
  "rxAckLoop srcNodeId ackSeqNum isMaster seqNum packetsFreed m =
     (let newStart = INCR_SEQUENCE_NUM ackSeqNum in
      if seqNum = newStart then Inr (packetsFreed, m)
      else
        and_then (freePacket (packetStore m) srcNodeId seqNum isMaster) (\<lambda>(valid, store).
        and_then (microbusAssert valid) (\<lambda>_.
        and_then (rd (txSeqNumNext m) (unat srcNodeId)) (\<lambda>next.
          let m1 = m\<lparr>packetStore := store,
                txSeqNumNext := (if seqNum = next then (txSeqNumNext m)[unat srcNodeId := newStart]
                  else txSeqNumNext m)\<rparr> in
          rxAckLoop srcNodeId ackSeqNum isMaster (INCR_SEQUENCE_NUM seqNum) (packetsFreed + 1) m1))))"
  by pat_completeness auto
termination
proof (relation "measure (\<lambda>(src, ack, isM, s, n, m).
    if unat s \<le> unat (INCR_SEQUENCE_NUM ack) then unat (INCR_SEQUENCE_NUM ack) - unat s
    else unat (INCR_SEQUENCE_NUM ack) + 256 - unat s)", goal_cases)
  case 1
  then show ?case by simp
next
  case (2 srcNodeId ack isMaster seqNum n m)
  then have ne: "unat seqNum \<noteq> unat (INCR_SEQUENCE_NUM ack)" by (simp add: u8_eq_iff)
  have lt: "unat (INCR_SEQUENCE_NUM ack) < 255" by (rule INCR_SEQUENCE_NUM_less)
  have inc: "unat (INCR_SEQUENCE_NUM seqNum) =
      (if unat seqNum < 254 then Suc (unat seqNum) else 0)"
  proof (cases "unat seqNum < 255")
    case True
    then show ?thesis by (simp add: unat_INCR_SEQUENCE_NUM)
  next
    case False
    then have "seqNum = 255" using unat_le_255 [of seqNum] by (simp add: u8_eq_iff)
    then show ?thesis by (simp add: INCR_SEQUENCE_NUM_def)
  qed
  show ?case using ne lt unat_le_255 [of seqNum]
    by (auto simp: inc simp del: unat_le_255 unat_lt_256)
qed

declare rxAckLoop.simps [simp del]

definition rxAckSeqNum ::
    "tTxManager \<Rightarrow> u8 \<Rightarrow> u8 \<Rightarrow> bool \<Rightarrow> u64 \<Rightarrow> (u8 \<times> u64 \<times> tTxManager) res" where
  "rxAckSeqNum m srcNodeId ackSeqNum isMaster statsNumTxWindowRestarts =
     (if ackSeqNum = INVALID_SEQUENCE_NUM then Inr (0, statsNumTxWindowRestarts, m)
      else
        and_then (rd (txSeqNumStart m) (unat srcNodeId)) (\<lambda>start.
        and_then (rd (txSeqNumEnd m) (unat srcNodeId)) (\<lambda>end'.
        and_then (rd (txSeqNumPauseCount m) (unat srcNodeId)) (\<lambda>pauseCount.
          let wrapped = end' < start;
              validSeqNum = (if wrapped then ackSeqNum \<ge> start \<or> ackSeqNum < end'
                             else ackSeqNum \<ge> start \<and> ackSeqNum < end') in
          if validSeqNum then
            and_then (rxAckLoop srcNodeId ackSeqNum isMaster start 0 m) (\<lambda>(packetsFreed, m1).
              let newStart = INCR_SEQUENCE_NUM ackSeqNum;
                  m2 = m1\<lparr>txSeqNumStart := (txSeqNumStart m1)[unat srcNodeId := newStart],
                    txSeqNumPauseCount := (txSeqNumPauseCount m1)[unat srcNodeId := 0]\<rparr> in
              if newStart = end' \<and> isMaster then
                and_then (tx_queue m2) (\<lambda>q.
                and_then (nodeQueueRemove q srcNodeId) (\<lambda>q'.
                  Inr (packetsFreed, statsNumTxWindowRestarts, m2\<lparr>activeTxNodes := Some q'\<rparr>)))
              else Inr (packetsFreed, statsNumTxWindowRestarts, m2))
          else if pauseCount > 0 then
            let m1 = m\<lparr>txSeqNumPauseCount := (txSeqNumPauseCount m)[unat srcNodeId := pauseCount - 1]\<rparr> in
            if pauseCount - 1 = 0 then
              Inr (0, statsNumTxWindowRestarts + 1,
                m1\<lparr>txSeqNumNext := (txSeqNumNext m1)[unat srcNodeId := start]\<rparr>)
            else Inr (0, statsNumTxWindowRestarts, m1)
          else Inr (0, statsNumTxWindowRestarts, m)))))"

definition rxPacketCheckAndUpdateSeqNum :: "tTxManager \<Rightarrow> u8 \<Rightarrow> u8 \<Rightarrow> (bool \<times> tTxManager) res" where
  "rxPacketCheckAndUpdateSeqNum m srcNodeId packetTxSeqNum =
     and_then (rd (rxSeqNum m) (unat srcNodeId)) (\<lambda>rx.
       let expectedSeqNum = (if rx = NULL_SEQUENCE_NUM then 0 else INCR_SEQUENCE_NUM rx) in
       if packetTxSeqNum = expectedSeqNum
       then Inr (True, m\<lparr>rxSeqNum := (rxSeqNum m)[unat srcNodeId := packetTxSeqNum]\<rparr>)
       else Inr (False, m))"

definition getNumInTxBuffer :: "tTxManager \<Rightarrow> u8 \<Rightarrow> u8 res" where
  "getNumInTxBuffer m dstNodeId =
     and_then (rd (txSeqNumEnd m) (unat dstNodeId)) (\<lambda>e.
     and_then (rd (txSeqNumStart m) (unat dstNodeId)) (\<lambda>s. Inr (e - s)))"

definition masterTxClearBuffers :: "tTxManager \<Rightarrow> tTxManager" where
  "masterTxClearBuffers m =
     (let store = packetStore m; k = unat (maxEntries store) in
      m\<lparr>packetStore := store\<lparr>
        entries := map (\<lambda>e. e\<lparr>inUse := False\<rparr>) (take k (entries store)) @ drop k (entries store),
        numFreed := numFreed store + of_nat (length (filter inUse (take k (entries store))))\<rparr>\<rparr>)"

definition initTxManager :: "u8 \<Rightarrow> tNodeQueue option \<Rightarrow> u8 \<Rightarrow> tPacketEntry list \<Rightarrow> tTxManager" where
  "initTxManager maxNodes activeNodes maxPacketEntries packetEntries =
     \<lparr>allocatedPacket = None,
      packetStore = \<lparr>entries = map (\<lambda>e. e\<lparr>inUse := False\<rparr>) (take (unat maxPacketEntries) packetEntries)
          @ drop (unat maxPacketEntries) packetEntries,
        maxEntries = maxPacketEntries, numStored = 0, numFreed = 0\<rparr>,
      txSeqNumStart = replicate (unat maxNodes) 0, txSeqNumEnd = replicate (unat maxNodes) 0,
      txSeqNumNext = replicate (unat maxNodes) 0, txSeqNumPauseCount = replicate (unat maxNodes) 0,
      rxSeqNum = replicate (unat maxNodes) NULL_SEQUENCE_NUM,
      maxTxNodes = maxNodes, maxTxBufferLevel = 0, txBufferLevel = 0,
      activeTxNodes = activeNodes, lastTxQueueIndex = 0, lastTxQueueCount = 0\<rparr>"

end
