(* ===== verification/TxWindow.thy ===== *)
theory TxWindow
  imports TxManager
begin

text \<open>
  The sliding windows of \<^verbatim>\<open>src/src/txManager.c\<close> as queues: \<open>pending M m d\<close> is the list of
  packets buffered for destination \<open>d\<close>, oldest first, as the code would find them in the
  store. The invariant \<open>tx_core\<close> says that store and sequence numbers agree; each operation
  is shown to keep it and to act on the pending lists as a queue operation.
\<close>

section \<open>Distances between sequence numbers\<close>

definition seq_dist :: "u8 \<Rightarrow> u8 \<Rightarrow> nat" where
  "seq_dist a b = (if unat a \<le> unat b then unat b - unat a else 255 + unat b - unat a)"

lemma seq_of_dist:
  assumes "unat a < 255" and "unat b < 255"
  shows "seq_of (unat a + seq_dist a b) = b" and "seq_dist a b < 255"
  using assms by (auto simp: seq_dist_def u8_eq_iff unat_seq_of mod_if)

lemma seq_dist_seq_of: "unat a < 255 \<Longrightarrow> n < 255 \<Longrightarrow> seq_dist a (seq_of (unat a + n)) = n"
  by (auto simp: seq_dist_def unat_seq_of mod_if)

lemma seq_dist_self [simp]: "seq_dist a a = 0"
  by (simp add: seq_dist_def)

lemma seq_dist_eq_0: "unat a < 255 \<Longrightarrow> unat b < 255 \<Longrightarrow> seq_dist a b = 0 \<longleftrightarrow> a = b"
  by (auto simp: seq_dist_def u8_eq_iff)

lemma seq_dist_inj:
  "unat a < 255 \<Longrightarrow> unat b < 255 \<Longrightarrow> unat c < 255 \<Longrightarrow> seq_dist a b = seq_dist a c \<longleftrightarrow> b = c"
  by (auto simp: seq_dist_def u8_eq_iff split: if_splits)

lemma seq_dist_INCR:
  assumes "unat a < 255" and "unat b < 255" and "seq_dist a b < 254"
  shows "seq_dist a (INCR_SEQUENCE_NUM b) = Suc (seq_dist a b)"
  using assms by (auto simp: seq_dist_def unat_INCR_SEQUENCE_NUM split: if_splits)

lemma seq_dist_INCR_left:
  assumes "unat a < 255" and "unat b < 255" and "a \<noteq> b"
  shows "seq_dist a b = Suc (seq_dist (INCR_SEQUENCE_NUM a) b)"
  using assms by (auto simp: seq_dist_def unat_INCR_SEQUENCE_NUM u8_eq_iff split: if_splits)

lemma INCR_base: "unat a < 255 \<Longrightarrow> seq_of (unat (INCR_SEQUENCE_NUM a) + k) = seq_of (unat a + Suc k)"
  by (auto simp: unat_INCR_SEQUENCE_NUM u8_eq_iff unat_seq_of mod_if)

lemma seq_of_unat_u8: "unat a < 255 \<Longrightarrow> seq_of (unat a) = a"
  by (rule seq_of_surj)

text \<open>The tests of the code, on distances.\<close>

lemma in_window_test:
  assumes "unat s < 255" and "unat e < 255" and "unat a < 255"
  shows "(if e < s then a \<ge> s \<or> a < e else a \<ge> s \<and> a < e) \<longleftrightarrow> seq_dist s a < seq_dist s e"
  using assms by (auto simp: seq_dist_def u8_simps)

lemma next_window_test:
  assumes "unat s < 255" and "unat e < 255" and "unat n < 255" and "seq_dist s n \<le> seq_dist s e"
  shows "if e \<ge> s then n \<ge> s \<and> n \<le> e else n \<ge> s \<or> n \<le> e"
  using assms by (auto simp: seq_dist_def u8_simps split: if_splits)

section \<open>Windows and owned entries\<close>

definition key :: "bool \<Rightarrow> tPacketEntry \<Rightarrow> u8 \<times> u8" where
  "key M e = ((if M then master_dstNodeId (packet e) else MASTER_NODE_ID), txSeqNum (packet e))"

abbreviation es :: "tTxManager \<Rightarrow> tPacketEntry list" where
  "es m \<equiv> entries (packetStore m)"

text \<open>An entry is owned when it holds a submitted packet.\<close>

definition owned :: "tTxManager \<Rightarrow> nat \<Rightarrow> bool" where
  "owned m i \<longleftrightarrow> i < length (es m) \<and> inUse (es m ! i) \<and> allocatedPacket m \<noteq> Some i"

definition dst_ok :: "tTxManager \<Rightarrow> u8 \<Rightarrow> bool" where
  "dst_ok m d \<longleftrightarrow> unat d < length (txSeqNumStart m)"

definition start_of :: "tTxManager \<Rightarrow> u8 \<Rightarrow> u8" where
  "start_of m d = txSeqNumStart m ! unat d"

definition end_of :: "tTxManager \<Rightarrow> u8 \<Rightarrow> u8" where
  "end_of m d = txSeqNumEnd m ! unat d"

definition next_of :: "tTxManager \<Rightarrow> u8 \<Rightarrow> u8" where
  "next_of m d = txSeqNumNext m ! unat d"

definition pause_of :: "tTxManager \<Rightarrow> u8 \<Rightarrow> u8" where
  "pause_of m d = txSeqNumPauseCount m ! unat d"

definition buffered :: "tTxManager \<Rightarrow> u8 \<Rightarrow> nat" where
  "buffered m d = seq_dist (start_of m d) (end_of m d)"

definition sent :: "tTxManager \<Rightarrow> u8 \<Rightarrow> nat" where
  "sent m d = seq_dist (start_of m d) (next_of m d)"

definition slot_seq :: "tTxManager \<Rightarrow> u8 \<Rightarrow> nat \<Rightarrow> u8" where
  "slot_seq m d k = seq_of (unat (start_of m d) + k)"

definition pending :: "bool \<Rightarrow> tTxManager \<Rightarrow> u8 \<Rightarrow> tPacket list" where
  "pending M m d = map (\<lambda>k. case find_index (matchesEntry d (slot_seq m d k) M) (es m) of
      Some i \<Rightarrow> packet (es m ! i) | None \<Rightarrow> zero_packet) [0..<buffered m d]"

subsection \<open>The invariant\<close>

definition tx_shape :: "bool \<Rightarrow> tTxManager \<Rightarrow> bool" where
  "tx_shape M m \<longleftrightarrow> length (es m) = unat (maxEntries (packetStore m)) \<and> length (es m) < 255 \<and>
     (\<forall>e\<in>set (es m). wf_packet (packet e)) \<and>
     length (txSeqNumEnd m) = length (txSeqNumStart m) \<and>
     length (txSeqNumNext m) = length (txSeqNumStart m) \<and>
     length (txSeqNumPauseCount m) = length (txSeqNumStart m) \<and>
     length (rxSeqNum m) = length (txSeqNumStart m) \<and>
     length (txSeqNumStart m) \<le> MAX_NODES \<and> (M \<or> length (txSeqNumStart m) = 1)"

definition tx_windows :: "tTxManager \<Rightarrow> bool" where
  "tx_windows m \<longleftrightarrow> (\<forall>d. dst_ok m d \<longrightarrow> unat (start_of m d) < 255 \<and> unat (end_of m d) < 255 \<and>
     unat (next_of m d) < 255 \<and> sent m d \<le> buffered m d)"

definition tx_stored :: "bool \<Rightarrow> tTxManager \<Rightarrow> bool" where
  "tx_stored M m \<longleftrightarrow>
     (\<forall>i. owned m i \<longrightarrow> (\<exists>d k. dst_ok m d \<and> k < buffered m d \<and> key M (es m ! i) = (d, slot_seq m d k))) \<and>
     (\<forall>d k. dst_ok m d \<longrightarrow> k < buffered m d \<longrightarrow> (\<exists>i. owned m i \<and> key M (es m ! i) = (d, slot_seq m d k)))"

text \<open>
  The code looks a packet up by the first entry in use with its key, so no entry before a
  submitted packet may carry that packet's key, not even a free one (it can be allocated
  again before it is overwritten), and none before the allocated entry may carry the key
  that the next submission will give it.
\<close>

definition tx_first :: "bool \<Rightarrow> tTxManager \<Rightarrow> bool" where
  "tx_first M m \<longleftrightarrow>
     (\<forall>j. owned m j \<longrightarrow> (\<forall>i<j. key M (es m ! i) \<noteq> key M (es m ! j))) \<and>
     (\<forall>a. allocatedPacket m = Some a \<longrightarrow> a < length (es m) \<and> inUse (es m ! a) \<and>
        (\<forall>i<a. \<forall>d. dst_ok m d \<longrightarrow> key M (es m ! i) \<noteq> (d, end_of m d)))"

definition tx_core :: "bool \<Rightarrow> tTxManager \<Rightarrow> bool" where
  "tx_core M m \<longleftrightarrow> tx_shape M m \<and> tx_windows m \<and> tx_stored M m \<and> tx_first M m"

text \<open>On the master the queue holds exactly the destinations with packets buffered.\<close>

definition tx_queued :: "tTxManager \<Rightarrow> bool" where
  "tx_queued m \<longleftrightarrow> (case activeTxNodes m of None \<Rightarrow> False
     | Some q \<Rightarrow> wf_queue q \<and> set (queue_ids q) = {d. dst_ok m d \<and> 0 < buffered m d} \<and>
         (\<forall>d\<in>set (queue_ids q). node_id d))"

definition tx_inv :: "bool \<Rightarrow> tTxManager \<Rightarrow> bool" where
  "tx_inv M m \<longleftrightarrow> tx_core M m \<and> (M \<longrightarrow> tx_queued m) \<and> (\<not> M \<longrightarrow> activeTxNodes m = None)"

lemmas tx_defs = tx_core_def tx_shape_def tx_windows_def tx_stored_def tx_first_def


section \<open>Looking packets up\<close>

lemma matchesEntry_key:
  "M \<or> d = MASTER_NODE_ID \<Longrightarrow> matchesEntry d s M e \<longleftrightarrow> inUse e \<and> key M e = (d, s)"
  by (auto simp: matchesEntry_def key_def)

lemma tx_core_dst: "tx_core M m \<Longrightarrow> dst_ok m d \<Longrightarrow> M \<or> d = MASTER_NODE_ID"
  by (auto simp: tx_core_def tx_shape_def dst_ok_def u8_eq_iff)

lemma tx_core_len: "tx_core M m \<Longrightarrow> length (es m) = unat (maxEntries (packetStore m))"
  by (simp add: tx_core_def tx_shape_def)

lemma tx_core_window:
  assumes "tx_core M m" and "dst_ok m d"
  shows "unat (start_of m d) < 255" "unat (end_of m d) < 255" "unat (next_of m d) < 255"
    "sent m d \<le> buffered m d" "buffered m d < 255"
    "slot_seq m d (buffered m d) = end_of m d" "slot_seq m d (sent m d) = next_of m d"
    "slot_seq m d 0 = start_of m d"
  using assms by (auto simp: tx_core_def tx_windows_def buffered_def sent_def slot_seq_def
      seq_of_dist seq_of_surj)

lemma slot_seq_inj: "j < 255 \<Longrightarrow> k < 255 \<Longrightarrow> slot_seq m d j = slot_seq m d k \<longleftrightarrow> j = k"
  by (simp add: slot_seq_def seqnum.code_window_eq)

lemma owned_key_inj:
  assumes "tx_core M m" and "owned m i" and "owned m j" and "key M (es m ! i) = key M (es m ! j)"
  shows "i = j"
proof (rule ccontr)
  assume "i \<noteq> j"
  then consider "i < j" | "j < i" by linarith
  then show False
    using assms by cases (unfold tx_core_def tx_first_def, metis+)
qed

lemma find_owned:
  assumes core: "tx_core M m" and o: "owned m i" and d: "dst_ok m d" and k: "key M (es m ! i) = (d, s)"
  shows "find_index (matchesEntry d s M) (es m) = Some i"
proof (rule find_index_SomeI)
  show "i < length (es m)" using o by (simp add: owned_def)
  show "matchesEntry d s M (es m ! i)"
    using o k matchesEntry_key [OF tx_core_dst [OF core d]] by (simp add: owned_def)
  show "\<not> matchesEntry d s M (es m ! j)" if "j < i" for j
    using core o k that matchesEntry_key [OF tx_core_dst [OF core d]]
    by (auto simp: tx_core_def tx_first_def)
qed

lemma findPacketEntry_owned:
  assumes "tx_core M m" and "owned m i" and "dst_ok m d" and "key M (es m ! i) = (d, s)"
  shows "findPacketEntry (packetStore m) d s M = Inr i"
  using find_owned [OF assms] tx_core_len [OF assms(1)]
  by (simp add: findPacketEntry_def find_from_0)

lemma pending_entry:
  assumes core: "tx_core M m" and d: "dst_ok m d" and k: "k < buffered m d"
  obtains i where "owned m i" "key M (es m ! i) = (d, slot_seq m d k)"
    "findPacketEntry (packetStore m) d (slot_seq m d k) M = Inr i"
    "pending M m d ! k = packet (es m ! i)"
proof -
  obtain i where i: "owned m i" "key M (es m ! i) = (d, slot_seq m d k)"
    using core d k unfolding tx_core_def tx_stored_def by blast
  moreover have "pending M m d ! k = packet (es m ! i)"
    using k find_owned [OF core i(1) d i(2)] by (simp add: pending_def)
  ultimately show ?thesis using that findPacketEntry_owned [OF core i(1) d i(2)] by blast
qed

lemma length_pending [simp]: "length (pending M m d) = buffered m d"
  by (simp add: pending_def)

lemma pending_eqI:
  assumes core: "tx_core M m" and d: "dst_ok m d" and len: "length ps = buffered m d"
    and at: "\<And>k. k < buffered m d \<Longrightarrow>
      \<exists>i. owned m i \<and> key M (es m ! i) = (d, slot_seq m d k) \<and> packet (es m ! i) = ps ! k"
  shows "pending M m d = ps"
proof (rule nth_equalityI)
  show "length (pending M m d) = length ps" by (simp add: len)
  fix k assume "k < length (pending M m d)"
  then have k: "k < buffered m d" by simp
  obtain i where i: "owned m i" "key M (es m ! i) = (d, slot_seq m d k)" "packet (es m ! i) = ps ! k"
    using at [OF k] by blast
  show "pending M m d ! k = ps ! k"
    using k i(3) find_owned [OF core i(1) d i(2)] by (simp add: pending_def)
qed

text \<open>The store bounds the windows: every buffered packet has an entry of its own.\<close>

lemma buffered_bound:
  assumes core: "tx_core M m" and d: "dst_ok m d"
  shows "buffered m d + (if allocatedPacket m = None then 0 else 1) \<le> length (es m)"
proof -
  let ?key = "\<lambda>i. key M (es m ! i)"
  let ?I = "{i. owned m i}" and ?W = "(\<lambda>k. (d, slot_seq m d k)) ` {..<buffered m d}"
  let ?A = "{..<length (es m)} - set_option (allocatedPacket m)"
  have "?W \<subseteq> ?key ` ?I"
    using core d unfolding tx_core_def tx_stored_def by (force simp: image_iff)
  moreover have sub: "?I \<subseteq> ?A" by (auto simp: owned_def)
  ultimately have "card ?W \<le> card ?A"
    by (meson card_image_le card_mono finite_Diff finite_imageI finite_lessThan finite_subset le_trans)
  moreover have "card ?W = buffered m d"
    using tx_core_window(5) [OF core d] by (subst card_image) (auto simp: inj_on_def slot_seq_inj)
  moreover have "card ?A + (if allocatedPacket m = None then 0 else 1) = length (es m)"
  proof (cases "allocatedPacket m")
    case (Some a)
    then have "a < length (es m)" using core by (simp add: tx_core_def tx_first_def)
    then show ?thesis using Some by (simp add: card_Diff_singleton)
  qed simp
  ultimately show ?thesis by linarith
qed

subsection \<open>What the invariant depends on\<close>

lemma tx_views_cong:
  assumes "packetStore m' = packetStore m" "allocatedPacket m' = allocatedPacket m"
    "txSeqNumStart m' = txSeqNumStart m" "txSeqNumEnd m' = txSeqNumEnd m"
    "txSeqNumNext m' = txSeqNumNext m"
  shows "owned m' = owned m" "dst_ok m' = dst_ok m" "start_of m' = start_of m"
    "end_of m' = end_of m" "next_of m' = next_of m" "buffered m' = buffered m" "sent m' = sent m"
    "slot_seq m' = slot_seq m" "pending M m' = pending M m"
  using assms by (auto simp: fun_eq_iff owned_def dst_ok_def start_of_def end_of_def next_of_def
      buffered_def sent_def slot_seq_def pending_def split: option.split)

lemma tx_core_cong:
  assumes same: "packetStore m' = packetStore m" "allocatedPacket m' = allocatedPacket m"
    "txSeqNumStart m' = txSeqNumStart m" "txSeqNumEnd m' = txSeqNumEnd m"
    "txSeqNumNext m' = txSeqNumNext m"
    and lens: "length (txSeqNumPauseCount m') = length (txSeqNumPauseCount m)"
    "length (rxSeqNum m') = length (rxSeqNum m)"
  shows "tx_core M m' = tx_core M m"
  using tx_views_cong [OF same] same lens by (simp add: tx_defs)


section \<open>The moves of a window\<close>

text \<open>
  Each operation changes the state by one of four moves: take a free entry, append at the end,
  move the next pointer, release at the start. The lemmas below describe the moves by what
  they change; the operations of the code are shown to be such moves afterwards.
\<close>

lemma nth_upd_u8:
  "unat d < length xs \<Longrightarrow> xs[unat d := v] ! unat (d' :: u8) = (if d' = d then v else xs ! unat d')"
  by (auto simp: nth_list_update u8_eq_iff)

definition set_entry :: "tTxManager \<Rightarrow> nat \<Rightarrow> tPacketEntry \<Rightarrow> tTxManager \<Rightarrow> bool" where
  "set_entry m i e m' \<longleftrightarrow> i < length (es m) \<and> es m' = (es m)[i := e] \<and>
     maxEntries (packetStore m') = maxEntries (packetStore m) \<and> wf_packet (packet e)"

definition same_seqs :: "tTxManager \<Rightarrow> tTxManager \<Rightarrow> bool" where
  "same_seqs m m' \<longleftrightarrow> length (txSeqNumPauseCount m') = length (txSeqNumPauseCount m) \<and>
     length (rxSeqNum m') = length (rxSeqNum m)"

lemma set_entry_shape:
  assumes "tx_shape M m" and "set_entry m i e m'" and "same_seqs m m'"
    and "length (txSeqNumStart m') = length (txSeqNumStart m)"
    and "length (txSeqNumEnd m') = length (txSeqNumEnd m)"
    and "length (txSeqNumNext m') = length (txSeqNumNext m)"
  shows "tx_shape M m'"
  using assms set_update_subset_insert [of "es m" i e]
  by (auto simp: tx_shape_def set_entry_def same_seqs_def)

subsection \<open>Taking a free entry\<close>

lemma take_entry:
  assumes core: "tx_core M m" and none: "allocatedPacket m = None"
    and free: "find_index (\<lambda>e. \<not> inUse e) (es m) = Some a"
    and move: "set_entry m a ((es m ! a)\<lparr>inUse := True\<rparr>) m'" "same_seqs m m'"
    and alloc: "allocatedPacket m' = Some a"
    and same: "txSeqNumStart m' = txSeqNumStart m" "txSeqNumEnd m' = txSeqNumEnd m"
    "txSeqNumNext m' = txSeqNumNext m"
  shows "tx_core M m'" and "\<And>d. dst_ok m d \<Longrightarrow> pending M m' d = pending M m d"
proof -
  have a: "a < length (es m)" "\<not> inUse (es m ! a)" "\<And>j. j < a \<Longrightarrow> inUse (es m ! j)"
    using find_index_SomeD [OF free] by auto
  have views: "dst_ok m' = dst_ok m" "start_of m' = start_of m" "end_of m' = end_of m"
    "next_of m' = next_of m" "buffered m' = buffered m" "sent m' = sent m" "slot_seq m' = slot_seq m"
    using same by (auto simp: fun_eq_iff dst_ok_def start_of_def end_of_def next_of_def
      buffered_def sent_def slot_seq_def)
  have es': "es m' = (es m)[a := (es m ! a)\<lparr>inUse := True\<rparr>]" using move by (simp add: set_entry_def)
  have keys: "key M (es m' ! i) = key M (es m ! i)" and pkts: "packet (es m' ! i) = packet (es m ! i)" for i
    using a by (auto simp: es' nth_list_update key_def)
  have owned: "owned m' i \<longleftrightarrow> owned m i" for i
    using a none by (auto simp: owned_def es' nth_list_update alloc)
  have "tx_shape M m'"
    using core move same by (intro set_entry_shape [OF _ move]) (simp_all add: tx_core_def)
  moreover have "tx_windows m'" using core by (simp add: tx_core_def tx_windows_def views)
  moreover have "tx_stored M m'" using core by (simp add: tx_core_def tx_stored_def views owned keys)
  moreover have "key M (es m ! i) \<noteq> (d, end_of m d)" if i: "i < a" and d: "dst_ok m d" for i d
  proof
    assume eq: "key M (es m ! i) = (d, end_of m d)"
    have "owned m i" using a i none by (simp add: owned_def)
    with core obtain d' k where k: "dst_ok m d'" "k < buffered m d'" "key M (es m ! i) = (d', slot_seq m d' k)"
      unfolding tx_core_def tx_stored_def by blast
    with eq have "slot_seq m d k = slot_seq m d (buffered m d)" "k < buffered m d"
      using tx_core_window(6) [OF core d] by auto
    then show False
      using tx_core_window(5) [OF core d] by (simp add: slot_seq_inj)
  qed
  then have "tx_first M m'"
    using core a es' unfolding tx_core_def tx_first_def views owned keys alloc by force
  ultimately show core': "tx_core M m'" by (simp add: tx_core_def)
  show "pending M m' d = pending M m d" if "dst_ok m d" for d
  proof (rule pending_eqI [OF core'])
    show "dst_ok m' d" "length (pending M m d) = buffered m' d" using that by (simp_all add: views)
    fix k assume "k < buffered m' d"
    then show "\<exists>i. owned m' i \<and> key M (es m' ! i) = (d, slot_seq m' d k) \<and>
        packet (es m' ! i) = pending M m d ! k"
      using pending_entry [OF core that] by (metis views(5,7) owned keys pkts)
  qed
qed

subsection \<open>Appending at the end\<close>

text \<open>
  How the entries of two states differ when one packet has been appended to a window, and when the
  oldest of a window has been released.
\<close>

definition appended :: "bool \<Rightarrow> tTxManager \<Rightarrow> tTxManager \<Rightarrow> u8 \<Rightarrow> nat \<Rightarrow> tPacket \<Rightarrow> bool" where
  "appended M m m' d a p \<longleftrightarrow> dst_ok m' = dst_ok m \<and> slot_seq m' = slot_seq m \<and> dst_ok m d \<and> \<not> owned m a \<and>
     (\<forall>i. owned m' i \<longleftrightarrow> i = a \<or> owned m i) \<and> (\<forall>i. i \<noteq> a \<longrightarrow> es m' ! i = es m ! i) \<and>
     key M (es m' ! a) = (d, slot_seq m d (buffered m d)) \<and> packet (es m' ! a) = p \<and>
     buffered m' d = Suc (buffered m d) \<and> (\<forall>d'. d' \<noteq> d \<longrightarrow> buffered m' d' = buffered m d')"

definition released :: "bool \<Rightarrow> tTxManager \<Rightarrow> tTxManager \<Rightarrow> u8 \<Rightarrow> nat \<Rightarrow> bool" where
  "released M m m' d i \<longleftrightarrow> dst_ok m' = dst_ok m \<and> dst_ok m d \<and> owned m i \<and> key M (es m ! i) = (d, slot_seq m d 0) \<and>
     (\<forall>j. owned m' j \<longleftrightarrow> owned m j \<and> j \<noteq> i) \<and>
     (\<forall>j. key M (es m' ! j) = key M (es m ! j) \<and> packet (es m' ! j) = packet (es m ! j)) \<and>
     (\<forall>k. slot_seq m' d k = slot_seq m d (Suc k)) \<and> (\<forall>d' k. d' \<noteq> d \<longrightarrow> slot_seq m' d' k = slot_seq m d' k) \<and>
     Suc (buffered m' d) = buffered m d \<and> (\<forall>d'. d' \<noteq> d \<longrightarrow> buffered m' d' = buffered m d')"

lemma appended_stored:
  assumes core: "tx_core M m" and app: "appended M m m' d a p"
  shows "tx_stored M m'"
  unfolding tx_stored_def
proof (intro conjI allI impI)
  have st: "\<And>i. owned m i \<Longrightarrow> \<exists>d k. dst_ok m d \<and> k < buffered m d \<and> key M (es m ! i) = (d, slot_seq m d k)"
    using core unfolding tx_core_def tx_stored_def by blast
  fix i assume "owned m' i"
  then consider "i = a" | "owned m i" "i \<noteq> a" using app unfolding appended_def by blast
  then show "\<exists>d k. dst_ok m' d \<and> k < buffered m' d \<and> key M (es m' ! i) = (d, slot_seq m' d k)"
  proof cases
    case 1
    then show ?thesis using app by (intro exI [of _ d] exI [of _ "buffered m d"]) (simp add: appended_def)
  next
    case 2
    then obtain d' k where "dst_ok m d'" "k < buffered m d'" "key M (es m ! i) = (d', slot_seq m d' k)"
      using st by blast
    with 2 app show ?thesis unfolding appended_def by (metis less_SucI)
  qed
next
  fix d' k assume k: "dst_ok m' d'" "k < buffered m' d'"
  show "\<exists>i. owned m' i \<and> key M (es m' ! i) = (d', slot_seq m' d' k)"
  proof (cases "d' = d \<and> k = buffered m d")
    case True
    then show ?thesis using app by (auto simp: appended_def)
  next
    case False
    then have "k < buffered m d'" "dst_ok m d'" using k app by (cases "d' = d"; auto simp: appended_def)+
    then obtain i where "owned m i" "key M (es m ! i) = (d', slot_seq m d' k)"
      using core unfolding tx_core_def tx_stored_def by metis
    with app show ?thesis unfolding appended_def by metis
  qed
qed

lemma appended_first:
  assumes core: "tx_core M m" and app: "appended M m m' d a p" and alloc: "allocatedPacket m' = None"
    and before: "\<And>i. i < a \<Longrightarrow> key M (es m ! i) \<noteq> (d, end_of m d)"
  shows "tx_first M m'"
proof -
  note win = tx_core_window [OF core]
  have d: "dst_ok m d" and keya: "key M (es m' ! a) = (d, slot_seq m d (buffered m d))"
    and keyo: "\<And>i. i \<noteq> a \<Longrightarrow> es m' ! i = es m ! i" using app by (simp_all add: appended_def)
  have "key M (es m' ! i) \<noteq> key M (es m' ! j)" if j: "owned m' j" and i: "i < j" for i j
  proof (cases "j = a")
    case True
    then show ?thesis using before i keya keyo win(6) [OF d] by auto
  next
    case False
    then have oj: "owned m j" using j app by (auto simp: appended_def)
    show ?thesis
    proof (cases "i = a")
      case True
      from core oj obtain d' k where k: "dst_ok m d'" "k < buffered m d'" "key M (es m ! j) = (d', slot_seq m d' k)"
        unfolding tx_core_def tx_stored_def by blast
      then have "key M (es m ! j) \<noteq> (d, slot_seq m d (buffered m d))"
        using win(5) [OF d] slot_seq_inj [of k "buffered m d" m d] by auto
      then show ?thesis using True False keya keyo by auto
    next
      case False': False
      then show ?thesis using core oj i False keyo unfolding tx_core_def tx_first_def by metis
    qed
  qed
  then show ?thesis by (simp add: tx_first_def alloc)
qed

lemma appended_pending:
  assumes core: "tx_core M m" and app: "appended M m m' d a p" and core': "tx_core M m'"
  shows "pending M m' d = pending M m d @ [p]"
    and "dst_ok m d' \<Longrightarrow> d' \<noteq> d \<Longrightarrow> pending M m' d' = pending M m d'"
proof -
  have d: "dst_ok m d" and views: "dst_ok m' = dst_ok m" "slot_seq m' = slot_seq m"
    and buf: "buffered m' d = Suc (buffered m d)" and bufo: "\<And>d'. d' \<noteq> d \<Longrightarrow> buffered m' d' = buffered m d'"
    using app by (simp_all add: appended_def)
  have at: "\<exists>i. owned m' i \<and> key M (es m' ! i) = (d', slot_seq m' d' k) \<and> packet (es m' ! i) = pending M m d' ! k"
    if d': "dst_ok m d'" and k: "k < buffered m d'" for d' k
    using pending_entry [OF core d' k] app unfolding appended_def by metis
  show "pending M m' d = pending M m d @ [p]"
  proof (rule pending_eqI [OF core'])
    show "dst_ok m' d" "length (pending M m d @ [p]) = buffered m' d" using d buf by (simp_all add: views)
    fix k assume "k < buffered m' d"
    then consider "k < buffered m d" | "k = buffered m d" using buf by linarith
    then show "\<exists>i. owned m' i \<and> key M (es m' ! i) = (d, slot_seq m' d k) \<and>
        packet (es m' ! i) = (pending M m d @ [p]) ! k"
      using at [OF d] app by cases (auto simp: nth_append appended_def)
  qed
  show "pending M m' d' = pending M m d'" if "dst_ok m d'" "d' \<noteq> d" for d'
    using that bufo at by (intro pending_eqI [OF core']) (simp_all add: views)
qed

lemma append_entry:
  assumes core: "tx_core M m" and some: "allocatedPacket m = Some a" and d: "dst_ok m d"
    and move: "set_entry m a ((es m ! a)\<lparr>packet := p\<rparr>) m'" "same_seqs m m'"
    and p: "key M ((es m ! a)\<lparr>packet := p\<rparr>) = (d, end_of m d)"
    and alloc: "allocatedPacket m' = None"
    and arrays: "txSeqNumStart m' = txSeqNumStart m" "txSeqNumNext m' = txSeqNumNext m"
    "txSeqNumEnd m' = (txSeqNumEnd m)[unat d := INCR_SEQUENCE_NUM (end_of m d)]"
  shows "tx_core M m'" and "pending M m' d = pending M m d @ [p]"
    and "\<And>d'. dst_ok m d' \<Longrightarrow> d' \<noteq> d \<Longrightarrow> pending M m' d' = pending M m d'"
    and "buffered m' d = Suc (buffered m d)" and "\<And>d'. d' \<noteq> d \<Longrightarrow> buffered m' d' = buffered m d'"
proof -
  have a: "a < length (es m)" "inUse (es m ! a)" and
    before: "\<And>i d'. i < a \<Longrightarrow> dst_ok m d' \<Longrightarrow> key M (es m ! i) \<noteq> (d', end_of m d')"
    using core some by (auto simp: tx_core_def tx_first_def)
  note win = tx_core_window [OF core]
  have room: "buffered m d < 254"
    using buffered_bound [OF core d] some core by (simp add: tx_core_def tx_shape_def)
  have views: "dst_ok m' = dst_ok m" "start_of m' = start_of m" "next_of m' = next_of m"
    "sent m' = sent m" "slot_seq m' = slot_seq m"
    using arrays by (auto simp: fun_eq_iff dst_ok_def start_of_def next_of_def sent_def slot_seq_def)
  have ends: "end_of m' d' = (if d' = d then INCR_SEQUENCE_NUM (end_of m d) else end_of m d')" for d'
    using core d by (simp add: end_of_def arrays nth_upd_u8 tx_core_def tx_shape_def dst_ok_def)
  show buf: "buffered m' d = Suc (buffered m d)"
    using room win(1,2) [OF d] by (simp add: buffered_def views ends seq_dist_INCR)
  show bufo: "buffered m' d' = buffered m d'" if "d' \<noteq> d" for d'
    using that by (simp add: buffered_def views ends)
  have es': "es m' = (es m)[a := (es m ! a)\<lparr>packet := p\<rparr>]" using move by (simp add: set_entry_def)
  have app: "appended M m m' d a p"
    unfolding appended_def
  proof (intro conjI allI impI)
    show "owned m' i \<longleftrightarrow> i = a \<or> owned m i" for i using a by (auto simp: owned_def es' nth_list_update alloc some)
    show "key M (es m' ! a) = (d, slot_seq m d (buffered m d))" "packet (es m' ! a) = p"
      using a p win(6) [OF d] by (simp_all add: es')
  qed (use d views buf bufo in \<open>auto simp: owned_def some es'\<close>)
  have "tx_shape M m'"
    using core move arrays by (intro set_entry_shape [OF _ move]) (simp_all add: tx_core_def)
  moreover have "tx_windows m'"
    using core INCR_SEQUENCE_NUM_less [of "end_of m d"] buf bufo
    by (auto simp: tx_core_def tx_windows_def views ends intro: le_SucI)
  ultimately show core': "tx_core M m'"
    using appended_stored [OF core app] appended_first [OF core app alloc before [OF _ d]] by (simp add: tx_core_def)
  show "pending M m' d = pending M m d @ [p]" by (rule appended_pending(1) [OF core app core'])
  show "pending M m' d' = pending M m d'" if "dst_ok m d'" "d' \<noteq> d" for d'
    using appended_pending(2) [OF core app core' that] .
qed


subsection \<open>Moving the next pointer\<close>

lemma move_next:
  assumes core: "tx_core M m" and d: "dst_ok m d"
    and n: "unat n < 255" "seq_dist (start_of m d) n \<le> buffered m d"
  shows "tx_core M (m\<lparr>txSeqNumNext := (txSeqNumNext m)[unat d := n]\<rparr>)"
    and "pending M (m\<lparr>txSeqNumNext := (txSeqNumNext m)[unat d := n]\<rparr>) = pending M m"
    and "sent (m\<lparr>txSeqNumNext := (txSeqNumNext m)[unat d := n]\<rparr>) d = seq_dist (start_of m d) n"
proof -
  let ?m = "m\<lparr>txSeqNumNext := (txSeqNumNext m)[unat d := n]\<rparr>"
  have views: "dst_ok ?m = dst_ok m" "start_of ?m = start_of m" "end_of ?m = end_of m"
    "owned ?m = owned m" "buffered ?m = buffered m" "slot_seq ?m = slot_seq m"
    by (auto simp: fun_eq_iff dst_ok_def start_of_def end_of_def owned_def buffered_def slot_seq_def)
  have nx: "next_of ?m d' = (if d' = d then n else next_of m d')" for d'
    using core d by (simp add: next_of_def nth_upd_u8 tx_core_def tx_shape_def dst_ok_def)
  show "tx_core M ?m"
    using core n by (auto simp: tx_defs views nx sent_def)
  show "pending M ?m = pending M m" by (auto simp: fun_eq_iff pending_def views split: option.split)
  show "sent ?m d = seq_dist (start_of m d) n" by (simp add: sent_def views nx)
qed

subsection \<open>Releasing at the start\<close>

lemma released_stored:
  assumes core: "tx_core M m" and rel: "released M m m' d i"
  shows "tx_stored M m'"
  unfolding tx_stored_def
proof (intro conjI allI impI)
  have i: "owned m i" "key M (es m ! i) = (d, slot_seq m d 0)" using rel by (simp_all add: released_def)
  have head: "j = i" if "owned m j" "key M (es m ! j) = (d, slot_seq m d 0)" for j
    using that owned_key_inj [OF core that(1) i(1)] i(2) by simp
  fix j assume "owned m' j"
  then have j: "owned m j" "j \<noteq> i" using rel by (simp_all add: released_def)
  then obtain d' k where k: "dst_ok m d'" "k < buffered m d'" "key M (es m ! j) = (d', slot_seq m d' k)"
    using core unfolding tx_core_def tx_stored_def by blast
  show "\<exists>d k. dst_ok m' d \<and> k < buffered m' d \<and> key M (es m' ! j) = (d, slot_seq m' d k)"
  proof (cases "d' = d")
    case True
    then obtain k' where "k = Suc k'" using k head j by (cases k) auto
    with True k rel show ?thesis
      by (intro exI [of _ d] exI [of _ k']) (auto simp: released_def)
  next
    case False
    with k rel show ?thesis
      by (intro exI [of _ d'] exI [of _ k]) (simp add: released_def)
  qed
next
  fix d' k assume k: "dst_ok m' d'" "k < buffered m' d'"
  have ikey: "key M (es m ! i) = (d, slot_seq m d 0)" and d: "dst_ok m d" "Suc (buffered m' d) = buffered m d"
    and dst: "dst_ok m d'" using rel k by (simp_all add: released_def)
  show "\<exists>j. owned m' j \<and> key M (es m' ! j) = (d', slot_seq m' d' k)"
  proof (cases "d' = d")
    case True
    then have "Suc k < buffered m d" using k d(2) by simp
    with core d(1) obtain j where j: "owned m j" "key M (es m ! j) = (d, slot_seq m d (Suc k))"
      unfolding tx_core_def tx_stored_def by metis
    have "Suc k < 255" using \<open>Suc k < buffered m d\<close> tx_core_window(5) [OF core d(1)] by simp
    then have "j \<noteq> i" using j ikey slot_seq_inj [of "Suc k" 0 m d] by auto
    with j True rel show ?thesis by (intro exI [of _ j]) (simp add: released_def)
  next
    case False
    then have "k < buffered m d'" using k rel by (simp add: released_def)
    with core dst obtain j where j: "owned m j" "key M (es m ! j) = (d', slot_seq m d' k)"
      unfolding tx_core_def tx_stored_def by metis
    then have "j \<noteq> i" using ikey False by auto
    with j False rel show ?thesis by (intro exI [of _ j]) (simp add: released_def)
  qed
qed

lemma released_pending:
  assumes core: "tx_core M m" and rel: "released M m m' d i" and core': "tx_core M m'"
  shows "pending M m' d = tl (pending M m d)"
    and "dst_ok m d' \<Longrightarrow> d' \<noteq> d \<Longrightarrow> pending M m' d' = pending M m d'"
proof -
  have d: "dst_ok m d" and buf: "Suc (buffered m' d) = buffered m d" and ikey: "key M (es m ! i) = (d, slot_seq m d 0)"
    and dst: "dst_ok m' = dst_ok m" and slot: "\<And>k. slot_seq m' d k = slot_seq m d (Suc k)"
    and other: "\<And>d' k. d' \<noteq> d \<Longrightarrow> slot_seq m' d' k = slot_seq m d' k" "\<And>d'. d' \<noteq> d \<Longrightarrow> buffered m' d' = buffered m d'"
    using rel by (simp_all add: released_def)
  have at: "\<exists>j. owned m' j \<and> key M (es m' ! j) = (d', slot_seq m d' k) \<and> packet (es m' ! j) = pending M m d' ! k"
    if k: "dst_ok m d'" "k < buffered m d'" "d' = d \<longrightarrow> 0 < k" for d' k
  proof -
    obtain j where j: "owned m j" "key M (es m ! j) = (d', slot_seq m d' k)"
      "pending M m d' ! k = packet (es m ! j)"
      using pending_entry [OF core k(1,2)] by blast
    have "j \<noteq> i"
      using j(2) ikey k tx_core_window(5) [OF core d] slot_seq_inj [of k 0 m d] by (auto simp: less_imp_neq)
    with j rel show ?thesis by (intro exI [of _ j]) (simp add: released_def)
  qed
  show "pending M m' d = tl (pending M m d)"
    using d buf at [OF d]
    by (intro pending_eqI [OF core']) (auto simp: dst slot nth_tl simp flip: buf)
  show "pending M m' d' = pending M m d'" if "dst_ok m d'" "d' \<noteq> d" for d'
    using that at by (intro pending_eqI [OF core']) (simp_all add: dst other)
qed

lemma release_entry:
  assumes core: "tx_core M m" and d: "dst_ok m d"
    and i: "owned m i" "key M (es m ! i) = (d, start_of m d)" and pos: "0 < buffered m d"
    and move: "set_entry m i ((es m ! i)\<lparr>inUse := False\<rparr>) m'" "same_seqs m m'"
    and alloc: "allocatedPacket m' = allocatedPacket m"
    and arrays: "txSeqNumStart m' = (txSeqNumStart m)[unat d := INCR_SEQUENCE_NUM (start_of m d)]"
    "txSeqNumEnd m' = txSeqNumEnd m" "txSeqNumNext m' = (txSeqNumNext m)[unat d := n]"
    and n: "unat n < 255" "Suc (seq_dist (INCR_SEQUENCE_NUM (start_of m d)) n) \<le> buffered m d"
  shows "tx_core M m'" and "pending M m' d = tl (pending M m d)"
    and "\<And>d'. dst_ok m d' \<Longrightarrow> d' \<noteq> d \<Longrightarrow> pending M m' d' = pending M m d'"
    and "Suc (buffered m' d) = buffered m d" and "\<And>d'. d' \<noteq> d \<Longrightarrow> buffered m' d' = buffered m d'"
proof -
  note win = tx_core_window [OF core]
  have len: "i < length (es m)" using i by (simp add: owned_def)
  have dst: "dst_ok m' = dst_ok m" by (simp add: fun_eq_iff dst_ok_def arrays)
  have starts: "start_of m' d' = (if d' = d then INCR_SEQUENCE_NUM (start_of m d) else start_of m d')" for d'
    using d by (simp add: start_of_def arrays nth_upd_u8 dst_ok_def)
  have ends: "end_of m' = end_of m" by (simp add: fun_eq_iff end_of_def arrays)
  have nexts: "next_of m' d' = (if d' = d then n else next_of m d')" for d'
    using core d by (simp add: next_of_def arrays nth_upd_u8 tx_core_def tx_shape_def dst_ok_def)
  have "start_of m d \<noteq> end_of m d" using pos by (auto simp: buffered_def)
  then show buf: "Suc (buffered m' d) = buffered m d"
    using win(1,2) [OF d] by (simp add: buffered_def starts ends seq_dist_INCR_left)
  show bufo: "buffered m' d' = buffered m d'" if "d' \<noteq> d" for d'
    using that by (simp add: buffered_def starts ends)
  have es': "es m' = (es m)[i := (es m ! i)\<lparr>inUse := False\<rparr>]" using move by (simp add: set_entry_def)
  have keys: "key M (es m' ! j) = key M (es m ! j)" "packet (es m' ! j) = packet (es m ! j)" for j
    using len by (auto simp: es' nth_list_update key_def)
  have owned: "owned m' j \<longleftrightarrow> owned m j \<and> j \<noteq> i" for j
    using len by (auto simp: owned_def es' nth_list_update alloc)
  have slot: "slot_seq m' d k = slot_seq m d (Suc k)" for k
    using INCR_base [OF win(1) [OF d]] by (simp add: slot_seq_def starts)
  have rel: "released M m m' d i"
    using dst d i win(8) [OF d] owned keys slot buf bufo by (simp add: released_def slot_seq_def starts)
  have "tx_shape M m'"
    using core move arrays by (intro set_entry_shape [OF _ move]) (simp_all add: tx_core_def)
  moreover have "tx_windows m'"
    unfolding tx_windows_def
  proof (intro allI impI)
    fix d' assume d': "dst_ok m' d'"
    show "unat (start_of m' d') < 255 \<and> unat (end_of m' d') < 255 \<and> unat (next_of m' d') < 255 \<and>
        sent m' d' \<le> buffered m' d'"
      using win [of d'] d' bufo [of d'] n buf INCR_SEQUENCE_NUM_less [of "start_of m d"]
      by (cases "d' = d") (simp_all add: starts ends nexts dst sent_def)
  qed
  moreover have "tx_first M m'"
    using core i(1) len unfolding tx_core_def tx_first_def alloc keys dst ends owned
    by (auto simp: es' nth_list_update owned_def)
  ultimately show core': "tx_core M m'" using released_stored [OF core rel] by (simp add: tx_core_def)
  show "pending M m' d = tl (pending M m d)" by (rule released_pending(1) [OF core rel core'])
  show "pending M m' d' = pending M m d'" if "dst_ok m d'" "d' \<noteq> d" for d'
    using released_pending(2) [OF core rel core' that] .
qed

end
