(* ===== verification/TxOps.thy ===== *)
theory TxOps
  imports TxWindow
begin

text \<open>
  The abstract specification of one destination's transmit window, \<open>tWindow\<close> with the
  operations \<open>w_push\<close>, \<open>w_next\<close> and \<open>w_ack\<close>, and the refinement: every operation of
  \<^verbatim>\<open>src/src/txManager.c\<close> acts on the window of its destination as the abstract operation
  and leaves the windows of all others alone.
\<close>

section \<open>The abstract window\<close>

record tWindow =
  w_packets :: "tPacket list"
  w_first :: u8
  w_sent :: nat
  w_pause :: u8

definition w_push :: "tPacket \<Rightarrow> tWindow \<Rightarrow> tWindow" where
  "w_push p w = w\<lparr>w_packets := w_packets w @ [p]\<rparr>"

text \<open>
  The position at which the sender stops. The code compares with \<open>start + 4\<close> computed
  without wrapping at 255, so the window is 4 except for the four starts next to the wrap:
  at 251 the compared value is no sequence number at all, at 252 to 254 it is one too early.
\<close>

definition w_limit :: "u8 \<Rightarrow> nat option" where
  "w_limit first = (if unat first < 251 then Some 4 else if unat first = 251 then None else Some 3)"

definition w_next :: "tWindow \<Rightarrow> tPacket option \<times> tWindow" where
  "w_next w =
     (if w_pause w > 0 \<or> w_packets w = [] then (None, w)
      else if w_sent w = length (w_packets w) \<or> Some (w_sent w) = w_limit (w_first w)
      then (None, w\<lparr>w_pause := 2\<rparr>)
      else (Some (w_packets w ! w_sent w), w\<lparr>w_sent := Suc (w_sent w)\<rparr>))"

definition w_acked :: "u8 \<Rightarrow> tWindow \<Rightarrow> nat" where
  "w_acked ack w =
     (if ack \<noteq> INVALID_SEQUENCE_NUM \<and> seq_dist (w_first w) ack < length (w_packets w)
      then Suc (seq_dist (w_first w) ack) else 0)"

definition w_ack :: "u8 \<Rightarrow> tWindow \<Rightarrow> tWindow" where
  "w_ack ack w =
     (if ack = INVALID_SEQUENCE_NUM then w
      else if 0 < w_acked ack w
      then w\<lparr>w_packets := drop (w_acked ack w) (w_packets w), w_first := INCR_SEQUENCE_NUM ack,
        w_sent := w_sent w - w_acked ack w, w_pause := 0\<rparr>
      else if w_pause w = 1 then w\<lparr>w_pause := 0, w_sent := 0\<rparr>
      else if w_pause w > 1 then w\<lparr>w_pause := w_pause w - 1\<rparr>
      else w)"

definition window_of :: "bool \<Rightarrow> tTxManager \<Rightarrow> u8 \<Rightarrow> tWindow" where
  "window_of M m d = \<lparr>w_packets = pending M m d, w_first = start_of m d, w_sent = sent m d,
     w_pause = pause_of m d\<rparr>"

definition only_at :: "bool \<Rightarrow> tTxManager \<Rightarrow> tTxManager \<Rightarrow> u8 \<Rightarrow> bool" where
  "only_at M m m' d \<longleftrightarrow> dst_ok m' = dst_ok m \<and>
     (\<forall>d'. dst_ok m d' \<longrightarrow> d' \<noteq> d \<longrightarrow> window_of M m' d' = window_of M m d')"

lemma window_of_eq:
  "window_of M m' d' = window_of M m d \<longleftrightarrow> pending M m' d' = pending M m d \<and>
     start_of m' d' = start_of m d \<and> sent m' d' = sent m d \<and> pause_of m' d' = pause_of m d"
  by (auto simp: window_of_def)

lemma tx_queue_room:
  assumes "tx_inv M m" and "activeTxNodes m = Some q"
  shows "unat (numNodes q) < MAX_NODES"
proof -
  have M: "M" and q: "wf_queue q" "\<forall>d\<in>set (queue_ids q). node_id d"
    using assms by (auto simp: tx_inv_def tx_queued_def)
  have "unat (numNodes q) = card (set (queue_ids q))"
    using q(1) by (metis length_queue_ids distinct_card wf_queue_def)
  also have "\<dots> \<le> card {x. node_id x}"
    using q(2) by (intro card_mono node_ids_bounded) auto
  also have "\<dots> < MAX_NODES" by (rule node_ids_bounded)
  finally show ?thesis .
qed

section \<open>Allocation\<close>

lemma tx_inv_view:
  assumes "tx_core M m'" and "activeTxNodes m' = activeTxNodes m" and "tx_inv M m"
    and "dst_ok m' = dst_ok m" and "buffered m' = buffered m"
  shows "tx_inv M m'"
  using assms by (cases "activeTxNodes m") (simp_all add: tx_inv_def tx_queued_def)

lemma allocate_full:
  assumes "tx_inv M m" and "\<forall>e\<in>set (es m). inUse e"
  shows "allocateTxPacket m = Inr (None, m)"
proof -
  have "find_index (\<lambda>e. \<not> inUse e) (es m) = None"
    using assms(2) by (simp add: find_index_None_iff)
  then show ?thesis
    using assms(1) by (simp add: allocateTxPacket_def allocatePacketEntry_def find_from_0
        tx_inv_def tx_core_def tx_shape_def)
qed

lemma allocate_free:
  assumes inv: "tx_inv M m" and none: "allocatedPacket m = None" and "\<exists>e\<in>set (es m). \<not> inUse e"
  shows "\<exists>a m'. allocateTxPacket m = Inr (Some a, m') \<and> tx_inv M m' \<and> allocatedPacket m' = Some a \<and>
    a < length (es m) \<and> \<not> inUse (es m ! a) \<and> rxSeqNum m' = rxSeqNum m \<and> dst_ok m' = dst_ok m \<and>
    (\<forall>d. dst_ok m d \<longrightarrow> window_of M m' d = window_of M m d)"
proof -
  from assms(3) obtain a where a: "find_index (\<lambda>e. \<not> inUse e) (es m) = Some a"
    by (auto dest: find_index_Some_ex [where P = "\<lambda>e. \<not> inUse e"])
  let ?s = "packetStore m"
  let ?m = "m\<lparr>packetStore := ?s\<lparr>entries := (es m)[a := (es m ! a)\<lparr>inUse := True\<rparr>],
    numStored := numStored ?s + 1\<rparr>, allocatedPacket := Some a\<rparr>"
  have core: "tx_core M m" using inv by (simp add: tx_inv_def)
  note la = find_index_SomeD [OF a]
  have wf: "wf_packet (packet (es m ! a))" using core la by (simp add: tx_core_def tx_shape_def)
  have run: "allocateTxPacket m = Inr (Some a, ?m)"
    using core none a tx_queue_room [OF inv]
    by (auto simp: allocateTxPacket_def allocatePacketEntry_def find_from_0 tx_core_def tx_shape_def
        not_le split: option.split)
  have move: "set_entry m a ((es m ! a)\<lparr>inUse := True\<rparr>) ?m" "same_seqs m ?m"
    using la wf by (simp_all add: set_entry_def same_seqs_def)
  note took = take_entry [OF core none a move]
  have views: "start_of ?m = start_of m" "sent ?m = sent m" "pause_of ?m = pause_of m"
    "dst_ok ?m = dst_ok m" "buffered ?m = buffered m"
    by (simp_all add: fun_eq_iff start_of_def sent_def next_of_def pause_of_def dst_ok_def
        buffered_def end_of_def)
  have "tx_inv M ?m" using took(1) inv views by (intro tx_inv_view [OF _ _ inv]) simp_all
  moreover have "window_of M ?m d = window_of M m d" if "dst_ok m d" for d
    using took(2) that views by (simp add: window_of_eq)
  ultimately show ?thesis
    using run la views(4) by (intro exI [of _ a] exI [of _ ?m]) simp
qed

section \<open>Submission\<close>

lemma stamp_facts:
  assumes "wf_packet p"
  shows "wf_packet (stampPacket M t n s d q p)" "txSeqNum (stampPacket M t n s d q p) = q"
    "M \<Longrightarrow> master_dstNodeId (stampPacket M t n s d q p) = d"
    "\<not> M \<Longrightarrow> node_srcNodeId (stampPacket M t n s d q p) = s"
    "udata (stampPacket M t n s d q p) = udata p"
    "GET_PACKET_TYPE (stampPacket M t n s d q p) = packet_code t"
    "GET_PACKET_DATA_SIZE (stampPacket M t n s d q p) = n"
    "GET_PROTOCOL_VERSION (stampPacket M t n s d q p) = MICROBUS_VERSION"
  using assms
  by (auto simp: stampPacket_def Let_def packet_view_defs wf_packet_def)

definition tx_frame :: "tTxManager \<Rightarrow> tTxManager \<Rightarrow> bool" where
  "tx_frame m m' \<longleftrightarrow> rxSeqNum m' = rxSeqNum m \<and> allocatedPacket m' = allocatedPacket m"

lemma submit_spec:
  assumes inv: "tx_inv M m" and a: "allocatedPacket m = Some a" and d: "dst_ok m d"
    and live: "M \<longrightarrow> 0 < ttl \<and> 0 < ttl' \<and> node_id d" and s: "unat s < MAX_NODES"
    and t: "M \<or> t \<noteq> MASTER_DATA_PACKET"
  shows "\<exists>m'. submitAllocatedTxPacket m M ttl ttl' s d t n = Inr m' \<and> tx_inv M m' \<and>
    allocatedPacket m' = None \<and> rxSeqNum m' = rxSeqNum m \<and> only_at M m m' d \<and>
    window_of M m' d = w_push (stampPacket M t n s d (end_of m d) (packet (es m ! a))) (window_of M m d)"
proof -
  have core: "tx_core M m" using inv by (simp add: tx_inv_def)
  note win = tx_core_window [OF core d]
  have la: "a < length (es m)" using core a by (simp add: tx_core_def tx_first_def)
  have wf: "wf_packet (packet (es m ! a))" using core la by (simp add: tx_core_def tx_shape_def)
  let ?seq = "end_of m d"
  let ?p = "stampPacket M t n s d ?seq (packet (es m ! a))"
  let ?m1 = "(upd_packet a (stampPacket M t n s d ?seq) m)\<lparr>txSeqNumEnd := (txSeqNumEnd m)[unat d := INCR_SEQUENCE_NUM ?seq]\<rparr>"
  let ?lvl = "INCR_SEQUENCE_NUM ?seq - start_of m d"
  let ?m3 = "\<lambda>qo. ?m1\<lparr>activeTxNodes := qo, txBufferLevel := ?lvl,
    maxTxBufferLevel := max (maxTxBufferLevel m) ?lvl, allocatedPacket := None\<rparr>"
  have lens: "unat d < length (txSeqNumEnd m)" "unat d < length (txSeqNumStart m)" "unat d < 64"
    using core d by (auto simp: tx_core_def tx_shape_def dst_ok_def)
  have move: "set_entry m a ((es m ! a)\<lparr>packet := ?p\<rparr>) (?m3 qo)" "same_seqs m (?m3 qo)" for qo
    using la stamp_facts(1) [OF wf] by (simp_all add: set_entry_def same_seqs_def upd_packet_def)
  have pkey: "key M ((es m ! a)\<lparr>packet := ?p\<rparr>) = (d, ?seq)"
    using stamp_facts(2,3) [OF wf] tx_core_dst [OF core d] by (auto simp: key_def)
  have appended: "tx_core M (?m3 qo)" "pending M (?m3 qo) d = pending M m d @ [?p]"
    "\<And>d'. dst_ok m d' \<Longrightarrow> d' \<noteq> d \<Longrightarrow> pending M (?m3 qo) d' = pending M m d'"
    "buffered (?m3 qo) d = Suc (buffered m d)" "\<And>d'. d' \<noteq> d \<Longrightarrow> buffered (?m3 qo) d' = buffered m d'" for qo
    using append_entry [OF core a d move(1) [of qo] move(2) [of qo] pkey]
    by (simp_all add: upd_packet_def)
  have views: "dst_ok (?m3 qo) = dst_ok m" "start_of (?m3 qo) = start_of m" "sent (?m3 qo) = sent m"
    "pause_of (?m3 qo) = pause_of m" for qo
    by (simp_all add: fun_eq_iff start_of_def sent_def next_of_def pause_of_def dst_ok_def upd_packet_def)
  have bufs: "0 < buffered (?m3 qo) d' \<longleftrightarrow> d' = d \<or> 0 < buffered m d'" for qo d'
    using appended(4) [of qo] appended(5) [of d' qo] by (cases "d' = d") simp_all
  have guards: "\<not> (M \<and> ttl = 0)" "\<not> (M \<and> ttl' = 0)" "M \<or> d = 0"
    using live tx_core_dst [OF core d] by auto
  have inv3: "tx_inv M (?m3 qo)"
    if "M \<longrightarrow> (\<exists>q. qo = Some q \<and> wf_queue q \<and> (\<forall>x\<in>set (queue_ids q). node_id x) \<and>
        set (queue_ids q) = {d'. dst_ok m d' \<and> (d' = d \<or> 0 < buffered m d')})"
      and "\<not> M \<longrightarrow> qo = None" for qo
    using that appended(1) [of qo] unfolding tx_inv_def tx_queued_def bufs views by auto
  have "\<exists>qo. submitAllocatedTxPacket m M ttl ttl' s d t n = Inr (?m3 qo) \<and> tx_inv M (?m3 qo)"
  proof (cases "M \<and> ?seq = start_of m d")
    case False
    have "submitAllocatedTxPacket m M ttl ttl' s d t n = Inr (?m3 (activeTxNodes m))"
      using lens a s t guards False
      by (cases M) (simp_all add: submitAllocatedTxPacket_def Let_def upd_packet_def end_of_def start_of_def)
    moreover have "0 < buffered m d" if "M"
      using that False seq_dist_eq_0 [OF win(1,2)] by (metis buffered_def gr0I)
    then have "tx_inv M (?m3 (activeTxNodes m))"
      using inv by (intro inv3) (auto simp: tx_inv_def tx_queued_def split: option.splits)
    ultimately show ?thesis by blast
  next
    case True
    then obtain q where q: "activeTxNodes m = Some q" "wf_queue q"
      "set (queue_ids q) = {d. dst_ok m d \<and> 0 < buffered m d}" "\<forall>d\<in>set (queue_ids q). node_id d"
      using inv by (auto simp: tx_inv_def tx_queued_def split: option.splits)
    obtain q' where q': "nodeQueueAdd q d = Inr (True, q')" "wf_queue q'"
      "set (queue_ids q') = insert d (set (queue_ids q))"
      using nodeQueueAdd_spec [OF q(2) tx_queue_room [OF inv q(1)], of d]
      by (auto simp: insert_absorb split: if_splits)
    have "submitAllocatedTxPacket m M ttl ttl' s d t n = Inr (?m3 (Some q'))"
      using lens a s t guards True q(1) q'(1)
      by (simp add: submitAllocatedTxPacket_def Let_def upd_packet_def end_of_def start_of_def tx_queue_def)
    moreover have "tx_inv M (?m3 (Some q'))"
      using True q q' live d by (intro inv3) auto
    ultimately show ?thesis by blast
  qed
  then obtain qo where run: "submitAllocatedTxPacket m M ttl ttl' s d t n = Inr (?m3 qo)" "tx_inv M (?m3 qo)"
    by blast
  have "only_at M m (?m3 qo) d"
    using appended(3) views by (simp add: only_at_def window_of_eq)
  moreover have "window_of M (?m3 qo) d = w_push ?p (window_of M m d)"
    using appended(2) views by (simp add: window_of_def w_push_def)
  moreover have "rxSeqNum (?m3 qo) = rxSeqNum m" by (simp add: upd_packet_def)
  ultimately show ?thesis using run by (intro exI [of _ "?m3 qo"]) simp
qed


section \<open>The next packet of one destination\<close>

lemma window_end_test:
  assumes "unat s < 255" and "unat n < 255"
  shows "n = s + SLIDING_WINDOW_SIZE \<longleftrightarrow> Some (seq_dist s n) = w_limit s"
proof -
  have "unat (s + 4) = (unat s + 4) mod 256" by (simp add: unat_word_ariths)
  with assms show ?thesis
    by (auto simp: w_limit_def seq_dist_def u8_eq_iff mod_if split: if_splits)
qed

definition fetched :: "tTxManager \<Rightarrow> nat option \<Rightarrow> tPacket option" where
  "fetched m r = map_option (\<lambda>i. packet (es m ! i)) r"

lemma getNext_spec:
  assumes inv: "tx_inv M m" and d: "dst_ok m d"
  shows "\<exists>r m'. getNextTxPacketForNode m M d = Inr (r, m') \<and> tx_inv M m' \<and> tx_frame m m' \<and>
    packetStore m' = packetStore m \<and> activeTxNodes m' = activeTxNodes m \<and> only_at M m m' d \<and>
    (\<forall>i. r = Some i \<longrightarrow> owned m i \<and> sent m d < buffered m d \<and> key M (es m ! i) = (d, slot_seq m d (sent m d))) \<and>
    (fetched m' r, window_of M m' d) = w_next (window_of M m d)"
proof -
  have core: "tx_core M m" using inv by (simp add: tx_inv_def)
  note win = tx_core_window [OF core d]
  have lens: "unat d < length (txSeqNumEnd m)" "unat d < length (txSeqNumStart m)"
    "unat d < length (txSeqNumNext m)" "unat d < length (txSeqNumPauseCount m)"
    using core d by (auto simp: tx_core_def tx_shape_def dst_ok_def)
  have empty: "start_of m d = end_of m d \<longleftrightarrow> pending M m d = []"
    using win(1,2) length_pending [of M m d] by (metis buffered_def length_0_conv seq_dist_eq_0)
  have test: "if end_of m d \<ge> start_of m d then next_of m d \<ge> start_of m d \<and> next_of m d \<le> end_of m d
      else next_of m d \<ge> start_of m d \<or> next_of m d \<le> end_of m d"
    using next_window_test [OF win(1-3)] win(4) by (simp add: sent_def buffered_def)
  have stop: "next_of m d = end_of m d \<or> next_of m d = start_of m d + 4 \<longleftrightarrow>
      sent m d = buffered m d \<or> Some (sent m d) = w_limit (start_of m d)"
    using window_end_test [OF win(1,3)] seq_dist_inj [OF win(1,3,2)] by (simp add: sent_def buffered_def)
  have unfolded: "getNextTxPacketForNode m M d =
     (if pause_of m d > 0 \<or> pending M m d = [] then Inr (None, m)
      else if sent m d = buffered m d \<or> Some (sent m d) = w_limit (start_of m d)
      then Inr (None, m\<lparr>txSeqNumPauseCount := (txSeqNumPauseCount m)[unat d := 2]\<rparr>)
      else and_then (findPacketEntry (packetStore m) d (next_of m d) M) (\<lambda>i.
        Inr (Some i, m\<lparr>txSeqNumNext := (txSeqNumNext m)[unat d := INCR_SEQUENCE_NUM (next_of m d)]\<rparr>)))"
    unfolding getNextTxPacketForNode_def Let_def rd_in [OF lens(1)] rd_in [OF lens(2)]
      rd_in [OF lens(3)] rd_in [OF lens(4)] and_then_Inr start_of_def [symmetric]
      end_of_def [symmetric] next_of_def [symmetric] pause_of_def [symmetric]
      microbusAssert_True [OF test] empty stop
    by auto
  consider (idle) "pause_of m d > 0 \<or> pending M m d = []"
    | (stop) "\<not> (pause_of m d > 0 \<or> pending M m d = [])"
        "sent m d = buffered m d \<or> Some (sent m d) = w_limit (start_of m d)"
    | (send) "\<not> (pause_of m d > 0 \<or> pending M m d = [])"
        "\<not> (sent m d = buffered m d \<or> Some (sent m d) = w_limit (start_of m d))" by blast
  then show ?thesis
  proof cases
    case idle
    then show ?thesis
      using inv by (intro exI [of _ None] exI [of _ m])
        (auto simp: unfolded tx_frame_def only_at_def fetched_def w_next_def window_of_def)
  next
    case stop
    let ?m = "m\<lparr>txSeqNumPauseCount := (txSeqNumPauseCount m)[unat d := 2]\<rparr>"
    have views: "dst_ok ?m = dst_ok m" "start_of ?m = start_of m" "sent ?m = sent m"
      "buffered ?m = buffered m" "pending M ?m = pending M m"
      by (rule tx_views_cong; simp)+
    have pause: "pause_of ?m d' = (if d' = d then 2 else pause_of m d')" for d'
      using lens by (simp add: pause_of_def nth_upd_u8)
    have "tx_inv M ?m"
      using core tx_core_cong [of ?m m M] by (intro tx_inv_view [OF _ _ inv]) (simp_all add: views)
    then show ?thesis
      using stop by (intro exI [of _ None] exI [of _ ?m])
        (auto simp: unfolded tx_frame_def only_at_def fetched_def w_next_def window_of_def views pause)
  next
    case send
    let ?m = "m\<lparr>txSeqNumNext := (txSeqNumNext m)[unat d := INCR_SEQUENCE_NUM (next_of m d)]\<rparr>"
    have lt: "sent m d < buffered m d" using send win(4) by simp
    obtain i where i: "owned m i" "key M (es m ! i) = (d, slot_seq m d (sent m d))"
      "findPacketEntry (packetStore m) d (slot_seq m d (sent m d)) M = Inr i"
      "pending M m d ! sent m d = packet (es m ! i)"
      using pending_entry [OF core d lt] .
    have dist: "seq_dist (start_of m d) (INCR_SEQUENCE_NUM (next_of m d)) = Suc (sent m d)"
      using win lt by (simp add: sent_def seq_dist_INCR)
    note moved = move_next [OF core d INCR_SEQUENCE_NUM_less, of "next_of m d"]
    have views: "dst_ok ?m = dst_ok m" "start_of ?m = start_of m" "buffered ?m = buffered m"
      "pause_of ?m = pause_of m"
      by (simp_all add: fun_eq_iff start_of_def pause_of_def dst_ok_def buffered_def end_of_def)
    have sent: "sent ?m d' = (if d' = d then Suc (sent m d) else sent m d')" for d'
      using moved(3) dist lt lens by (simp add: sent_def start_of_def next_of_def nth_upd_u8)
    have "tx_inv M ?m"
      using moved(1) dist lt by (intro tx_inv_view [OF _ _ inv]) (simp_all add: views)
    moreover have "pending M ?m = pending M m" using moved(2) dist lt by simp
    ultimately show ?thesis
      using send i lt win(7) by (intro exI [of _ "Some i"] exI [of _ ?m])
        (auto simp: unfolded tx_frame_def only_at_def fetched_def w_next_def window_of_def views sent)
  qed
qed


section \<open>Acknowledgements\<close>

text \<open>
  During the loop the window is that of the state with its start moved to the loop's
  \<open>seqNum\<close>; the code stores the new start only at the end.
\<close>

definition at_start :: "tTxManager \<Rightarrow> u8 \<Rightarrow> u8 \<Rightarrow> tTxManager" where
  "at_start m d s = m\<lparr>txSeqNumStart := (txSeqNumStart m)[unat d := s]\<rparr>"

lemma at_start_simps [simp]:
  "packetStore (at_start m d s) = packetStore m"
  "allocatedPacket (at_start m d s) = allocatedPacket m"
  "txSeqNumStart (at_start m d s) = (txSeqNumStart m)[unat d := s]"
  "txSeqNumEnd (at_start m d s) = txSeqNumEnd m" "txSeqNumNext (at_start m d s) = txSeqNumNext m"
  "txSeqNumPauseCount (at_start m d s) = txSeqNumPauseCount m"
  "rxSeqNum (at_start m d s) = rxSeqNum m"
  "dst_ok (at_start m d s) = dst_ok m" "end_of (at_start m d s) = end_of m"
  "next_of (at_start m d s) = next_of m" "owned (at_start m d s) = owned m"
  by (simp_all add: at_start_def fun_eq_iff dst_ok_def end_of_def next_of_def owned_def)

lemma start_of_at_start: "dst_ok m d \<Longrightarrow> start_of (at_start m d s) d' = (if d' = d then s else start_of m d')"
  by (simp add: start_of_def dst_ok_def nth_upd_u8)

lemma at_start_self: "dst_ok m d \<Longrightarrow> at_start m d (start_of m d) = m"
  by (simp add: at_start_def start_of_def dst_ok_def)

lemma ack_step:
  assumes core: "tx_core M (at_start m d s)" and d: "dst_ok m d"
    and k: "Suc k \<le> buffered (at_start m d s) d" and new: "new = seq_of (unat s + Suc k)"
  shows "\<exists>st nx. freePacket (packetStore m) d s M = Inr (True, st) \<and>
    (if s = next_of m d then (txSeqNumNext m)[unat d := new] else txSeqNumNext m) = (txSeqNumNext m)[unat d := nx] \<and>
    (let m1 = m\<lparr>packetStore := st, txSeqNumNext := (txSeqNumNext m)[unat d := nx]\<rparr>;
         m' = at_start m1 d (INCR_SEQUENCE_NUM s) in
      tx_core M m' \<and> pending M m' d = tl (pending M (at_start m d s) d) \<and>
      (\<forall>d'. dst_ok m d' \<longrightarrow> d' \<noteq> d \<longrightarrow> pending M m' d' = pending M (at_start m d s) d') \<and>
      Suc (buffered m' d) = buffered (at_start m d s) d \<and>
      sent m' d = (if s = next_of m d then k else sent (at_start m d s) d - 1) \<and>
      (\<forall>d'. d' \<noteq> d \<longrightarrow> next_of m1 d' = next_of m d'))"
proof -
  let ?m = "at_start m d s"
  have dd: "dst_ok ?m d" using d by simp
  note win = tx_core_window [OF core dd]
  have s: "start_of ?m d = s" using d by (simp add: start_of_at_start)
  have pos: "0 < buffered ?m d" using k by simp
  obtain i where i: "owned m i" "key M (es m ! i) = (d, s)" "findPacketEntry (packetStore m) d s M = Inr i"
    using pending_entry [OF core dd pos] s win(8) by auto
  let ?st = "(packetStore m)\<lparr>numFreed := numFreed (packetStore m) + 1,
    entries := (es m)[i := (es m ! i)\<lparr>inUse := False\<rparr>]\<rparr>"
  obtain nx where nx: "nx = (if s = next_of m d then new else next_of m d)" by blast
  let ?m1 = "m\<lparr>packetStore := ?st, txSeqNumNext := (txSeqNumNext m)[unat d := nx]\<rparr>"
  let ?m' = "at_start ?m1 d (INCR_SEQUENCE_NUM s)"
  have ln: "unat d < length (txSeqNumNext m)"
    using core d by (simp add: tx_core_def tx_shape_def dst_ok_def)
  have s255: "unat s < 255" using win(1) s by simp
  have news: "seq_dist s new = Suc k" "unat new < 255"
    using k win(5) seq_of_less [of "unat s + Suc k"] seq_dist_seq_of [OF s255, of "Suc k"]
    by (simp_all add: new)
  then have "s \<noteq> new" by auto
  note news = news this
  have sent: "sent ?m d = seq_dist s (next_of m d)" by (simp add: sent_def s)
  have n: "unat nx < 255" "seq_dist (INCR_SEQUENCE_NUM s) nx = (if s = next_of m d then k else sent ?m d - 1)"
    "Suc (seq_dist (INCR_SEQUENCE_NUM s) nx) \<le> buffered ?m d"
    using news win(3,4) k s255 sent seq_dist_INCR_left [of s new] seq_dist_INCR_left [of s "next_of m d"]
    by (auto simp: nx)
  have arrays: "(if s = next_of m d then (txSeqNumNext m)[unat d := new] else txSeqNumNext m)
      = (txSeqNumNext m)[unat d := nx]"
    by (simp add: next_of_def nx)
  have len: "i < length (es m)" using i(1) by (simp add: owned_def)
  have wf: "wf_packet (packet (es m ! i))" using core len by (simp add: tx_core_def tx_shape_def)
  have move: "set_entry ?m i ((es ?m ! i)\<lparr>inUse := False\<rparr>) ?m'" "same_seqs ?m ?m'"
    using len wf by (simp_all add: set_entry_def same_seqs_def)
  have oi: "owned ?m i" "key M (es ?m ! i) = (d, start_of ?m d)" using i s by simp_all
  have moved: "allocatedPacket ?m' = allocatedPacket ?m"
    "txSeqNumStart ?m' = (txSeqNumStart ?m)[unat d := INCR_SEQUENCE_NUM (start_of ?m d)]"
    "txSeqNumEnd ?m' = txSeqNumEnd ?m" "txSeqNumNext ?m' = (txSeqNumNext ?m)[unat d := nx]"
    unfolding s by simp_all
  have n3: "Suc (seq_dist (INCR_SEQUENCE_NUM (start_of ?m d)) nx) \<le> buffered ?m d"
    unfolding s by (rule n(3))
  note rel = release_entry [OF core dd oi pos move moved n(1) n3]
  have "start_of ?m' d = INCR_SEQUENCE_NUM s"
    using d by (intro start_of_at_start [THEN trans]) (simp_all add: dst_ok_def)
  moreover have nexts: "next_of ?m1 d' = (if d' = d then nx else next_of m d')" for d'
    using ln by (simp add: next_of_def nth_upd_u8)
  ultimately have sent': "sent ?m' d = (if s = next_of m d then k else sent ?m d - 1)"
    using n(2) by (simp add: sent_def)
  have free: "freePacket (packetStore m) d s M = Inr (True, ?st)"
    using i(3) by (simp add: freePacket_def)
  have nexto: "next_of ?m1 d' = next_of m d'" if "d' \<noteq> d" for d'
    using nexts that by simp
  show ?thesis
    unfolding Let_def
    by (intro exI [of _ ?st] exI [of _ nx] conjI allI impI)
      (rule free arrays rel(1,2,4) sent' nexto rel(3); simp)+
qed


lemma ack_loop:
  assumes "tx_core M (at_start m d s)" and d: "dst_ok m d" and "k \<le> buffered (at_start m d s) d"
    and "INCR_SEQUENCE_NUM ack = seq_of (unat s + k)"
  shows "\<exists>st nx. let m' = m\<lparr>packetStore := st, txSeqNumNext := nx\<rparr>; new = INCR_SEQUENCE_NUM ack in
    rxAckLoop d ack M s n m = Inr (n + of_nat k, m') \<and> tx_core M (at_start m' d new) \<and>
    pending M (at_start m' d new) d = drop k (pending M (at_start m d s) d) \<and>
    (\<forall>d'. dst_ok m d' \<longrightarrow> d' \<noteq> d \<longrightarrow>
      pending M (at_start m' d new) d' = pending M (at_start m d s) d' \<and> next_of m' d' = next_of m d') \<and>
    sent (at_start m' d new) d = sent (at_start m d s) d - k"
  using assms
proof (induction k arbitrary: m s n)
  case 0
  have "start_of (at_start m d s) d = s" using 0(2) by (simp add: start_of_at_start)
  then have "unat s < 255" using tx_core_window(1) [OF 0(1), of d] 0(2) by simp
  then have "INCR_SEQUENCE_NUM ack = s" using 0(4) by (simp add: seq_of_surj)
  then show ?case
    using 0 by (intro exI [of _ "packetStore m"] exI [of _ "txSeqNumNext m"])
      (simp add: rxAckLoop.simps [of d ack M s] Let_def)
next
  case (Suc k)
  let ?m = "at_start m d s"
  have dd: "dst_ok ?m d" using Suc.prems(2) by simp
  note win = tx_core_window [OF Suc.prems(1) dd]
  have s: "start_of ?m d = s" using Suc.prems(2) by (simp add: start_of_at_start)
  have s255: "unat s < 255" using win(1) s by simp
  have ne: "s \<noteq> INCR_SEQUENCE_NUM ack"
    using seqnum.code_window_eq [of 0 "Suc k" "unat s"] Suc.prems(3,4) win(5) s255
    by (simp add: seq_of_surj)
  have ln: "unat d < length (txSeqNumNext m)"
    using Suc.prems(1,2) by (simp add: tx_core_def tx_shape_def dst_ok_def)
  obtain st nx where step: "freePacket (packetStore m) d s M = Inr (True, st)"
    "(if s = next_of m d then (txSeqNumNext m)[unat d := INCR_SEQUENCE_NUM ack] else txSeqNumNext m)
      = (txSeqNumNext m)[unat d := nx]" and
    rest: "let m1 = m\<lparr>packetStore := st, txSeqNumNext := (txSeqNumNext m)[unat d := nx]\<rparr>;
         m' = at_start m1 d (INCR_SEQUENCE_NUM s) in
      tx_core M m' \<and> pending M m' d = tl (pending M ?m d) \<and>
      (\<forall>d'. dst_ok m d' \<longrightarrow> d' \<noteq> d \<longrightarrow> pending M m' d' = pending M ?m d') \<and>
      Suc (buffered m' d) = buffered ?m d \<and>
      sent m' d = (if s = next_of m d then k else sent ?m d - 1) \<and>
      (\<forall>d'. d' \<noteq> d \<longrightarrow> next_of m1 d' = next_of m d')"
    using ack_step [OF Suc.prems(1-4)] by blast
  obtain m1 where m1: "m1 = m\<lparr>packetStore := st, txSeqNumNext := (txSeqNumNext m)[unat d := nx]\<rparr>" by blast
  let ?m1 = "at_start m1 d (INCR_SEQUENCE_NUM s)"
  have rest': "tx_core M ?m1" "pending M ?m1 d = tl (pending M ?m d)"
    "\<And>d'. dst_ok m d' \<Longrightarrow> d' \<noteq> d \<Longrightarrow> pending M ?m1 d' = pending M ?m d'"
    "Suc (buffered ?m1 d) = buffered ?m d" "sent ?m1 d = (if s = next_of m d then k else sent ?m d - 1)"
    "\<And>d'. d' \<noteq> d \<Longrightarrow> next_of m1 d' = next_of m d'"
    using rest unfolding Let_def m1 [symmetric] by blast+
  have dst: "dst_ok m1 = dst_ok m" by (simp add: m1 fun_eq_iff dst_ok_def)
  have code: "INCR_SEQUENCE_NUM ack = seq_of (unat (INCR_SEQUENCE_NUM s) + k)"
    using Suc.prems(4) INCR_base [OF s255] by simp
  obtain st' nx' where ih: "let m' = m1\<lparr>packetStore := st', txSeqNumNext := nx'\<rparr>; new = INCR_SEQUENCE_NUM ack in
    rxAckLoop d ack M (INCR_SEQUENCE_NUM s) (n + 1) m1 = Inr (n + 1 + of_nat k, m') \<and>
    tx_core M (at_start m' d new) \<and>
    pending M (at_start m' d new) d = drop k (pending M ?m1 d) \<and>
    (\<forall>d'. dst_ok m1 d' \<longrightarrow> d' \<noteq> d \<longrightarrow>
      pending M (at_start m' d new) d' = pending M ?m1 d' \<and> next_of m' d' = next_of m1 d') \<and>
    sent (at_start m' d new) d = sent ?m1 d - k"
    using Suc.IH [OF rest'(1) _ _ code, of "n + 1"] Suc.prems(2,3) rest'(4) dst by auto
  let ?m' = "m\<lparr>packetStore := st', txSeqNumNext := nx'\<rparr>"
  have m': "m1\<lparr>packetStore := st', txSeqNumNext := nx'\<rparr> = ?m'" by (simp add: m1)
  have run: "rxAckLoop d ack M s n m = rxAckLoop d ack M (INCR_SEQUENCE_NUM s) (n + 1) m1"
    using ne step ln by (simp add: rxAckLoop.simps [of d ack M s] Let_def next_of_def m1)
  have "sent ?m d = 0 \<longleftrightarrow> s = next_of m d"
    using seq_dist_eq_0 [OF s255, of "next_of m d"] win(3) by (simp add: sent_def s)
  then have "sent ?m1 d - k = sent ?m d - Suc k" using rest'(5) by auto
  moreover have "drop k (tl (pending M ?m d)) = drop (Suc k) (pending M ?m d)" by (simp add: drop_Suc)
  ultimately show ?case
    using ih rest' run unfolding Let_def m' dst
    by (intro exI [of _ st'] exI [of _ nx']) simp
qed

lemma rxAck_invalid:
  "rxAckSeqNum m d INVALID_SEQUENCE_NUM M st = Inr (0, st, m)"
  by (simp add: rxAckSeqNum_def)

text \<open>The acknowledgement, with its test for a number within the window spelled as a distance.\<close>

lemma rxAck_unfold:
  assumes core: "tx_core M m" and d: "dst_ok m d" and ack: "ack \<noteq> INVALID_SEQUENCE_NUM"
  shows "rxAckSeqNum m d ack M st =
    (if seq_dist (start_of m d) ack < buffered m d then
       and_then (rxAckLoop d ack M (start_of m d) 0 m) (\<lambda>(n, m1).
         let m2 = m1\<lparr>txSeqNumStart := (txSeqNumStart m1)[unat d := INCR_SEQUENCE_NUM ack],
           txSeqNumPauseCount := (txSeqNumPauseCount m1)[unat d := 0]\<rparr> in
         if INCR_SEQUENCE_NUM ack = end_of m d \<and> M
         then and_then (tx_queue m2) (\<lambda>q. and_then (nodeQueueRemove q d) (\<lambda>q'. Inr (n, st, m2\<lparr>activeTxNodes := Some q'\<rparr>)))
         else Inr (n, st, m2))
     else if pause_of m d > 0 then
       let m1 = m\<lparr>txSeqNumPauseCount := (txSeqNumPauseCount m)[unat d := pause_of m d - 1]\<rparr> in
       if pause_of m d - 1 = 0 then Inr (0, st + 1, m1\<lparr>txSeqNumNext := (txSeqNumNext m1)[unat d := start_of m d]\<rparr>)
       else Inr (0, st, m1)
     else Inr (0, st, m))"
proof -
  have a255: "unat ack < 255" using ack unat_lt_256 [of ack]
    by (auto simp: u8_eq_iff simp del: unat_lt_256 unat_le_255)
  have lens: "unat d < length (txSeqNumEnd m)" "unat d < length (txSeqNumStart m)" "unat d < length (txSeqNumPauseCount m)"
    using core d by (auto simp: tx_core_def tx_shape_def dst_ok_def)
  have valid: "(if end_of m d < start_of m d then ack \<ge> start_of m d \<or> ack < end_of m d
      else ack \<ge> start_of m d \<and> ack < end_of m d) \<longleftrightarrow> seq_dist (start_of m d) ack < buffered m d"
    using in_window_test [OF tx_core_window(1,2) [OF core d] a255] by (simp add: buffered_def)
  show ?thesis
    unfolding rxAckSeqNum_def [of m d ack M st, unfolded if_not_P [OF ack] rd_in [OF lens(1)] rd_in [OF lens(2)]
      rd_in [OF lens(3)] and_then_Inr start_of_def [symmetric] end_of_def [symmetric] pause_of_def [symmetric] Let_def valid] Let_def
    by (rule refl)
qed

text \<open>An acknowledgement of nothing new counts the pause down, to a restart at the oldest packet.\<close>

lemma rxAck_waits:
  assumes inv: "tx_inv M m" and d: "dst_ok m d" and ack: "ack \<noteq> INVALID_SEQUENCE_NUM"
    and out: "\<not> seq_dist (start_of m d) ack < buffered m d"
  shows "\<exists>st' m'. rxAckSeqNum m d ack M st = Inr (0, st', m') \<and> tx_inv M m' \<and> tx_frame m m' \<and>
    only_at M m m' d \<and> window_of M m' d = w_ack ack (window_of M m d) \<and> st' = (if pause_of m d = 1 then st + 1 else st)"
proof -
  have core: "tx_core M m" using inv by (simp add: tx_inv_def)
  note unfolded = rxAck_unfold [OF core d ack, of st, unfolded if_not_P [OF out] Let_def]
  have lens: "unat d < length (txSeqNumStart m)" "unat d < length (txSeqNumNext m)" "unat d < length (txSeqNumPauseCount m)"
    using core d by (auto simp: tx_core_def tx_shape_def dst_ok_def)
  have none: "w_acked ack (window_of M m d) = 0" using ack out by (simp add: w_acked_def window_of_def)
  let ?p = "\<lambda>v. m\<lparr>txSeqNumPauseCount := (txSeqNumPauseCount m)[unat d := v]\<rparr>"
  have views: "dst_ok (?p v) = dst_ok m" "start_of (?p v) = start_of m" "sent (?p v) = sent m"
    "buffered (?p v) = buffered m" "pending M (?p v) = pending M m" for v
    by (rule tx_views_cong; simp)+
  have pause: "pause_of (?p v) d' = (if d' = d then v else pause_of m d')" for v d'
    using lens by (simp add: pause_of_def nth_upd_u8)
  have corep: "tx_core M (?p v)" for v
    using core tx_core_cong [of "?p v" m M] by simp
  have invp: "tx_inv M (?p v)" for v
    using corep by (intro tx_inv_view [OF _ _ inv]) (simp_all add: views)
  have "pause_of m d = 0 \<or> pause_of m d = 1 \<or> pause_of m d > 1"
    by (auto simp: u8_simps u8_eq_iff)
  then consider "pause_of m d = 0" | "pause_of m d = 1" | "pause_of m d > 1" by blast
  then show ?thesis
  proof cases
    case 1
    then show ?thesis
      using inv ack by (intro exI [of _ st] exI [of _ m])
        (simp add: unfolded tx_frame_def only_at_def w_ack_def none, simp add: window_of_def)
  next
    case 2
    obtain m3 where m3: "m3 = (?p 0)\<lparr>txSeqNumNext := (txSeqNumNext (?p 0))[unat d := start_of m d]\<rparr>"
      by blast
    have dp: "dst_ok (?p 0) d" using d by (simp add: views)
    have moved: "tx_core M m3" "pending M m3 = pending M m" "sent m3 d = 0"
      using move_next [OF corep [of 0] dp, of "start_of m d"] tx_core_window(1) [OF core d]
      unfolding m3 [symmetric] by (simp_all add: views)
    have dstm: "dst_ok m3 = dst_ok m" "start_of m3 = start_of m" "buffered m3 = buffered m"
      "pause_of m3 = pause_of (?p 0)"
      by (simp_all add: m3 fun_eq_iff start_of_def pause_of_def dst_ok_def buffered_def end_of_def)
    have "sent m3 d' = sent m d'" if "d' \<noteq> d" for d'
      using lens that by (simp add: m3 sent_def start_of_def next_of_def nth_upd_u8)
    then have "only_at M m m3 d"
      using moved by (simp add: only_at_def window_of_eq dstm pause)
    moreover have "window_of M m3 d = w_ack ack (window_of M m d)"
      unfolding w_ack_def none using moved 2 ack by (simp add: window_of_def dstm pause)
    moreover have "tx_inv M m3"
      using moved(1) by (intro tx_inv_view [OF _ _ inv]) (simp_all add: dstm, simp add: m3)
    moreover have "rxAckSeqNum m d ack M st = Inr (0, st + 1, m3)" and "tx_frame m m3"
      using 2 by (simp_all add: unfolded m3 tx_frame_def)
    ultimately show ?thesis using 2 by auto
  next
    case 3
    then have "pause_of m d - 1 \<noteq> 0" "pause_of m d > 0" "pause_of m d \<noteq> 1"
      by (auto simp: u8_simps u8_eq_iff)
    then show ?thesis
      using invp none ack 3 by (intro exI [of _ st] exI [of _ "?p (pause_of m d - 1)"])
        (auto simp: unfolded tx_frame_def only_at_def w_ack_def window_of_def views pause)
  qed
qed

text \<open>The window after the loop has freed the acknowledged packets.\<close>

lemma rxAck_releases:
  assumes core: "tx_core M m" and d: "dst_ok m d" and ack: "ack \<noteq> INVALID_SEQUENCE_NUM"
    and within: "seq_dist (start_of m d) ack < buffered m d"
  shows "\<exists>m1 m2. rxAckLoop d ack M (start_of m d) 0 m = Inr (of_nat (Suc (seq_dist (start_of m d) ack)), m1) \<and>
    m2 = m1\<lparr>txSeqNumStart := (txSeqNumStart m1)[unat d := INCR_SEQUENCE_NUM ack],
      txSeqNumPauseCount := (txSeqNumPauseCount m1)[unat d := 0]\<rparr> \<and>
    tx_core M m2 \<and> tx_frame m m2 \<and> activeTxNodes m2 = activeTxNodes m \<and> only_at M m m2 d \<and>
    window_of M m2 d = w_ack ack (window_of M m d) \<and> (\<forall>d'. d' \<noteq> d \<longrightarrow> buffered m2 d' = buffered m d') \<and>
    (INCR_SEQUENCE_NUM ack = end_of m d \<longleftrightarrow> buffered m2 d = 0)"
proof -
  note win = tx_core_window [OF core d]
  let ?k = "seq_dist (start_of m d) ack" and ?new = "INCR_SEQUENCE_NUM ack"
  have a255: "unat ack < 255" using ack unat_lt_256 [of ack]
    by (auto simp: u8_eq_iff simp del: unat_lt_256 unat_le_255)
  have lens: "unat d < length (txSeqNumStart m)" "unat d < length (txSeqNumPauseCount m)"
    using core d by (auto simp: tx_core_def tx_shape_def dst_ok_def)
  have acked: "w_acked ack (window_of M m d) = Suc ?k" using ack within by (simp add: w_acked_def window_of_def)
  have new: "?new = seq_of (unat (start_of m d) + Suc ?k)"
    using seq_of_dist(1) [OF win(1) a255] INCR_seq_of by (metis add_Suc_right)
  obtain sto nx where loop: "let m' = m\<lparr>packetStore := sto, txSeqNumNext := nx\<rparr> in
    rxAckLoop d ack M (start_of m d) 0 m = Inr (0 + of_nat (Suc ?k), m') \<and> tx_core M (at_start m' d ?new) \<and>
    pending M (at_start m' d ?new) d = drop (Suc ?k) (pending M m d) \<and>
    (\<forall>d'. dst_ok m d' \<longrightarrow> d' \<noteq> d \<longrightarrow>
      pending M (at_start m' d ?new) d' = pending M m d' \<and> next_of m' d' = next_of m d') \<and>
    sent (at_start m' d ?new) d = sent m d - Suc ?k"
    using ack_loop [of M m d "start_of m d" "Suc ?k" ack 0] core d within new
    unfolding at_start_self [OF d] Let_def by auto
  obtain m' where m': "m' = m\<lparr>packetStore := sto, txSeqNumNext := nx\<rparr>" by blast
  note loop = loop [unfolded Let_def m' [symmetric]]
  obtain m2 where m2: "m2 = m'\<lparr>txSeqNumStart := (txSeqNumStart m')[unat d := ?new],
    txSeqNumPauseCount := (txSeqNumPauseCount m')[unat d := 0]\<rparr>" by blast
  have same: "pending M m2 = pending M (at_start m' d ?new)" "sent m2 = sent (at_start m' d ?new)"
    by (rule tx_views_cong; simp add: m2)+
  have core2: "tx_core M m2"
    using loop by (subst tx_core_cong [of _ "at_start m' d ?new"]) (simp_all add: m2)
  have dst2: "dst_ok m2 = dst_ok m" and end2: "end_of m2 = end_of m" and next2: "next_of m2 = next_of m'"
    by (simp_all add: m2 m' fun_eq_iff dst_ok_def end_of_def next_of_def)
  have start2: "start_of m2 d' = (if d' = d then ?new else start_of m d')" for d'
    using d by (simp add: m2 m' start_of_def dst_ok_def nth_upd_u8)
  have pause2: "pause_of m2 d' = (if d' = d then 0 else pause_of m d')" for d'
    using lens by (simp add: m2 m' pause_of_def nth_upd_u8)
  have win2: "window_of M m2 d = w_ack ack (window_of M m d)"
    using loop start2 [of d] pause2 [of d] ack
    by (simp add: window_of_def w_ack_def acked [unfolded window_of_def] same)
  have only: "only_at M m m2 d"
    using loop start2 pause2 by (auto simp: only_at_def dst2 window_of_eq same(1) sent_def next2)
  have bufo: "\<forall>d'. d' \<noteq> d \<longrightarrow> buffered m2 d' = buffered m d'" using start2 by (simp add: buffered_def end2)
  have final: "?new = end_of m d \<longleftrightarrow> buffered m2 d = 0"
    using seq_dist_eq_0 [OF INCR_SEQUENCE_NUM_less win(2)] start2 [of d]
    by (simp add: buffered_def [of m2] end2)
  have "tx_frame m m2" "activeTxNodes m2 = activeTxNodes m" by (simp_all add: tx_frame_def m2 m')
  then show ?thesis using loop core2 win2 only bufo final by (intro exI [of _ m'] exI [of _ m2]) (simp add: m2)
qed

text \<open>On the master a destination whose last packet was acknowledged leaves the queue.\<close>

lemma rxAck_dequeues:
  assumes inv: "tx_inv M m" and core: "tx_core M m2" and dst: "dst_ok m2 = dst_ok m" and q: "activeTxNodes m2 = activeTxNodes m"
    and d: "dst_ok m d" "0 < buffered m d" and others: "\<forall>d'. d' \<noteq> d \<longrightarrow> buffered m2 d' = buffered m d'"
    and final: "e \<longleftrightarrow> buffered m2 d = 0"
  shows "\<exists>qo. (if e \<and> M then and_then (tx_queue m2) (\<lambda>q. and_then (nodeQueueRemove q d) (\<lambda>q'. Inr (n, st, m2\<lparr>activeTxNodes := Some q'\<rparr>)))
      else Inr (n, st, m2)) = Inr (n, st, m2\<lparr>activeTxNodes := qo\<rparr>) \<and> tx_inv M (m2\<lparr>activeTxNodes := qo\<rparr>)"
proof -
  have coreq: "tx_core M (m2\<lparr>activeTxNodes := qo\<rparr>)" and dstq: "dst_ok (m2\<lparr>activeTxNodes := qo\<rparr>) = dst_ok m" and
    bufq: "buffered (m2\<lparr>activeTxNodes := qo\<rparr>) = buffered m2" for qo
    using core tx_core_cong [of "m2\<lparr>activeTxNodes := qo\<rparr>" m2 M]
      tx_views_cong(2,6) [of "m2\<lparr>activeTxNodes := qo\<rparr>" m2] dst by simp_all
  have invq: "tx_inv M (m2\<lparr>activeTxNodes := qo\<rparr>)"
    if "M \<longrightarrow> (\<exists>q. qo = Some q \<and> wf_queue q \<and> (\<forall>x\<in>set (queue_ids q). node_id x) \<and>
        set (queue_ids q) = {d'. dst_ok m d' \<and> 0 < buffered m2 d'})"
      and "\<not> M \<longrightarrow> qo = None" for qo
    using that coreq [of qo] unfolding tx_inv_def tx_queued_def bufq dstq by auto
  show ?thesis
  proof (cases "e \<and> M")
    case emptied: True
    then obtain q where q': "activeTxNodes m = Some q" "wf_queue q"
      "set (queue_ids q) = {d. dst_ok m d \<and> 0 < buffered m d}" "\<forall>d\<in>set (queue_ids q). node_id d"
      using inv by (auto simp: tx_inv_def tx_queued_def split: option.splits)
    have "d \<in> set (queue_ids q)" using d q'(3) by auto
    then obtain r where r: "nodeQueueRemove q d = Inr r" "wf_queue r" "queue_ids r = remove1 d (queue_ids q)"
      using nodeQueueRemove_member [OF q'(2)] by blast
    have ids: "set (queue_ids r) = set (queue_ids q) - {d}" using q'(2) r(3) by (simp add: wf_queue_def)
    have bpos: "0 < buffered m2 d' \<longleftrightarrow> d' \<noteq> d \<and> 0 < buffered m d'" for d'
      using final emptied others by (cases "d' = d") simp_all
    have "tx_inv M (m2\<lparr>activeTxNodes := Some r\<rparr>)"
      using emptied q' r(2) unfolding bpos by (intro invq) (auto simp: ids bpos)
    then show ?thesis using emptied q q'(1) r(1) by (intro exI [of _ "Some r"]) (simp add: tx_queue_def)
  next
    case left: False
    have bpos: "0 < buffered m2 d' \<longleftrightarrow> 0 < buffered m d'" if M for d'
      using final left that others d(2) by (cases "d' = d") auto
    have "tx_inv M (m2\<lparr>activeTxNodes := activeTxNodes m\<rparr>)"
      using inv by (intro invq) (auto simp: tx_inv_def tx_queued_def bpos split: option.splits)
    then show ?thesis using left q by (intro exI [of _ "activeTxNodes m"]) (metis (no_types, lifting) tTxManager.surjective tTxManager.update_convs)
  qed
qed

lemma rxAck_spec:
  assumes inv: "tx_inv M m" and d: "dst_ok m d"
  shows "\<exists>n st' m'. rxAckSeqNum m d ack M st = Inr (n, st', m') \<and> tx_inv M m' \<and> tx_frame m m' \<and>
    only_at M m m' d \<and> window_of M m' d = w_ack ack (window_of M m d) \<and>
    unat n = w_acked ack (window_of M m d) \<and>
    st' = (if ack \<noteq> INVALID_SEQUENCE_NUM \<and> n = 0 \<and> pause_of m d = 1 then st + 1 else st)"
proof (cases "ack = INVALID_SEQUENCE_NUM")
  case True
  then show ?thesis
    using inv by (intro exI [of _ 0] exI [of _ st] exI [of _ m])
      (simp add: rxAckSeqNum_def tx_frame_def only_at_def w_ack_def w_acked_def)
next
  case ack: False
  have core: "tx_core M m" using inv by (simp add: tx_inv_def)
  let ?k = "seq_dist (start_of m d) ack"
  show ?thesis
  proof (cases "?k < buffered m d")
    case False
    then have "w_acked ack (window_of M m d) = 0" using ack by (simp add: w_acked_def window_of_def)
    then show ?thesis using rxAck_waits [OF inv d ack False, of st] ack by (intro exI [of _ "0 :: u8"]) auto
  next
    case True
    from rxAck_releases [OF core d ack True] obtain m1 m2 where f: "rxAckLoop d ack M (start_of m d) 0 m = Inr (of_nat (Suc ?k), m1)"
      "m2 = m1\<lparr>txSeqNumStart := (txSeqNumStart m1)[unat d := INCR_SEQUENCE_NUM ack],
        txSeqNumPauseCount := (txSeqNumPauseCount m1)[unat d := 0]\<rparr>"
      "tx_core M m2" "tx_frame m m2" "activeTxNodes m2 = activeTxNodes m" "only_at M m m2 d"
      "window_of M m2 d = w_ack ack (window_of M m d)" "\<forall>d'. d' \<noteq> d \<longrightarrow> buffered m2 d' = buffered m d'"
      "INCR_SEQUENCE_NUM ack = end_of m d \<longleftrightarrow> buffered m2 d = 0"
      by (elim exE conjE) (rule that)
    have n: "unat (of_nat (Suc ?k) :: u8) = Suc ?k"
      using True tx_core_window(5) [OF core d] by (intro unat_u8_of_nat) simp
    have dst: "dst_ok m2 = dst_ok m" using f(6) by (simp add: only_at_def)
    have pos: "0 < buffered m d" using True by simp
    from rxAck_dequeues [OF inv f(3) dst f(5) d pos f(8,9), of "of_nat (Suc ?k)" st] obtain qo where
      r: "rxAckSeqNum m d ack M st = Inr (of_nat (Suc ?k), st, m2\<lparr>activeTxNodes := qo\<rparr>)" "tx_inv M (m2\<lparr>activeTxNodes := qo\<rparr>)"
      unfolding rxAck_unfold [OF core d ack] if_P [OF True] f(1) and_then_Inr prod.case Let_def f(2) [symmetric] by blast
    have "window_of M (m2\<lparr>activeTxNodes := qo\<rparr>) = window_of M m2" "dst_ok (m2\<lparr>activeTxNodes := qo\<rparr>) = dst_ok m2"
      by (auto simp: fun_eq_iff window_of_eq pause_of_def dst_ok_def intro: tx_views_cong [THEN fun_cong])
    then have "only_at M m (m2\<lparr>activeTxNodes := qo\<rparr>) d" "window_of M (m2\<lparr>activeTxNodes := qo\<rparr>) d = w_ack ack (window_of M m d)"
      using f(6,7) by (simp_all add: only_at_def)
    moreover have "tx_frame m (m2\<lparr>activeTxNodes := qo\<rparr>)" using f(4) by (simp add: tx_frame_def)
    moreover have "(of_nat (Suc ?k) :: u8) \<noteq> 0" using n by (metis unat_0 nat.distinct(1))
    moreover have "w_acked ack (window_of M m d) = Suc ?k" using ack True by (simp add: w_acked_def window_of_def)
    ultimately show ?thesis using r n by (metis (no_types, lifting))
  qed
qed


section \<open>Removing a destination\<close>

definition no_window :: tWindow where
  "no_window = \<lparr>w_packets = [], w_first = 0, w_sent = 0, w_pause = 0\<rparr>"

lemma owned_count:
  assumes core: "tx_core True m" and d: "dst_ok m d" and none: "allocatedPacket m = None"
  shows "length (filter (\<lambda>e. master_dstNodeId (packet e) = d \<and> inUse e) (es m)) = buffered m d"
proof -
  let ?I = "{i. i < length (es m) \<and> master_dstNodeId (packet (es m ! i)) = d \<and> inUse (es m ! i)}"
  let ?key = "\<lambda>i. key True (es m ! i)" and ?W = "(\<lambda>k. (d, slot_seq m d k)) ` {..<buffered m d}"
  have I: "i \<in> ?I \<longleftrightarrow> owned m i \<and> fst (?key i) = d" for i
    by (auto simp: owned_def none key_def)
  have img: "?key ` ?I = ?W"
  proof
    show "?key ` ?I \<subseteq> ?W"
    proof
      fix x assume "x \<in> ?key ` ?I"
      then obtain i where i: "owned m i" "fst (?key i) = d" "x = ?key i" using I by blast
      then obtain d' k where "k < buffered m d'" "?key i = (d', slot_seq m d' k)"
        using core unfolding tx_core_def tx_stored_def by blast
      with i show "x \<in> ?W" by auto
    qed
    show "?W \<subseteq> ?key ` ?I"
    proof
      fix x assume "x \<in> ?W"
      then obtain k where k: "k < buffered m d" "x = (d, slot_seq m d k)" by auto
      then obtain i where "owned m i" "?key i = x"
        using core d unfolding tx_core_def tx_stored_def by blast
      moreover from this have "i \<in> ?I" using k(2) I [of i] by auto
      ultimately show "x \<in> ?key ` ?I" by (intro image_eqI [of _ _ i]) auto
    qed
  qed
  have inj: "inj_on ?key ?I"
  proof (rule inj_onI)
    fix i j assume "i \<in> ?I" "j \<in> ?I" and eq: "?key i = ?key j"
    then have "owned m i" "owned m j" using I by blast+
    then show "i = j" using eq by (rule owned_key_inj [OF core])
  qed
  have "card ?W = buffered m d"
    using tx_core_window(5) [OF core d] by (subst card_image) (auto simp: inj_on_def slot_seq_inj)
  then have "card ?I = buffered m d" using card_image [OF inj] unfolding img by linarith
  then show ?thesis by (simp add: length_filter_conv_card)
qed

text \<open>How the entries of two states differ when all packets for one destination are gone.\<close>

definition emptied :: "tTxManager \<Rightarrow> tTxManager \<Rightarrow> u8 \<Rightarrow> bool" where
  "emptied m m' d \<longleftrightarrow> dst_ok m' = dst_ok m \<and> length (es m') = length (es m) \<and>
     (\<forall>i. owned m' i \<longleftrightarrow> owned m i \<and> fst (key True (es m ! i)) \<noteq> d) \<and>
     (\<forall>i<length (es m). key True (es m' ! i) = key True (es m ! i) \<and> packet (es m' ! i) = packet (es m ! i)) \<and>
     (\<forall>d'. buffered m' d' = (if d' = d then 0 else buffered m d')) \<and>
     (\<forall>d' k. d' \<noteq> d \<longrightarrow> slot_seq m' d' k = slot_seq m d' k)"

lemma owned_len: "owned m i \<Longrightarrow> i < length (es m)"
  by (simp add: owned_def)

lemma emptied_stored:
  assumes core: "tx_core True m" and e: "emptied m m' d"
  shows "tx_stored True m'"
  unfolding tx_stored_def
proof (intro conjI allI impI)
  fix i assume "owned m' i"
  then have i: "owned m i" "fst (key True (es m ! i)) \<noteq> d" using e by (auto simp: emptied_def)
  then obtain d' k where "dst_ok m d'" "k < buffered m d'" "key True (es m ! i) = (d', slot_seq m d' k)"
    using core unfolding tx_core_def tx_stored_def by blast
  with i e show "\<exists>d k. dst_ok m' d \<and> k < buffered m' d \<and> key True (es m' ! i) = (d, slot_seq m' d k)"
    by (intro exI [of _ d'] exI [of _ k]) (simp add: emptied_def owned_len)
next
  fix d' k assume k: "dst_ok m' d'" "k < buffered m' d'"
  then have "d' \<noteq> d" "k < buffered m d'" "dst_ok m d'" using e by (simp_all add: emptied_def split: if_splits)
  moreover from this obtain i where "owned m i" "key True (es m ! i) = (d', slot_seq m d' k)"
    using core unfolding tx_core_def tx_stored_def by blast
  ultimately show "\<exists>i. owned m' i \<and> key True (es m' ! i) = (d', slot_seq m' d' k)"
    using e by (intro exI [of _ i]) (simp add: emptied_def owned_len)
qed

lemma emptied_first:
  assumes core: "tx_core True m" and e: "emptied m m' d" and none: "allocatedPacket m' = None"
  shows "tx_first True m'"
  unfolding tx_first_def
proof (intro conjI allI impI)
  fix j i assume j: "owned m' j" and i: "i < j"
  then have "owned m j" "j < length (es m)" "i < length (es m)" using e owned_len [of m j] by (auto simp: emptied_def)
  then show "key True (es m' ! i) \<noteq> key True (es m' ! j)"
    using core e i unfolding tx_core_def tx_first_def by (simp add: emptied_def)
qed (simp_all add: none)

lemma emptied_pending:
  assumes core: "tx_core True m" and e: "emptied m m' d" and core': "tx_core True m'" and d': "dst_ok m d'" "d' \<noteq> d"
  shows "pending True m' d' = pending True m d'"
proof (rule pending_eqI [OF core'])
  show "dst_ok m' d'" "length (pending True m d') = buffered m' d'" using d' e by (simp_all add: emptied_def)
  fix k assume "k < buffered m' d'"
  then have "k < buffered m d'" using d' e by (simp add: emptied_def)
  from pending_entry [OF core d'(1) this] obtain i where i: "owned m i"
    "key True (es m ! i) = (d', slot_seq m d' k)" "pending True m d' ! k = packet (es m ! i)" by blast
  then show "\<exists>i. owned m' i \<and> key True (es m' ! i) = (d', slot_seq m' d' k) \<and>
      packet (es m' ! i) = pending True m d' ! k"
    using d' e by (intro exI [of _ i]) (simp add: emptied_def owned_len)
qed

lemma removeNode_spec:
  assumes inv: "tx_inv True m" and d: "dst_ok m d" and none: "allocatedPacket m = None"
  shows "\<exists>m'. masterTxManagerRemoveNode m d n = Inr (n + of_nat (buffered m d), m') \<and> tx_inv True m' \<and>
    allocatedPacket m' = None \<and> rxSeqNum m' = (rxSeqNum m)[unat d := NULL_SEQUENCE_NUM] \<and>
    only_at True m m' d \<and> window_of True m' d = no_window"
proof -
  have core: "tx_core True m" using inv by (simp add: tx_inv_def)
  have lens: "unat d < length (txSeqNumEnd m)" "unat d < length (txSeqNumStart m)"
    "unat d < length (txSeqNumNext m)" "unat d < length (txSeqNumPauseCount m)" "unat d < length (rxSeqNum m)"
    "unat (maxEntries (packetStore m)) = length (es m)"
    using core d by (auto simp: tx_core_def tx_shape_def dst_ok_def)
  obtain q where q: "activeTxNodes m = Some q" "wf_queue q"
    "set (queue_ids q) = {d. dst_ok m d \<and> 0 < buffered m d}" "\<forall>d\<in>set (queue_ids q). node_id d"
    using inv by (auto simp: tx_inv_def tx_queued_def split: option.splits)
  obtain q' where q': "nodeQueueRemoveIfExists q d = Inr q'" "wf_queue q'" "queue_ids q' = remove1 d (queue_ids q)"
    using nodeQueueRemoveIfExists_spec [OF q(2)] by blast
  have ids: "set (queue_ids q') = set (queue_ids q) - {d}"
    using q(2) q'(3) by (simp add: wf_queue_def)
  let ?gone = "\<lambda>e. master_dstNodeId (packet e) = d \<and> inUse e"
  let ?free = "\<lambda>e. if ?gone e then e\<lparr>inUse := False\<rparr> else e"
  obtain m' where m': "m' = m\<lparr>activeTxNodes := Some q',
      packetStore := (packetStore m)\<lparr>entries := map ?free (es m),
        numFreed := numFreed (packetStore m) + of_nat (buffered m d)\<rparr>,
      txSeqNumStart := (txSeqNumStart m)[unat d := 0], txSeqNumEnd := (txSeqNumEnd m)[unat d := 0],
      txSeqNumNext := (txSeqNumNext m)[unat d := 0], txSeqNumPauseCount := (txSeqNumPauseCount m)[unat d := 0],
      rxSeqNum := (rxSeqNum m)[unat d := NULL_SEQUENCE_NUM]\<rparr>" by blast
  have run: "masterTxManagerRemoveNode m d n = Inr (n + of_nat (buffered m d), m')"
    using lens q(1) q'(1) owned_count [OF core d none]
    by (simp add: masterTxManagerRemoveNode_def tx_queue_def Let_def m')
  have es': "es m' = map ?free (es m)" by (simp add: m')
  have dst: "dst_ok m' = dst_ok m" by (simp add: m' fun_eq_iff dst_ok_def)
  have ats: "start_of m' d' = (if d' = d then 0 else start_of m d')"
    "end_of m' d' = (if d' = d then 0 else end_of m d')"
    "next_of m' d' = (if d' = d then 0 else next_of m d')"
    "pause_of m' d' = (if d' = d then 0 else pause_of m d')" for d'
    using lens by (simp_all add: m' start_of_def end_of_def next_of_def pause_of_def nth_upd_u8)
  have bufs: "buffered m' d' = (if d' = d then 0 else buffered m d')"
    "sent m' d' = (if d' = d then 0 else sent m d')" for d'
    by (simp_all add: buffered_def sent_def ats)
  have e: "emptied m m' d"
    unfolding emptied_def
  proof (intro conjI allI impI)
    show "owned m' i \<longleftrightarrow> owned m i \<and> fst (key True (es m ! i)) \<noteq> d" for i
      by (auto simp: owned_def es' key_def m' none split: if_splits)
    show "key True (es m' ! i) = key True (es m ! i)" "packet (es m' ! i) = packet (es m ! i)" if "i < length (es m)" for i
      using that by (simp_all add: es' key_def)
  qed (simp_all add: dst es' bufs slot_seq_def ats)
  have "tx_shape True m'"
    using core by (auto simp: tx_core_def tx_shape_def es') (auto simp: m')
  moreover have "tx_windows m'"
    using core by (auto simp: tx_core_def tx_windows_def dst ats bufs)
  moreover have none': "allocatedPacket m' = None" by (simp add: m' none)
  ultimately have core': "tx_core True m'"
    using emptied_stored [OF core e] emptied_first [OF core e] by (simp add: tx_core_def)
  have "set (queue_ids q') = {d'. dst_ok m d' \<and> 0 < buffered m' d'}"
    unfolding ids q(3) bufs by auto
  moreover have "activeTxNodes m' = Some q'" by (simp add: m')
  moreover have "\<forall>x\<in>set (queue_ids q'). node_id x" using q(4) ids by auto
  ultimately have "tx_inv True m'"
    unfolding tx_inv_def tx_queued_def dst using core' q'(2) by auto
  moreover have "only_at True m m' d"
    using emptied_pending [OF core e core'] by (auto simp: only_at_def dst window_of_eq ats bufs)
  moreover have "window_of True m' d = no_window"
    by (simp add: window_of_def no_window_def ats bufs pending_def)
  moreover have "rxSeqNum m' = (rxSeqNum m)[unat d := NULL_SEQUENCE_NUM]" by (simp add: m')
  ultimately show ?thesis using run none' by blast
qed

end
