(* ===== verification/TxSearch.thy ===== *)
theory TxSearch
  imports TxOps
begin

text \<open>
  The callers' view of \<^verbatim>\<open>src/src/txManager.c\<close>: the state that \<open>initTxManager\<close> sets up, header
  fields written into a stored packet when it is sent, the node's next packet, and the
  master's search over the active destinations, which is shown to offer the turn to every
  active destination until one has a packet to send.
\<close>

section \<open>The initial state\<close>

lemma init_inv:
  assumes len: "length ps = unat k" "unat k < 255" and wf: "\<forall>e\<in>set ps. wf_packet (packet e)"
    and n: "unat n \<le> MAX_NODES" "M \<or> unat n = 1"
    and q: "q = (if M then Some zero_queue else None)"
  shows "tx_inv M (initTxManager n q k ps)"
proof -
  let ?m = "initTxManager n q k ps"
  have free: "\<not> inUse (es ?m ! i)" if "i < length (es ?m)" for i
    using that len by (simp add: initTxManager_def)
  have at: "start_of ?m d = 0" "end_of ?m d = 0" "next_of ?m d = 0" "buffered ?m d = 0" "sent ?m d = 0"
    if "dst_ok ?m d" for d
    using that by (simp_all add: initTxManager_def dst_ok_def start_of_def end_of_def next_of_def
        buffered_def sent_def)
  have none: "\<not> owned ?m i" for i using free by (auto simp: owned_def)
  have "tx_shape M ?m" using assms by (auto simp: tx_shape_def initTxManager_def)
  moreover have "tx_windows ?m" by (simp add: tx_windows_def at)
  moreover have "tx_stored M ?m" by (simp add: tx_stored_def none at)
  moreover have "allocatedPacket ?m = None" by (simp add: initTxManager_def)
  then have "tx_first M ?m" unfolding tx_first_def by (simp add: none)
  moreover have "M \<Longrightarrow> tx_queued ?m"
    using at q by (auto simp: tx_queued_def) (auto simp: initTxManager_def)
  moreover have "\<not> M \<Longrightarrow> activeTxNodes ?m = None" using q by (simp add: initTxManager_def)
  ultimately show ?thesis by (simp add: tx_inv_def tx_core_def)
qed

section \<open>Rewriting a stored packet in place\<close>

text \<open>
  The header fields that are filled in when a packet is sent (acknowledgements, schedule,
  buffer level) are written into the stored packet.
\<close>

lemma upd_packet_views [simp]:
  "allocatedPacket (upd_packet i f m) = allocatedPacket m"
  "txSeqNumStart (upd_packet i f m) = txSeqNumStart m" "txSeqNumEnd (upd_packet i f m) = txSeqNumEnd m"
  "txSeqNumNext (upd_packet i f m) = txSeqNumNext m"
  "txSeqNumPauseCount (upd_packet i f m) = txSeqNumPauseCount m" "rxSeqNum (upd_packet i f m) = rxSeqNum m"
  "activeTxNodes (upd_packet i f m) = activeTxNodes m" "dst_ok (upd_packet i f m) = dst_ok m"
  "start_of (upd_packet i f m) = start_of m" "end_of (upd_packet i f m) = end_of m"
  "next_of (upd_packet i f m) = next_of m" "pause_of (upd_packet i f m) = pause_of m"
  "buffered (upd_packet i f m) = buffered m" "sent (upd_packet i f m) = sent m"
  "slot_seq (upd_packet i f m) = slot_seq m"
  by (simp_all add: upd_packet_def fun_eq_iff dst_ok_def start_of_def end_of_def next_of_def pause_of_def
      buffered_def sent_def slot_seq_def)

lemma upd_packet_spec:
  assumes inv: "tx_inv M m" and i: "owned m i" and d: "dst_ok m d" and k: "k < buffered m d"
    and key: "key M (es m ! i) = (d, slot_seq m d k)"
    and f: "\<And>p. wf_packet p \<Longrightarrow> wf_packet (f p)" "\<And>p. wf_packet p \<Longrightarrow> txSeqNum (f p) = txSeqNum p"
      "\<And>p. M \<Longrightarrow> wf_packet p \<Longrightarrow> master_dstNodeId (f p) = master_dstNodeId p"
  shows "tx_inv M (upd_packet i f m)" and "only_at M m (upd_packet i f m) d"
    and "window_of M (upd_packet i f m) d =
      (let w = window_of M m d in w\<lparr>w_packets := (w_packets w)[k := f (w_packets w ! k)]\<rparr>)"
proof -
  have core: "tx_core M m" using inv by (simp add: tx_inv_def)
  let ?m = "upd_packet i f m"
  have len: "i < length (es m)" using i by (simp add: owned_def)
  have es': "es ?m = (es m)[i := (es m ! i)\<lparr>packet := f (packet (es m ! i))\<rparr>]"
    by (simp add: upd_packet_def)
  have wf: "wf_packet (packet (es m ! i))" using core len by (simp add: tx_core_def tx_shape_def)
  have keys: "key M (es ?m ! j) = key M (es m ! j)" for j
    using len f(3) [OF _ wf] f(2) [OF wf] by (auto simp: es' nth_list_update key_def)
  have owned: "owned ?m = owned m"
    using len by (auto simp: fun_eq_iff owned_def es' nth_list_update)
  have "tx_shape M ?m"
    using core f(1) [OF wf] set_update_subset_insert [of "es m" i "(es m ! i)\<lparr>packet := f (packet (es m ! i))\<rparr>"]
    by (auto simp: tx_core_def tx_shape_def es') (auto simp: upd_packet_def)
  moreover have "tx_windows ?m" using core by (simp add: tx_core_def tx_windows_def)
  moreover have "tx_stored M ?m" using core by (simp add: tx_core_def tx_stored_def owned keys)
  moreover have "tx_first M ?m"
    using core len unfolding tx_core_def tx_first_def owned keys
    by (auto simp: es' nth_list_update)
  ultimately have core': "tx_core M ?m" by (simp add: tx_core_def)
  then show "tx_inv M ?m" by (rule tx_inv_view [OF _ _ inv]) simp_all
  have unique: "j = i \<longleftrightarrow> d' = d \<and> k' = k"
    if j: "owned m j" "dst_ok m d'" "k' < buffered m d'" "key M (es m ! j) = (d', slot_seq m d' k')" for j d' k'
  proof
    assume "j = i"
    then have "d' = d" "slot_seq m d k' = slot_seq m d k" using j(4) key by auto
    then show "d' = d \<and> k' = k"
      using slot_seq_inj [of k' k m d] j(3) k tx_core_window(5) [OF core d] by simp
  next
    assume "d' = d \<and> k' = k"
    then show "j = i" using owned_key_inj [OF core j(1) i] j(4) key by simp
  qed
  have pend: "pending M ?m d' = (if d' = d then (pending M m d)[k := f (pending M m d ! k)] else pending M m d')"
    if d': "dst_ok m d'" for d'
  proof (rule pending_eqI [OF core'])
    show "dst_ok ?m d'" using d' by simp
    show "length (if d' = d then (pending M m d)[k := f (pending M m d ! k)] else pending M m d')
        = buffered ?m d'" by simp
    fix k' assume "k' < buffered ?m d'"
    then have k': "k' < buffered m d'" by simp
    obtain j where j: "owned m j" "key M (es m ! j) = (d', slot_seq m d' k')"
      "pending M m d' ! k' = packet (es m ! j)"
      using pending_entry [OF core d' k'] by blast
    have "packet (es ?m ! j) = (if d' = d \<and> k' = k then f (pending M m d' ! k') else pending M m d' ! k')"
      using unique [OF j(1) d' k' j(2)] j(3) len by (auto simp: es' nth_list_update)
    then show "\<exists>j. owned ?m j \<and> key M (es ?m ! j) = (d', slot_seq ?m d' k') \<and> packet (es ?m ! j) =
        (if d' = d then (pending M m d)[k := f (pending M m d ! k)] else pending M m d') ! k'"
      using j k k' by (intro exI [of _ j]) (auto simp: owned keys nth_list_update)
  qed
  show "only_at M m ?m d" using pend by (simp add: only_at_def window_of_eq)
  show "window_of M ?m d = (let w = window_of M m d in w\<lparr>w_packets := (w_packets w)[k := f (w_packets w ! k)]\<rparr>)"
    using pend [OF d] by (simp add: window_of_def Let_def)
qed


section \<open>The node's next packet\<close>

definition w_next_stamped :: "u8 \<Rightarrow> tWindow \<Rightarrow> tPacket option \<times> tWindow" where
  "w_next_stamped ack w = (case w_next w of
     (None, w') \<Rightarrow> (None, w')
   | (Some p, w') \<Rightarrow> (Some (set_node_ackSeqNum ack p),
       w'\<lparr>w_packets := (w_packets w')[w_sent w := set_node_ackSeqNum ack p]\<rparr>))"

lemma w_next_Some:
  "w_next w = (Some p, w') \<Longrightarrow> w_packets w' = w_packets w \<and> w_sent w' = Suc (w_sent w) \<and>
     w_first w' = w_first w \<and> w_pause w' = w_pause w \<and> p = w_packets w ! w_sent w"
  by (auto simp: w_next_def split: if_splits)

lemma w_next_None:
  "fst (w_next w) = None \<Longrightarrow> w_packets (snd (w_next w)) = w_packets w \<and>
     w_sent (snd (w_next w)) = w_sent w \<and> w_first (snd (w_next w)) = w_first w"
  by (auto simp: w_next_def split: if_splits)

lemma node_packets_wf [simp]:
  "wf_packet p \<Longrightarrow> wf_packet (set_node_ackSeqNum a p)" "txSeqNum (set_node_ackSeqNum a p) = txSeqNum p"
  by (simp_all add: wf_packet_def set_node_ackSeqNum_def)

lemma nodeGetNext_spec:
  assumes inv: "tx_inv False m" and d: "dst_ok m 0"
  shows "\<exists>r m'. nodeGetNextTxDataPacket m = Inr (r, m') \<and> tx_inv False m' \<and> tx_frame m m' \<and>
    only_at False m m' 0 \<and>
    (fetched m' r, window_of False m' 0) = w_next_stamped (rxSeqNum m ! 0) (window_of False m 0) \<and>
    (\<forall>i. r = Some i \<longrightarrow> owned m' i \<and> sent m 0 < buffered m' 0 \<and>
      key False (es m' ! i) = (0, slot_seq m' 0 (sent m 0)))"
proof -
  have core: "tx_core False m" using inv by (simp add: tx_inv_def)
  have lens: "0 < length (txSeqNumEnd m)" "0 < length (txSeqNumStart m)" "0 < length (rxSeqNum m)"
    using core d by (auto simp: tx_core_def tx_shape_def dst_ok_def)
  obtain r m1 where g: "getNextTxPacketForNode m False 0 = Inr (r, m1)" "tx_inv False m1" "tx_frame m m1"
    "packetStore m1 = packetStore m" "only_at False m m1 0"
    "\<forall>i. r = Some i \<longrightarrow> owned m i \<and> sent m 0 < buffered m 0 \<and> key False (es m ! i) = (0, slot_seq m 0 (sent m 0))"
    "(fetched m1 r, window_of False m1 0) = w_next (window_of False m 0)"
    using getNext_spec [OF inv d] by blast
  have empty: "txSeqNumStart m ! 0 = txSeqNumEnd m ! 0 \<longleftrightarrow> pending False m 0 = []"
    using tx_core_window(1,2) [OF core d] length_pending [of False m 0]
    unfolding start_of_def end_of_def
    by (metis buffered_def end_of_def length_0_conv seq_dist_eq_0 start_of_def unat_0)
  show ?thesis
  proof (cases "pending False m 0 = []")
    case True
    then have "w_next (window_of False m 0) = (None, window_of False m 0)"
      by (simp add: w_next_def window_of_def)
    then show ?thesis
      using True inv lens by (intro exI [of _ None] exI [of _ m])
        (simp add: nodeGetNextTxDataPacket_def empty tx_frame_def only_at_def w_next_stamped_def fetched_def)
  next
    case ne: False
    show ?thesis
    proof (cases r)
      case None
      then have "fst (w_next (window_of False m 0)) = None"
        using g(7) by (metis fetched_def fst_conv option.map_disc_iff)
      then show ?thesis
        using None ne lens g by (intro exI [of _ None] exI [of _ m1])
          (simp add: nodeGetNextTxDataPacket_def empty w_next_stamped_def fetched_def flip: g(7))
    next
      case (Some i)
      let ?ack = "rxSeqNum m ! 0"
      let ?m = "upd_packet i (set_node_ackSeqNum ?ack) m1"
      have i: "owned m i" "sent m 0 < buffered m 0" "key False (es m ! i) = (0, slot_seq m 0 (sent m 0))"
        using g(6) Some by auto
      have d1: "dst_ok m1 0" using g(5) d by (simp add: only_at_def)
      have w: "w_next (window_of False m 0) = (Some (packet (es m1 ! i)), window_of False m1 0)"
        using g(7) Some by (simp add: fetched_def)
      have same: "pending False m1 0 = pending False m 0" "start_of m1 0 = start_of m 0"
        using w_next_Some [OF w] by (simp_all add: window_of_def)
      have i1: "owned m1 i" "sent m 0 < buffered m1 0" "key False (es m1 ! i) = (0, slot_seq m1 0 (sent m 0))"
        using i g(3,4) same length_pending [of False m1 0]
        by (simp_all add: owned_def tx_frame_def slot_seq_def)
      note u = upd_packet_spec [OF g(2) i1(1) d1 i1(2,3), of "set_node_ackSeqNum ?ack"]
      have run: "nodeGetNextTxDataPacket m = Inr (Some i, ?m)"
        using Some ne lens g(1,3) by (simp add: nodeGetNextTxDataPacket_def empty tx_frame_def)
      have "only_at False m ?m 0" using g(5) u(2) by (auto simp: only_at_def)
      moreover have len: "i < length (es m1)" using i1(1) by (simp add: owned_def)
      then have pk: "packet (es ?m ! i) = set_node_ackSeqNum ?ack (packet (es m1 ! i))"
        "owned ?m i" "key False (es ?m ! i) = key False (es m1 ! i)"
        using i1(1) by (simp_all add: upd_packet_def owned_def key_def)
      moreover have "window_of False ?m 0 = snd (w_next_stamped ?ack (window_of False m 0))"
        using u(3) w w_next_Some [OF w] by (simp add: w_next_stamped_def Let_def window_of_def)
      moreover have "fetched ?m (Some i) = fst (w_next_stamped ?ack (window_of False m 0))"
        using pk(1) w by (simp add: w_next_stamped_def fetched_def)
      moreover have "tx_frame m ?m" using g(3) by (simp add: tx_frame_def)
      ultimately show ?thesis
        using run u(1) i1 by (intro exI [of _ "Some i"] exI [of _ ?m]) simp
    qed
  qed
qed

section \<open>The master's search over the active destinations\<close>

lemma w_next_again:
  "fst (w_next w) = None \<Longrightarrow> w_next (snd (w_next w)) = (None, snd (w_next w))"
  by (auto simp: w_next_def u8_simps split: if_splits)

fun scan_list :: "tTxManager \<Rightarrow> u8 list \<Rightarrow> (nat option \<times> tTxManager) res" where
  "scan_list m [] = Inr (None, m)"
| "scan_list m (d # ds) = and_then (getNextTxPacketForNode m True d) (\<lambda>(r, m').
     if r = None then scan_list m' ds else Inr (r, m'))"

text \<open>Outcome of offering the turn to destinations in some order.\<close>

definition scan_ok :: "tTxManager \<Rightarrow> u8 list \<Rightarrow> nat option \<Rightarrow> tTxManager \<Rightarrow> bool" where
  "scan_ok m ds r m' \<longleftrightarrow> tx_inv True m' \<and> tx_frame m m' \<and> packetStore m' = packetStore m \<and>
     activeTxNodes m' = activeTxNodes m \<and> dst_ok m' = dst_ok m \<and>
     (\<forall>d. dst_ok m d \<longrightarrow> window_of True m' d = window_of True m d \<or>
        d \<in> set ds \<and> window_of True m' d = snd (w_next (window_of True m d))) \<and>
     (case r of
        None \<Rightarrow> \<forall>d\<in>set ds. fst (w_next (window_of True m d)) = None
      | Some i \<Rightarrow> \<exists>d\<in>set ds. w_next (window_of True m d) = (Some (packet (es m' ! i)), window_of True m' d) \<and>
          owned m' i \<and> sent m d < buffered m' d \<and> key True (es m' ! i) = (d, slot_seq m' d (sent m d)) \<and>
          (\<forall>d'\<in>set ds. d' \<noteq> d \<longrightarrow> window_of True m' d' = window_of True m d' \<or>
             fst (w_next (window_of True m d')) = None))"

lemma scan_list_spec:
  assumes "tx_inv True m" and "distinct ds" and "\<forall>d\<in>set ds. dst_ok m d"
  shows "\<exists>r m'. scan_list m ds = Inr (r, m') \<and> scan_ok m ds r m'"
  using assms
proof (induction ds arbitrary: m)
  case Nil
  then show ?case by (simp add: scan_ok_def tx_frame_def)
next
  case (Cons d ds)
  then have d: "dst_ok m d" by simp
  obtain r m1 where g: "getNextTxPacketForNode m True d = Inr (r, m1)" "tx_inv True m1" "tx_frame m m1"
    "packetStore m1 = packetStore m" "activeTxNodes m1 = activeTxNodes m" "only_at True m m1 d"
    "\<forall>i. r = Some i \<longrightarrow> owned m i \<and> sent m d < buffered m d \<and> key True (es m ! i) = (d, slot_seq m d (sent m d))"
    "(fetched m1 r, window_of True m1 d) = w_next (window_of True m d)"
    using getNext_spec [OF Cons.prems(1) d] by blast
  have dst: "dst_ok m1 = dst_ok m" and others: "\<And>d'. dst_ok m d' \<Longrightarrow> d' \<noteq> d \<Longrightarrow> window_of True m1 d' = window_of True m d'"
    using g(6) by (auto simp: only_at_def)
  show ?case
  proof (cases r)
    case (Some i)
    then have w: "w_next (window_of True m d) = (Some (packet (es m1 ! i)), window_of True m1 d)"
      using g(8) by (simp add: fetched_def)
    have "pending True m1 d = pending True m d" "start_of m1 d = start_of m d"
      using w_next_Some [OF w] by (simp_all add: window_of_def)
    then have "sent m d < buffered m1 d" "slot_seq m1 d = slot_seq m d"
      using g(7) Some length_pending [of True m1 d] by (simp_all add: slot_seq_def fun_eq_iff)
    moreover have "window_of True m1 x = window_of True m x \<or>
        x \<in> set (d # ds) \<and> window_of True m1 x = snd (w_next (window_of True m x))" if "dst_ok m x" for x
      using others [OF that] w by (cases "x = d") simp_all
    moreover have "\<forall>x\<in>set (d # ds). x \<noteq> d \<longrightarrow> window_of True m1 x = window_of True m x"
      using others Cons.prems(3) by simp
    moreover have "owned m1 i" using g(3,4,7) Some by (simp add: owned_def tx_frame_def)
    ultimately have "scan_ok m (d # ds) r m1"
      using g(2-5,7) w Some dst unfolding scan_ok_def by simp
    then show ?thesis using g(1) Some by simp
  next
    case None
    then have w: "fst (w_next (window_of True m d)) = None" "window_of True m1 d = snd (w_next (window_of True m d))"
      using g(8) by (metis fetched_def fst_conv option.map_disc_iff, metis snd_conv)
    obtain r' m' where ih: "scan_list m1 ds = Inr (r', m')" "scan_ok m1 ds r' m'"
      using Cons.IH [OF g(2)] Cons.prems(2,3) dst by auto
    have d': "d \<notin> set ds" and ds: "\<forall>x\<in>set ds. dst_ok m x \<and> x \<noteq> d" using Cons.prems(2,3) by auto
    have sames: "sent m1 x = sent m x" if "x \<in> set ds" for x
      using others ds that by (auto simp: window_of_eq)
    have ih1: "\<And>x. dst_ok m x \<Longrightarrow> window_of True m' x = window_of True m1 x \<or>
        x \<in> set ds \<and> window_of True m' x = snd (w_next (window_of True m1 x))"
      using ih(2) dst by (simp add: scan_ok_def)
    have wx: "window_of True m1 y = window_of True m y" if "y \<in> set ds" for y
      using others ds that by simp
    have win: "window_of True m' x = window_of True m x \<or>
        x \<in> set (d # ds) \<and> window_of True m' x = snd (w_next (window_of True m x))" if "dst_ok m x" for x
    proof (cases "x = d")
      case True
      then show ?thesis using ih1 [OF that] d' w(2) by simp
    next
      case False
      then show ?thesis using ih1 [OF that] others [OF that] by simp
    qed
    have frames: "tx_inv True m'" "tx_frame m m'" "packetStore m' = packetStore m"
      "activeTxNodes m' = activeTxNodes m" "dst_ok m' = dst_ok m"
      using ih(2) g(3-5) dst by (simp_all add: scan_ok_def tx_frame_def)
    have "scan_ok m (d # ds) r' m'"
    proof (cases r')
      case None
      then show ?thesis
        using ih(2) win w(1) wx frames by (simp add: scan_ok_def)
    next
      case (Some i)
      then obtain x where x: "x \<in> set ds"
        "w_next (window_of True m1 x) = (Some (packet (es m' ! i)), window_of True m' x)"
        "owned m' i" "sent m1 x < buffered m' x" "key True (es m' ! i) = (x, slot_seq m' x (sent m1 x))"
        "\<forall>d'\<in>set ds. d' \<noteq> x \<longrightarrow> window_of True m' d' = window_of True m1 d' \<or>
             fst (w_next (window_of True m1 d')) = None"
        using ih(2) by (auto simp: scan_ok_def)
      have "\<exists>y\<in>set (d # ds). w_next (window_of True m y) = (Some (packet (es m' ! i)), window_of True m' y) \<and>
          owned m' i \<and> sent m y < buffered m' y \<and> key True (es m' ! i) = (y, slot_seq m' y (sent m y)) \<and>
          (\<forall>d'\<in>set (d # ds). d' \<noteq> y \<longrightarrow> window_of True m' d' = window_of True m d' \<or>
             fst (w_next (window_of True m d')) = None)"
        using x wx sames w(1) by (intro bexI [of _ x]) auto
      then show ?thesis
        using win frames Some unfolding scan_ok_def by simp
    qed
    then show ?thesis using g(1) None ih(1) by auto
  qed
qed


definition scan_from :: "u8 list \<Rightarrow> nat \<Rightarrow> nat \<Rightarrow> nat \<Rightarrow> u8 list" where
  "scan_from ids n i r = map (\<lambda>j. ids ! ((Suc i + j) mod n)) [0..<r]"

lemma scan_from_Suc:
  "scan_from ids n i (Suc r) = ids ! (Suc i mod n) # scan_from ids n (Suc i mod n) r"
proof -
  have "[0..<Suc r] = 0 # map Suc [0..<r]" by (simp add: upt_conv_Cons map_Suc_upt del: upt_Suc)
  moreover have "(Suc (Suc i mod n) + x) mod n = (Suc i + Suc x) mod n" for x
    by (metis add_Suc add_Suc_right mod_Suc_eq mod_add_left_eq)
  ultimately show ?thesis by (simp add: scan_from_def comp_def del: upt_Suc)
qed

lemma scan_from_all: "i < length xs \<Longrightarrow> scan_from xs (length xs) i (length xs) = rotate (Suc i) xs"
  by (rule nth_equalityI) (simp_all add: scan_from_def nth_rotate del: rotate_Suc)

lemma masterScan_scan:
  assumes "n = unat (numNodes q)" "n \<le> length (nodeIds q)" "i < n" "lst < n"
    and "(i + r) mod n = lst" "r \<le> n" "0 < r" "r \<le> k"
    and "scan_list m (scan_from (nodeIds q) n i r) = Inr (res, m')"
  shows "\<exists>i'<n. masterScan k q lst i m = Inr (res, i', m')"
  using assms(3-)
proof (induction r arbitrary: i k m)
  case 0
  then show ?case by simp
next
  case (Suc r)
  then obtain k' where k: "k = Suc k'" "r \<le> k'" by (cases k) auto
  let ?i = "Suc i mod n"
  have i': "?i < n" "(if Suc i \<ge> n then 0 else Suc i) = ?i" using Suc.prems(1) by (auto simp: mod_Suc)
  obtain r1 m1 where g: "getNextTxPacketForNode m True (nodeIds q ! ?i) = Inr (r1, m1)"
    "(if r1 = None then scan_list m1 (scan_from (nodeIds q) n ?i r) else Inr (r1, m1)) = Inr (res, m')"
    using Suc.prems(7) by (auto simp: scan_from_Suc and_then_eq_Inr)
  have run: "masterScan k q lst i m = (if ?i \<noteq> lst \<and> r1 = None then masterScan k' q lst ?i m1 else Inr (r1, ?i, m1))"
    using i' assms(1,2) g(1) by (simp add: k Let_def)
  have last: "?i = lst \<longleftrightarrow> r = 0"
    using mod_window_inj [of 0 n r "Suc i"] Suc.prems(3,4) by auto
  show ?case
  proof (cases "r1 = None \<and> r \<noteq> 0")
    case True
    then have "\<exists>i'<n. masterScan k' q lst ?i m1 = Inr (res, i', m')"
      using Suc.prems g(2) i'(1) k by (intro Suc.IH) (simp_all add: mod_add_left_eq)
    then show ?thesis using run last True by simp
  next
    case False
    then have "res = r1" "m' = m1" using g(2) by (auto simp: scan_from_def split: if_splits)
    then show ?thesis using run last False i'(1) by auto
  qed
qed

lemma scan_ok_set: "set ds = set ds' \<Longrightarrow> scan_ok m ds r m' = scan_ok m ds' r m'"
  by (cases r) (simp_all add: scan_ok_def)

lemma scan_ok_cong:
  assumes "packetStore m2 = packetStore m'" "allocatedPacket m2 = allocatedPacket m'"
    "txSeqNumStart m2 = txSeqNumStart m'" "txSeqNumEnd m2 = txSeqNumEnd m'"
    "txSeqNumNext m2 = txSeqNumNext m'"
    and same: "txSeqNumPauseCount m2 = txSeqNumPauseCount m'" "rxSeqNum m2 = rxSeqNum m'"
    "activeTxNodes m2 = activeTxNodes m'"
  shows "tx_inv M m2 = tx_inv M m'" and "window_of M m2 = window_of M m'"
    and "scan_ok m ds r m2 = scan_ok m ds r m'"
proof -
  note v = tx_views_cong [OF assms(1-5)]
  show inv: "tx_inv M m2 = tx_inv M m'" for M
    using tx_core_cong [OF assms(1-5)] same v
    by (cases "activeTxNodes m'") (simp_all add: tx_inv_def tx_queued_def)
  show w: "window_of M m2 = window_of M m'" for M
    using v same by (simp add: fun_eq_iff window_of_def pause_of_def)
  show "scan_ok m ds r m2 = scan_ok m ds r m'"
    unfolding scan_ok_def inv w v tx_frame_def assms(1,2) same by (rule refl)
qed

lemma scan_ok_single:
  assumes "tx_inv True m" and "dst_ok m d"
  shows "\<exists>r m'. getNextTxPacketForNode m True d = Inr (r, m') \<and> scan_ok m [d] r m'"
proof -
  obtain r m' where s: "scan_list m [d] = Inr (r, m')" "scan_ok m [d] r m'"
    using scan_list_spec [OF assms(1), of "[d]"] assms(2) by auto
  obtain r1 m1 where g: "getNextTxPacketForNode m True d = Inr (r1, m1)"
    using getNext_spec [OF assms] by blast
  with s(1) have "r1 = r" "m1 = m'" by (auto split: if_splits)
  with g s show ?thesis by blast
qed

text \<open>Offering the turn to \<open>d\<close> first and then, if it declines, to a list with \<open>d\<close> in it.\<close>

lemma scan_ok_trans:
  assumes a: "scan_ok m [d] None m1" and b: "scan_ok m1 ds r m'" and d: "d \<in> set ds"
    and ok: "\<forall>x\<in>set ds. dst_ok m x"
  shows "scan_ok m ds r m'"
proof -
  have dst: "dst_ok m1 = dst_ok m" using a by (simp add: scan_ok_def)
  have idle: "fst (w_next (window_of True m d)) = None" using a by (simp add: scan_ok_def)
  have w1: "window_of True m1 x = window_of True m x \<or> x = d \<and> window_of True m1 x = snd (w_next (window_of True m x))"
    if "dst_ok m x" for x using a that by (auto simp: scan_ok_def)
  have nx: "fst (w_next (window_of True m1 x)) = fst (w_next (window_of True m x)) \<and>
      (window_of True m1 x = window_of True m x \<or>
       fst (w_next (window_of True m x)) = None \<and> snd (w_next (window_of True m1 x)) = snd (w_next (window_of True m x)))"
    if "dst_ok m x" for x
    using w1 [OF that] w_next_again idle by (metis fst_conv snd_conv)
  have "window_of True m' x = window_of True m x \<or>
      x \<in> set ds \<and> window_of True m' x = snd (w_next (window_of True m x))" if "dst_ok m x" for x
    using b w1 [OF that] nx [OF that] d dst that unfolding scan_ok_def by metis
  moreover have "tx_inv True m'" "tx_frame m m'" "packetStore m' = packetStore m"
    "activeTxNodes m' = activeTxNodes m" "dst_ok m' = dst_ok m"
    using a b by (simp_all add: scan_ok_def tx_frame_def)
  moreover have "case r of
        None \<Rightarrow> \<forall>d\<in>set ds. fst (w_next (window_of True m d)) = None
      | Some i \<Rightarrow> \<exists>d\<in>set ds. w_next (window_of True m d) = (Some (packet (es m' ! i)), window_of True m' d) \<and>
          owned m' i \<and> sent m d < buffered m' d \<and> key True (es m' ! i) = (d, slot_seq m' d (sent m d)) \<and>
          (\<forall>d'\<in>set ds. d' \<noteq> d \<longrightarrow> window_of True m' d' = window_of True m d' \<or>
             fst (w_next (window_of True m d')) = None)"
  proof (cases r)
    case None
    then show ?thesis using b nx ok by (simp add: scan_ok_def)
  next
    case (Some i)
    then obtain x where x: "x \<in> set ds"
      "w_next (window_of True m1 x) = (Some (packet (es m' ! i)), window_of True m' x)"
      "owned m' i" "sent m1 x < buffered m' x" "key True (es m' ! i) = (x, slot_seq m' x (sent m1 x))"
      "\<forall>d'\<in>set ds. d' \<noteq> x \<longrightarrow> window_of True m' d' = window_of True m1 d' \<or>
           fst (w_next (window_of True m1 d')) = None"
      using b by (auto simp: scan_ok_def)
    have same: "window_of True m1 x = window_of True m x"
      using nx [of x] ok x(1,2) by (metis fst_conv option.distinct(1))
    then have "sent m1 x = sent m x" by (simp add: window_of_eq)
    moreover have "window_of True m' y = window_of True m y \<or> fst (w_next (window_of True m y)) = None"
      if "y \<in> set ds" "y \<noteq> x" for y
      using x(6) that nx [of y] ok by metis
    ultimately show ?thesis using Some x same by auto
  qed
  ultimately show ?thesis by (simp add: scan_ok_def)
qed

lemma masterGetNext_spec:
  assumes inv: "tx_inv True m" and q: "activeTxNodes m = Some q"
  shows "\<exists>r m'. masterGetNextTxDataPacket m burst = Inr (r, m') \<and> scan_ok m (queue_ids q) r m'"
proof (cases "numNodes q = 0")
  case True
  then have "queue_ids q = []" by (simp add: queue_ids_def)
  then show ?thesis
    using True q inv by (intro exI [of _ None] exI [of _ m])
      (simp add: masterGetNextTxDataPacket_def tx_queue_def scan_ok_def tx_frame_def)
next
  case False
  have wf: "wf_queue q" and ids: "set (queue_ids q) = {d. dst_ok m d \<and> 0 < buffered m d}"
    using inv q by (simp_all add: tx_inv_def tx_queued_def)
  let ?n = "unat (numNodes q)" and ?ids = "queue_ids q"
  have n: "0 < ?n" "?n \<le> 64" "length (nodeIds q) = 64" "length ?ids = ?n"
    using False wf by (simp_all add: wf_queue_def unat_gt_0)
  have nth: "nodeIds q ! j = ?ids ! j" if "j < ?n" for j using that by (simp add: queue_ids_def)
  obtain l where l: "l = (if lastTxQueueIndex m \<ge> numNodes q then ?n - 1 else unat (lastTxQueueIndex m))" by blast
  have ln: "l < ?n" using n by (auto simp: l u8_simps)
  have dl: "nodeIds q ! l \<in> set ?ids" using ln n nth [OF ln] by simp
  then have dok: "dst_ok m (nodeIds q ! l)" and all: "\<forall>x\<in>set ?ids. dst_ok m x" using ids by auto
  have scan: "\<exists>r i' m''. i' < ?n \<and> masterScan ?n q l l m1 = Inr (r, i', m'') \<and> scan_ok m1 ?ids r m''"
    if "tx_inv True m1" "dst_ok m1 = dst_ok m" for m1
  proof -
    have "scan_from (nodeIds q) ?n l ?n = scan_from ?ids ?n l ?n"
      using n(1) by (auto simp: scan_from_def nth)
    also have "\<dots> = rotate (Suc l) ?ids" using scan_from_all [of l ?ids] ln n(4) by simp
    finally have rot: "scan_from (nodeIds q) ?n l ?n = rotate (Suc l) ?ids" .
    have "\<exists>r m'. scan_list m1 (rotate (Suc l) ?ids) = Inr (r, m') \<and> scan_ok m1 (rotate (Suc l) ?ids) r m'"
      using that all wf by (intro scan_list_spec) (simp_all add: wf_queue_def)
    then obtain r m'' where s: "scan_list m1 (rotate (Suc l) ?ids) = Inr (r, m'')"
      "scan_ok m1 (rotate (Suc l) ?ids) r m''" by blast
    have "\<exists>i'<?n. masterScan ?n q l l m1 = Inr (r, i', m'')"
      using n ln s(1) by (intro masterScan_scan [where r = ?n]) (simp_all add: rot)
    then show ?thesis using s(2) scan_ok_set [of "rotate (Suc l) ?ids" ?ids] by auto
  qed
  have fin: "masterGetNextTxDataPacket m burst =
     and_then
       (if burst > 1 \<and> lastTxQueueCount m < burst
        then getNextTxPacketForNode m True (nodeIds q ! l) else Inr (None, m)) (\<lambda>(r, m1).
     case r of
       Some i \<Rightarrow> Inr (Some i, m1\<lparr>lastTxQueueCount := lastTxQueueCount m1 + 1\<rparr>)
     | None \<Rightarrow>
         and_then (masterScan ?n q l l m1) (\<lambda>(r', i, m2).
           let m3 = m2\<lparr>lastTxQueueIndex := of_nat i\<rparr> in
           case r' of
             Some p \<Rightarrow> Inr (Some p, m3\<lparr>lastTxQueueCount := 1\<rparr>)
           | None \<Rightarrow> Inr (None, m3)))"
    using False q ln n by (simp add: masterGetNextTxDataPacket_def tx_queue_def Let_def flip: l)
  have bump: "scan_ok m ds r (m1\<lparr>lastTxQueueCount := c\<rparr>) = scan_ok m ds r m1"
    "scan_ok m ds r (m1\<lparr>lastTxQueueIndex := j\<rparr>) = scan_ok m ds r m1" for ds r m1 c j
    by (rule scan_ok_cong; simp)+
  have tail: "\<exists>r' m'. and_then (masterScan ?n q l l m1) (\<lambda>(r', i, m2).
           let m3 = m2\<lparr>lastTxQueueIndex := of_nat i\<rparr> in
           case r' of
             Some p \<Rightarrow> Inr (Some p, m3\<lparr>lastTxQueueCount := 1\<rparr>)
           | None \<Rightarrow> Inr (None, m3)) = Inr (r', m') \<and> scan_ok m1 ?ids r' m'"
    if m1ok: "tx_inv True m1" "dst_ok m1 = dst_ok m" for m1
  proof -
    obtain r i' m'' where s: "masterScan ?n q l l m1 = Inr (r, i', m'')" "scan_ok m1 ?ids r m''"
      using scan [OF m1ok] by auto
    have bump1: "scan_ok m1 ds r (m2\<lparr>lastTxQueueCount := c\<rparr>) = scan_ok m1 ds r m2"
      "scan_ok m1 ds r (m2\<lparr>lastTxQueueIndex := j\<rparr>) = scan_ok m1 ds r m2" for ds r m2 c j
      by (rule scan_ok_cong; simp)+
    show ?thesis using s by (cases r) (simp_all add: Let_def bump1)
  qed
  show ?thesis
  proof (cases "burst > 1 \<and> lastTxQueueCount m < burst")
    case True
    obtain r m1 where g: "getNextTxPacketForNode m True (nodeIds q ! l) = Inr (r, m1)" "scan_ok m [nodeIds q ! l] r m1"
      using scan_ok_single [OF inv dok] by blast
    show ?thesis
    proof (cases r)
      case (Some i)
      have "window_of True m1 x = window_of True m x" if "x \<in> set ?ids" "x \<noteq> nodeIds q ! l" for x
        using g(2) all that unfolding scan_ok_def by auto
      then have "scan_ok m ?ids r m1" using g(2) dl Some unfolding scan_ok_def by auto
      then show ?thesis using True g(1) Some by (simp add: fin bump)
    next
      case None
      have m1: "tx_inv True m1" "dst_ok m1 = dst_ok m" using g(2) by (simp_all add: scan_ok_def)
      from tail [OF this] scan_ok_trans [OF g(2) [unfolded None] _ dl all] show ?thesis
        using True g(1) None by (auto simp: fin)
    qed
  next
    case False
    with tail [OF inv refl] show ?thesis by (auto simp: fin)
  qed
qed

section \<open>The receiver's check\<close>

lemma check_spec:
  assumes "unat src < length (rxSeqNum m)"
  shows "\<exists>ok v. rxPacketCheckAndUpdateSeqNum m src seq = Inr (ok, m\<lparr>rxSeqNum := (rxSeqNum m)[unat src := v]\<rparr>)"
proof (cases "seq = (if rxSeqNum m ! unat src = NULL_SEQUENCE_NUM then 0 else INCR_SEQUENCE_NUM (rxSeqNum m ! unat src))")
  case True
  then show ?thesis using assms
    by (intro exI [of _ True] exI [of _ seq]) (simp add: rxPacketCheckAndUpdateSeqNum_def Let_def)
next
  case False
  then show ?thesis using assms
    by (intro exI [of _ False] exI [of _ "rxSeqNum m ! unat src"])
      (simp add: rxPacketCheckAndUpdateSeqNum_def Let_def)
qed

lemma rxSeqNum_frame:
  assumes "tx_inv M m" and "length v = length (rxSeqNum m)"
  shows "tx_inv M (m\<lparr>rxSeqNum := v\<rparr>)" "dst_ok (m\<lparr>rxSeqNum := v\<rparr>) = dst_ok m"
    "window_of M (m\<lparr>rxSeqNum := v\<rparr>) = window_of M m"
proof -
  let ?m = "m\<lparr>rxSeqNum := v\<rparr>"
  have views: "dst_ok ?m = dst_ok m" "buffered ?m = buffered m" "pending M ?m = pending M m"
    "start_of ?m = start_of m" "sent ?m = sent m" by (rule tx_views_cong; simp)+
  then show "dst_ok ?m = dst_ok m" "window_of M ?m = window_of M m"
    by (simp_all add: window_of_def fun_eq_iff pause_of_def)
  have "tx_core M ?m" using assms tx_core_cong [of ?m m M] by (simp add: tx_inv_def)
  then show "tx_inv M ?m" using tx_inv_view [OF _ _ assms(1), of ?m] views by simp
qed

end
