(* ===== verification/TxProps.thy ===== *)
theory TxProps
  imports TxSearch "HOL-Library.Sublist"
begin

text \<open>
  The properties of \<^verbatim>\<open>src/src/txManager.c\<close>: no sequence of calls fails, each operation refines
  the abstract window of its destination, the search over the active destinations finds a
  packet whenever there is one, the receiver accepts each stream in order, and the situations
  in which the code does not keep what its comments promise.
\<close>

section \<open>Any sequence of calls\<close>

datatype tx_call =
    Tx_Alloc
  | Tx_Submit u8 u8 tPacketType u16
  | Tx_Next u8
  | Tx_Ack u8 u8
  | Tx_Remove u8
  | Tx_Rx u8 u8

definition tx_do :: "bool \<Rightarrow> tx_call \<Rightarrow> tTxManager \<Rightarrow> tTxManager res" where
  "tx_do M c m = (case c of
     Tx_Alloc \<Rightarrow> and_then (allocateTxPacket m) (\<lambda>(_, m'). Inr m')
   | Tx_Submit src dst t n \<Rightarrow> submitAllocatedTxPacket m M 1 1 src dst t n
   | Tx_Next burst \<Rightarrow>
       and_then (if M then masterGetNextTxDataPacket m burst else nodeGetNextTxDataPacket m) (\<lambda>(_, m'). Inr m')
   | Tx_Ack src ack \<Rightarrow> and_then (rxAckSeqNum m src ack M 0) (\<lambda>(_, _, m'). Inr m')
   | Tx_Remove d \<Rightarrow> and_then (masterTxManagerRemoveNode m d 0) (\<lambda>(_, m'). Inr m')
   | Tx_Rx src seq \<Rightarrow> and_then (rxPacketCheckAndUpdateSeqNum m src seq) (\<lambda>(_, m'). Inr m'))"

text \<open>When the callers make each call; any byte may arrive as an acknowledgement or number.\<close>

fun tx_ok :: "bool \<Rightarrow> tTxManager \<Rightarrow> tx_call \<Rightarrow> bool" where
  "tx_ok M m Tx_Alloc = (allocatedPacket m = None)"
| "tx_ok M m (Tx_Submit src dst t n) = (allocatedPacket m \<noteq> None \<and> dst_ok m dst \<and> unat src < MAX_NODES \<and>
     (if M then node_id dst else t \<noteq> MASTER_DATA_PACKET))"
| "tx_ok M m (Tx_Next burst) = True"
| "tx_ok M m (Tx_Ack src ack) = dst_ok m src"
| "tx_ok M m (Tx_Remove d) = (M \<and> dst_ok m d \<and> allocatedPacket m = None)"
| "tx_ok M m (Tx_Rx src seq) = dst_ok m src"

inductive tx_reach :: "bool \<Rightarrow> tTxManager \<Rightarrow> tTxManager \<Rightarrow> bool" for M m0 where
  tx_start: "tx_reach M m0 m0"
| tx_step: "tx_reach M m0 m \<Longrightarrow> tx_ok M m c \<Longrightarrow> tx_do M c m = Inr m' \<Longrightarrow> tx_reach M m0 m'"

definition tx_good :: "bool \<Rightarrow> tTxManager \<Rightarrow> bool" where
  "tx_good M m \<longleftrightarrow> tx_inv M m \<and> 0 < length (txSeqNumStart m)"

lemma dst_len: "dst_ok m' = dst_ok m \<Longrightarrow> 0 < length (txSeqNumStart m) \<Longrightarrow> 0 < length (txSeqNumStart m')"
  by (metis dst_ok_def unat_0)

lemma tx_good_len:
  assumes "tx_good M m" and "dst_ok m d"
  shows "unat d < length (rxSeqNum m)"
  using assms by (simp add: tx_good_def tx_inv_def tx_core_def tx_shape_def dst_ok_def)

lemma tx_good_step:
  assumes good: "tx_good M m" and ok: "tx_ok M m c"
  shows "\<exists>m'. tx_do M c m = Inr m' \<and> tx_good M m' \<and> dst_ok m' = dst_ok m"
proof -
  have inv: "tx_inv M m" and pos: "0 < length (txSeqNumStart m)" using good by (simp_all add: tx_good_def)
  have fin: "?thesis" if "tx_do M c m = Inr m'" "tx_inv M m'" "dst_ok m' = dst_ok m" for m'
    using that dst_len [OF that(3) pos] by (auto simp: tx_good_def)
  show ?thesis
  proof (cases c)
    case Tx_Alloc
    show ?thesis
    proof (cases "\<exists>e\<in>set (es m). \<not> inUse e")
      case True
      then show ?thesis
        using allocate_free [OF inv _ True] ok Tx_Alloc fin by (auto simp: tx_do_def)
    next
      case False
      then show ?thesis using allocate_full [OF inv] inv Tx_Alloc by (intro fin [of m]) (simp_all add: tx_do_def)
    qed
  next
    case (Tx_Submit src dst t n)
    then obtain a where a: "allocatedPacket m = Some a" using ok by auto
    have "\<exists>m'. submitAllocatedTxPacket m M 1 1 src dst t n = Inr m' \<and> tx_inv M m' \<and> only_at M m m' dst"
      using submit_spec [OF inv a, of dst 1 1 src t n] ok Tx_Submit by (auto split: if_splits)
    then show ?thesis using fin Tx_Submit by (auto simp: tx_do_def only_at_def)
  next
    case (Tx_Next burst)
    show ?thesis
    proof (cases M)
      case True
      then obtain q where "activeTxNodes m = Some q"
        using inv by (auto simp: tx_inv_def tx_queued_def split: option.splits)
      then show ?thesis
        using masterGetNext_spec [of m q burst] inv True fin Tx_Next by (auto simp: tx_do_def scan_ok_def)
    next
      case False
      have "dst_ok m 0" using pos by (simp add: dst_ok_def)
      then show ?thesis
        using nodeGetNext_spec [of m] inv False fin Tx_Next by (auto simp: tx_do_def only_at_def)
    qed
  next
    case (Tx_Ack src ack)
    then show ?thesis
      using rxAck_spec [OF inv, of src ack 0] ok fin by (auto simp: tx_do_def only_at_def)
  next
    case (Tx_Remove d)
    then show ?thesis
      using removeNode_spec [of m d 0] inv ok fin by (auto simp: tx_do_def only_at_def)
  next
    case (Tx_Rx src seq)
    then have len: "unat src < length (rxSeqNum m)" using tx_good_len [OF good] ok by simp
    have "\<exists>b v. rxPacketCheckAndUpdateSeqNum m src seq = Inr (b, m\<lparr>rxSeqNum := (rxSeqNum m)[unat src := v]\<rparr>)"
    proof (cases "seq = (if rxSeqNum m ! unat src = NULL_SEQUENCE_NUM then 0 else INCR_SEQUENCE_NUM (rxSeqNum m ! unat src))")
      case True
      then show ?thesis using len
        by (intro exI [of _ True] exI [of _ seq]) (simp add: rxPacketCheckAndUpdateSeqNum_def Let_def)
    next
      case False
      then show ?thesis using len
        by (intro exI [of _ False] exI [of _ "rxSeqNum m ! unat src"])
          (simp add: rxPacketCheckAndUpdateSeqNum_def Let_def)
    qed
    then obtain b v where run: "rxPacketCheckAndUpdateSeqNum m src seq = Inr (b, m\<lparr>rxSeqNum := (rxSeqNum m)[unat src := v]\<rparr>)"
      by blast
    let ?m = "m\<lparr>rxSeqNum := (rxSeqNum m)[unat src := v]\<rparr>"
    have "dst_ok ?m = dst_ok m" "buffered ?m = buffered m" by (rule tx_views_cong; simp)+
    moreover have "tx_core M ?m" using inv tx_core_cong [of ?m m M] by (simp add: tx_inv_def)
    ultimately show ?thesis
      using run Tx_Rx tx_inv_view [OF _ _ inv, of ?m] by (intro fin [of ?m]) (simp_all add: tx_do_def)
  qed
qed

lemma tx_reach_good:
  assumes "tx_reach M m0 m" and "tx_good M m0"
  shows "tx_good M m"
  using assms
proof (induction rule: tx_reach.induct)
  case tx_start
  then show ?case .
next
  case (tx_step m c m')
  then show ?case using tx_good_step [of M m c] by auto
qed




lemma window_of_fields:
  "w_packets (window_of M m d) = pending M m d" "w_first (window_of M m d) = start_of m d"
  "w_sent (window_of M m d) = sent m d" "w_pause (window_of M m d) = pause_of m d"
  by (simp_all add: window_of_def)

lemma pending_Nil_iff: "pending M m d = [] \<longleftrightarrow> buffered m d = 0"
  by (metis length_0_conv length_pending)

section \<open>Demonstration states\<close>

definition tx_demo :: tTxManager where
  "tx_demo = initTxManager 1 None 4 (replicate 4 zero_entry)"

lemma tx_demo_inv [simp]: "tx_inv False tx_demo" "dst_ok tx_demo 0" "allocatedPacket tx_demo = None"
    "es tx_demo = replicate 4 zero_entry" "rxSeqNum tx_demo = [255]"
  using init_inv [of "replicate 4 zero_entry" 4 1 False None]
  by (simp_all add: tx_demo_def zero_entry_def dst_ok_def) (simp_all add: initTxManager_def)

lemma tx_demo_window: "window_of False tx_demo 0 = no_window"
  by (simp add: tx_demo_def initTxManager_def window_of_def no_window_def pending_def buffered_def
      sent_def start_of_def end_of_def next_of_def pause_of_def)

text \<open>One packet submitted.\<close>

lemma tx_demo_submitted:
  obtains m a m' p where "allocateTxPacket tx_demo = Inr (Some a, m)"
    "submitAllocatedTxPacket m False 0 0 5 0 NODE_DATA_PACKET 3 = Inr m'" "tx_inv False m'"
    "dst_ok m' 0" "allocatedPacket m' = None" "window_of False m' 0 = w_push p no_window"
proof -
  have "\<exists>e\<in>set (es tx_demo). \<not> inUse e" by (simp add: zero_entry_def)
  from allocate_free [OF tx_demo_inv(1,3) this] obtain a m where m: "allocateTxPacket tx_demo = Inr (Some a, m)"
    "tx_inv False m" "allocatedPacket m = Some a" "dst_ok m = dst_ok tx_demo"
    "window_of False m 0 = window_of False tx_demo 0" by auto
  have d: "dst_ok m 0" using m(4) by simp
  from submit_spec [OF m(2,3) d, of 0 0 5 NODE_DATA_PACKET 3] m(4,5) that [OF m(1)] show ?thesis
    by (auto simp: only_at_def tx_demo_window)
qed

section \<open>Refinement of the abstract window\<close>

text \<open>
  Submitting the allocated packet appends it to its destination's window, stamped
  with version, type, size, addressee and the next sequence number, its payload untouched;
  the windows of the other destinations do not change.
\<close>

lemma tx_submit_appends:
  assumes "tx_inv M m" and "allocatedPacket m = Some a" and "dst_ok m d"
    and "M \<longrightarrow> 0 < ttl \<and> 0 < ttl' \<and> node_id d" and "unat s < MAX_NODES" and "M \<or> t \<noteq> MASTER_DATA_PACKET"
  shows "\<exists>m' p. submitAllocatedTxPacket m M ttl ttl' s d t n = Inr m' \<and> tx_inv M m' \<and>
    allocatedPacket m' = None \<and> window_of M m' d = w_push p (window_of M m d) \<and> only_at M m m' d \<and>
    udata p = udata (packet (es m ! a)) \<and> GET_PROTOCOL_VERSION p = MICROBUS_VERSION \<and>
    GET_PACKET_TYPE p = packet_code t \<and> GET_PACKET_DATA_SIZE p = n \<and> txSeqNum p = end_of m d \<and>
    (if M then master_dstNodeId p = d else node_srcNodeId p = s)"
proof -
  have "wf_packet (packet (es m ! a))"
    using assms(1,2) by (simp add: tx_inv_def tx_core_def tx_shape_def tx_first_def)
  note stamp = stamp_facts [OF this]
  from submit_spec [OF assms, of n] obtain m' where "submitAllocatedTxPacket m M ttl ttl' s d t n = Inr m'"
    "tx_inv M m'" "allocatedPacket m' = None" "only_at M m m' d"
    "window_of M m' d = w_push (stampPacket M t n s d (end_of m d) (packet (es m ! a))) (window_of M m d)"
    by blast
  then show ?thesis
    by (intro exI [of _ m'] exI [of _ "stampPacket M t n s d (end_of m d) (packet (es m ! a))"])
      (simp add: stamp)
qed

lemma tx_submit_appends_witness:
  "\<exists>a m m' p. allocateTxPacket tx_demo = Inr (Some a, m) \<and>
     submitAllocatedTxPacket m False 0 0 5 0 NODE_DATA_PACKET 3 = Inr m' \<and>
     window_of False m' 0 = w_push p no_window \<and> node_srcNodeId p = 5"
proof -
  have "\<exists>e\<in>set (es tx_demo). \<not> inUse e" by (simp add: zero_entry_def)
  from allocate_free [OF tx_demo_inv(1,3) this] obtain a m where m: "allocateTxPacket tx_demo = Inr (Some a, m)"
    "tx_inv False m" "allocatedPacket m = Some a" "dst_ok m 0"
    "window_of False m 0 = window_of False tx_demo 0" by auto
  from tx_submit_appends [OF m(2-4), of 0 0 5 NODE_DATA_PACKET 3] m(1,5) show ?thesis
    by (auto simp: tx_demo_window)
qed

text \<open>
  Claim C10. Asking for a destination's next packet is the abstract step: nothing while paused
  or empty, a pause when all buffered packets or a full window have been sent, otherwise the
  packet at the next pointer, which advances by one. No packet is removed, and no other
  destination's window changes.
\<close>

theorem tx_next_refines:
  assumes "tx_inv M m" and "dst_ok m d"
  shows "\<exists>r m'. getNextTxPacketForNode m M d = Inr (r, m') \<and> tx_inv M m' \<and> only_at M m m' d \<and>
    packetStore m' = packetStore m \<and> (fetched m' r, window_of M m' d) = w_next (window_of M m d)"
  using getNext_spec [OF assms] by blast

theorem tx_next_refines_witness:
  "\<exists>a m m1 p r m'. allocateTxPacket tx_demo = Inr (Some a, m) \<and>
     submitAllocatedTxPacket m False 0 0 5 0 NODE_DATA_PACKET 3 = Inr m1 \<and>
     getNextTxPacketForNode m1 False 0 = Inr (r, m') \<and> fetched m' r = Some p \<and> sent m' 0 = 1"
proof -
  obtain m a m1 p where m: "allocateTxPacket tx_demo = Inr (Some a, m)"
    "submitAllocatedTxPacket m False 0 0 5 0 NODE_DATA_PACKET 3 = Inr m1" "tx_inv False m1" "dst_ok m1 0"
    "window_of False m1 0 = w_push p no_window"
    using tx_demo_submitted by metis
  from tx_next_refines [OF m(3,4)] m(5) obtain r m' where
    g: "getNextTxPacketForNode m1 False 0 = Inr (r, m')"
      "(fetched m' r, window_of False m' 0) = w_next (w_push p no_window)" by auto
  have "fetched m' r = Some p" "w_sent (window_of False m' 0) = 1"
    using g(2) by (simp_all add: w_next_def w_push_def no_window_def w_limit_def)
  with m(1,2) g(1) show ?thesis unfolding window_of_fields by blast
qed

text \<open>
  Claim C9. An acknowledgement is the abstract step: a number inside the window releases the
  packets up to and including it, in order, reports how many, ends a pause and moves the next
  pointer past them if it had been sent back; a number outside only counts a pause down, and
  the second of these restarts the window and counts the restart; 255 does nothing at all.
\<close>

theorem tx_ack_refines:
  assumes "tx_inv M m" and "dst_ok m d"
  shows "\<exists>n st' m'. rxAckSeqNum m d ack M st = Inr (n, st', m') \<and> tx_inv M m' \<and> only_at M m m' d \<and>
    window_of M m' d = w_ack ack (window_of M m d) \<and> unat n = w_acked ack (window_of M m d) \<and>
    st' = (if ack \<noteq> INVALID_SEQUENCE_NUM \<and> n = 0 \<and> pause_of m d = 1 then st + 1 else st)"
  using rxAck_spec [OF assms, of ack st] by blast

theorem tx_ack_refines_witness:
  "\<exists>a m m1 n st' m'. allocateTxPacket tx_demo = Inr (Some a, m) \<and>
     submitAllocatedTxPacket m False 0 0 5 0 NODE_DATA_PACKET 3 = Inr m1 \<and>
     rxAckSeqNum m1 0 0 False 7 = Inr (n, st', m') \<and> unat n = 1 \<and> pending False m' 0 = []"
proof -
  obtain m a m1 p where m: "allocateTxPacket tx_demo = Inr (Some a, m)"
    "submitAllocatedTxPacket m False 0 0 5 0 NODE_DATA_PACKET 3 = Inr m1" "tx_inv False m1" "dst_ok m1 0"
    "window_of False m1 0 = w_push p no_window"
    using tx_demo_submitted by metis
  from tx_ack_refines [OF m(3,4), of 0 7] m(5) obtain n st' m' where
    g: "rxAckSeqNum m1 0 0 False 7 = Inr (n, st', m')" "window_of False m' 0 = w_ack 0 (w_push p no_window)"
      "unat n = w_acked 0 (w_push p no_window)" by auto
  have "unat n = 1" "w_packets (window_of False m' 0) = []"
    unfolding g(2,3) by (simp_all add: w_ack_def w_acked_def w_push_def no_window_def)
  with m(1,2) g(1) show ?thesis unfolding window_of_fields by blast
qed

text \<open>
  Two acknowledgements outside the window, after the sender has paused, make it
  retransmit: the next packet it offers is the oldest one not acknowledged.
\<close>

lemma tx_retransmits:
  assumes inv: "tx_inv M m" and d: "dst_ok m d" and pause: "pause_of m d = 2" and ne: "0 < buffered m d"
    and a: "a \<noteq> INVALID_SEQUENCE_NUM" "b \<noteq> INVALID_SEQUENCE_NUM"
    and stale: "buffered m d \<le> seq_dist (start_of m d) a" "buffered m d \<le> seq_dist (start_of m d) b"
  shows "\<exists>m1 m2 r m3. rxAckSeqNum m d a M st = Inr (0, st, m1) \<and>
    rxAckSeqNum m1 d b M st = Inr (0, st + 1, m2) \<and> getNextTxPacketForNode m2 M d = Inr (r, m3) \<and>
    fetched m3 r = Some (hd (pending M m d))"
proof -
  let ?w = "window_of M m d"
  have w: "w_pause ?w = 2" "length (w_packets ?w) = buffered m d" "w_first ?w = start_of m d"
    using pause by (simp_all add: window_of_def)
  obtain n1 s1 m1 where m1: "rxAckSeqNum m d a M st = Inr (n1, s1, m1)" "tx_inv M m1" "only_at M m m1 d"
    "window_of M m1 d = w_ack a ?w" "unat n1 = w_acked a ?w" "s1 = (if a \<noteq> 255 \<and> n1 = 0 \<and> pause_of m d = 1 then st + 1 else st)"
    using rxAck_spec [OF inv d] by blast
  have z1: "w_acked a ?w = 0" using stale a w by (simp add: w_acked_def)
  have w1: "w_ack a ?w = ?w\<lparr>w_pause := 1\<rparr>" using z1 a w by (simp add: w_ack_def)
  have d1: "dst_ok m1 d" using m1(3) d by (simp add: only_at_def)
  have p1: "pause_of m1 d = 1" using m1(4) w1 by (simp add: window_of_def)
  obtain n2 s2 m2 where m2: "rxAckSeqNum m1 d b M st = Inr (n2, s2, m2)" "tx_inv M m2" "only_at M m1 m2 d"
    "window_of M m2 d = w_ack b (window_of M m1 d)" "unat n2 = w_acked b (window_of M m1 d)"
    "s2 = (if b \<noteq> 255 \<and> n2 = 0 \<and> pause_of m1 d = 1 then st + 1 else st)"
    using rxAck_spec [OF m1(2) d1] by blast
  have z2: "w_acked b (window_of M m1 d) = 0" using stale a w by (simp add: m1(4) w1 w_acked_def)
  have w2: "window_of M m2 d = ?w\<lparr>w_pause := 0, w_sent := 0\<rparr>"
    unfolding m2(4) w_ack_def z2 using a by (simp add: m1(4) w1)
  have d2: "dst_ok m2 d" using m2(3) d1 by (simp add: only_at_def)
  obtain r m3 where m3: "getNextTxPacketForNode m2 M d = Inr (r, m3)"
    "(fetched m3 r, window_of M m3 d) = w_next (window_of M m2 d)"
    using getNext_spec [OF m2(2) d2] by blast
  have pk: "w_packets ?w \<noteq> []" using w ne by (metis length_greater_0_conv)
  have "fst (w_next (window_of M m2 d)) = Some (w_packets ?w ! 0)"
    unfolding w2 using pk by (simp add: w_next_def w_limit_def)
  then have "fetched m3 r = Some (hd (pending M m d))"
    using m3(2) pk by (metis fst_conv hd_conv_nth tWindow.select_convs(1) window_of_def)
  moreover have "n1 = 0" "n2 = 0" using m1(5) z1 m2(5) z2 by (simp_all add: u8_eq_iff)
  ultimately show ?thesis using m1(1,6) m2(1,6) m3(1) pause p1 a by auto
qed


section \<open>The master's choice\<close>

definition tx_master_demo :: tTxManager where
  "tx_master_demo = initTxManager 64 (Some zero_queue) 4 (replicate 4 zero_entry)"

lemma tx_master_demo_inv [simp]: "tx_inv True tx_master_demo" "allocatedPacket tx_master_demo = None"
    "es tx_master_demo = replicate 4 zero_entry" "dst_ok tx_master_demo d \<longleftrightarrow> unat d < 64"
    "activeTxNodes tx_master_demo = Some zero_queue"
  using init_inv [of "replicate 4 zero_entry" 4 64 True "Some zero_queue"]
  by (simp_all add: tx_master_demo_def zero_entry_def dst_ok_def) (simp_all add: initTxManager_def)

lemma no_packets_idle: "w_packets w = [] \<Longrightarrow> w_next w = (None, w)"
  by (simp add: w_next_def)

text \<open>
  Claim C11. The master's request for the next data packet always returns, never takes two
  steps for one destination, and is work conserving: it answers NULL only if no destination
  at all could send, and otherwise hands out the packet at the next pointer of some
  destination, no destination with a packet ready having moved besides that one.
\<close>

theorem tx_master_work_conserving:
  assumes inv: "tx_inv True m"
  shows "\<exists>r m'. masterGetNextTxDataPacket m burst = Inr (r, m') \<and> tx_inv True m' \<and>
    (case r of
       None \<Rightarrow> \<forall>d. dst_ok m d \<longrightarrow> fst (w_next (window_of True m d)) = None
     | Some i \<Rightarrow> \<exists>d. dst_ok m d \<and>
         w_next (window_of True m d) = (Some (packet (es m' ! i)), window_of True m' d) \<and>
         (\<forall>d'. dst_ok m d' \<and> d' \<noteq> d \<and> fst (w_next (window_of True m d')) \<noteq> None \<longrightarrow>
            window_of True m' d' = window_of True m d'))"
proof -
  obtain q where q: "activeTxNodes m = Some q" "set (queue_ids q) = {d. dst_ok m d \<and> 0 < buffered m d}"
    using inv by (auto simp: tx_inv_def tx_queued_def split: option.splits)
  obtain r m' where s: "masterGetNextTxDataPacket m burst = Inr (r, m')" "scan_ok m (queue_ids q) r m'"
    using masterGetNext_spec [OF inv q(1)] by blast
  have idle: "w_next (window_of True m d) = (None, window_of True m d)"
    if "dst_ok m d" "d \<notin> set (queue_ids q)" for d
    using that q(2) by (intro no_packets_idle) (simp add: window_of_fields pending_Nil_iff)
  show ?thesis
  proof (cases r)
    case None
    have "fst (w_next (window_of True m d)) = None" if "dst_ok m d" for d
      using s(2) idle [OF that] None by (cases "d \<in> set (queue_ids q)") (simp_all add: scan_ok_def)
    then show ?thesis using s None by (simp add: scan_ok_def)
  next
    case (Some i)
    then obtain d where d: "d \<in> set (queue_ids q)"
      "w_next (window_of True m d) = (Some (packet (es m' ! i)), window_of True m' d)"
      "\<forall>d'\<in>set (queue_ids q). d' \<noteq> d \<longrightarrow> window_of True m' d' = window_of True m d' \<or>
         fst (w_next (window_of True m d')) = None"
      using s(2) by (auto simp: scan_ok_def)
    have "window_of True m' x = window_of True m x"
      if x: "dst_ok m x" "x \<noteq> d" "fst (w_next (window_of True m x)) \<noteq> None" for x
      using d(3) x idle [OF x(1)] by (metis fst_conv)
    then show ?thesis using s d q(2) Some by (auto simp: scan_ok_def)
  qed
qed

theorem tx_master_work_conserving_witness:
  "\<exists>m'. masterGetNextTxDataPacket tx_master_demo 3 = Inr (None, m') \<and> tx_inv True m'"
proof -
  obtain r m' where s: "masterGetNextTxDataPacket tx_master_demo 3 = Inr (r, m')" "tx_inv True m'"
    using tx_master_work_conserving [OF tx_master_demo_inv(1), of 3] by blast
  have "r = None"
    using s(1) by (simp add: masterGetNextTxDataPacket_def tx_queue_def zero_queue_def)
  with s show ?thesis by simp
qed



section \<open>The receiver\<close>

text \<open>Feeding a list of arriving numbers to the check; the accepted ones, in order.\<close>

fun rx_accept :: "tTxManager \<Rightarrow> u8 \<Rightarrow> u8 list \<Rightarrow> (u8 list \<times> tTxManager) res" where
  "rx_accept m src [] = Inr ([], m)"
| "rx_accept m src (s # ss) =
     and_then (rxPacketCheckAndUpdateSeqNum m src s) (\<lambda>(ok, m').
     and_then (rx_accept m' src ss) (\<lambda>(acc, m''). Inr ((if ok then [s] else []) @ acc, m'')))"

definition rx_expects :: "tTxManager \<Rightarrow> u8 \<Rightarrow> nat \<Rightarrow> bool" where
  "rx_expects m src c \<longleftrightarrow> unat src < length (rxSeqNum m) \<and>
     rxSeqNum m ! unat src = (if c = 0 then NULL_SEQUENCE_NUM else seq_of (c - 1))"

lemma rx_check_step:
  assumes "rx_expects m src c"
  shows "rxPacketCheckAndUpdateSeqNum m src s =
     (if s = seq_of c then Inr (True, m\<lparr>rxSeqNum := (rxSeqNum m)[unat src := s]\<rparr>) else Inr (False, m))"
proof -
  have "(if rxSeqNum m ! unat src = NULL_SEQUENCE_NUM then 0 else INCR_SEQUENCE_NUM (rxSeqNum m ! unat src)) = seq_of c"
    using assms by (cases c) (auto simp: rx_expects_def INCR_seq_of)
  then show ?thesis using assms
    by (cases c) (simp_all add: rxPacketCheckAndUpdateSeqNum_def rx_expects_def Let_def INCR_seq_of)
qed

lemma rx_expects_next:
  "rx_expects m src c \<Longrightarrow> rx_expects (m\<lparr>rxSeqNum := (rxSeqNum m)[unat src := seq_of c]\<rparr>) src (Suc c)"
  by (simp add: rx_expects_def)

text \<open>
  Whatever numbers arrive, with losses, repetitions and reorderings, the packets the
  receiver lets through carry consecutive numbers from the one it expects: it delivers a
  gap-free, duplicate-free part of the sender's stream in the sender's order.
\<close>

lemma tx_rx_in_order:
  assumes "rx_expects m src c"
  shows "\<exists>k m'. rx_accept m src ss = Inr (map seq_of [c..<c + k], m') \<and> rx_expects m' src (c + k) \<and>
    subseq (map seq_of [c..<c + k]) ss"
  using assms
proof (induction ss arbitrary: m c)
  case Nil
  then show ?case by (intro exI [of _ 0]) simp
next
  case (Cons s ss)
  show ?case
  proof (cases "s = seq_of c")
    case True
    obtain k m' where "rx_accept (m\<lparr>rxSeqNum := (rxSeqNum m)[unat src := s]\<rparr>) src ss
        = Inr (map seq_of [Suc c..<Suc c + k], m')" "rx_expects m' src (Suc c + k)"
      "subseq (map seq_of [Suc c..<Suc c + k]) ss"
      using Cons.IH [OF rx_expects_next [OF Cons.prems]] True by blast
    moreover have "[c..<c + Suc k] = c # [Suc c..<Suc c + k]" by (simp add: upt_conv_Cons)
    ultimately show ?thesis
      using rx_check_step [OF Cons.prems, of s] True
      by (intro exI [of _ "Suc k"] exI [of _ m']) (simp del: upt_Suc)
  next
    case False
    obtain k m' where "rx_accept m src ss = Inr (map seq_of [c..<c + k], m')" "rx_expects m' src (c + k)"
      "subseq (map seq_of [c..<c + k]) ss"
      using Cons.IH [OF Cons.prems] by blast
    then show ?thesis
      using rx_check_step [OF Cons.prems, of s] False
      by (intro exI [of _ k] exI [of _ m']) (simp add: list_emb_Cons)
  qed
qed

lemma tx_rx_in_order_witness:
  "\<exists>k m'. rx_accept tx_demo 0 [1, 0, 0, 2, 1] = Inr (map seq_of [0..<k], m')"
  using tx_rx_in_order [of tx_demo 0 0 "[1, 0, 0, 2, 1]"] by (auto simp: rx_expects_def)

section \<open>Where the code falls short of its comments\<close>

text \<open>
  Claim C14. The window limit is 4 except next to the wrap of the sequence numbers: when the
  window starts at 251 the limit never applies, so every buffered packet goes out at once,
  and when it starts at 252 to 254 the sender already stops after 3.
\<close>

theorem tx_window_limit:
  assumes inv: "tx_inv M m" and d: "dst_ok m d" and go: "pause_of m d = 0" "sent m d < buffered m d"
  shows "\<exists>r m'. getNextTxPacketForNode m M d = Inr (r, m') \<and>
    (r = None \<longleftrightarrow> (if unat (start_of m d) < 251 then sent m d = 4
                 else if unat (start_of m d) = 251 then False else sent m d = 3))"
proof -
  obtain r m' where g: "getNextTxPacketForNode m M d = Inr (r, m')"
    "(fetched m' r, window_of M m' d) = w_next (window_of M m d)"
    using getNext_spec [OF inv d] by blast
  have "pending M m d \<noteq> []" using go(2) by (simp add: pending_Nil_iff)
  then have "fst (w_next (window_of M m d)) = None \<longleftrightarrow> Some (sent m d) = w_limit (start_of m d)"
    using go by (auto simp: w_next_def window_of_fields)
  moreover have "fst (w_next (window_of M m d)) = None \<longleftrightarrow> r = None"
    unfolding g(2) [symmetric] by (simp add: fetched_def)
  ultimately have "r = None \<longleftrightarrow> Some (sent m d) = w_limit (start_of m d)" by blast
  then show ?thesis using g(1) by (simp add: w_limit_def)
qed


text \<open>A node with five packets buffered, the first numbered 251, four of them sent.\<close>

definition tx_wrap_demo :: tTxManager where
  "tx_wrap_demo = \<lparr>allocatedPacket = None,
     packetStore = \<lparr>entries = map (\<lambda>s. \<lparr>inUse = True, packet = zero_packet\<lparr>txSeqNum := s\<rparr>\<rparr>) [251, 252, 253, 254, 0],
       maxEntries = 5, numStored = 5, numFreed = 0\<rparr>,
     txSeqNumStart = [251], txSeqNumEnd = [1], txSeqNumNext = [0], txSeqNumPauseCount = [0],
     rxSeqNum = [255], maxTxNodes = 1, maxTxBufferLevel = 5, txBufferLevel = 5,
     activeTxNodes = None, lastTxQueueIndex = 0, lastTxQueueCount = 0\<rparr>"

lemma tx_wrap_demo_inv:
  "tx_inv False tx_wrap_demo" "dst_ok tx_wrap_demo 0" "start_of tx_wrap_demo 0 = 251"
  "buffered tx_wrap_demo 0 = 5" "sent tx_wrap_demo 0 = 4" "pause_of tx_wrap_demo 0 = 0"
proof -
  let ?m = tx_wrap_demo
  show at: "start_of ?m 0 = 251" "buffered ?m 0 = 5" "sent ?m 0 = 4" "pause_of ?m 0 = 0"
    by (simp_all add: tx_wrap_demo_def start_of_def buffered_def sent_def pause_of_def end_of_def next_of_def seq_dist_def)
  have dst: "dst_ok ?m d \<longleftrightarrow> d = 0" for d by (simp add: tx_wrap_demo_def dst_ok_def u8_eq_iff)
  then show "dst_ok ?m 0" by simp
  have own: "owned ?m i \<longleftrightarrow> i < 5" for i
    by (auto simp: owned_def tx_wrap_demo_def less_Suc_eq numeral_eq_Suc)
  have slot: "slot_seq ?m 0 i = seq_of (251 + i)" for i by (simp add: slot_seq_def at)
  have keys: "key False (es ?m ! i) = (0, slot_seq ?m 0 i)" if "i < 5" for i
  proof -
    have "i = 0 \<or> i = 1 \<or> i = 2 \<or> i = 3 \<or> i = 4" using that by linarith
    then show ?thesis
      unfolding slot by (auto simp: tx_wrap_demo_def key_def seq_of_def)
  qed
  have "tx_shape False ?m" by (auto simp: tx_shape_def tx_wrap_demo_def wf_packet_def zero_packet_def)
  moreover have "tx_windows ?m" unfolding tx_windows_def dst
    using at by (auto simp: tx_wrap_demo_def start_of_def end_of_def next_of_def)
  moreover have "tx_stored False ?m" unfolding tx_stored_def dst own using keys at(2) by auto
  moreover have "tx_first False ?m"
    unfolding tx_first_def own using keys slot_seq_inj [of _ _ ?m 0]
    by (auto simp: tx_wrap_demo_def [THEN arg_cong, of allocatedPacket])
  ultimately show "tx_inv False ?m" by (simp add: tx_inv_def tx_core_def) (simp add: tx_wrap_demo_def)
qed

text \<open>After the fifth packet the same node pauses.\<close>

lemma tx_paused_demo:
  "\<exists>m. tx_inv False m \<and> dst_ok m 0 \<and> pause_of m 0 = 2 \<and> buffered m 0 = 5 \<and> start_of m 0 = 251"
proof -
  let ?w = "window_of False tx_wrap_demo 0"
  obtain r m1 where m1: "tx_inv False m1" "only_at False tx_wrap_demo m1 0" "(fetched m1 r, window_of False m1 0) = w_next ?w"
    using getNext_spec [OF tx_wrap_demo_inv(1,2)] by blast
  have d1: "dst_ok m1 0" using m1(2) tx_wrap_demo_inv(2) by (simp add: only_at_def)
  obtain r' m2 where m2: "tx_inv False m2" "only_at False m1 m2 0"
    "(fetched m2 r', window_of False m2 0) = w_next (window_of False m1 0)"
    using getNext_spec [OF m1(1) d1] by blast
  have "length (w_packets ?w) = 5" "w_packets ?w \<noteq> []" by (simp_all add: window_of_fields tx_wrap_demo_inv pending_Nil_iff)
  moreover have "w_sent ?w = 4" "w_pause ?w = 0" "w_first ?w = 251"
    by (simp_all add: window_of_fields tx_wrap_demo_inv)
  ultimately have "w_next ?w = (Some (w_packets ?w ! 4), ?w\<lparr>w_sent := 5\<rparr>)" "w_next (?w\<lparr>w_sent := 5\<rparr>) = (None, ?w\<lparr>w_sent := 5, w_pause := 2\<rparr>)"
    by (simp_all add: w_next_def w_limit_def)
  then have "window_of False m2 0 = ?w\<lparr>w_sent := 5, w_pause := 2\<rparr>" using m1(3) m2(3) by simp
  then have "w_pause (window_of False m2 0) = 2" "length (w_packets (window_of False m2 0)) = 5"
      "w_first (window_of False m2 0) = 251"
    using \<open>length (w_packets ?w) = 5\<close> \<open>w_first ?w = 251\<close> by simp_all
  then show ?thesis
    using m2(1,2) d1 by (intro exI [of _ m2]) (simp add: window_of_fields only_at_def)
qed

lemma tx_retransmits_witness:
  "\<exists>m m1 m2 m3 r. pause_of m 0 = 2 \<and> rxAckSeqNum m 0 100 False 0 = Inr (0, 0, m1) \<and>
     rxAckSeqNum m1 0 100 False 0 = Inr (0, 1, m2) \<and> getNextTxPacketForNode m2 False 0 = Inr (r, m3) \<and>
     fetched m3 r \<noteq> None"
proof -
  obtain m where m: "tx_inv False m" "dst_ok m 0" "pause_of m 0 = 2" "buffered m 0 = 5" "start_of m 0 = 251"
    using tx_paused_demo by blast
  have far: "buffered m 0 \<le> seq_dist (start_of m 0) 100" by (simp add: m seq_dist_def)
  have "0 < buffered m 0" by (simp add: m)
  from tx_retransmits [OF m(1-3) this _ _ far far, of 0] obtain m1 m2 r m3 where
    "rxAckSeqNum m 0 100 False 0 = Inr (0, 0, m1)" "rxAckSeqNum m1 0 100 False 0 = Inr (0, 0 + 1, m2)"
    "getNextTxPacketForNode m2 False 0 = Inr (r, m3)" "fetched m3 r = Some (hd (pending False m 0))" by auto
  then show ?thesis using m(3) by (intro exI [of _ m] exI [of _ m1] exI [of _ m2] exI [of _ m3] exI [of _ r]) simp
qed

theorem tx_window_limit_witness:
  "\<exists>i m'. getNextTxPacketForNode tx_wrap_demo False 0 = Inr (Some i, m') \<and> sent tx_wrap_demo 0 = 4"
proof -
  obtain r m' where "getNextTxPacketForNode tx_wrap_demo False 0 = Inr (r, m')" "r \<noteq> None"
    using tx_window_limit [OF tx_wrap_demo_inv(1,2)] tx_wrap_demo_inv(3-6) by auto
  then show ?thesis using tx_wrap_demo_inv(5) by auto
qed

text \<open>
  Claim C16. The buffer level reported to callers is one too high whenever the sequence
  numbers in the buffer span the wrap.
\<close>

theorem tx_buffer_level_off_by_one:
  assumes inv: "tx_inv M m" and d: "dst_ok m d"
  shows "\<exists>n. getNumInTxBuffer m d = Inr n \<and>
    unat n = (if end_of m d < start_of m d then Suc (length (pending M m d)) else length (pending M m d))"
proof -
  have core: "tx_core M m" using inv by (simp add: tx_inv_def)
  note win = tx_core_window [OF core d]
  have lens: "unat d < length (txSeqNumEnd m)" "unat d < length (txSeqNumStart m)"
    using core d by (auto simp: tx_core_def tx_shape_def dst_ok_def)
  have "unat (end_of m d - start_of m d) = (if end_of m d < start_of m d then Suc (buffered m d) else buffered m d)"
  proof (cases "end_of m d < start_of m d")
    case True
    then have "unat (end_of m d - start_of m d) = unat (end_of m d) + 256 - unat (start_of m d)"
      by (simp add: unat_sub_if' u8_simps)
    then show ?thesis using True win(1,2) by (simp add: buffered_def seq_dist_def u8_simps)
  next
    case False
    then show ?thesis by (simp add: buffered_def seq_dist_def unat_sub u8_simps)
  qed
  then show ?thesis using lens by (simp add: getNumInTxBuffer_def end_of_def start_of_def)
qed

theorem tx_buffer_level_off_by_one_witness:
  "getNumInTxBuffer tx_wrap_demo 0 = Inr 6 \<and> length (pending False tx_wrap_demo 0) = 5"
proof -
  obtain n where "getNumInTxBuffer tx_wrap_demo 0 = Inr n" "unat n = 6"
    using tx_buffer_level_off_by_one [OF tx_wrap_demo_inv(1,2)] tx_wrap_demo_inv(3,4)
    by (auto simp: tx_wrap_demo_def end_of_def u8_simps split: if_splits)
  then show ?thesis using tx_wrap_demo_inv(4) by (simp add: u8_eq_iff)
qed

text \<open>Offering turns (True) to a destination whose peer keeps acknowledging 255 (False).\<close>

fun tx_listen :: "bool \<Rightarrow> u8 \<Rightarrow> bool list \<Rightarrow> tTxManager \<Rightarrow> (tPacket list \<times> tTxManager) res" where
  "tx_listen M d [] m = Inr ([], m)"
| "tx_listen M d (True # evs) m = and_then (getNextTxPacketForNode m M d) (\<lambda>(r, m1).
     and_then (tx_listen M d evs m1) (\<lambda>(ps, m2). Inr ((case fetched m1 r of None \<Rightarrow> [] | Some p \<Rightarrow> [p]) @ ps, m2)))"
| "tx_listen M d (False # evs) m = and_then (rxAckSeqNum m d INVALID_SEQUENCE_NUM M 0) (\<lambda>(_, _, m1).
     tx_listen M d evs m1)"

text \<open>
  Claim C13. As long as a peer has not received anything, it acknowledges 255 and the sender
  never retransmits: however many turns and acknowledgements follow, each buffered packet is
  handed out at most once. A stream whose first packet is lost never recovers.
\<close>

theorem tx_first_loss_never_repeated:
  assumes "tx_inv M m" and "dst_ok m d"
  shows "\<exists>ps m'. tx_listen M d evs m = Inr (ps, m') \<and> prefix ps (drop (sent m d) (pending M m d)) \<and>
    pending M m' d = pending M m d"
  using assms
proof (induction evs arbitrary: m)
  case Nil
  then show ?case by simp
next
  case (Cons e evs)
  show ?case
  proof (cases e)
    case False
    then show ?thesis using Cons.IH [OF Cons.prems] by (auto simp: rxAck_invalid)
  next
    case True
    obtain r m1 where g: "getNextTxPacketForNode m M d = Inr (r, m1)" "tx_inv M m1" "only_at M m m1 d"
      "(fetched m1 r, window_of M m1 d) = w_next (window_of M m d)"
      "\<forall>i. r = Some i \<longrightarrow> sent m d < buffered m d"
      using getNext_spec [OF Cons.prems] by blast
    have d1: "dst_ok m1 d" using g(3) Cons.prems(2) by (simp add: only_at_def)
    obtain ps m' where ih: "tx_listen M d evs m1 = Inr (ps, m')" "prefix ps (drop (sent m1 d) (pending M m1 d))"
      "pending M m' d = pending M m1 d"
      using Cons.IH [OF g(2) d1] by blast
    show ?thesis
    proof (cases "fetched m1 r")
      case None
      then have "fst (w_next (window_of M m d)) = None" "window_of M m1 d = snd (w_next (window_of M m d))"
        using g(4) by (metis fst_conv, metis snd_conv)
      then have "pending M m1 d = pending M m d" "sent m1 d = sent m d"
        using w_next_None by (metis window_of_fields(1), metis window_of_fields(3))
      then show ?thesis using True g(1) ih None by simp
    next
      case (Some p)
      then have w: "w_next (window_of M m d) = (Some p, window_of M m1 d)" using g(4) by simp
      have same: "pending M m1 d = pending M m d" "sent m1 d = Suc (sent m d)" "p = pending M m d ! sent m d"
        using w_next_Some [OF w] by (simp_all add: window_of_fields)
      have "sent m d < length (pending M m d)"
        using g(5) Some by (auto simp: fetched_def)
      then have "drop (sent m d) (pending M m d) = p # drop (Suc (sent m d)) (pending M m d)"
        using same(3) by (simp add: Cons_nth_drop_Suc)
      then show ?thesis using True g(1) ih Some same by simp
    qed
  qed
qed

theorem tx_first_loss_never_repeated_witness:
  "\<exists>ps m'. tx_listen False 0 [True, True, False, False, False, True, True] tx_wrap_demo = Inr (ps, m') \<and>
     length ps \<le> 1"
proof -
  obtain ps m' where "tx_listen False 0 [True, True, False, False, False, True, True] tx_wrap_demo = Inr (ps, m')"
    "prefix ps (drop 4 (pending False tx_wrap_demo 0))"
    using tx_first_loss_never_repeated [OF tx_wrap_demo_inv(1,2)] unfolding tx_wrap_demo_inv(5) by metis
  moreover from this(2) have "length ps \<le> 1"
    using prefix_length_le [of ps] tx_wrap_demo_inv(4) by fastforce
  ultimately show ?thesis by blast
qed

text \<open>Messages sent to a node that has left: allocated, filled, refused on submission.\<close>

fun dead_submits :: "nat \<Rightarrow> u8 \<Rightarrow> u16 \<Rightarrow> tTxManager \<Rightarrow> tTxManager res" where
  "dead_submits 0 d n m = Inr m"
| "dead_submits (Suc k) d n m = and_then (allocateTxPacket m) (\<lambda>(r, m1).
     and_then (if r = None then Inr m1
               else submitAllocatedTxPacket m1 True 0 0 MASTER_NODE_ID d MASTER_DATA_PACKET n)
       (dead_submits k d n))"

definition free_entries :: "tTxManager \<Rightarrow> nat" where
  "free_entries m = length (filter (\<lambda>e. \<not> inUse e) (es m))"

lemma free_entries_taken:
  "i < length xs \<Longrightarrow> \<not> inUse (xs ! i) \<Longrightarrow>
   length (filter (\<lambda>e. \<not> inUse e) xs) = Suc (length (filter (\<lambda>e. \<not> inUse e) (xs[i := (xs ! i)\<lparr>inUse := True\<rparr>])))"
proof (induction xs arbitrary: i)
  case (Cons x xs)
  then show ?case by (cases i) auto
qed simp

lemma dead_submits_leak:
  assumes "length (es m) = unat (maxEntries (packetStore m))" and "allocatedPacket m = None"
    and "activeTxNodes m = Some q" and "unat (numNodes q) < MAX_NODES" and "free_entries m \<le> k"
  shows "\<exists>m'. dead_submits k d n m = Inr m' \<and> allocateTxPacket m' = Inr (None, m') \<and>
    txSeqNumStart m' = txSeqNumStart m \<and> txSeqNumEnd m' = txSeqNumEnd m"
  using assms
proof (induction k arbitrary: m)
  case 0
  then have "find_index (\<lambda>e. \<not> inUse e) (es m) = None"
    by (simp add: free_entries_def find_index_None_iff filter_empty_conv)
  then show ?case using 0(1) by (simp add: allocateTxPacket_def allocatePacketEntry_def find_from_0)
next
  case (Suc k)
  show ?case
  proof (cases "find_index (\<lambda>e. \<not> inUse e) (es m)")
    case None
    then have run: "allocateTxPacket m = Inr (None, m)"
      using Suc.prems(1) by (simp add: allocateTxPacket_def allocatePacketEntry_def find_from_0)
    have "free_entries m \<le> k"
      using None by (simp add: free_entries_def find_index_None_iff filter_empty_conv)
    from Suc.IH [OF Suc.prems(1-4) this] show ?thesis by (simp add: run)
  next
    case (Some a)
    note a = find_index_SomeD [OF Some]
    let ?m1 = "m\<lparr>packetStore := (packetStore m)\<lparr>entries := (es m)[a := (es m ! a)\<lparr>inUse := True\<rparr>],
      numStored := numStored (packetStore m) + 1\<rparr>, allocatedPacket := None\<rparr>"
    have run: "and_then (allocateTxPacket m) (\<lambda>(r, m1).
        and_then (if r = None then Inr m1
               else submitAllocatedTxPacket m1 True 0 0 MASTER_NODE_ID d MASTER_DATA_PACKET n)
        (dead_submits k d n)) = dead_submits k d n ?m1"
      using Suc.prems Some
      by (simp add: allocateTxPacket_def allocatePacketEntry_def find_from_0 submitAllocatedTxPacket_def not_le)
    have "Suc (free_entries ?m1) = free_entries m"
      using free_entries_taken [of a "es m"] a by (simp add: free_entries_def)
    then have "\<exists>m'. dead_submits k d n ?m1 = Inr m' \<and> allocateTxPacket m' = Inr (None, m') \<and>
        txSeqNumStart m' = txSeqNumStart ?m1 \<and> txSeqNumEnd m' = txSeqNumEnd ?m1"
      using Suc.prems by (intro Suc.IH) simp_all
    then show ?thesis using run by simp
  qed
qed

text \<open>
  Claim C15. Submitting to a node that has left the network loses the entry for good: after as
  many such submissions as there were free entries no packet can be allocated any more,
  although no destination has a packet more than before.
\<close>

theorem tx_dead_submit_leaks:
  assumes inv: "tx_inv True m" and "allocatedPacket m = None" and "free_entries m \<le> k"
  shows "\<exists>m'. dead_submits k d n m = Inr m' \<and> allocateTxPacket m' = Inr (None, m') \<and>
    (\<forall>x. buffered m' x = buffered m x)"
proof -
  obtain q where q: "activeTxNodes m = Some q"
    using inv by (auto simp: tx_inv_def tx_queued_def split: option.splits)
  have "length (es m) = unat (maxEntries (packetStore m))" using inv tx_core_len by (auto simp: tx_inv_def)
  from dead_submits_leak [OF this assms(2) q tx_queue_room [OF inv q] assms(3), of d n]
  show ?thesis by (auto simp: buffered_def start_of_def end_of_def)
qed

theorem tx_dead_submit_leaks_witness:
  "\<exists>m'. dead_submits 4 9 7 tx_master_demo = Inr m' \<and> allocateTxPacket m' = Inr (None, m') \<and>
     (\<forall>x. buffered m' x = buffered tx_master_demo x)"
  using tx_dead_submit_leaks [of tx_master_demo 4 9 7] by (simp add: free_entries_def zero_entry_def)

end
