(* ===== verification/Scheduler.thy ===== *)
theory Scheduler
  imports NodeQueue
begin

text \<open>
  The master's choice of who transmits in the coming slots, \<^verbatim>\<open>src/src/scheduler.c\<close>. The
  queue \<open>nodeTxNodes\<close> is kept in the scheduler's state; \<open>activeNodes\<close> and
  \<open>activeTxNodes\<close>, which the network manager and the tx manager also point to, are passed
  in and out.
\<close>

section \<open>The code\<close>

abbreviation (input) MAX_MASTER_SLOTS_BETWEEN_ACKS :: nat where "MAX_MASTER_SLOTS_BETWEEN_ACKS \<equiv> 4"
abbreviation (input) MAX_SLOTS_BETWEEN_SERVICING :: nat where "MAX_SLOTS_BETWEEN_SERVICING \<equiv> 6"
abbreviation (input) MIN_SLOTS_BETWEEN_UNALLOCATED :: u8 where "MIN_SLOTS_BETWEEN_UNALLOCATED \<equiv> 2"
abbreviation (input) NUM_SLOTS_BEFORE_ALLOCATION_CHANGED :: u8 where
  "NUM_SLOTS_BEFORE_ALLOCATION_CHANGED \<equiv> 128"

datatype eSchedulerTurn = MASTER_TX | MASTER_RX_ACK | NODE_TX | MAX_TURN

fun incr_turn :: "eSchedulerTurn \<Rightarrow> eSchedulerTurn" where
  "incr_turn MASTER_TX = MASTER_RX_ACK"
| "incr_turn MASTER_RX_ACK = NODE_TX"
| "incr_turn NODE_TX = MAX_TURN"
| "incr_turn MAX_TURN = MAX_TURN"

record tSchedulerState =
  numTxNodesScheduled :: u8
  maxSlotsBetweenUnallocated :: u8
  unallocatedSlotGapUpdateCount :: u8
  unallocatedSlotGap :: u8
  countTillNextAllocation :: u8
  countTillNextService :: u8
  rxAckEndCount :: u8
  nextTurn :: eSchedulerTurn
  nextServiceNode :: u8
  nextMasterRxAckNode :: u8
  nextNodeTxNode :: u8
  recentScheduledNodes :: "u8 list"
  nodeTxBufferLevel :: "u8 list"
  nodeTxNodes :: tNodeQueue

definition NEW_NODE_HEARD_UPDATE_SCHEDULER :: "tSchedulerState \<Rightarrow> tSchedulerState" where
  "NEW_NODE_HEARD_UPDATE_SCHEDULER s =
     s\<lparr>unallocatedSlotGap := MIN_SLOTS_BETWEEN_UNALLOCATED,
       countTillNextAllocation := MIN_SLOTS_BETWEEN_UNALLOCATED\<rparr>"

definition nodeRecentlySent :: "tSchedulerState \<Rightarrow> u8 \<Rightarrow> bool" where
  "nodeRecentlySent s node \<longleftrightarrow>
     list_ex (\<lambda>x. node = x) (take (MAX_MASTER_SLOTS_BETWEEN_ACKS - 1) (recentScheduledNodes s))"

text \<open>The loop of \<open>getNextMasterRxAckNode\<close>, \<open>k\<close> iterations from index \<open>i\<close>.\<close>

fun ackNodeLoop :: "tSchedulerState \<Rightarrow> tNodeQueue \<Rightarrow> nat \<Rightarrow> nat \<Rightarrow> (u8 \<times> tNodeQueue) res" where
  "ackNodeLoop s q i 0 = Inr (INVALID_NODE_ID, q)"
| "ackNodeLoop s q i (Suc k) =
     and_then (getNextNodeInQueue q) (\<lambda>(nodeId, q').
       if \<not> nodeRecentlySent s nodeId then Inr (nodeId, q')
       else and_then (microbusAssert (i < MAX_MASTER_SLOTS_BETWEEN_ACKS)) (\<lambda>_. ackNodeLoop s q' (Suc i) k))"

definition getNextMasterRxAckNode :: "tSchedulerState \<Rightarrow> tNodeQueue \<Rightarrow> (u8 \<times> tNodeQueue) res" where
  "getNextMasterRxAckNode s activeTx = ackNodeLoop s activeTx 0 (unat (numNodes activeTx))"

definition getNextNodeTxNode :: "tSchedulerState \<Rightarrow> (u8 \<times> tSchedulerState) res" where
  "getNextNodeTxNode s =
     (if numNodes (nodeTxNodes s) > 0
      then and_then (getNextNodeInQueue (nodeTxNodes s)) (\<lambda>(nodeId, q). Inr (nodeId, s\<lparr>nodeTxNodes := q\<rparr>))
      else Inr (INVALID_NODE_ID, s))"

definition getNextServiceNode ::
    "tSchedulerState \<Rightarrow> tNodeQueue \<Rightarrow> bool \<Rightarrow> (u8 \<times> tSchedulerState \<times> tNodeQueue) res" where
  "getNextServiceNode s active avoidRecentlyScheduled =
     (let s1 = s\<lparr>countTillNextService := of_nat MAX_SLOTS_BETWEEN_SERVICING\<rparr> in
      if numNodes active > 0 then
        and_then (getNextNodeInQueue active) (\<lambda>(nodeId, active').
          if avoidRecentlyScheduled then
            (if \<not> nodeRecentlySent s1 nodeId then Inr (nodeId, s1, active')
             else Inr (INVALID_NODE_ID, s1, active'))
          else Inr (nodeId, s1, active'))
      else Inr (INVALID_NODE_ID, s1, active))"

text \<open>One pass of the \<^verbatim>\<open>switch\<close>: the node it finds, and the state with the turn advanced.\<close>

definition takeTurn ::
    "tSchedulerState \<Rightarrow> tNodeQueue \<Rightarrow> u8 \<Rightarrow> (u8 \<times> tSchedulerState \<times> tNodeQueue) res" where
  "takeTurn s activeTx masterTxBufferLevel =
     and_then
       (case nextTurn s of
          MASTER_TX \<Rightarrow> Inr (if numTxNodesScheduled s > 1 \<and> masterTxBufferLevel > 0 then MASTER_NODE_ID
                          else INVALID_NODE_ID, s, activeTx)
        | MASTER_RX_ACK \<Rightarrow> and_then (getNextMasterRxAckNode s activeTx) (\<lambda>(n, q). Inr (n, s, q))
        | NODE_TX \<Rightarrow> and_then (getNextNodeTxNode s) (\<lambda>(n, s'). Inr (n, s', activeTx))
        | MAX_TURN \<Rightarrow> Inl Assert_Failed) (\<lambda>(node, s', activeTx').
       let t = incr_turn (nextTurn s') in
       Inr (node, s'\<lparr>nextTurn := (if t = MAX_TURN then MASTER_TX else t)\<rparr>, activeTx'))"

fun turnLoop ::
    "nat \<Rightarrow> tSchedulerState \<Rightarrow> tNodeQueue \<Rightarrow> u8 \<Rightarrow> (u8 \<times> tSchedulerState \<times> tNodeQueue) res" where
  "turnLoop 0 s activeTx level = Inr (INVALID_NODE_ID, s, activeTx)"
| "turnLoop (Suc k) s activeTx level =
     and_then (takeTurn s activeTx level) (\<lambda>(node, s', activeTx').
       if node \<noteq> INVALID_NODE_ID then Inr (node, s', activeTx')
       else turnLoop k s' activeTx' level)"

definition scheduleNextAllocatedNode ::
    "tSchedulerState \<Rightarrow> tNodeQueue \<Rightarrow> tNodeQueue \<Rightarrow> u8 \<Rightarrow>
     (u8 \<times> tSchedulerState \<times> tNodeQueue \<times> tNodeQueue) res" where
  "scheduleNextAllocatedNode s active activeTx masterTxBufferLevel =
     and_then
       (if countTillNextService s = 0 then getNextServiceNode s active True
        else Inr (INVALID_NODE_ID, s, active)) (\<lambda>(node, s1, active1).
     if node \<noteq> INVALID_NODE_ID then Inr (node, s1, active1, activeTx)
     else and_then (turnLoop 3 s1 activeTx masterTxBufferLevel) (\<lambda>(node, s2, activeTx2).
       if node \<noteq> INVALID_NODE_ID then Inr (node, s2, active1, activeTx2)
       else and_then (getNextServiceNode s2 active1 False) (\<lambda>(node, s3, active3).
         Inr (node, s3, active3, activeTx2))))"

definition unallocatedSlot :: "tSchedulerState \<Rightarrow> tSchedulerState" where
  "unallocatedSlot s =
     (let s1 =
        (if unallocatedSlotGap s \<noteq> maxSlotsBetweenUnallocated s then
           let c = unallocatedSlotGapUpdateCount s + 1; g = unallocatedSlotGap s * 2 in
           if c = NUM_SLOTS_BEFORE_ALLOCATION_CHANGED
           then s\<lparr>unallocatedSlotGapUpdateCount := c, unallocatedSlotGap :=
             (if g > maxSlotsBetweenUnallocated s then maxSlotsBetweenUnallocated s else g)\<rparr>
           else s\<lparr>unallocatedSlotGapUpdateCount := c\<rparr>
         else s) in
      s1\<lparr>countTillNextAllocation := unallocatedSlotGap s1 - 1\<rparr>)"

definition scheduleNextNode ::
    "tSchedulerState \<Rightarrow> tNodeQueue \<Rightarrow> tNodeQueue \<Rightarrow> u8 \<Rightarrow>
     (u8 \<times> tSchedulerState \<times> tNodeQueue \<times> tNodeQueue) res" where
  "scheduleNextNode s active activeTx masterTxBufferLevel =
     and_then
       (if countTillNextAllocation s = 0 then Inr (UNALLOCATED_NODE_ID, unallocatedSlot s, active, activeTx)
        else
          and_then (scheduleNextAllocatedNode s active activeTx masterTxBufferLevel) (\<lambda>(node, s1, a, t).
          and_then (microbusAssert (countTillNextAllocation s1 > 0)) (\<lambda>_.
          and_then (microbusAssert (countTillNextService s1 > 0)) (\<lambda>_.
          and_then (shift_down (recentScheduledNodes s1) 0 (MAX_MASTER_SLOTS_BETWEEN_ACKS - 1)) (\<lambda>r.
          and_then (wr r (MAX_MASTER_SLOTS_BETWEEN_ACKS - 1) node) (\<lambda>r'.
            Inr (node, s1\<lparr>countTillNextAllocation := countTillNextAllocation s1 - 1,
              countTillNextService := countTillNextService s1 - 1, recentScheduledNodes := r'\<rparr>, a, t)))))))
     (\<lambda>(node, s', a, t). Inr (if node = INVALID_NODE_ID then UNALLOCATED_NODE_ID else node, s', a, t))"

text \<open>The shift of \<open>schedulerUpdateAndCalcNextTxNodes\<close>, \<open>k\<close> entries from \<open>i\<close>.\<close>

fun shiftSchedule :: "u8 list \<Rightarrow> nat \<Rightarrow> nat \<Rightarrow> u8 \<Rightarrow> bool \<Rightarrow> (u8 list \<times> u8 \<times> bool) res" where
  "shiftSchedule nodesToTx i 0 level oneMasterTx = Inr (nodesToTx, level, oneMasterTx)"
| "shiftSchedule nodesToTx i (Suc k) level oneMasterTx =
     and_then (rd nodesToTx (Suc i)) (\<lambda>x.
     and_then (wr nodesToTx i x) (\<lambda>nodesToTx'.
       shiftSchedule nodesToTx' (Suc i) k
         (if x = MASTER_NODE_ID \<and> level > 0 then level - 1 else level)
         (oneMasterTx \<or> x = MASTER_NODE_ID)))"

definition schedulerUpdateAndCalcNextTxNodes ::
    "tSchedulerState \<Rightarrow> tNodeQueue \<Rightarrow> tNodeQueue \<Rightarrow> u8 list \<Rightarrow> u8 \<Rightarrow>
     (u8 list \<times> tSchedulerState \<times> tNodeQueue \<times> tNodeQueue) res" where
  "schedulerUpdateAndCalcNextTxNodes s active activeTx nodesToTx masterTxBufferLevel =
     (let n = unat (numTxNodesScheduled s) in
      if n = 1 then
        and_then (scheduleNextNode s active activeTx 0) (\<lambda>(node, s', a, t).
        and_then (wr nodesToTx 0 node) (\<lambda>nodes. Inr (nodes, s', a, t)))
      else if n = 0 then Inl Out_Of_Bounds
      else
        and_then (shiftSchedule nodesToTx 0 (n - 1) masterTxBufferLevel False) (\<lambda>(nodes, level, oneMasterTx).
          if oneMasterTx then
            and_then (scheduleNextNode s active activeTx level) (\<lambda>(node, s', a, t).
            and_then (wr nodes (n - 1) node) (\<lambda>nodes'. Inr (nodes', s', a, t)))
          else
            and_then (wr nodes (n - 1) MASTER_NODE_ID) (\<lambda>nodes'. Inr (nodes', s, active, activeTx))))"

definition schedulerUpdateNodeTxBufferLevel :: "tSchedulerState \<Rightarrow> u8 \<Rightarrow> u8 \<Rightarrow> tSchedulerState res" where
  "schedulerUpdateNodeTxBufferLevel s srcNodeId bufferLevel =
     and_then (rd (nodeTxBufferLevel s) (unat srcNodeId)) (\<lambda>old.
     and_then
       (if old = 0 \<and> bufferLevel > 0
        then and_then (nodeQueueAdd (nodeTxNodes s) srcNodeId) (\<lambda>(_, q). Inr (s\<lparr>nodeTxNodes := q\<rparr>))
        else if old > 0 \<and> bufferLevel = 0
        then and_then (nodeQueueRemove (nodeTxNodes s) srcNodeId) (\<lambda>q. Inr (s\<lparr>nodeTxNodes := q\<rparr>))
        else Inr s) (\<lambda>s1.
     and_then (wr (nodeTxBufferLevel s1) (unat srcNodeId) bufferLevel) (\<lambda>l.
       Inr (s1\<lparr>nodeTxBufferLevel := l\<rparr>))))"

text \<open>The queue it points to is zeroed by the caller.\<close>

definition schedulerInit :: "tNodeQueue \<Rightarrow> u8 \<Rightarrow> u8 \<Rightarrow> tSchedulerState" where
  "schedulerInit nodeTx numTx maxSlots =
     \<lparr>numTxNodesScheduled = numTx, maxSlotsBetweenUnallocated = maxSlots,
      unallocatedSlotGapUpdateCount = 0, unallocatedSlotGap = MIN_SLOTS_BETWEEN_UNALLOCATED,
      countTillNextAllocation = MIN_SLOTS_BETWEEN_UNALLOCATED, countTillNextService = 0,
      rxAckEndCount = 0, nextTurn = MASTER_TX, nextServiceNode = of_nat FIRST_NODE_ID,
      nextMasterRxAckNode = of_nat FIRST_NODE_ID, nextNodeTxNode = of_nat FIRST_NODE_ID,
      recentScheduledNodes = replicate MAX_MASTER_SLOTS_BETWEEN_ACKS 0,
      nodeTxBufferLevel = replicate MAX_NODES 0, nodeTxNodes = nodeTx\<rparr>"


section \<open>The acknowledgement round\<close>

lemma recently_iff: "nodeRecentlySent s x \<longleftrightarrow> x \<in> set (take 3 (recentScheduledNodes s))"
  by (auto simp: nodeRecentlySent_def list_ex_iff)

lemma next_in_queue:
  assumes "wf_queue q" and "c < length (queue_ids q)" and "unat (lastIndex q) = c"
  shows "\<exists>q'. getNextNodeInQueue q = Inr (queue_ids q ! c, q') \<and> wf_queue q' \<and>
    queue_ids q' = queue_ids q \<and> unat (lastIndex q') = Suc c mod length (queue_ids q)"
  using getNextNodeInQueue_spec [OF assms(1)] assms(2,3) by fastforce

lemma ack_loop_spec:
  assumes "wf_queue q" and "length (queue_ids q) = n" and "i + k = n" and "0 < n"
    and "unat (lastIndex q) = (c + i) mod n" and "c < n"
    and "\<forall>j<i. nodeRecentlySent s (queue_ids q ! ((c + j) mod n))"
  shows "\<exists>node q'. ackNodeLoop s q i k = Inr (node, q') \<and> wf_queue q' \<and> queue_ids q' = queue_ids q \<and>
    (if \<exists>x\<in>set (queue_ids q). \<not> nodeRecentlySent s x
     then node \<in> set (queue_ids q) \<and> \<not> nodeRecentlySent s node else node = INVALID_NODE_ID)"
  using assms
proof (induction k arbitrary: q i)
  case 0
  have "nodeRecentlySent s x" if x: "x \<in> set (queue_ids q)" for x
  proof -
    obtain m where m: "m < n" "queue_ids q ! m = x" using x 0(2) by (metis in_set_conv_nth)
    have "(c + (n + m - c) mod n) mod n = m" "(n + m - c) mod n < n"
      using ring_distance [OF 0(6) m(1)] by simp_all
    then show ?thesis using 0(3,7) m(2) by (metis add.right_neutral)
  qed
  then show ?case using 0(1) by auto
next
  case (Suc k)
  let ?ids = "queue_ids q" and ?j = "(c + i) mod n"
  have jn: "?j < length ?ids" using Suc.prems(2,4) by simp
  obtain q' where g: "getNextNodeInQueue q = Inr (?ids ! ?j, q')" "wf_queue q'" "queue_ids q' = ?ids"
    "unat (lastIndex q') = Suc ?j mod n"
    using next_in_queue [OF Suc.prems(1) jn] Suc.prems(2,5) by auto
  have mem: "?ids ! ?j \<in> set ?ids" using jn by simp
  show ?case
  proof (cases "nodeRecentlySent s (?ids ! ?j)")
    case False
    then show ?thesis using g mem by auto
  next
    case True
    have rec: "\<forall>j<Suc i. nodeRecentlySent s (?ids ! ((c + j) mod n))"
      using Suc.prems(7) True by (auto simp: less_Suc_eq)
    have "inj_on (\<lambda>j. ?ids ! ((c + j) mod n)) {..<Suc i}"
    proof (rule inj_onI)
      fix a b assume ab: "a \<in> {..<Suc i}" "b \<in> {..<Suc i}" "?ids ! ((c + a) mod n) = ?ids ! ((c + b) mod n)"
      have "distinct ?ids" using Suc.prems(1) by (simp add: wf_queue_def)
      then have "(c + a) mod n = (c + b) mod n"
        using ab(3) Suc.prems(2,4) by (simp add: nth_eq_iff_index_eq)
      then show "a = b" using mod_window_inj [of a n b c] ab(1,2) Suc.prems(3) by simp
    qed
    then have "card ((\<lambda>j. ?ids ! ((c + j) mod n)) ` {..<Suc i}) = Suc i" by (simp add: card_image)
    moreover have "(\<lambda>j. ?ids ! ((c + j) mod n)) ` {..<Suc i} \<subseteq> set (take 3 (recentScheduledNodes s))"
      using rec by (auto simp: recently_iff)
    ultimately have "Suc i \<le> card (set (take 3 (recentScheduledNodes s)))" by (metis List.finite_set card_mono)
    also have "\<dots> \<le> 3" by (rule order.trans [OF card_length]) simp
    finally have "i < 4" by simp
    moreover have "unat (lastIndex q') = (c + Suc i) mod n" using g(4) by (simp add: mod_Suc_eq)
    moreover have "length (queue_ids q') = n" "Suc i + k = n" using Suc.prems(2,3) g(3) by simp_all
    ultimately obtain node q'' where ih: "ackNodeLoop s q' (Suc i) k = Inr (node, q'')" "wf_queue q''"
      "queue_ids q'' = queue_ids q"
      "if \<exists>x\<in>set ?ids. \<not> nodeRecentlySent s x
       then node \<in> set ?ids \<and> \<not> nodeRecentlySent s node else node = INVALID_NODE_ID"
      using Suc.IH [OF g(2), of "Suc i"] rec Suc.prems(4,6) unfolding g(3) by blast
    have "ackNodeLoop s q i (Suc k) = Inr (node, q'')" using ih(1) g(1) True \<open>i < 4\<close> by simp
    with ih(2-4) show ?thesis by blast
  qed
qed

lemma ack_node_spec:
  assumes "wf_queue q"
  shows "\<exists>node q'. getNextMasterRxAckNode s q = Inr (node, q') \<and> wf_queue q' \<and> queue_ids q' = queue_ids q \<and>
    (if \<exists>x\<in>set (queue_ids q). \<not> nodeRecentlySent s x
     then node \<in> set (queue_ids q) \<and> \<not> nodeRecentlySent s node else node = INVALID_NODE_ID)"
proof (cases "queue_ids q = []")
  case True
  then have "unat (numNodes q) = 0" using length_queue_ids [OF assms] by simp
  then show ?thesis using assms True by (simp add: getNextMasterRxAckNode_def)
next
  case False
  have "unat (lastIndex q) < length (queue_ids q)" using nodeq.ok_cursor [OF assms False] .
  with ack_loop_spec [OF assms refl, of 0 _ "unat (lastIndex q)" s] False show ?thesis
    using length_queue_ids [OF assms] by (simp add: getNextMasterRxAckNode_def)
qed

section \<open>Invariant\<close>

definition nodes_queue :: "tNodeQueue \<Rightarrow> bool" where
  "nodes_queue q \<longleftrightarrow> wf_queue q \<and> (\<forall>x\<in>set (queue_ids q). node_id x)"

text \<open>
  The state between two slots. The gap between joining slots stays below 128, so that doubling
  it does not overflow (the master uses 80).
\<close>

definition sched_inv :: "tSchedulerState \<Rightarrow> bool" where
  "sched_inv s \<longleftrightarrow> length (recentScheduledNodes s) = MAX_MASTER_SLOTS_BETWEEN_ACKS \<and>
     length (nodeTxBufferLevel s) = MAX_NODES \<and> nodes_queue (nodeTxNodes s) \<and>
     nextTurn s \<noteq> MAX_TURN \<and> unat (countTillNextService s) < MAX_SLOTS_BETWEEN_SERVICING \<and>
     2 \<le> unat (unallocatedSlotGap s) \<and> unat (unallocatedSlotGap s) \<le> unat (maxSlotsBetweenUnallocated s) \<and>
     unat (maxSlotsBetweenUnallocated s) < 128 \<and> unat (countTillNextAllocation s) \<le> unat (unallocatedSlotGap s)"

text \<open>What choosing a node for an allocated slot leaves alone.\<close>

definition same_counts :: "tSchedulerState \<Rightarrow> tSchedulerState \<Rightarrow> bool" where
  "same_counts s s' \<longleftrightarrow> numTxNodesScheduled s' = numTxNodesScheduled s \<and>
     maxSlotsBetweenUnallocated s' = maxSlotsBetweenUnallocated s \<and>
     unallocatedSlotGapUpdateCount s' = unallocatedSlotGapUpdateCount s \<and>
     unallocatedSlotGap s' = unallocatedSlotGap s \<and> countTillNextAllocation s' = countTillNextAllocation s \<and>
     recentScheduledNodes s' = recentScheduledNodes s \<and> nodeTxBufferLevel s' = nodeTxBufferLevel s \<and>
     queue_ids (nodeTxNodes s') = queue_ids (nodeTxNodes s)"

lemma same_counts_refl [simp]: "same_counts s s"
  by (simp add: same_counts_def)

lemma same_counts_trans [trans]: "same_counts s s' \<Longrightarrow> same_counts s' s'' \<Longrightarrow> same_counts s s''"
  by (simp add: same_counts_def)

lemma node_id_valid: "node_id x \<Longrightarrow> x \<noteq> INVALID_NODE_ID" "node_id x \<Longrightarrow> x \<noteq> UNALLOCATED_NODE_ID"
    "node_id x \<Longrightarrow> x \<noteq> MASTER_NODE_ID"
  by (auto simp: node_id_def)

text \<open>Who can be given an ordinary slot.\<close>

definition candidate :: "tSchedulerState \<Rightarrow> tNodeQueue \<Rightarrow> u8 \<Rightarrow> u8 \<Rightarrow> bool" where
  "candidate s t level node \<longleftrightarrow> node = INVALID_NODE_ID \<or>
     node = MASTER_NODE_ID \<and> numTxNodesScheduled s > 1 \<and> level > 0 \<or>
     node \<in> set (queue_ids t) \<or> node \<in> set (queue_ids (nodeTxNodes s))"

lemma take_turn_spec:
  assumes "nextTurn s \<noteq> MAX_TURN" and "nodes_queue (nodeTxNodes s)" and "nodes_queue t"
  shows "\<exists>node s' t'. takeTurn s t level = Inr (node, s', t') \<and> same_counts s s' \<and>
    countTillNextService s' = countTillNextService s \<and> nextTurn s' \<noteq> MAX_TURN \<and> nodes_queue (nodeTxNodes s') \<and>
    nodes_queue t' \<and> queue_ids t' = queue_ids t \<and> candidate s t level node"
proof (cases "nextTurn s")
  case MASTER_TX
  then show ?thesis using assms by (simp add: takeTurn_def same_counts_def Let_def candidate_def)
next
  case MASTER_RX_ACK
  obtain node t' where "getNextMasterRxAckNode s t = Inr (node, t')" "wf_queue t'" "queue_ids t' = queue_ids t"
    "candidate s t level node"
    using ack_node_spec [of t s] assms(3) by (auto simp: nodes_queue_def candidate_def split: if_splits)
  then show ?thesis
    using MASTER_RX_ACK assms by (simp add: takeTurn_def same_counts_def Let_def nodes_queue_def)
next
  case NODE_TX
  note q = assms(2)
  show ?thesis
  proof (cases "numNodes (nodeTxNodes s) > 0")
    case True
    then have "queue_ids (nodeTxNodes s) \<noteq> []" using q queue_ids_empty_iff by (auto simp: nodes_queue_def)
    moreover have "unat (lastIndex (nodeTxNodes s)) < length (queue_ids (nodeTxNodes s))"
      using nodeq.ok_cursor [of "nodeTxNodes s"] q calculation by (simp add: nodes_queue_def)
    then have "queue_ids (nodeTxNodes s) ! unat (lastIndex (nodeTxNodes s)) \<in> set (queue_ids (nodeTxNodes s))"
      by (rule nth_mem)
    ultimately obtain q' where "getNextNodeInQueue (nodeTxNodes s)
        = Inr (queue_ids (nodeTxNodes s) ! unat (lastIndex (nodeTxNodes s)), q')" "wf_queue q'"
      "queue_ids q' = queue_ids (nodeTxNodes s)"
      "queue_ids (nodeTxNodes s) ! unat (lastIndex (nodeTxNodes s)) \<in> set (queue_ids (nodeTxNodes s))"
      using getNextNodeInQueue_spec q by (fastforce simp: nodes_queue_def)
    then show ?thesis
      using True NODE_TX assms
      by (simp add: takeTurn_def getNextNodeTxNode_def same_counts_def Let_def nodes_queue_def
          candidate_def)
  next
    case False
    then show ?thesis
      using NODE_TX assms
      by (simp add: takeTurn_def getNextNodeTxNode_def same_counts_def Let_def candidate_def)
  qed
next
  case MAX_TURN
  then show ?thesis using assms(1) by simp
qed

lemma sched_inv_same:
  assumes "sched_inv s" and "same_counts s s'" and "nextTurn s' \<noteq> MAX_TURN" and "nodes_queue (nodeTxNodes s')"
    and "unat (countTillNextService s') < 6"
  shows "sched_inv s'"
  using assms by (simp add: sched_inv_def same_counts_def)

lemma turn_loop_spec:
  assumes "nextTurn s \<noteq> MAX_TURN" and "nodes_queue (nodeTxNodes s)" and "nodes_queue t"
  shows "\<exists>node s' t'. turnLoop k s t level = Inr (node, s', t') \<and> same_counts s s' \<and>
    countTillNextService s' = countTillNextService s \<and> nextTurn s' \<noteq> MAX_TURN \<and> nodes_queue (nodeTxNodes s') \<and>
    nodes_queue t' \<and> queue_ids t' = queue_ids t \<and> candidate s t level node"
  using assms
proof (induction k arbitrary: s t)
  case 0
  then show ?case by (simp add: candidate_def)
next
  case (Suc k)
  obtain node s1 t1 where one: "takeTurn s t level = Inr (node, s1, t1)" "same_counts s s1"
    "countTillNextService s1 = countTillNextService s" "nextTurn s1 \<noteq> MAX_TURN" "nodes_queue (nodeTxNodes s1)"
    "nodes_queue t1" "queue_ids t1 = queue_ids t" "candidate s t level node"
    using take_turn_spec [OF Suc.prems] by blast
  show ?case
  proof (cases "node = 255")
    case False
    then show ?thesis using one by simp
  next
    case True
    have "candidate s1 t1 level n \<longleftrightarrow> candidate s t level n" for n
      using one(2,7) by (simp add: candidate_def same_counts_def)
    with Suc.IH [OF one(4-6)] show ?thesis
      using one True by (auto intro: same_counts_trans)
  qed
qed

section \<open>Servicing the active nodes\<close>

text \<open>\<open>due a x j\<close>: after \<open>j\<close> other service turns it is \<open>x\<close>'s turn.\<close>

definition due :: "tNodeQueue \<Rightarrow> u8 \<Rightarrow> nat \<Rightarrow> bool" where
  "due a x j \<longleftrightarrow> j < length (queue_ids a) \<and> queue_ids a ! ((unat (lastIndex a) + j) mod length (queue_ids a)) = x"

lemma due_exists:
  assumes "wf_queue a" and "x \<in> set (queue_ids a)"
  shows "\<exists>j. due a x j"
proof -
  let ?n = "length (queue_ids a)" and ?c = "unat (lastIndex a)"
  obtain m where m: "m < ?n" "queue_ids a ! m = x" using assms(2) by (metis in_set_conv_nth)
  have "?c < ?n" using nodeq.ok_cursor [OF assms(1)] m by fastforce
  from ring_distance [OF this m(1)] m(2) show ?thesis by (auto simp: due_def)
qed

lemma due_member: "due a x j \<Longrightarrow> x \<in> set (queue_ids a)"
proof -
  assume d: "due a x j"
  then have "j < length (queue_ids a)" by (simp add: due_def)
  then have "0 < length (queue_ids a)" by linarith
  then have "(unat (lastIndex a) + j) mod length (queue_ids a) < length (queue_ids a)" by (rule mod_less_divisor)
  from nth_mem [OF this] d show ?thesis by (simp add: due_def)
qed

lemma service_spec:
  assumes "nodes_queue a"
  shows "\<exists>node a'. getNextServiceNode s a av = Inr (node, s\<lparr>countTillNextService := 6\<rparr>, a') \<and>
    nodes_queue a' \<and> queue_ids a' = queue_ids a \<and>
    (node = INVALID_NODE_ID \<or> node \<in> set (queue_ids a)) \<and>
    (\<forall>x j. due a x j \<longrightarrow> (case j of
        0 \<Rightarrow> node = x \<or> av \<and> x \<in> set (take 3 (recentScheduledNodes s))
      | Suc j' \<Rightarrow> due a' x j'))"
proof (cases "queue_ids a = []")
  case True
  then have "\<not> numNodes a > 0" using assms queue_ids_empty_iff by (auto simp: nodes_queue_def)
  then show ?thesis using assms True by (simp add: getNextServiceNode_def due_def)
next
  case False
  let ?n = "length (queue_ids a)" and ?c = "unat (lastIndex a)"
  have wf: "wf_queue a" using assms by (simp add: nodes_queue_def)
  have pos: "numNodes a > 0" using False queue_ids_empty_iff [OF wf] by simp
  have cn: "?c < ?n" using nodeq.ok_cursor [OF wf False] .
  obtain a' where a': "getNextNodeInQueue a = Inr (queue_ids a ! ?c, a')" "wf_queue a'"
    "queue_ids a' = queue_ids a" "unat (lastIndex a') = Suc ?c mod ?n"
    using getNextNodeInQueue_spec [OF wf False] by blast
  let ?node = "if av \<and> nodeRecentlySent s (queue_ids a ! ?c) then INVALID_NODE_ID else queue_ids a ! ?c"
  have run: "getNextServiceNode s a av = Inr (?node, s\<lparr>countTillNextService := 6\<rparr>, a')"
  proof -
    have "nodeRecentlySent (s\<lparr>countTillNextService := c\<rparr>) y = nodeRecentlySent s y" for c y
      by (simp add: nodeRecentlySent_def)
    then show ?thesis using pos a'(1) by (simp add: getNextServiceNode_def Let_def)
  qed
  have "case j of 0 \<Rightarrow> ?node = x \<or> av \<and> x \<in> set (take 3 (recentScheduledNodes s)) | Suc j' \<Rightarrow> due a' x j'"
    if "due a x j" for x j
  proof (cases j)
    case 0
    then show ?thesis using that cn by (auto simp: due_def recently_iff)
  next
    case (Suc j')
    have "(Suc ?c mod ?n + j') mod ?n = (?c + j) mod ?n" unfolding Suc by (simp add: mod_add_left_eq)
    then show ?thesis using that Suc by (simp add: due_def a'(3,4))
  qed
  then show ?thesis
    using run a' assms cn by (intro exI [of _ ?node] exI [of _ a']) (auto simp: nodes_queue_def)
qed

text \<open>
  How far a node is from being served: with no slot between, it is chosen, is recent, or comes
  nearer.
\<close>

definition comes_nearer :: "tSchedulerState \<Rightarrow> tNodeQueue \<Rightarrow> nat \<Rightarrow> u8 \<Rightarrow> tSchedulerState \<Rightarrow> tNodeQueue \<Rightarrow> bool" where
  "comes_nearer s a c node s' a' \<longleftrightarrow> (\<forall>x j. due a x j \<longrightarrow> node = x \<or> x \<in> set (take 3 (recentScheduledNodes s)) \<or>
     (\<exists>j'. due a' x j' \<and> 6 * j' + unat (countTillNextService s') \<le> 6 * j + c))"

lemma first_service:
  assumes inv: "sched_inv s" and a: "nodes_queue a"
  shows "\<exists>node s1 a1. (if countTillNextService s = 0 then getNextServiceNode s a True else Inr (INVALID_NODE_ID, s, a))
      = Inr (node, s1, a1) \<and> same_counts s s1 \<and> nextTurn s1 = nextTurn s \<and> nodeTxNodes s1 = nodeTxNodes s \<and>
    0 < unat (countTillNextService s1) \<and> unat (countTillNextService s1) \<le> 6 \<and>
    nodes_queue a1 \<and> queue_ids a1 = queue_ids a \<and> (node = 255 \<or> node \<in> set (queue_ids a)) \<and>
    comes_nearer s a (unat (countTillNextService s)) node s1 a1"
proof (cases "countTillNextService s = 0")
  case False
  then have "0 < unat (countTillNextService s)" "unat (countTillNextService s) < 6"
    using inv by (simp_all add: sched_inv_def unat_gt_0)
  then show ?thesis using False a by (auto simp: comes_nearer_def)
next
  case True
  obtain node a' where g: "getNextServiceNode s a True = Inr (node, s\<lparr>countTillNextService := 6\<rparr>, a')"
    "nodes_queue a'" "queue_ids a' = queue_ids a" "node = 255 \<or> node \<in> set (queue_ids a)"
    "\<forall>x j. due a x j \<longrightarrow> (case j of
      0 \<Rightarrow> node = x \<or> True \<and> x \<in> set (take 3 (recentScheduledNodes s)) | Suc j' \<Rightarrow> due a' x j')"
    using service_spec [OF a, of s True] by blast
  have "node = x \<or> x \<in> set (take 3 (recentScheduledNodes s)) \<or> (\<exists>j'. due a' x j' \<and> 6 * j' + 6 \<le> 6 * j)"
    if d: "due a x j" for x j
    using g(5) [rule_format, OF d] by (cases j) auto
  then have "comes_nearer s a (unat (countTillNextService s)) node (s\<lparr>countTillNextService := 6\<rparr>) a'"
    using True by (auto simp: comes_nearer_def)
  then show ?thesis using True g(1-4) by (intro exI [of _ node] exI [of _ "s\<lparr>countTillNextService := 6\<rparr>"] exI [of _ a'])
    (simp add: same_counts_def)
qed

text \<open>When neither a service is due nor a queue has a node, the next node to be served gets the slot.\<close>

lemma late_service:
  assumes a1: "nodes_queue a1" and near: "comes_nearer s a c 255 s1 a1" and valid: "\<forall>x j. due a x j \<longrightarrow> x \<noteq> 255"
    and count: "countTillNextService s2 = countTillNextService s1"
  shows "\<exists>node a3. getNextServiceNode s2 a1 False = Inr (node, s2\<lparr>countTillNextService := 6\<rparr>, a3) \<and>
    nodes_queue a3 \<and> queue_ids a3 = queue_ids a1 \<and> (node = 255 \<or> node \<in> set (queue_ids a1)) \<and>
    comes_nearer s a c node (s2\<lparr>countTillNextService := 6\<rparr>) a3"
proof -
  obtain node a3 where g: "getNextServiceNode s2 a1 False = Inr (node, s2\<lparr>countTillNextService := 6\<rparr>, a3)"
    "nodes_queue a3" "queue_ids a3 = queue_ids a1" "node = 255 \<or> node \<in> set (queue_ids a1)"
    "\<forall>x j. due a1 x j \<longrightarrow> (case j of
      0 \<Rightarrow> node = x \<or> False \<and> x \<in> set (take 3 (recentScheduledNodes s2)) | Suc j' \<Rightarrow> due a3 x j')"
    using service_spec [OF a1, of s2 False] by blast
  have later: "node = x \<or> (\<exists>j'. due a3 x j' \<and> 6 * j' + 6 \<le> 6 * j + unat (countTillNextService s1))"
    if d: "due a1 x j" for x j
    using g(5) [rule_format, OF d] by (cases j) auto
  have "node = x \<or> x \<in> set (take 3 (recentScheduledNodes s)) \<or> (\<exists>j'. due a3 x j' \<and> 6 * j' + 6 \<le> 6 * j + c)"
    if d: "due a x j" for x j
  proof -
    have "x \<in> set (take 3 (recentScheduledNodes s)) \<or>
        (\<exists>j'. due a1 x j' \<and> 6 * j' + unat (countTillNextService s1) \<le> 6 * j + c)"
      using near valid d by (auto simp: comes_nearer_def)
    then show ?thesis using later order.trans by blast
  qed
  then have "comes_nearer s a c node (s2\<lparr>countTillNextService := 6\<rparr>) a3" by (simp add: comes_nearer_def)
  then show ?thesis using g(1-4) by blast
qed

lemma allocated_spec:
  assumes inv: "sched_inv s" and a: "nodes_queue a" and t: "nodes_queue t"
  shows "\<exists>node s' a' t'. scheduleNextAllocatedNode s a t level = Inr (node, s', a', t') \<and>
    same_counts s s' \<and> nextTurn s' \<noteq> MAX_TURN \<and> nodes_queue (nodeTxNodes s') \<and>
    0 < unat (countTillNextService s') \<and> unat (countTillNextService s') \<le> 6 \<and>
    nodes_queue a' \<and> queue_ids a' = queue_ids a \<and> nodes_queue t' \<and> queue_ids t' = queue_ids t \<and>
    (candidate s t level node \<or> node \<in> set (queue_ids a)) \<and>
    (\<forall>x j. due a x j \<longrightarrow> node = x \<or> x \<in> set (take 3 (recentScheduledNodes s)) \<or>
      (\<exists>j'. due a' x j' \<and> 6 * j' + unat (countTillNextService s') \<le> 6 * j + unat (countTillNextService s)))"
  unfolding comes_nearer_def [symmetric]
proof -
  from first_service [OF inv a] obtain node1 s1 a1 where one:
    "(if countTillNextService s = 0 then getNextServiceNode s a True else Inr (INVALID_NODE_ID, s, a))
      = Inr (node1, s1, a1)" "same_counts s s1" "nextTurn s1 = nextTurn s" "nodeTxNodes s1 = nodeTxNodes s"
    "0 < unat (countTillNextService s1)" "unat (countTillNextService s1) \<le> 6"
    "nodes_queue a1" "queue_ids a1 = queue_ids a" "node1 = 255 \<or> node1 \<in> set (queue_ids a)"
    "comes_nearer s a (unat (countTillNextService s)) node1 s1 a1" by blast
  show "\<exists>node s' a' t'. scheduleNextAllocatedNode s a t level = Inr (node, s', a', t') \<and>
    same_counts s s' \<and> nextTurn s' \<noteq> MAX_TURN \<and> nodes_queue (nodeTxNodes s') \<and>
    0 < unat (countTillNextService s') \<and> unat (countTillNextService s') \<le> 6 \<and>
    nodes_queue a' \<and> queue_ids a' = queue_ids a \<and> nodes_queue t' \<and> queue_ids t' = queue_ids t \<and>
    (candidate s t level node \<or> node \<in> set (queue_ids a)) \<and>
    comes_nearer s a (unat (countTillNextService s)) node s' a'"
  proof (cases "node1 = 255")
    case False
    then show ?thesis using one inv t by (auto simp: scheduleNextAllocatedNode_def sched_inv_def)
  next
    case True
    have turn: "nextTurn s1 \<noteq> MAX_TURN" "nodes_queue (nodeTxNodes s1)" using inv one(3,4) by (simp_all add: sched_inv_def)
    have cand: "candidate s1 t level n \<longleftrightarrow> candidate s t level n" for n using one(2) by (simp add: candidate_def same_counts_def)
    from turn_loop_spec [where level = level and k = 3, OF turn t] obtain node2 s2 t2 where two: "turnLoop 3 s1 t level = Inr (node2, s2, t2)" "same_counts s1 s2"
      "countTillNextService s2 = countTillNextService s1" "nextTurn s2 \<noteq> MAX_TURN"
      "nodes_queue (nodeTxNodes s2)" "nodes_queue t2" "queue_ids t2 = queue_ids t" "candidate s t level node2"
      unfolding cand by blast
    have first: "scheduleNextAllocatedNode s a t level =
      (if node2 \<noteq> 255 then Inr (node2, s2, a1, t2)
       else and_then (getNextServiceNode s2 a1 False) (\<lambda>(node, s3, active3). Inr (node, s3, active3, t2)))"
      using one(1) two(1) True by (simp add: scheduleNextAllocatedNode_def)
    have s02: "same_counts s s2" using one(2) two(2) by (rule same_counts_trans)
    have valid: "\<forall>x j. due a x j \<longrightarrow> x \<noteq> 255"
      using due_member a node_id_valid(1) by (auto simp: nodes_queue_def)
    show ?thesis
    proof (cases "node2 = 255")
      case False
      then have "scheduleNextAllocatedNode s a t level = Inr (node2, s2, a1, t2)" using first by simp
      moreover have "comes_nearer s a (unat (countTillNextService s)) node2 s2 a1"
        using one(10) valid True two(3) unfolding comes_nearer_def by metis
      ultimately show ?thesis using two(3-8) one(5-8) s02 by auto
    next
      case True': True
      from late_service [OF one(7) one(10) [unfolded True] valid two(3)] obtain node3 a3 where g:
        "getNextServiceNode s2 a1 False = Inr (node3, s2\<lparr>countTillNextService := 6\<rparr>, a3)" "nodes_queue a3"
        "queue_ids a3 = queue_ids a1" "node3 = 255 \<or> node3 \<in> set (queue_ids a1)"
        "comes_nearer s a (unat (countTillNextService s)) node3 (s2\<lparr>countTillNextService := 6\<rparr>) a3" by blast
      have "scheduleNextAllocatedNode s a t level = Inr (node3, s2\<lparr>countTillNextService := 6\<rparr>, a3, t2)"
        using first True' g(1) by simp
      moreover have "same_counts s (s2\<lparr>countTillNextService := 6\<rparr>)" using s02 by (simp add: same_counts_def)
      moreover have "candidate s t level node3 \<or> node3 \<in> set (queue_ids a)" using g(4) one(8) by (auto simp: candidate_def)
      ultimately show ?thesis using g(2,3,5) two(4-7) one(8) by auto
    qed
  qed
qed

section \<open>One slot\<close>

lemma shift_four:
  assumes "length r = 4"
  shows "\<exists>r'. shift_down r 0 3 = Inr r' \<and> length r' = 4 \<and> take 3 r' = drop 1 r"
proof -
  obtain a b c d where "r = [a, b, c, d]"
    using assms by (auto simp: numeral_eq_Suc length_Suc_conv)
  then show ?thesis by (simp add: numeral_eq_Suc nth_upd)
qed

lemma unallocated_inv:
  assumes "sched_inv s" and "countTillNextAllocation s = 0"
  shows "sched_inv (unallocatedSlot s)"
    and "countTillNextAllocation (unallocatedSlot s) = unallocatedSlotGap (unallocatedSlot s) - 1"
    and "unat (countTillNextAllocation (unallocatedSlot s)) = unat (unallocatedSlotGap (unallocatedSlot s)) - 1"
    and "numTxNodesScheduled (unallocatedSlot s) = numTxNodesScheduled s"
    and "maxSlotsBetweenUnallocated (unallocatedSlot s) = maxSlotsBetweenUnallocated s"
    and "recentScheduledNodes (unallocatedSlot s) = recentScheduledNodes s"
    and "nodeTxBufferLevel (unallocatedSlot s) = nodeTxBufferLevel s"
    and "nodeTxNodes (unallocatedSlot s) = nodeTxNodes s"
    and "countTillNextService (unallocatedSlot s) = countTillNextService s"
    and "nextTurn (unallocatedSlot s) = nextTurn s"
proof -
  let ?g = "unallocatedSlotGap s" and ?u = "unallocatedSlot s"
  show same: "numTxNodesScheduled ?u = numTxNodesScheduled s"
    "maxSlotsBetweenUnallocated ?u = maxSlotsBetweenUnallocated s"
    "recentScheduledNodes ?u = recentScheduledNodes s" "nodeTxBufferLevel ?u = nodeTxBufferLevel s"
    "nodeTxNodes ?u = nodeTxNodes s" "countTillNextService ?u = countTillNextService s" "nextTurn ?u = nextTurn s"
    by (simp_all add: unallocatedSlot_def Let_def)
  show c: "countTillNextAllocation ?u = unallocatedSlotGap ?u - 1"
    by (simp add: unallocatedSlot_def Let_def)
  have b: "2 \<le> unat ?g" "unat ?g \<le> unat (maxSlotsBetweenUnallocated s)" "unat (maxSlotsBetweenUnallocated s) < 128"
    using assms(1) by (simp_all add: sched_inv_def)
  have "unat (?g * 2) = unat ?g * 2" using b by (simp add: unat_mult_lem [THEN iffD1] unat_word_ariths)
  then have "2 \<le> unat (unallocatedSlotGap ?u) \<and> unat (unallocatedSlotGap ?u) \<le> unat (maxSlotsBetweenUnallocated s)"
    using b by (simp add: unallocatedSlot_def Let_def u8_less_iff)
  moreover from this have m: "unat (unallocatedSlotGap ?u - 1) = unat (unallocatedSlotGap ?u) - 1"
    by (intro unat_u8_dec) simp
  ultimately show "sched_inv ?u" using assms(1) same c by (simp add: sched_inv_def)
  show "unat (countTillNextAllocation ?u) = unat (unallocatedSlotGap ?u) - 1" using c m by simp
qed

text \<open>
  The slots and services still to pass, twice over, plus one when a joining slot is next: every
  slot that does not serve \<open>x\<close> makes it smaller.
\<close>

definition wait :: "tSchedulerState \<Rightarrow> nat \<Rightarrow> nat" where
  "wait s j = 2 * (6 * j + unat (countTillNextService s)) + (if countTillNextAllocation s = 0 then 1 else 0)"

definition slot_effect ::
    "tSchedulerState \<Rightarrow> tSchedulerState \<Rightarrow> tNodeQueue \<Rightarrow> tNodeQueue \<Rightarrow> u8 \<Rightarrow> u8 \<Rightarrow> bool" where
  "slot_effect s s' a t level node \<longleftrightarrow>
    (if countTillNextAllocation s = 0
     then node = UNALLOCATED_NODE_ID \<and> recentScheduledNodes s' = recentScheduledNodes s \<and> countTillNextAllocation s' \<noteq> 0
     else (candidate s t level node \<or> node \<in> set (queue_ids a) \<or> node = UNALLOCATED_NODE_ID) \<and>
       unat (countTillNextAllocation s') = unat (countTillNextAllocation s) - 1 \<and>
       unallocatedSlotGap s' = unallocatedSlotGap s \<and>
       (\<exists>raw. node = (if raw = INVALID_NODE_ID then UNALLOCATED_NODE_ID else raw) \<and>
         recentScheduledNodes s' = drop 1 (recentScheduledNodes s) @ [raw]))"

lemma slot_recents:
  "slot_effect s s' a t level node \<Longrightarrow> recentScheduledNodes s' = recentScheduledNodes s \<or>
    (\<exists>raw. node = (if raw = INVALID_NODE_ID then UNALLOCATED_NODE_ID else raw) \<and>
      recentScheduledNodes s' = drop 1 (recentScheduledNodes s) @ [raw])"
  by (cases "countTillNextAllocation s = 0") (simp_all add: slot_effect_def)

lemma slot_spec:
  assumes inv: "sched_inv s" and a: "nodes_queue a" and t: "nodes_queue t"
  shows "\<exists>node s' a' t'. scheduleNextNode s a t level = Inr (node, s', a', t') \<and> sched_inv s' \<and>
    nodes_queue a' \<and> queue_ids a' = queue_ids a \<and> nodes_queue t' \<and> queue_ids t' = queue_ids t \<and>
    queue_ids (nodeTxNodes s') = queue_ids (nodeTxNodes s) \<and> nodeTxBufferLevel s' = nodeTxBufferLevel s \<and>
    numTxNodesScheduled s' = numTxNodesScheduled s \<and>
    maxSlotsBetweenUnallocated s' = maxSlotsBetweenUnallocated s \<and>
    slot_effect s s' a t level node \<and>
    (\<forall>x j. due a x j \<longrightarrow> x \<in> set (take 3 (recentScheduledNodes s)) \<or> node = x \<or> (\<exists>j'. due a' x j' \<and> wait s' j' < wait s j))"
proof (cases "countTillNextAllocation s = 0")
  case True
  note u = unallocated_inv [OF inv True]
  have "2 \<le> unat (unallocatedSlotGap (unallocatedSlot s))" using u(1) by (simp add: sched_inv_def)
  then have ne: "countTillNextAllocation (unallocatedSlot s) \<noteq> 0" using u(3) by (auto simp: u8_eq_iff)
  have run: "scheduleNextNode s a t level = Inr (UNALLOCATED_NODE_ID, unallocatedSlot s, a, t)"
    using True by (simp add: scheduleNextNode_def)
  have "\<exists>j'. due a x j' \<and> wait (unallocatedSlot s) j' < wait s j" if "due a x j" for x j
    using that ne True u(9) by (intro exI [of _ j]) (simp add: wait_def)
  then show ?thesis using run u ne a t True by (simp add: slot_effect_def)
next
  case False
  obtain raw s1 a1 t1 where one: "scheduleNextAllocatedNode s a t level = Inr (raw, s1, a1, t1)"
    "same_counts s s1" "nextTurn s1 \<noteq> MAX_TURN" "nodes_queue (nodeTxNodes s1)"
    "0 < unat (countTillNextService s1)" "unat (countTillNextService s1) \<le> 6"
    "nodes_queue a1" "queue_ids a1 = queue_ids a" "nodes_queue t1" "queue_ids t1 = queue_ids t"
    "candidate s t level raw \<or> raw \<in> set (queue_ids a)"
    "\<forall>x j. due a x j \<longrightarrow> raw = x \<or> x \<in> set (take 3 (recentScheduledNodes s)) \<or>
      (\<exists>j'. due a1 x j' \<and> 6 * j' + unat (countTillNextService s1) \<le> 6 * j + unat (countTillNextService s))"
    using allocated_spec [OF inv a t, of level] by blast
  have len: "length (recentScheduledNodes s) = 4" using inv by (simp add: sched_inv_def)
  obtain r where r: "shift_down (recentScheduledNodes s) 0 3 = Inr r" "length r = 4"
    "take 3 r = drop 1 (recentScheduledNodes s)"
    using shift_four [OF len] by blast
  have r3: "r[3 := raw] = drop 1 (recentScheduledNodes s) @ [raw]"
    using r(2) unfolding r(3) [symmetric] by (simp add: upd_conv_take_nth_drop)
  let ?s = "s1\<lparr>countTillNextAllocation := countTillNextAllocation s - 1,
    countTillNextService := countTillNextService s1 - 1,
    recentScheduledNodes := drop 1 (recentScheduledNodes s) @ [raw]\<rparr>"
  let ?node = "if raw = INVALID_NODE_ID then UNALLOCATED_NODE_ID else raw"
  have c0: "0 < unat (countTillNextAllocation s)" using False by (simp add: u8_eq_iff)
  have da: "unat (countTillNextAllocation s - 1) = unat (countTillNextAllocation s) - 1"
    and ds: "unat (countTillNextService s1 - 1) = unat (countTillNextService s1) - 1"
    using c0 one(5) by (simp_all add: unat_u8_dec)
  have run: "scheduleNextNode s a t level = Inr (?node, ?s, a1, t1)"
    using False one(1,2,5) c0 r(1,2) r3 by (simp add: scheduleNextNode_def same_counts_def u8_less_iff)
  have inv': "sched_inv ?s" using inv one(2-6) len da ds by (auto simp: sched_inv_def same_counts_def)
  have less: "x \<in> set (take 3 (recentScheduledNodes s)) \<or> ?node = x \<or> (\<exists>j'. due a1 x j' \<and> wait ?s j' < wait s j)"
    if d: "due a x j" for x j
  proof -
    have "x \<noteq> 255" using due_member [OF d] a node_id_valid(1) by (auto simp: nodes_queue_def)
    moreover have "\<exists>j'. due a1 x j' \<and> wait ?s j' < wait s j"
      if "due a1 x j'" "6 * j' + unat (countTillNextService s1) \<le> 6 * j + unat (countTillNextService s)" for j'
      using that one(5) False by (intro exI [of _ j']) (auto simp: wait_def ds)
    ultimately show ?thesis using one(12) [rule_format, OF d] by auto
  qed
  have keep: "queue_ids (nodeTxNodes ?s) = queue_ids (nodeTxNodes s)" "nodeTxBufferLevel ?s = nodeTxBufferLevel s"
    "numTxNodesScheduled ?s = numTxNodesScheduled s"
    "maxSlotsBetweenUnallocated ?s = maxSlotsBetweenUnallocated s" "unallocatedSlotGap ?s = unallocatedSlotGap s"
    using one(2) by (simp_all add: same_counts_def)
  obtain s' where s': "s' = ?s" by blast
  have v: "unat (countTillNextAllocation s') = unat (countTillNextAllocation s) - 1"
    "recentScheduledNodes s' = drop 1 (recentScheduledNodes s) @ [raw]" using da by (simp_all add: s')
  obtain node where n: "node = ?node" by blast
  have "scheduleNextNode s a t level = Inr (node, s', a1, t1)" "sched_inv s'"
    and less': "\<forall>x j. due a x j \<longrightarrow> x \<in> set (take 3 (recentScheduledNodes s)) \<or> node = x \<or>
      (\<exists>j'. due a1 x j' \<and> wait s' j' < wait s j)"
    using run inv' less unfolding s' n by blast+
  moreover have "\<exists>raw. node = (if raw = INVALID_NODE_ID then UNALLOCATED_NODE_ID else raw) \<and>
      recentScheduledNodes s' = drop 1 (recentScheduledNodes s) @ [raw]"
    unfolding v n by blast
  moreover have "candidate s t level node \<or> node \<in> set (queue_ids a) \<or> node = UNALLOCATED_NODE_ID"
    using one(11) unfolding n by auto
  moreover note keep [folded s'] v(1) one(7-10)
  ultimately show ?thesis using False by (simp add: slot_effect_def)
qed

section \<open>A run of slots\<close>

text \<open>
  Between two slots the rest of the master may change the queue of nodes with data, the queue
  of nodes the master sends to and its own buffer level, so each slot brings its own.
\<close>

fun scheduleSlots ::
    "tSchedulerState \<Rightarrow> tNodeQueue \<Rightarrow> (tNodeQueue \<times> tNodeQueue \<times> u8) list \<Rightarrow>
     (u8 list \<times> tSchedulerState \<times> tNodeQueue) res" where
  "scheduleSlots s a [] = Inr ([], s, a)"
| "scheduleSlots s a ((q, t, level) # xs) =
     and_then (scheduleNextNode (s\<lparr>nodeTxNodes := q\<rparr>) a t level) (\<lambda>(n, s', a', _).
     and_then (scheduleSlots s' a' xs) (\<lambda>(ns, s'', a''). Inr (n # ns, s'', a'')))"

definition slots_ok :: "(tNodeQueue \<times> tNodeQueue \<times> u8) list \<Rightarrow> bool" where
  "slots_ok xs \<longleftrightarrow> (\<forall>(q, t, level)\<in>set xs. nodes_queue q \<and> nodes_queue t)"

lemma sched_inv_queue [simp]: "sched_inv s \<Longrightarrow> nodes_queue q \<Longrightarrow> sched_inv (s\<lparr>nodeTxNodes := q\<rparr>)"
  by (simp add: sched_inv_def)

lemma wait_queue [simp]: "wait (s\<lparr>nodeTxNodes := q\<rparr>) j = wait s j"
  by (simp add: wait_def)

lemma slots_run:
  assumes "sched_inv s" and "nodes_queue a" and "slots_ok xs"
  shows "\<exists>ns s' a' raws. scheduleSlots s a xs = Inr (ns, s', a') \<and> sched_inv s' \<and> nodes_queue a' \<and>
    queue_ids a' = queue_ids a \<and> length ns = length xs \<and>
    recentScheduledNodes s' = drop (length raws) (recentScheduledNodes s @ raws) \<and>
    set raws \<subseteq> insert INVALID_NODE_ID (set ns) \<and>
    length xs \<le> 2 * length raws + (if countTillNextAllocation s = 0 then 1 else 0) \<and>
    maxSlotsBetweenUnallocated s' = maxSlotsBetweenUnallocated s \<and>
    (unat (countTillNextAllocation s) < length xs \<longrightarrow> UNALLOCATED_NODE_ID \<in> set ns)"
  using assms
proof (induction xs arbitrary: s a)
  case Nil
  then show ?case by (auto intro!: exI [of _ "[]"])
next
  case (Cons x xs)
  obtain q t level where x: "x = (q, t, level)" by (cases x)
  let ?s = "s\<lparr>nodeTxNodes := q\<rparr>" and ?c = "countTillNextAllocation s"
  have q: "nodes_queue q" "nodes_queue t" "slots_ok xs" using Cons.prems(3) by (simp_all add: slots_ok_def x)
  obtain n s1 a1 t1 where one: "scheduleNextNode ?s a t level = Inr (n, s1, a1, t1)" "sched_inv s1"
    "nodes_queue a1" "queue_ids a1 = queue_ids a"
    "maxSlotsBetweenUnallocated s1 = maxSlotsBetweenUnallocated ?s" "slot_effect ?s s1 a t level n"
    using slot_spec [OF sched_inv_queue [OF Cons.prems(1) q(1)] Cons.prems(2) q(2), of level] by blast
  obtain ns s' a' raws where ih: "scheduleSlots s1 a1 xs = Inr (ns, s', a')" "sched_inv s'" "nodes_queue a'"
    "queue_ids a' = queue_ids a" "length ns = length xs"
    "recentScheduledNodes s' = drop (length raws) (recentScheduledNodes s1 @ raws)"
    "set raws \<subseteq> insert 255 (set ns)"
    "length xs \<le> 2 * length raws + (if countTillNextAllocation s1 = 0 then 1 else 0)"
    "maxSlotsBetweenUnallocated s' = maxSlotsBetweenUnallocated s"
    "unat (countTillNextAllocation s1) < length xs \<longrightarrow> 254 \<in> set ns"
    using Cons.IH [OF one(2,3) q(3)] one(4,5) by auto
  have run: "scheduleSlots s a (x # xs) = Inr (n # ns, s', a')" using one(1) ih(1) by (simp add: x)
  show ?case
  proof (cases "?c = 0")
    case True
    with one(6) have u: "n = 254" "recentScheduledNodes s1 = recentScheduledNodes s" "countTillNextAllocation s1 \<noteq> 0"
      by (simp_all add: slot_effect_def)
    show ?thesis
      by (rule exI [of _ "n # ns"], rule exI [of _ s'], rule exI [of _ a'], rule exI [of _ raws])
        (use run ih u True in auto)
  next
    case False
    with one(6) obtain raw where r: "unat (countTillNextAllocation s1) = unat ?c - 1"
      "n = (if raw = INVALID_NODE_ID then UNALLOCATED_NODE_ID else raw)"
      "recentScheduledNodes s1 = drop 1 (recentScheduledNodes s) @ [raw]"
      by (auto simp: slot_effect_def)
    have len: "length (recentScheduledNodes s) = 4" using Cons.prems(1) by (simp add: sched_inv_def)
    have rec: "recentScheduledNodes s' = drop (length (raw # raws)) (recentScheduledNodes s @ raw # raws)"
      using ih(6) r(3) len by (cases "recentScheduledNodes s") auto
    have pos: "0 < unat ?c" using False by (simp add: u8_eq_iff)
    have raws: "set (raw # raws) \<subseteq> insert 255 (set (n # ns))" using ih(7) r(2) by auto
    have count: "length (x # xs) \<le> 2 * length (raw # raws) + 0" using ih(8) by (simp split: if_splits)
    have join: "unat ?c < length (x # xs) \<longrightarrow> 254 \<in> set (n # ns)" using ih(10) r(1) pos by auto
    show ?thesis
      by (rule exI [of _ "n # ns"], rule exI [of _ s'], rule exI [of _ a'], rule exI [of _ "raw # raws"],
        intro conjI) (use run ih(2-5,9) rec raws count join False in simp_all)
  qed
qed

lemma slots_append:
  "scheduleSlots s a (xs @ ys) = and_then (scheduleSlots s a xs) (\<lambda>(ns, s', a').
     and_then (scheduleSlots s' a' ys) (\<lambda>(ms, s'', a''). Inr (ns @ ms, s'', a'')))"
proof (induction xs arbitrary: s a)
  case Nil
  show ?case by (cases "scheduleSlots s a ys") auto
next
  case (Cons x xs)
  obtain q t level where x: "x = (q, t, level)" by (cases x)
  show ?case
  proof (cases "scheduleNextNode (s\<lparr>nodeTxNodes := q\<rparr>) a t level")
    case (Inr r)
    obtain n s1 a1 t1 where r: "r = (n, s1, a1, t1)" by (cases r)
    show ?thesis
    proof (cases "scheduleSlots s1 a1 xs")
      case (Inr p)
      obtain ns s2 a2 where p: "p = (ns, s2, a2)" by (cases p)
      have h: "scheduleSlots s a (x # xs) = Inr (n # ns, s2, a2)"
        using \<open>_ = Inr r\<close> Inr by (simp add: x r p)
      have "scheduleSlots s a ((x # xs) @ ys) =
        and_then (scheduleSlots s2 a2 ys) (\<lambda>(ms, s'', a''). Inr (n # ns @ ms, s'', a''))"
        using \<open>_ = Inr r\<close> Inr
        by (cases "scheduleSlots s2 a2 ys") (auto simp: x r p Cons.IH)
      then show ?thesis unfolding h by (cases "scheduleSlots s2 a2 ys") auto
    qed (use \<open>_ = Inr r\<close> in \<open>simp add: x r Cons.IH\<close>)
  qed (simp add: x)
qed

lemma slot_towards:
  assumes "sched_inv s" and "nodes_queue a" and "nodes_queue q" and "nodes_queue t" and "due a x j"
    and "x \<notin> set (recentScheduledNodes s)"
  shows "\<exists>n s1 a1 t1. scheduleNextNode (s\<lparr>nodeTxNodes := q\<rparr>) a t level = Inr (n, s1, a1, t1) \<and>
    sched_inv s1 \<and> nodes_queue a1 \<and>
    (n = x \<or> x \<notin> set (recentScheduledNodes s1) \<and> (\<exists>j'. due a1 x j' \<and> wait s1 j' < wait s j))"
proof -
  let ?s = "s\<lparr>nodeTxNodes := q\<rparr>" and ?r = "recentScheduledNodes s"
  have x: "x \<noteq> 255" "x \<noteq> 254" "x \<notin> set (take 3 ?r)"
    using due_member [OF assms(5)] assms(2,6) node_id_valid set_take_subset [of 3 ?r]
    by (auto simp: nodes_queue_def)
  have recents: "x \<notin> set (drop 1 ?r @ [raw])" if "(if raw = 255 then 254 else raw) \<noteq> x" for raw
  proof -
    have "x \<noteq> raw" using that x(1) by auto
    then show ?thesis using assms(6) in_set_dropD [of x 1 ?r] by auto
  qed
  obtain n s1 a1 t1 where one: "scheduleNextNode ?s a t level = Inr (n, s1, a1, t1)" "sched_inv s1"
    "nodes_queue a1" "\<forall>x j. due a x j \<longrightarrow> x \<in> set (take 3 (recentScheduledNodes ?s)) \<or> n = x \<or>
      (\<exists>j'. due a1 x j' \<and> wait s1 j' < wait ?s j)"
    "slot_effect ?s s1 a t level n"
    using slot_spec [OF sched_inv_queue [OF assms(1,3)] assms(2,4), of level] by blast
  have v: "recentScheduledNodes ?s = ?r" "wait ?s j = wait s j" for j by simp_all
  have near: "n = x \<or> (\<exists>j'. due a1 x j' \<and> wait s1 j' < wait s j)"
    using one(4) [unfolded v] assms(5) x(3) by blast
  have "x \<notin> set (recentScheduledNodes s1)" if "n \<noteq> x"
  proof (cases "recentScheduledNodes s1 = ?r")
    case True
    then show ?thesis using assms(6) by simp
  next
    case False
    then obtain raw where r: "n = (if raw = 255 then 254 else raw)" "recentScheduledNodes s1 = drop 1 ?r @ [raw]"
      using slot_recents [OF one(5)] unfolding v by blast
    from recents [of raw] that show ?thesis unfolding r by blast
  qed
  with near one(1-3) show ?thesis by blast
qed

lemma served_from_due:
  assumes "sched_inv s" and "nodes_queue a" and "slots_ok xs" and "due a x j"
    and "x \<notin> set (recentScheduledNodes s)" and "wait s j < length xs"
  shows "\<exists>ns s' a'. scheduleSlots s a xs = Inr (ns, s', a') \<and> x \<in> set ns"
  using assms
proof (induction xs arbitrary: s a j)
  case Nil
  then show ?case by simp
next
  case (Cons y xs)
  obtain q t level where y: "y = (q, t, level)" by (cases y)
  let ?s = "s\<lparr>nodeTxNodes := q\<rparr>"
  have q: "nodes_queue q" "nodes_queue t" "slots_ok xs" using Cons.prems(3) by (simp_all add: slots_ok_def y)
  obtain n s1 a1 t1 where one: "scheduleNextNode ?s a t level = Inr (n, s1, a1, t1)" "sched_inv s1"
    "nodes_queue a1"
    "n = x \<or> x \<notin> set (recentScheduledNodes s1) \<and> (\<exists>j'. due a1 x j' \<and> wait s1 j' < wait s j)"
    using slot_towards [OF Cons.prems(1,2) q(1,2) Cons.prems(4,5), of level] by blast
  obtain ns s' a' where rest: "scheduleSlots s1 a1 xs = Inr (ns, s', a')"
    using slots_run [OF one(2,3) q(3)] by blast
  have run: "scheduleSlots s a (y # xs) = Inr (n # ns, s', a')" using one(1) rest by (simp add: y)
  show ?case
  proof (cases "n = x")
    case True
    then show ?thesis using run by auto
  next
    case False
    then obtain j' where j': "x \<notin> set (recentScheduledNodes s1)" "due a1 x j'" "wait s1 j' < wait s j"
      using one(4) by blast
    have "wait s1 j' < length xs" using j'(3) Cons.prems(6) by simp
    then have "x \<in> set ns" using Cons.IH [OF one(2,3) q(3) j'(2,1)] rest by auto
    then show ?thesis using run by auto
  qed
qed

section \<open>The schedule sent ahead\<close>

lemma shift_schedule_spec:
  assumes "i + k < length nodes"
  shows "\<exists>level'. shiftSchedule nodes i k level b = Inr (take i nodes @ take k (drop (Suc i) nodes) @ drop (i + k) nodes,
    level', b \<or> MASTER_NODE_ID \<in> set (take k (drop (Suc i) nodes))) \<and> (level' > 0 \<longrightarrow> level > 0)"
  using assms
proof (induction k arbitrary: nodes i level b)
  case 0
  then show ?case by simp
next
  case (Suc k)
  let ?x = "nodes ! Suc i" and ?n = "nodes[i := nodes ! Suc i]"
  have len: "Suc i < length nodes" using Suc.prems by simp
  have parts: "take (Suc i) ?n = take i nodes @ [?x]" "drop (Suc (Suc i)) ?n = drop (Suc (Suc i)) nodes"
    "drop (Suc i + k) ?n = drop (i + Suc k) nodes" "drop (Suc i) nodes = ?x # drop (Suc (Suc i)) nodes"
    using len by (simp_all add: take_Suc_conv_app_nth Cons_nth_drop_Suc)
  let ?l = "if ?x = 0 \<and> level > 0 then level - 1 else level"
  from Suc.IH [of "Suc i" ?n ?l "b \<or> ?x = 0"] Suc.prems obtain level' where
    ih: "shiftSchedule ?n (Suc i) k ?l (b \<or> ?x = 0) = Inr (take (Suc i) ?n @ take k (drop (Suc (Suc i)) ?n) @
      drop (Suc i + k) ?n, level', (b \<or> ?x = 0) \<or> 0 \<in> set (take k (drop (Suc (Suc i)) ?n)))"
    "level' > 0 \<longrightarrow> ?l > 0" by auto
  have "shiftSchedule nodes i (Suc k) level b = Inr (take i nodes @ take (Suc k) (drop (Suc i) nodes) @ drop (i + Suc k) nodes,
    level', b \<or> 0 \<in> set (take (Suc k) (drop (Suc i) nodes)))"
    using len ih(1) unfolding parts by auto
  moreover have "level' > 0 \<longrightarrow> level > 0" using ih(2) by (auto split: if_splits)
  ultimately show ?case by blast
qed

text \<open>The slots after the next one move up; the last of the schedule is chosen.\<close>

text \<open>What choosing the owner of one new slot leaves and yields.\<close>

definition slot_result :: "tSchedulerState \<Rightarrow> tNodeQueue \<Rightarrow> tNodeQueue \<Rightarrow> u8 \<Rightarrow> tSchedulerState \<Rightarrow> tNodeQueue \<Rightarrow> tNodeQueue \<Rightarrow> bool" where
  "slot_result s a t node s' a' t' \<longleftrightarrow>
     sched_inv s' \<and> nodes_queue a' \<and> queue_ids a' = queue_ids a \<and> nodes_queue t' \<and> queue_ids t' = queue_ids t \<and>
     queue_ids (nodeTxNodes s') = queue_ids (nodeTxNodes s) \<and> nodeTxBufferLevel s' = nodeTxBufferLevel s \<and>
     numTxNodesScheduled s' = numTxNodesScheduled s \<and>
     (node = UNALLOCATED_NODE_ID \<or> 1 < unat (numTxNodesScheduled s) \<and> node = MASTER_NODE_ID \<or>
       node \<in> set (queue_ids a) \<union> set (queue_ids t) \<union> set (queue_ids (nodeTxNodes s)))"

lemma slot_owner:
  assumes inv: "sched_inv s" and a: "nodes_queue a" and t: "nodes_queue t"
  shows "\<exists>node s' a' t'. scheduleNextNode s a t l = Inr (node, s', a', t') \<and> slot_result s a t node s' a' t'"
proof -
  obtain node s' a' t' where one: "scheduleNextNode s a t l = Inr (node, s', a', t')" "sched_inv s'"
    "nodes_queue a'" "queue_ids a' = queue_ids a" "nodes_queue t'" "queue_ids t' = queue_ids t"
    "queue_ids (nodeTxNodes s') = queue_ids (nodeTxNodes s)" "nodeTxBufferLevel s' = nodeTxBufferLevel s"
    "numTxNodesScheduled s' = numTxNodesScheduled s" "slot_effect s s' a t l node"
    using slot_spec [OF inv a t, of l] by blast
  have gt: "numTxNodesScheduled s > 1 \<longleftrightarrow> 1 < unat (numTxNodesScheduled s)" by (simp add: u8_less_iff)
  have "node = UNALLOCATED_NODE_ID \<or> 1 < unat (numTxNodesScheduled s) \<and> node = MASTER_NODE_ID \<or>
    node \<in> set (queue_ids a) \<union> set (queue_ids t) \<union> set (queue_ids (nodeTxNodes s))"
  proof (cases "countTillNextAllocation s = 0")
    case True
    then show ?thesis using one(10) by (simp add: slot_effect_def)
  next
    case False
    then have "candidate s t l node \<or> node \<in> set (queue_ids a) \<or> node = 254" and "node \<noteq> 255"
      using one(10) by (auto simp: slot_effect_def split: if_splits)
    then show ?thesis by (auto simp: candidate_def gt)
  qed
  then show ?thesis using one(1-9) unfolding slot_result_def by blast
qed

lemma last_slot:
  assumes "0 < n" and "n \<le> length nodes"
  shows "(drop 1 (take n nodes) @ drop (n - 1) nodes)[n - 1 := x] = drop 1 (take n nodes) @ [x] @ drop n nodes"
proof -
  have "length (drop 1 (take n nodes)) = n - 1" using assms by simp
  moreover have "drop (n - 1) nodes = nodes ! (n - 1) # drop n nodes"
    using assms Cons_nth_drop_Suc [of "n - 1" nodes] by simp
  ultimately show ?thesis by (simp add: list_update_append)
qed

lemma shift_all:
  assumes "1 < n" and "n \<le> length nodes"
  shows "\<exists>level'. shiftSchedule nodes 0 (n - 1) level False
    = Inr (drop 1 (take n nodes) @ drop (n - 1) nodes, level', 0 \<in> set (drop 1 (take n nodes)))"
proof -
  have "0 + (n - 1) < length nodes" using assms by simp
  from shift_schedule_spec [OF this, of level False] show ?thesis by (auto simp: drop_take)
qed

lemma update_spec:
  assumes inv: "sched_inv s" and a: "nodes_queue a" and t: "nodes_queue t"
    and n: "n = unat (numTxNodesScheduled s)" "0 < n" "n \<le> length nodes"
  shows "\<exists>node s' a' t'. schedulerUpdateAndCalcNextTxNodes s a t nodes level
      = Inr (drop 1 (take n nodes) @ [node] @ drop n nodes, s', a', t') \<and>
    sched_inv s' \<and> nodes_queue a' \<and> queue_ids a' = queue_ids a \<and> nodes_queue t' \<and> queue_ids t' = queue_ids t \<and>
    queue_ids (nodeTxNodes s') = queue_ids (nodeTxNodes s) \<and> nodeTxBufferLevel s' = nodeTxBufferLevel s \<and>
    numTxNodesScheduled s' = numTxNodesScheduled s \<and>
    (node = UNALLOCATED_NODE_ID \<or> 1 < n \<and> node = MASTER_NODE_ID \<or>
      node \<in> set (queue_ids a) \<union> set (queue_ids t) \<union> set (queue_ids (nodeTxNodes s))) \<and>
    (1 < n \<longrightarrow> MASTER_NODE_ID \<notin> set (drop 1 (take n nodes)) \<longrightarrow> node = MASTER_NODE_ID \<and> s' = s)"
proof -
  show ?thesis
  proof (cases "n = 1")
    case True
    obtain node s' a' t' where one: "scheduleNextNode s a t 0 = Inr (node, s', a', t')" "slot_result s a t node s' a' t'"
      using slot_owner [OF inv a t] by blast
    have "schedulerUpdateAndCalcNextTxNodes s a t nodes level
      = Inr (drop 1 (take n nodes) @ [node] @ drop n nodes, s', a', t')"
      using one(1) True n by (cases nodes) (simp_all add: schedulerUpdateAndCalcNextTxNodes_def)
    then show ?thesis using one(2) True unfolding slot_result_def n(1) [symmetric] by blast
  next
    case False
    then have gt: "1 < n" using n(2) by simp
    from shift_all [OF gt n(3)] obtain level' where sh: "shiftSchedule nodes 0 (n - 1) level False
      = Inr (drop 1 (take n nodes) @ drop (n - 1) nodes, level', 0 \<in> set (drop 1 (take n nodes)))" by blast
    have len: "n - 1 < length (drop 1 (take n nodes) @ drop (n - 1) nodes)" using n gt by simp
    show ?thesis
    proof (cases "0 \<in> set (drop 1 (take n nodes))")
      case True
      obtain node s' a' t' where one: "scheduleNextNode s a t level' = Inr (node, s', a', t')" "slot_result s a t node s' a' t'"
        using slot_owner [OF inv a t] by blast
      have "schedulerUpdateAndCalcNextTxNodes s a t nodes level
        = Inr (drop 1 (take n nodes) @ [node] @ drop n nodes, s', a', t')"
        unfolding last_slot [OF n(2,3), symmetric] using one(1) True False n sh wr_in [OF len]
        by (simp add: schedulerUpdateAndCalcNextTxNodes_def Let_def)
      then show ?thesis using one(2) True unfolding slot_result_def n(1) [symmetric] by blast
    next
      case no: False
      have "schedulerUpdateAndCalcNextTxNodes s a t nodes level
        = Inr (drop 1 (take n nodes) @ [0] @ drop n nodes, s, a, t)"
        unfolding last_slot [OF n(2,3), symmetric] using no False n sh wr_in [OF len]
        by (simp add: schedulerUpdateAndCalcNextTxNodes_def Let_def)
      then show ?thesis using inv a t gt by blast
    qed
  qed
qed

section \<open>Properties\<close>

lemma sched_init_inv:
  "nodes_queue q \<Longrightarrow> 2 \<le> unat m \<Longrightarrow> unat m < 128 \<Longrightarrow> sched_inv (schedulerInit q n m)"
  by (simp add: sched_inv_def schedulerInit_def)

lemma sched_init_views [simp]:
  "numTxNodesScheduled (schedulerInit q n m) = n" "nodeTxNodes (schedulerInit q n m) = q"
  "nodeTxBufferLevel (schedulerInit q n m) = replicate MAX_NODES 0"
  by (simp_all add: schedulerInit_def)

lemma nodes_queue_zero [simp]: "nodes_queue zero_queue"
  by (simp add: nodes_queue_def)

definition sched_demo_queue :: tNodeQueue where
  "sched_demo_queue = \<lparr>nodeIds = [4, 8, 9] @ replicate 61 0, numNodes = 3, lastIndex = 2\<rparr>"

lemma sched_demo_queue: "nodes_queue sched_demo_queue" "queue_ids sched_demo_queue = [4, 8, 9]"
proof -
  show ids: "queue_ids sched_demo_queue = [4, 8, 9]" by (simp add: queue_ids_def sched_demo_queue_def)
  show "nodes_queue sched_demo_queue"
    unfolding nodes_queue_def wf_queue_def ids by (simp add: sched_demo_queue_def node_id_def)
qed





text \<open>
  Claim C26. The master's round over the nodes it has packets for: the search always ends, its
  assertion never fails, and it picks a node outside the last scheduled ones it remembers
  whenever there is one, and none otherwise.
\<close>

theorem sched_ack_round:
  assumes "wf_queue q"
  shows "\<exists>node q'. getNextMasterRxAckNode s q = Inr (node, q') \<and> wf_queue q' \<and> queue_ids q' = queue_ids q \<and>
    (if \<exists>x\<in>set (queue_ids q). \<not> nodeRecentlySent s x
     then node \<in> set (queue_ids q) \<and> \<not> nodeRecentlySent s node else node = INVALID_NODE_ID)"
  by (rule ack_node_spec [OF assms])

theorem sched_ack_round_witness:
  "\<exists>node q'. getNextMasterRxAckNode
     ((schedulerInit zero_queue 1 80)\<lparr>recentScheduledNodes := [9, 4, 0, 0]\<rparr>) sched_demo_queue = Inr (node, q') \<and> node = 8"
  using sched_ack_round [of sched_demo_queue "(schedulerInit zero_queue 1 80)\<lparr>recentScheduledNodes := [9, 4, 0, 0]\<rparr>"]
    sched_demo_queue by (auto simp: nodes_queue_def recently_iff)

text \<open>
  Updating the schedule never fails an assertion and preserves the invariant: the
  later slots each move up by one and the last goes to a joining slot, to a node of one of the
  three queues or, only when several slots are scheduled ahead, to the master; the queues keep
  their members.
\<close>

lemma sched_update_total:
  assumes "sched_inv s" and "nodes_queue a" and "nodes_queue t"
    and "n = unat (numTxNodesScheduled s)" and "0 < n" and "n \<le> length nodes"
  shows "\<exists>node s' a' t'. schedulerUpdateAndCalcNextTxNodes s a t nodes level
      = Inr (drop 1 (take n nodes) @ [node] @ drop n nodes, s', a', t') \<and>
    sched_inv s' \<and> nodes_queue a' \<and> queue_ids a' = queue_ids a \<and> nodes_queue t' \<and> queue_ids t' = queue_ids t \<and>
    (node = UNALLOCATED_NODE_ID \<or> 1 < n \<and> node = MASTER_NODE_ID \<or>
      node \<in> set (queue_ids a) \<union> set (queue_ids t) \<union> set (queue_ids (nodeTxNodes s)))"
  using update_spec [OF assms(1-6), of level] by blast

lemma sched_update_total_witness:
  "\<exists>node s' a' t'. schedulerUpdateAndCalcNextTxNodes (schedulerInit zero_queue 4 80) sched_demo_queue zero_queue
      [0, 254, 4, 0] 3 = Inr ([254, 4, 0, node], s', a', t') \<and> node \<in> {254, 0, 4, 8, 9}"
proof -
  let ?s = "schedulerInit zero_queue 4 80"
  obtain node s' a' t' where u: "schedulerUpdateAndCalcNextTxNodes ?s sched_demo_queue zero_queue [0, 254, 4, 0] 3
      = Inr (drop 1 (take 4 [0, 254, 4, 0]) @ [node] @ drop 4 [0, 254, 4, 0], s', a', t')"
    "node = UNALLOCATED_NODE_ID \<or> 1 < (4 :: nat) \<and> node = MASTER_NODE_ID \<or>
      node \<in> set (queue_ids sched_demo_queue) \<union> set (queue_ids zero_queue) \<union> set (queue_ids (nodeTxNodes ?s))"
    using sched_update_total [of ?s sched_demo_queue zero_queue 4 "[0, 254, 4, 0]" 3]
      sched_init_inv [of zero_queue 80 4] sched_demo_queue(1) by fastforce
  have "node \<in> {254, 0, 4, 8, 9}" using u(2) by (simp add: sched_demo_queue)
  with u(1) show ?thesis by auto
qed

text \<open>
  With several slots scheduled ahead, the master always owns one of the scheduled
  slots after an update, so that the next schedule can be sent out; when none of the slots
  moved up is the master's, the new one is, and the scheduler's turns and counts do not move.
\<close>

lemma sched_master_in_window:
  assumes "sched_inv s" and "nodes_queue a" and "nodes_queue t"
    and "n = unat (numTxNodesScheduled s)" and "1 < n" and "n \<le> length nodes"
  shows "\<exists>nodes' s' a' t'. schedulerUpdateAndCalcNextTxNodes s a t nodes level = Inr (nodes', s', a', t') \<and>
    MASTER_NODE_ID \<in> set (take n nodes') \<and>
    (MASTER_NODE_ID \<notin> set (drop 1 (take n nodes)) \<longrightarrow> nodes' ! (n - 1) = MASTER_NODE_ID \<and> s' = s)"
proof -
  have "0 < n" using assms(5) by simp
  then obtain node s' a' t' where u: "schedulerUpdateAndCalcNextTxNodes s a t nodes level
      = Inr (drop 1 (take n nodes) @ [node] @ drop n nodes, s', a', t')"
    "MASTER_NODE_ID \<notin> set (drop 1 (take n nodes)) \<longrightarrow> node = MASTER_NODE_ID \<and> s' = s"
    using update_spec [OF assms(1-4) _ assms(6), of level] assms(5) by blast
  have len: "length (drop 1 (take n nodes)) = n - 1" using assms(5,6) by simp
  then have "take n (drop 1 (take n nodes) @ [node] @ drop n nodes) = drop 1 (take n nodes) @ [node]"
    and "(drop 1 (take n nodes) @ [node] @ drop n nodes) ! (n - 1) = node"
    using assms(5) by (simp_all add: nth_append)
  then show ?thesis using u by auto
qed

lemma sched_master_in_window_witness:
  "\<exists>nodes' s' a' t'. schedulerUpdateAndCalcNextTxNodes (schedulerInit zero_queue 4 80) sched_demo_queue zero_queue
      [0, 254, 4, 8] 0 = Inr (nodes', s', a', t') \<and> nodes' ! 3 = MASTER_NODE_ID"
proof -
  let ?s = "schedulerInit zero_queue 4 80"
  have "\<exists>nodes' s' a' t'. schedulerUpdateAndCalcNextTxNodes ?s sched_demo_queue zero_queue [0, 254, 4, 8] 0
      = Inr (nodes', s', a', t') \<and> MASTER_NODE_ID \<in> set (take 4 nodes') \<and>
    (MASTER_NODE_ID \<notin> set (drop 1 (take 4 [0, 254, 4, 8])) \<longrightarrow> nodes' ! (4 - 1) = MASTER_NODE_ID \<and> s' = ?s)"
    by (rule sched_master_in_window) (simp_all add: sched_init_inv sched_demo_queue)
  then show ?thesis by simp blast
qed

text \<open>The nodes queued for a slot are those whose last reported buffer level was not zero.\<close>

definition levels_match :: "tSchedulerState \<Rightarrow> bool" where
  "levels_match s \<longleftrightarrow> set (queue_ids (nodeTxNodes s)) = {x. node_id x \<and> nodeTxBufferLevel s ! unat x \<noteq> 0}"

text \<open>Recording a level keeps the invariant, given a queue with the right members.\<close>

lemma level_recorded:
  assumes inv: "sched_inv s" and match: "levels_match s" and x: "node_id x" and q: "nodes_queue q'"
    and set: "set (queue_ids q') = (if level = 0 then set (queue_ids (nodeTxNodes s)) - {x} else insert x (set (queue_ids (nodeTxNodes s))))"
  defines "s' \<equiv> s\<lparr>nodeTxNodes := q', nodeTxBufferLevel := (nodeTxBufferLevel s)[unat x := level]\<rparr>"
  shows "sched_inv s' \<and> levels_match s'"
proof -
  let ?l = "nodeTxBufferLevel s"
  have len: "unat x < length ?l" using inv x by (simp add: sched_inv_def node_id_def)
  have "y \<in> set (queue_ids q') \<longleftrightarrow> node_id y \<and> ?l[unat x := level] ! unat y \<noteq> 0" for y
  proof (cases "y = x")
    case True
    then show ?thesis using set x len by simp
  next
    case False
    then have "?l[unat x := level] ! unat y = ?l ! unat y" by (simp add: u8_eq_iff)
    then show ?thesis using False set match by (auto simp: levels_match_def)
  qed
  then show ?thesis using inv q by (auto simp: s'_def levels_match_def sched_inv_def)
qed

lemma level_add:
  assumes "nodes_queue q" and "node_id x"
  shows "\<exists>q'. nodeQueueAdd q x = Inr (True, q') \<and> nodes_queue q' \<and> set (queue_ids q') = insert x (set (queue_ids q))"
proof -
  have q: "wf_queue q" "set (queue_ids q) \<subseteq> {y. node_id y}" using assms(1) by (auto simp: nodes_queue_def)
  from nodeq.add_never_fails [OF q node_ids_bounded, of x] assms show ?thesis by (fastforce simp: nodes_queue_def)
qed

lemma level_remove:
  assumes "nodes_queue q" and "x \<in> set (queue_ids q)"
  shows "\<exists>q'. nodeQueueRemove q x = Inr q' \<and> nodes_queue q' \<and> set (queue_ids q') = set (queue_ids q) - {x}"
proof -
  have q: "wf_queue q" "distinct (queue_ids q)" using assms(1) by (auto simp: nodes_queue_def wf_queue_def)
  obtain q' where q': "nodeQueueRemove q x = Inr q'" "wf_queue q'" "queue_ids q' = remove1 x (queue_ids q)"
    using nodeQueueRemove_member [OF q(1) assms(2)] by blast
  then have "set (queue_ids q') = set (queue_ids q) - {x}" using q(2) by simp
  then show ?thesis using q' assms(1) by (auto simp: nodes_queue_def)
qed



text \<open>
  Claim C28. A node removed from the queue while its recorded level stays above zero, which is
  how the master drops a timed out node, is never queued again by its reports: a level above
  zero leaves the queue as it is, and a report of zero fails the assertion of
  \<^verbatim>\<open>nodeQueueRemove\<close>.
\<close>

theorem sched_stale_level:
  assumes "sched_inv s" and "node_id x" and "x \<notin> set (queue_ids (nodeTxNodes s))"
    and "nodeTxBufferLevel s ! unat x \<noteq> 0"
  shows "schedulerUpdateNodeTxBufferLevel s x level =
    (if level = 0 then Inl Assert_Failed
     else Inr (s\<lparr>nodeTxBufferLevel := (nodeTxBufferLevel s)[unat x := level]\<rparr>))"
proof -
  have "length (nodeTxBufferLevel s) = 64" "wf_queue (nodeTxNodes s)" "unat x < 64"
    using assms(1,2) by (simp_all add: sched_inv_def nodes_queue_def node_id_def)
  then show ?thesis
    using assms(3,4) nodeQueueRemove_absent [of "nodeTxNodes s" x]
    by (simp add: schedulerUpdateNodeTxBufferLevel_def word_gt_0)
qed

theorem sched_stale_level_witness:
  "schedulerUpdateNodeTxBufferLevel
     ((schedulerInit zero_queue 1 80)\<lparr>nodeTxBufferLevel := (replicate 64 0)[5 := 2]\<rparr>) 5 0 = Inl Assert_Failed"
  using sched_stale_level [of "(schedulerInit zero_queue 1 80)\<lparr>nodeTxBufferLevel := (replicate 64 0)[5 := 2]\<rparr>" 5 0]
    sched_init_inv [of zero_queue 80 1]
  by (simp add: sched_inv_def node_id_def)

text \<open>\<open>k\<close> joining slots.\<close>

fun unallocatedSlots :: "nat \<Rightarrow> tSchedulerState \<Rightarrow> tSchedulerState" where
  "unallocatedSlots 0 s = s"
| "unallocatedSlots (Suc k) s = unallocatedSlots k (unallocatedSlot s)"

lemma wrap_step: "((c + 1) mod 256 + 128) mod 256 = Suc ((c + 128) mod 256)"
  if "(c + 128) mod 256 + 1 < 256" for c :: nat
proof -
  have "((c + 1) mod 256 + 128) mod 256 = Suc (c + 128) mod 256" by (simp add: mod_add_left_eq)
  also have "\<dots> = Suc ((c + 128) mod 256)" using that mod_Suc [of "c + 128" 256] by auto
  finally show ?thesis .
qed

lemma unallocated_quiet:
  assumes "unallocatedSlotGap s \<noteq> maxSlotsBetweenUnallocated s"
    and "(unat (unallocatedSlotGapUpdateCount s) + 128) mod 256 + k < 256"
  shows "unallocatedSlotGap (unallocatedSlots k s) = unallocatedSlotGap s \<and>
    maxSlotsBetweenUnallocated (unallocatedSlots k s) = maxSlotsBetweenUnallocated s \<and>
    unallocatedSlotGapUpdateCount (unallocatedSlots k s) = unallocatedSlotGapUpdateCount s + of_nat k"
  using assms
proof (induction k arbitrary: s)
  case 0
  then show ?case by simp
next
  case (Suc k)
  let ?c = "unallocatedSlotGapUpdateCount s"
  have inc: "unat (?c + 1) = (unat ?c + 1) mod 256" by (simp add: unat_word_ariths)
  have step: "(unat (?c + 1) + 128) mod 256 = Suc ((unat ?c + 128) mod 256)"
    unfolding inc by (rule wrap_step) (use Suc.prems(2) in simp)
  have "?c + 1 \<noteq> 128"
  proof
    assume "?c + 1 = 128"
    then have "unat (?c + 1) = 128" by simp
    with step show False by simp
  qed
  then have u: "unallocatedSlotGap (unallocatedSlot s) = unallocatedSlotGap s"
    "maxSlotsBetweenUnallocated (unallocatedSlot s) = maxSlotsBetweenUnallocated s"
    "unallocatedSlotGapUpdateCount (unallocatedSlot s) = ?c + 1"
    using Suc.prems(1) by (simp_all add: unallocatedSlot_def Let_def)
  from Suc.IH [of "unallocatedSlot s"] Suc.prems step show ?case unfolding u by (simp add: add.assoc)
qed

text \<open>
  The gap between joining slots, once its counter is at 128, doubles only after 256
  more joining slots (the 8-bit counter is not reset and has to wrap), and stays unchanged
  until then.
\<close>

theorem sched_gap_doubles_every_256:
  assumes "unallocatedSlotGap s \<noteq> maxSlotsBetweenUnallocated s" and "unallocatedSlotGapUpdateCount s = 128"
  shows "(\<forall>k<256. unallocatedSlotGap (unallocatedSlots k s) = unallocatedSlotGap s) \<and>
    unallocatedSlotGap (unallocatedSlots 256 s) =
      min (2 * unallocatedSlotGap s) (maxSlotsBetweenUnallocated s)"
proof -
  have quiet: "unallocatedSlotGap (unallocatedSlots k s) = unallocatedSlotGap s \<and>
    maxSlotsBetweenUnallocated (unallocatedSlots k s) = maxSlotsBetweenUnallocated s \<and>
    unallocatedSlotGapUpdateCount (unallocatedSlots k s) = 128 + of_nat k" if "k < 256" for k
    using unallocated_quiet [OF assms(1), of k] that assms(2) by simp
  have snoc: "unallocatedSlots (Suc k) s' = unallocatedSlot (unallocatedSlots k s')" for k s'
    by (induction k arbitrary: s') simp_all
  have "unallocatedSlots 256 s = unallocatedSlot (unallocatedSlots 255 s)"
    using snoc [of 255 s] by (simp del: unallocatedSlots.simps)
  then have "unallocatedSlotGap (unallocatedSlots 256 s) =
      min (2 * unallocatedSlotGap s) (maxSlotsBetweenUnallocated s)"
    using quiet [of 255] assms(1) by (auto simp: unallocatedSlot_def Let_def min_def mult.commute not_le)
  then show ?thesis using quiet by blast
qed

theorem sched_gap_doubles_every_256_witness:
  "unallocatedSlotGap (unallocatedSlots 256
     ((schedulerInit zero_queue 1 80)\<lparr>unallocatedSlotGap := 4, unallocatedSlotGapUpdateCount := 128\<rparr>)) = 8"
  using sched_gap_doubles_every_256
    [of "(schedulerInit zero_queue 1 80)\<lparr>unallocatedSlotGap := 4, unallocatedSlotGapUpdateCount := 128\<rparr>"]
  by (simp add: schedulerInit_def min_def del: unallocatedSlots.simps)

end
