(* ===== verification/NetworkManager.thy ===== *)
theory NetworkManager
  imports Scheduler
begin

text \<open>
  Joining and leaving the network, \<^verbatim>\<open>src/src/networkManager.c\<close>: the master's table of nodes
  being admitted, the times to live on both sides, and the request and response packets.
  The queue \<open>activeNodes\<close>, to which the scheduler holds a second pointer, is kept here. The
  array \<open>masterNodeTimeToLive\<close> is passed in and out as the code passes its pointer.
\<close>

section \<open>Time on the node\<close>

abbreviation (input) MASTER_MAX_TIME_TO_LIVE :: u8 where "MASTER_MAX_TIME_TO_LIVE \<equiv> 128"
abbreviation (input) MAX_NODES_ALLOCATED_AT_ONCE :: nat where "MAX_NODES_ALLOCATED_AT_ONCE \<equiv> 10"
abbreviation (input) REMOVE_NODE_TTL :: u8 where "REMOVE_NODE_TTL \<equiv> 0xFF"
abbreviation (input) NEW_NODE_RESPONSE_ENTRY_SIZE :: nat where "NEW_NODE_RESPONSE_ENTRY_SIZE \<equiv> 9"

definition NODE_TIMEOUT_US :: nat where
  "NODE_TIMEOUT_US = 2 * 2 * MAX_SLOTS_BETWEEN_SERVICING * MAX_NODES * SLOT_TIME_US"

definition MASTER_TIMEOUT_US :: nat where
  "MASTER_TIMEOUT_US = NODE_TIMEOUT_US + 100 * SLOT_TIME_US"

definition TIME_TO_LIVE_UPDATE_TIME_US :: nat where
  "TIME_TO_LIVE_UPDATE_TIME_US = MASTER_TIMEOUT_US div 128"

lemma times [simp]: "NODE_TIMEOUT_US = 523776" "TIME_TO_LIVE_UPDATE_TIME_US = 4358"
  by (simp_all add: NODE_TIMEOUT_US_def TIME_TO_LIVE_UPDATE_TIME_US_def MASTER_TIMEOUT_US_def SLOT_TIME_US_def)

text \<open>The node's \<^verbatim>\<open>int32_t\<close> time to live is a 32-bit word read with its sign.\<close>

definition nodeNwRecordTxPacketSent :: "u32 \<Rightarrow> u32" where
  "nodeNwRecordTxPacketSent timeToLive = of_nat NODE_TIMEOUT_US"

definition nodeNwUpdateTimeUs :: "u32 \<Rightarrow> u32 \<Rightarrow> u32" where
  "nodeNwUpdateTimeUs timeToLive usIncr = (if sint timeToLive > 0 then timeToLive - usIncr else timeToLive)"

definition nodeNwHasNodeTimedOut :: "u32 \<Rightarrow> bool" where
  "nodeNwHasNodeTimedOut timeToLive \<longleftrightarrow> sint timeToLive \<le> 0"

section \<open>The master\<close>

record tNetworkManager =
  newNodeUniqueId :: "u64 list"
  newNodeId :: "u8 list"
  numNewNodes :: u8
  activeNodes :: tNodeQueue
  timeToLiveTimeUs :: u32

definition getNextFreeNodeId :: "u8 list \<Rightarrow> u8 res" where
  "getNextFreeNodeId ttl =
     and_then (find_from (\<lambda>t. t = 0) ttl FIRST_NODE_ID (MAX_NODES - FIRST_NODE_ID)) (\<lambda>found.
       Inr (case found of Some i \<Rightarrow> of_nat i | None \<Rightarrow> INVALID_NODE_ID))"

definition networkManagerRegisterNewNode ::
    "tNetworkManager \<Rightarrow> u8 list \<Rightarrow> u64 \<Rightarrow> u32 \<Rightarrow> (tNetworkManager \<times> u8 list \<times> u32) res" where
  "networkManagerRegisterNewNode nw ttl uniqueId networkFullCount =
     and_then (microbusAssert (uniqueId \<noteq> 0)) (\<lambda>_.
     if unat (numNewNodes nw) = MAX_NODES_ALLOCATED_AT_ONCE then Inr (nw, ttl, networkFullCount)
     else and_then (find_from (\<lambda>u. u = uniqueId) (newNodeUniqueId nw) 0 (unat (numNewNodes nw))) (\<lambda>known.
       if known \<noteq> None then Inr (nw, ttl, networkFullCount)
       else and_then (getNextFreeNodeId ttl) (\<lambda>nodeId.
         if nodeId = INVALID_NODE_ID then Inr (nw, ttl, networkFullCount + 1)
         else
           and_then (wr ttl (unat nodeId) MASTER_MAX_TIME_TO_LIVE) (\<lambda>ttl'.
           and_then (wr (newNodeUniqueId nw) (unat (numNewNodes nw)) uniqueId) (\<lambda>us.
           and_then (wr (newNodeId nw) (unat (numNewNodes nw)) nodeId) (\<lambda>ids.
           and_then (nodeQueueAdd (activeNodes nw) nodeId) (\<lambda>(_, q).
             Inr (nw\<lparr>newNodeUniqueId := us, newNodeId := ids, numNewNodes := numNewNodes nw + 1,
               activeNodes := q\<rparr>, ttl', networkFullCount))))))))"

definition networkManagerRemoveNewNodeRequest :: "tNetworkManager \<Rightarrow> u8 \<Rightarrow> (bool \<times> tNetworkManager) res" where
  "networkManagerRemoveNewNodeRequest nw rxNodeId =
     (if numNewNodes nw > 0 then
        and_then (find_from (\<lambda>x. x = rxNodeId) (newNodeId nw) 0 (unat (numNewNodes nw))) (\<lambda>found.
          case found of
            None \<Rightarrow> Inr (False, nw)
          | Some i \<Rightarrow>
              and_then (rd (newNodeUniqueId nw) i) (\<lambda>u.
              and_then (microbusAssert (u > 0)) (\<lambda>_.
              and_then (shift_down (newNodeUniqueId nw) i (unat (numNewNodes nw) - 1 - i)) (\<lambda>us.
              and_then (shift_down (newNodeId nw) i (unat (numNewNodes nw) - 1 - i)) (\<lambda>ids.
                Inr (True, nw\<lparr>newNodeUniqueId := us, newNodeId := ids, numNewNodes := numNewNodes nw - 1\<rparr>))))))
      else Inr (False, nw))"

definition networkManagerRecordRxPacket ::
    "tNetworkManager \<Rightarrow> u8 list \<Rightarrow> u8 \<Rightarrow> (tNetworkManager \<times> u8 list) res" where
  "networkManagerRecordRxPacket nw ttl rxNodeId =
     and_then (microbusAssert (unat rxNodeId < MAX_NODES)) (\<lambda>_.
     and_then (wr ttl (unat rxNodeId) MASTER_MAX_TIME_TO_LIVE) (\<lambda>ttl'.
       if numNewNodes nw > 0 then
         and_then (networkManagerRemoveNewNodeRequest nw rxNodeId) (\<lambda>(_, nw'). Inr (nw', ttl'))
       else Inr (nw, ttl')))"

definition ttl_tick :: "nat \<Rightarrow> u8 list \<Rightarrow> u8 list res" where
  "ttl_tick nodeId ttl =
     and_then (rd ttl nodeId) (\<lambda>t.
       if t > 0 \<and> t \<noteq> REMOVE_NODE_TTL
       then wr ttl nodeId (if t - 1 = 0 then REMOVE_NODE_TTL else t - 1)
       else Inr ttl)"

definition networkManagerUpdateTimeUs ::
    "tNetworkManager \<Rightarrow> u8 list \<Rightarrow> u32 \<Rightarrow> (tNetworkManager \<times> u8 list) res" where
  "networkManagerUpdateTimeUs nw ttl usIncr =
     (let t = timeToLiveTimeUs nw + usIncr in
      if unat t \<ge> TIME_TO_LIVE_UPDATE_TIME_US
      then and_then (for_each ttl_tick [FIRST_NODE_ID..<MAX_NODES] ttl) (\<lambda>ttl'.
        Inr (nw\<lparr>timeToLiveTimeUs := t - of_nat TIME_TO_LIVE_UPDATE_TIME_US\<rparr>, ttl'))
      else Inr (nw\<lparr>timeToLiveTimeUs := t\<rparr>, ttl))"

section \<open>Packets\<close>

text \<open>\<^verbatim>\<open>memcpy\<close> to and from a byte array, and a \<^verbatim>\<open>uint64_t\<close> in little-endian memory.\<close>

definition rd_bytes :: "u8 list \<Rightarrow> nat \<Rightarrow> nat \<Rightarrow> u8 list res" where
  "rd_bytes xs off n = (if off + n \<le> length xs then Inr (take n (drop off xs)) else Inl Out_Of_Bounds)"

definition wr_bytes :: "u8 list \<Rightarrow> nat \<Rightarrow> u8 list \<Rightarrow> u8 list res" where
  "wr_bytes xs off bs =
     (if off + length bs \<le> length xs then Inr (take off xs @ bs @ drop (off + length bs) xs)
      else Inl Out_Of_Bounds)"

definition u64_bytes :: "u64 \<Rightarrow> u8 list" where
  "u64_bytes x = map (\<lambda>i. ucast (drop_bit (8 * i) x)) [0..<8]"

definition bytes_u64 :: "u8 list \<Rightarrow> u64" where
  "bytes_u64 bs = foldr (\<lambda>b x. ucast b OR push_bit 8 x) bs 0"

definition txNewNodeRequest :: "tPacket \<Rightarrow> u64 \<Rightarrow> tPacket res" where
  "txNewNodeRequest p uniqueId =
     (let p' = (set_node_srcNodeId UNALLOCATED_NODE_ID
          (SET_PROTOCOL_VERSION_AND_PACKET_TYPE NEW_NODE_REQUEST_PACKET p))\<lparr>dataSize1 := 0, dataSize2 := 9\<rparr> in
      and_then (wr_bytes (udata p') 0 (u64_bytes uniqueId)) (\<lambda>d. Inr (p'\<lparr>udata := d\<rparr>)))"

definition rxNewNodePacketRequest ::
    "tNetworkManager \<Rightarrow> u8 list \<Rightarrow> tPacket \<Rightarrow> u32 \<Rightarrow> (tNetworkManager \<times> u8 list \<times> u32) res" where
  "rxNewNodePacketRequest nw ttl p networkFullCount =
     and_then (microbusAssert (dataSize2 p = 9)) (\<lambda>_.
     and_then (rd_bytes (udata p) 0 8) (\<lambda>bs.
       networkManagerRegisterNewNode nw ttl (bytes_u64 bs) networkFullCount))"

fun responseLoop :: "tNetworkManager \<Rightarrow> u8 \<Rightarrow> nat list \<Rightarrow> u8 list \<times> u8 \<Rightarrow> (u8 list \<times> u8) res" where
  "responseLoop nw maxNum [] (d, num) = Inr (d, num)"
| "responseLoop nw maxNum (i # is) (d, num) =
     and_then (rd (newNodeUniqueId nw) i) (\<lambda>uniqueId.
       if uniqueId > 0 then
         and_then (rd (newNodeId nw) i) (\<lambda>nodeId.
         and_then (wr_bytes d (unat num * NEW_NODE_RESPONSE_ENTRY_SIZE) (u64_bytes uniqueId)) (\<lambda>d1.
         and_then (wr d1 (8 + unat num * NEW_NODE_RESPONSE_ENTRY_SIZE) nodeId) (\<lambda>d2.
           if num + 1 = maxNum then Inr (d2, num + 1) else responseLoop nw maxNum is (d2, num + 1))))
       else responseLoop nw maxNum is (d, num))"

definition txNewNodeResponse :: "tNetworkManager \<Rightarrow> tPacket \<Rightarrow> tPacket res" where
  "txNewNodeResponse nw p =
     (let p' = set_master_dstNodeId UNALLOCATED_NODE_ID
          (SET_PROTOCOL_VERSION_AND_PACKET_TYPE NEW_NODE_RESPONSE_PACKET p);
          maxNum = of_nat (min (unat (numNewNodes nw)) (MASTER_PACKET_DATA_SIZE div NEW_NODE_RESPONSE_ENTRY_SIZE)) in
      and_then (responseLoop nw maxNum [0..<MAX_NODES_ALLOCATED_AT_ONCE] (udata p', 0)) (\<lambda>(d, num).
        Inr (SET_PACKET_DATA_SIZE (of_nat (unat num * NEW_NODE_RESPONSE_ENTRY_SIZE)) (p'\<lparr>udata := d\<rparr>))))"

fun responseScan :: "u8 list \<Rightarrow> u64 \<Rightarrow> nat \<Rightarrow> nat \<Rightarrow> u8 option res" where
  "responseScan d uniqueId i 0 = Inr None"
| "responseScan d uniqueId i (Suc k) =
     and_then (rd_bytes d (i * NEW_NODE_RESPONSE_ENTRY_SIZE) 8) (\<lambda>bs.
     and_then (rd d (i * NEW_NODE_RESPONSE_ENTRY_SIZE + 8)) (\<lambda>tmpNodeId.
       if bytes_u64 bs = uniqueId then Inr (Some tmpNodeId) else responseScan d uniqueId (Suc i) k))"

definition rxNewNodePacketResponse ::
    "tPacket \<Rightarrow> u64 \<Rightarrow> u8 \<Rightarrow> u32 \<Rightarrow> u32 \<Rightarrow> (u8 \<times> u32 \<times> u32) res" where
  "rxNewNodePacketResponse p uniqueId nodeId timeToLive statsNodeJoined =
     (let numEntries = (of_nat (unat (GET_PACKET_DATA_SIZE p) div NEW_NODE_RESPONSE_ENTRY_SIZE) :: u8) in
      and_then (responseScan (udata p) uniqueId 0 (unat numEntries)) (\<lambda>found.
        Inr (case found of
          None \<Rightarrow> (nodeId, timeToLive, statsNodeJoined)
        | Some tmpNodeId \<Rightarrow> (tmpNodeId, of_nat NODE_TIMEOUT_US, statsNodeJoined + 1))))"

text \<open>The rest of the memory was zeroed by the caller.\<close>

definition networkManagerInit :: "tNodeQueue \<Rightarrow> tNetworkManager" where
  "networkManagerInit q = \<lparr>newNodeUniqueId = replicate MAX_NODES_ALLOCATED_AT_ONCE 0,
     newNodeId = replicate MAX_NODES_ALLOCATED_AT_ONCE 0, numNewNodes = 0, activeNodes = q,
     timeToLiveTimeUs = 0\<rparr>"

section \<open>Bytes\<close>

lemma low_byte: "ucast (ucast x :: u8) OR push_bit 8 (take_bit n (drop_bit 8 x)) = take_bit (8 + n) (x :: u64)"
  by (rule bit_word_eqI) (auto simp: bit_simps)

lemma bytes_prefix:
  "foldr (\<lambda>b x. ucast (b :: u8) OR push_bit 8 x) (map (\<lambda>i. ucast (drop_bit (8 * i) x)) [0..<n]) 0
     = take_bit (8 * n) (x :: u64)"
proof (induction n arbitrary: x)
  case 0
  then show ?case by simp
next
  case (Suc n)
  have "map (\<lambda>i. ucast (drop_bit (8 * i) x) :: u8) [0..<Suc n]
      = ucast x # map (\<lambda>i. ucast (drop_bit (8 * i) (drop_bit 8 x))) [0..<n]"
    by (simp add: upt_conv_Cons map_Suc_upt [symmetric] comp_def drop_bit_drop_bit add.commute del: upt_Suc)
  with Suc [of "drop_bit 8 x"] low_byte [of x "8 * n"] show ?case by simp
qed

lemma bytes_u64_of_bytes [simp]: "bytes_u64 (u64_bytes x) = x"
  unfolding bytes_u64_def u64_bytes_def bytes_prefix by (simp add: take_bit_word_eq_self)

lemma u64_bytes_inj: "u64_bytes x = u64_bytes y \<longleftrightarrow> x = y"
  by (metis bytes_u64_of_bytes)

lemma length_u64_bytes [simp]: "length (u64_bytes x) = 8"
  by (simp add: u64_bytes_def)


section \<open>The admission table\<close>

definition joining :: "tNetworkManager \<Rightarrow> (u64 \<times> u8) list" where
  "joining nw = zip (take (unat (numNewNodes nw)) (newNodeUniqueId nw)) (take (unat (numNewNodes nw)) (newNodeId nw))"

definition alive :: "u8 list \<Rightarrow> u8 set" where
  "alive ttl = {d. node_id d \<and> ttl ! unat d \<noteq> 0}"

definition nw_shape :: "tNetworkManager \<Rightarrow> u8 list \<Rightarrow> bool" where
  "nw_shape nw ttl \<longleftrightarrow> length ttl = MAX_NODES \<and>
     length (newNodeUniqueId nw) = MAX_NODES_ALLOCATED_AT_ONCE \<and>
     length (newNodeId nw) = MAX_NODES_ALLOCATED_AT_ONCE \<and>
     unat (numNewNodes nw) \<le> MAX_NODES_ALLOCATED_AT_ONCE \<and> wf_queue (activeNodes nw)"

text \<open>
  No unique id and no node id is being admitted twice, node ids under admission are alive,
  and the active queue holds exactly the live nodes.
\<close>

definition nw_inv :: "tNetworkManager \<Rightarrow> u8 list \<Rightarrow> bool" where
  "nw_inv nw ttl \<longleftrightarrow> nw_shape nw ttl \<and> set (queue_ids (activeNodes nw)) = alive ttl \<and>
     distinct (map fst (joining nw)) \<and> distinct (map snd (joining nw)) \<and>
     0 \<notin> fst ` set (joining nw) \<and> snd ` set (joining nw) \<subseteq> alive ttl"

lemma joining_simps:
  assumes "nw_shape nw ttl"
  shows "length (joining nw) = unat (numNewNodes nw)"
    "map fst (joining nw) = take (unat (numNewNodes nw)) (newNodeUniqueId nw)"
    "map snd (joining nw) = take (unat (numNewNodes nw)) (newNodeId nw)"
  using assms by (simp_all add: nw_shape_def joining_def min_def)

lemma joining_nth:
  assumes "nw_shape nw ttl" and "i < unat (numNewNodes nw)"
  shows "joining nw ! i = (newNodeUniqueId nw ! i, newNodeId nw ! i)"
  using assms by (simp add: joining_def nw_shape_def)

lemma node_id_dead:
  "node_id d \<Longrightarrow> unat d < 64" "node_id d \<Longrightarrow> d \<noteq> INVALID_NODE_ID"
  by (auto simp: node_id_def)

text \<open>The free id found is the lowest dead one.\<close>

lemma free_id_spec:
  assumes "length ttl = MAX_NODES"
  shows "(\<exists>d. getNextFreeNodeId ttl = Inr d \<and> node_id d \<and> d \<notin> alive ttl \<and>
      (\<forall>x. node_id x \<longrightarrow> x < d \<longrightarrow> x \<in> alive ttl)) \<or>
    getNextFreeNodeId ttl = Inr INVALID_NODE_ID \<and> (\<forall>x. node_id x \<longrightarrow> x \<in> alive ttl)"
proof -
  let ?xs = "take 63 (drop 1 ttl)"
  have nth: "?xs ! j = ttl ! Suc j" if "j < 63" for j using that assms by simp
  have run: "find_from (\<lambda>t. t = 0) ttl 1 63 = Inr (map_option (\<lambda>j. 1 + j) (find_index (\<lambda>t. t = 0) ?xs))"
    using assms by (intro find_from_take) simp
  show ?thesis
  proof (cases "find_index (\<lambda>t. t = 0) ?xs")
    case None
    have "x \<in> alive ttl" if "node_id x" for x
    proof -
      have x: "1 \<le> unat x" "unat x < 64" using that by (simp_all add: node_id_def)
      then have "ttl ! unat x \<in> set ?xs"
        using assms nth [of "unat x - 1"] nth_mem [of "unat x - 1" ?xs] by simp
      then show ?thesis using None that by (auto simp: find_index_None_iff alive_def)
    qed
    then show ?thesis using run None by (simp add: getNextFreeNodeId_def)
  next
    case (Some j)
    note j = find_index_SomeD [OF Some]
    then have lt: "j < 63" using assms by simp
    have "unat (of_nat (Suc j) :: u8) = Suc j" using lt by (intro unat_u8_of_nat) simp
    then obtain d :: u8 where d: "unat d = Suc j" and dj: "d = of_nat (Suc j)" by blast
    have "node_id d" using lt by (simp add: node_id_def d)
    moreover have "d \<notin> alive ttl" using j nth [OF lt] by (simp add: alive_def d)
    moreover have "x \<in> alive ttl" if "node_id x" "x < d" for x
    proof -
      have x: "1 \<le> unat x" "unat x < Suc j" using that d by (simp_all add: node_id_def u8_less_iff)
      then have "?xs ! (unat x - 1) \<noteq> 0" using j by simp
      then show ?thesis using that x lt nth [of "unat x - 1"] by (simp add: alive_def)
    qed
    ultimately show ?thesis using run Some by (intro disjI1 exI [of _ d]) (simp add: getNextFreeNodeId_def dj)
  qed
qed

lemma alive_upd:
  "unat d < length ttl \<Longrightarrow> v \<noteq> 0 \<Longrightarrow> node_id d \<Longrightarrow> alive (ttl[unat d := v]) = insert d (alive ttl)"
  by (auto simp: alive_def nth_list_update u8_eq_iff)

lemma active_room:
  assumes "nw_inv nw ttl" and "node_id d" and "d \<notin> alive ttl"
  shows "unat (numNodes (activeNodes nw)) < MAX_NODES"
proof -
  have q: "wf_queue (activeNodes nw)" "set (queue_ids (activeNodes nw)) = alive ttl"
    using assms(1) by (simp_all add: nw_inv_def nw_shape_def)
  have "unat (numNodes (activeNodes nw)) = card (set (queue_ids (activeNodes nw)))"
    using q(1) by (metis length_queue_ids distinct_card wf_queue_def)
  also have "\<dots> \<le> card {x. node_id x}"
    unfolding q(2) by (intro card_mono node_ids_bounded) (auto simp: alive_def)
  also have "\<dots> < MAX_NODES" by (rule node_ids_bounded)
  finally show ?thesis .
qed

lemma register_spec:
  assumes inv: "nw_inv nw ttl" and u: "u \<noteq> 0"
  shows "\<exists>nw' ttl' c'. networkManagerRegisterNewNode nw ttl u c = Inr (nw', ttl', c') \<and> nw_inv nw' ttl' \<and>
    (if length (joining nw) = MAX_NODES_ALLOCATED_AT_ONCE \<or> u \<in> fst ` set (joining nw)
     then nw' = nw \<and> ttl' = ttl \<and> c' = c
     else if \<forall>x. node_id x \<longrightarrow> x \<in> alive ttl then nw' = nw \<and> ttl' = ttl \<and> c' = c + 1
     else \<exists>d. node_id d \<and> d \<notin> alive ttl \<and> (\<forall>x. node_id x \<longrightarrow> x < d \<longrightarrow> x \<in> alive ttl) \<and>
       joining nw' = joining nw @ [(u, d)] \<and> ttl' = ttl[unat d := MASTER_MAX_TIME_TO_LIVE] \<and> c' = c)"
proof -
  have sh: "nw_shape nw ttl" using inv by (simp add: nw_inv_def)
  let ?n = "unat (numNewNodes nw)"
  have lens: "length ttl = 64" "length (newNodeUniqueId nw) = 10" "length (newNodeId nw) = 10" "?n \<le> 10"
    using sh by (simp_all add: nw_shape_def)
  note js = joining_simps [OF sh]
  have known: "find_from (\<lambda>x. x = u) (newNodeUniqueId nw) 0 ?n = Inr (find_index (\<lambda>x. x = u) (map fst (joining nw)))"
    using lens by (simp add: find_from_0 js)
  consider (full) "?n = 10" | (known) "?n < 10" "u \<in> fst ` set (joining nw)"
    | (new) "?n < 10" "u \<notin> fst ` set (joining nw)" using lens by linarith
  then show ?thesis
  proof cases
    case full
    then show ?thesis
      using inv u by (intro exI [of _ nw] exI [of _ ttl] exI [of _ c])
        (simp add: networkManagerRegisterNewNode_def js)
  next
    case known: known
    then have "\<exists>i. find_index (\<lambda>x. x = u) (map fst (joining nw)) = Some i"
      by (intro find_index_Some_ex [where x = u]) auto
    with known show ?thesis
      using inv u \<open>find_from _ _ _ _ = _\<close> by (intro exI [of _ nw] exI [of _ ttl] exI [of _ c])
        (auto simp: networkManagerRegisterNewNode_def)
  next
    case new
    then have none: "find_from (\<lambda>x. x = u) (newNodeUniqueId nw) 0 ?n = Inr None"
      unfolding known by (auto simp: find_index_None_iff)
    from free_id_spec [of ttl] lens(1)
    consider (free) d where "getNextFreeNodeId ttl = Inr d" "node_id d" "d \<notin> alive ttl"
        "\<forall>x. node_id x \<longrightarrow> x < d \<longrightarrow> x \<in> alive ttl"
      | (none) "getNextFreeNodeId ttl = Inr INVALID_NODE_ID" "\<forall>x. node_id x \<longrightarrow> x \<in> alive ttl" by blast
    then show ?thesis
    proof cases
      case full: none
      then show ?thesis
        using inv u new none by (intro exI [of _ nw] exI [of _ ttl] exI [of _ "c + 1"])
          (simp add: networkManagerRegisterNewNode_def js)
    next
      case free
      have d: "unat d < 64" "d \<noteq> 255" using free(2) node_id_dead by auto
      obtain q where q: "nodeQueueAdd (activeNodes nw) d = Inr (True, q)" "wf_queue q"
        "set (queue_ids q) = insert d (alive ttl)"
        using nodeQueueAdd_spec [OF _ active_room [OF inv free(2,3)], of d] inv
        by (auto simp: nw_inv_def nw_shape_def insert_absorb split: if_splits)
      let ?ttl = "ttl[unat d := 128]"
      let ?nw = "nw\<lparr>newNodeUniqueId := (newNodeUniqueId nw)[?n := u], newNodeId := (newNodeId nw)[?n := d],
        numNewNodes := numNewNodes nw + 1, activeNodes := q\<rparr>"
      have run: "networkManagerRegisterNewNode nw ttl u c = Inr (?nw, ?ttl, c)"
        using new none free(1) q(1) d lens u by (simp add: networkManagerRegisterNewNode_def)
      have inc: "unat (numNewNodes nw + 1) = Suc ?n" using new by (simp add: unat_u8_inc)
      have join: "joining ?nw = joining nw @ [(u, d)]"
        using new lens by (simp add: joining_def inc take_Suc_conv_app_nth)
      have "nw_shape ?nw ?ttl" using sh new q(2) by (simp add: nw_shape_def inc)
      moreover have "d \<notin> snd ` set (joining nw)" using inv free(3) by (auto simp: nw_inv_def)
      ultimately have "nw_inv ?nw ?ttl"
        using inv new(2) u q(3) d lens free(2)
        by (auto simp: nw_inv_def join alive_upd)
      moreover have "\<not> (\<forall>x. node_id x \<longrightarrow> x \<in> alive ttl)" using free by blast
      ultimately show ?thesis
        using run free new js(1) join by (intro exI [of _ ?nw] exI [of _ ?ttl] exI [of _ c]) auto
    qed
  qed
qed

lemma drop_nth_filter:
  "distinct (map snd ps) \<Longrightarrow> i < length ps \<Longrightarrow>
   take i ps @ drop (Suc i) ps = filter (\<lambda>p. snd p \<noteq> snd (ps ! i)) ps"
proof (induction ps arbitrary: i)
  case Nil
  then show ?case by simp
next
  case (Cons p ps)
  show ?case
  proof (cases i)
    case 0
    have "snd p \<notin> snd ` set ps" using Cons.prems(1) by simp
    then have "filter (\<lambda>q. snd q \<noteq> snd p) ps = ps"
      by (intro filter_True) (metis imageI)
    then show ?thesis using 0 by simp
  next
    case (Suc j)
    then have "snd p \<noteq> snd (ps ! j)" using Cons.prems by (auto simp: image_iff)
    then show ?thesis using Suc Cons by simp
  qed
qed

lemma remove_request_spec:
  assumes sh: "nw_shape nw ttl" and dist: "distinct (map snd (joining nw))" and nz: "0 \<notin> fst ` set (joining nw)"
  shows "\<exists>nw'. networkManagerRemoveNewNodeRequest nw d = Inr (d \<in> snd ` set (joining nw), nw') \<and>
    nw_shape nw' ttl \<and> activeNodes nw' = activeNodes nw \<and> timeToLiveTimeUs nw' = timeToLiveTimeUs nw \<and>
    joining nw' = filter (\<lambda>p. snd p \<noteq> d) (joining nw)"
proof -
  let ?n = "unat (numNewNodes nw)"
  have lens: "length (newNodeUniqueId nw) = 10" "length (newNodeId nw) = 10" "?n \<le> 10"
    using sh by (simp_all add: nw_shape_def)
  note js = joining_simps [OF sh]
  have find: "find_from (\<lambda>x. x = d) (newNodeId nw) 0 ?n = Inr (find_index (\<lambda>x. x = d) (map snd (joining nw)))"
    using lens by (simp add: find_from_0 js)
  show ?thesis
  proof (cases "find_index (\<lambda>x. x = d) (map snd (joining nw))")
    case None
    then have "d \<notin> snd ` set (joining nw)" by (auto simp: find_index_None_iff)
    moreover from this have "filter (\<lambda>p. snd p \<noteq> d) (joining nw) = joining nw"
      by (intro filter_True) force
    ultimately show ?thesis
      using sh find None by (intro exI [of _ nw]) (simp add: networkManagerRemoveNewNodeRequest_def)
  next
    case (Some i)
    note i0 = find_index_SomeD [OF Some]
    then have len: "i < length (joining nw)" by simp
    then have i: "i < ?n" "snd (joining nw ! i) = d" "i < length (joining nw)" using i0 by (simp_all add: js(1))
    then have pos: "numNewNodes nw > 0" "unat (numNewNodes nw - 1) = ?n - 1" by (simp_all add: u8_simps)
    have "joining nw ! i \<in> set (joining nw)" using i by simp
    then have mem: "d \<in> snd ` set (joining nw)" "newNodeUniqueId nw ! i > 0"
      using i(2) nz joining_nth [OF sh i(1)] by (force simp: word_gt_0)+
    obtain us where us: "shift_down (newNodeUniqueId nw) i (?n - 1 - i) = Inr us" "length us = 10"
      "take (?n - 1) us = take i (newNodeUniqueId nw) @ drop (Suc i) (take ?n (newNodeUniqueId nw))"
      using take_shift_down [of i ?n "newNodeUniqueId nw"] i lens by auto
    obtain ids where ids: "shift_down (newNodeId nw) i (?n - 1 - i) = Inr ids" "length ids = 10"
      "take (?n - 1) ids = take i (newNodeId nw) @ drop (Suc i) (take ?n (newNodeId nw))"
      using take_shift_down [of i ?n "newNodeId nw"] i lens by auto
    let ?nw = "nw\<lparr>newNodeUniqueId := us, newNodeId := ids, numNewNodes := numNewNodes nw - 1\<rparr>"
    have "joining ?nw = take i (joining nw) @ drop (Suc i) (joining nw)"
      using i lens by (simp add: joining_def pos us(3) [simplified] ids(3) [simplified] take_zip drop_zip min_def)
    also have "\<dots> = filter (\<lambda>p. snd p \<noteq> d) (joining nw)"
      using drop_nth_filter [OF dist i(3)] i(2) by simp
    finally have "joining ?nw = filter (\<lambda>p. snd p \<noteq> d) (joining nw)" .
    moreover have "networkManagerRemoveNewNodeRequest nw d = Inr (True, ?nw)"
      using pos find Some i lens us ids mem
      by (simp add: networkManagerRemoveNewNodeRequest_def)
    moreover have "nw_shape ?nw ttl" using sh lens us(2) ids(2) pos by (simp add: nw_shape_def le_diff_conv)
    ultimately show ?thesis using mem by (intro exI [of _ ?nw]) simp
  qed
qed

lemma remove_request_inv:
  assumes "nw_inv nw ttl"
  shows "\<exists>nw'. networkManagerRemoveNewNodeRequest nw d = Inr (d \<in> snd ` set (joining nw), nw') \<and>
    nw_inv nw' ttl \<and> activeNodes nw' = activeNodes nw \<and>
    joining nw' = filter (\<lambda>p. snd p \<noteq> d) (joining nw)"
proof -
  from remove_request_spec [of nw ttl d] assms obtain nw' where
    r: "networkManagerRemoveNewNodeRequest nw d = Inr (d \<in> snd ` set (joining nw), nw')"
    "nw_shape nw' ttl" "activeNodes nw' = activeNodes nw"
    "joining nw' = filter (\<lambda>p. snd p \<noteq> d) (joining nw)" by (auto simp: nw_inv_def)
  have "nw_inv nw' ttl"
    using assms r(2-) by (auto simp: nw_inv_def distinct_map_filter)
  with r show ?thesis by blast
qed

lemma record_spec:
  assumes inv: "nw_inv nw ttl" and d: "d \<in> alive ttl"
  shows "\<exists>nw'. networkManagerRecordRxPacket nw ttl d = Inr (nw', ttl[unat d := MASTER_MAX_TIME_TO_LIVE]) \<and>
    nw_inv nw' (ttl[unat d := MASTER_MAX_TIME_TO_LIVE]) \<and>
    joining nw' = filter (\<lambda>p. snd p \<noteq> d) (joining nw)"
proof -
  have sh: "nw_shape nw ttl" "length ttl = 64" using inv by (simp_all add: nw_inv_def nw_shape_def)
  have n: "node_id d" "unat d < 64" using d node_id_dead by (auto simp: alive_def)
  obtain nw' where r: "networkManagerRemoveNewNodeRequest nw d = Inr (d \<in> snd ` set (joining nw), nw')"
    "nw_inv nw' ttl" "joining nw' = filter (\<lambda>p. snd p \<noteq> d) (joining nw)"
    using remove_request_inv [OF inv] by blast
  have al: "alive (ttl[unat d := 128]) = alive ttl" using alive_upd [of d ttl 128] n sh d by auto
  have keep: "nw_inv m (ttl[unat d := 128]) = nw_inv m ttl" for m
    by (simp add: nw_inv_def al nw_shape_def)
  show ?thesis
  proof (cases "numNewNodes nw > 0")
    case True
    then show ?thesis using r n sh keep by (simp add: networkManagerRecordRxPacket_def)
  next
    case False
    then have "joining nw = []" by (simp add: joining_def word_gt_0)
    then show ?thesis
      using False inv n sh keep by (intro exI [of _ nw]) (simp add: networkManagerRecordRxPacket_def)
  qed
qed

subsection \<open>The passing of time\<close>

definition tick :: "u8 \<Rightarrow> u8" where
  "tick t = (if t > 0 \<and> t \<noteq> REMOVE_NODE_TTL then (if t - 1 = 0 then REMOVE_NODE_TTL else t - 1) else t)"

lemma tick_eq_0 [simp]: "tick t = 0 \<longleftrightarrow> t = 0"
  by (auto simp: tick_def)

lemma for_each_one: "for_each body [i] s = body i s"
  by (cases "body i s") simp_all

lemma ttl_tick_eq: "k < length xs \<Longrightarrow> ttl_tick k xs = Inr (xs[k := tick (xs ! k)])"
  by (auto simp: ttl_tick_def tick_def)

lemma ttl_tick_map:
  assumes "k \<le> 64" and "length ttl = 64" and "1 \<le> k"
  shows "for_each ttl_tick [1..<k] ttl = Inr (map (\<lambda>j. if 1 \<le> j \<and> j < k then tick (ttl ! j) else ttl ! j) [0..<64])"
  using assms
proof (induction k)
  case 0
  then show ?case by simp
next
  case (Suc k)
  show ?case
  proof (cases "k = 0")
    case True
    then show ?thesis using Suc.prems by (auto intro: nth_equalityI)
  next
    case False
    let ?f = "\<lambda>k. map (\<lambda>j. if 1 \<le> j \<and> j < k then tick (ttl ! j) else ttl ! j) [0..<64]"
    have "for_each ttl_tick [1..<Suc k] ttl = and_then (for_each ttl_tick [1..<k] ttl) (for_each ttl_tick [k])"
      using False by (simp add: for_each_append del: for_each.simps)
    also have "\<dots> = ttl_tick k (?f k)" using Suc False by (simp add: for_each_one del: for_each.simps)
    also have "\<dots> = Inr ((?f k)[k := tick (ttl ! k)])"
      using Suc.prems False by (simp add: ttl_tick_eq)
    also have "(?f k)[k := tick (ttl ! k)] = ?f (Suc k)"
      using Suc.prems False by (intro nth_equalityI) (auto simp: nth_list_update)
    finally show ?thesis .
  qed
qed

lemma update_time_spec:
  assumes "length ttl = MAX_NODES"
  shows "\<exists>ttl'. networkManagerUpdateTimeUs nw ttl us = Inr (nw\<lparr>timeToLiveTimeUs :=
      (if unat (timeToLiveTimeUs nw + us) \<ge> 4358 then timeToLiveTimeUs nw + us - 4358
       else timeToLiveTimeUs nw + us)\<rparr>, ttl') \<and> length ttl' = MAX_NODES \<and>
    (\<forall>d. unat d < 64 \<longrightarrow> ttl' ! unat d = (if unat (timeToLiveTimeUs nw + us) \<ge> 4358 \<and> d \<noteq> 0
       then tick (ttl ! unat d) else ttl ! unat (d :: u8)))"
proof (cases "unat (timeToLiveTimeUs nw + us) \<ge> 4358")
  case True
  have pos: "d \<noteq> 0 \<longleftrightarrow> Suc 0 \<le> unat d" for d :: u8 by (simp add: u8_eq_iff Suc_le_eq)
  show ?thesis
    using True assms ttl_tick_map [of 64 ttl]
    by (simp add: networkManagerUpdateTimeUs_def Let_def pos)
next
  case False
  then show ?thesis using assms by (simp add: networkManagerUpdateTimeUs_def Let_def)
qed

lemma update_time_inv:
  assumes inv: "nw_inv nw ttl"
  shows "\<exists>nw' ttl'. networkManagerUpdateTimeUs nw ttl us = Inr (nw', ttl') \<and> nw_inv nw' ttl' \<and>
    joining nw' = joining nw \<and> alive ttl' = alive ttl"
proof -
  have len: "length ttl = 64" using inv by (simp add: nw_inv_def nw_shape_def)
  obtain t ttl' where r: "networkManagerUpdateTimeUs nw ttl us = Inr (nw\<lparr>timeToLiveTimeUs := t\<rparr>, ttl')"
    "length ttl' = 64" "\<forall>d. unat d < 64 \<longrightarrow> ttl' ! unat d = (if unat (timeToLiveTimeUs nw + us) \<ge> 4358 \<and> d \<noteq> 0
       then tick (ttl ! unat d) else ttl ! unat (d :: u8))"
    using update_time_spec [OF len, of nw us] by blast
  have "ttl' ! unat d = 0 \<longleftrightarrow> ttl ! unat d = 0" if "unat d < 64" for d :: u8
    using r(3) that by simp
  then have al: "alive ttl' = alive ttl"
    using node_id_dead(1) unfolding alive_def by blast
  have "joining (nw\<lparr>timeToLiveTimeUs := t\<rparr>) = joining nw" by (simp add: joining_def)
  then show ?thesis using r(1,2) inv al by (auto simp: nw_inv_def nw_shape_def)
qed


section \<open>Properties\<close>

lemma init_nw_inv: "nw_inv (networkManagerInit zero_queue) (replicate MAX_NODES 0)"
  by (auto simp: nw_inv_def nw_shape_def networkManagerInit_def joining_def alive_def node_id_def)

datatype nw_call = Nw_Request u64 | Nw_Heard u8 | Nw_Gone u8 | Nw_Time u32

definition nw_do :: "nw_call \<Rightarrow> tNetworkManager \<times> u8 list \<Rightarrow> (tNetworkManager \<times> u8 list) res" where
  "nw_do c s = (case s of (nw, ttl) \<Rightarrow> (case c of
     Nw_Request u \<Rightarrow> and_then (networkManagerRegisterNewNode nw ttl u 0) (\<lambda>(nw', ttl', _). Inr (nw', ttl'))
   | Nw_Heard d \<Rightarrow> (if unat d < MAX_NODES \<and> ttl ! unat d > 0 then networkManagerRecordRxPacket nw ttl d else Inr (nw, ttl))
   | Nw_Gone d \<Rightarrow> and_then (networkManagerRemoveNewNodeRequest nw d) (\<lambda>(_, nw'). Inr (nw', ttl))
   | Nw_Time us \<Rightarrow> networkManagerUpdateTimeUs nw ttl us))"

fun nw_ok :: "nw_call \<Rightarrow> bool" where
  "nw_ok (Nw_Request u) = (u \<noteq> 0)"
| "nw_ok (Nw_Heard d) = (d \<noteq> 0)"
| "nw_ok (Nw_Gone d) = True"
| "nw_ok (Nw_Time us) = True"

text \<open>
  Claim C20. Starting from the empty network, no sequence of join requests, packets heard from
  nodes with a positive time to live, abandoned admissions and time steps fails an assertion
  or leaves an array, and afterwards no unique id and no node id is under admission twice and
  the active queue is exactly the set of nodes that are alive.
\<close>

theorem nw_calls_total:
  assumes "\<forall>c\<in>set cs. nw_ok c"
  shows "\<exists>nw ttl. for_each nw_do cs (networkManagerInit zero_queue, replicate MAX_NODES 0) = Inr (nw, ttl) \<and>
    nw_inv nw ttl"
proof -
  have "\<exists>s'. for_each nw_do cs (networkManagerInit zero_queue, replicate MAX_NODES 0) = Inr s' \<and> nw_inv (fst s') (snd s')"
  proof (rule for_each_invariant)
    show "nw_inv (fst (networkManagerInit zero_queue, replicate MAX_NODES 0))
        (snd (networkManagerInit zero_queue, replicate MAX_NODES 0))" using init_nw_inv by simp
    fix c s assume c: "c \<in> set cs" and inv: "nw_inv (fst s) (snd s)"
    obtain nw ttl where s: "s = (nw, ttl)" by (cases s)
    have inv: "nw_inv nw ttl" using inv s by simp
    have ok: "nw_ok c" using assms c by blast
    show "\<exists>s'. nw_do c s = Inr s' \<and> nw_inv (fst s') (snd s')"
    proof (cases c)
      case (Nw_Request u)
      then show ?thesis using register_spec [OF inv, of u 0] ok by (auto simp: nw_do_def s)
    next
      case (Nw_Heard d)
      show ?thesis
      proof (cases "unat d < 64 \<and> ttl ! unat d > 0")
        case True
        have "unat d \<noteq> 0" using Nw_Heard ok by (simp add: u8_eq_iff)
        then have "d \<in> alive ttl" using True by (simp add: alive_def node_id_def word_gt_0)
        from record_spec [OF inv this] show ?thesis using True Nw_Heard by (auto simp: nw_do_def s)
      next
        case False
        then show ?thesis using inv Nw_Heard by (auto simp: nw_do_def s)
      qed
    next
      case (Nw_Gone d)
      then show ?thesis using remove_request_inv [OF inv, of d] by (auto simp: nw_do_def s)
    next
      case (Nw_Time us)
      then show ?thesis using update_time_inv [OF inv, of us] by (auto simp: nw_do_def s)
    qed
  qed
  then show ?thesis by auto
qed

theorem nw_calls_total_witness:
  "\<exists>nw ttl. for_each nw_do [Nw_Request 77, Nw_Request 99, Nw_Time 5000, Nw_Heard 1, Nw_Gone 2]
     (networkManagerInit zero_queue, replicate MAX_NODES 0) = Inr (nw, ttl) \<and> nw_inv nw ttl"
  by (rule nw_calls_total) simp

text \<open>
  A join request that is not already being answered, when the table has room and
  some id is free, is given the lowest node id that is not alive, appended to the table with
  a full time to live and put on the active queue; otherwise nothing changes, except that a
  full network is counted.
\<close>

lemma nw_register_lowest_free:
  assumes "nw_inv nw ttl" and "u \<noteq> 0"
  shows "\<exists>nw' ttl' c'. networkManagerRegisterNewNode nw ttl u c = Inr (nw', ttl', c') \<and> nw_inv nw' ttl' \<and>
    (if length (joining nw) = MAX_NODES_ALLOCATED_AT_ONCE \<or> u \<in> fst ` set (joining nw)
     then nw' = nw \<and> ttl' = ttl \<and> c' = c
     else if \<forall>x. node_id x \<longrightarrow> x \<in> alive ttl then nw' = nw \<and> ttl' = ttl \<and> c' = c + 1
     else \<exists>d. node_id d \<and> d \<notin> alive ttl \<and> (\<forall>x. node_id x \<longrightarrow> x < d \<longrightarrow> x \<in> alive ttl) \<and>
       joining nw' = joining nw @ [(u, d)] \<and> ttl' = ttl[unat d := MASTER_MAX_TIME_TO_LIVE] \<and> c' = c)"
  using register_spec [OF assms, of c] by blast

lemma nw_register_lowest_free_witness:
  "\<exists>nw ttl c d. networkManagerRegisterNewNode (networkManagerInit zero_queue) (replicate MAX_NODES 0) 77 5 = Inr (nw, ttl, c) \<and>
     joining nw = [(77, d)] \<and> node_id d"
proof -
  have j: "joining (networkManagerInit zero_queue) = []" by (simp add: joining_def networkManagerInit_def)
  have "node_id 1 \<and> 1 \<notin> alive (replicate 64 0)" by (simp add: node_id_def alive_def)
  then have "\<not> (\<forall>x. node_id x \<longrightarrow> x \<in> alive (replicate 64 0))" by blast
  with nw_register_lowest_free [OF init_nw_inv, of 77 5] show ?thesis by (auto simp: j)
qed

subsection \<open>The response packet\<close>

definition entry_bytes :: "u64 \<times> u8 \<Rightarrow> u8 list" where
  "entry_bytes e = u64_bytes (fst e) @ [snd e]"

definition table_bytes :: "(u64 \<times> u8) list \<Rightarrow> u8 list" where
  "table_bytes ps = concat (map entry_bytes ps)"

lemma length_table [simp]: "length (table_bytes ps) = 9 * length ps"
  by (induction ps) (simp_all add: table_bytes_def entry_bytes_def)

lemma table_snoc: "table_bytes (ps @ [p]) = table_bytes ps @ u64_bytes (fst p) @ [snd p]"
  by (simp add: table_bytes_def entry_bytes_def)

lemma write_entry:
  assumes "length t = 9 * i" and "9 \<le> length r"
  shows "wr_bytes (t @ r) (i * 9) (u64_bytes u) = Inr (t @ u64_bytes u @ drop 8 r)"
    and "wr (t @ u64_bytes u @ drop 8 r) (8 + i * 9) d = Inr (t @ u64_bytes u @ [d] @ drop 9 r)"
proof -
  show "wr_bytes (t @ r) (i * 9) (u64_bytes u) = Inr (t @ u64_bytes u @ drop 8 r)"
    using assms by (simp add: wr_bytes_def)
  have "drop 8 r = r ! 8 # drop 9 r" using assms(2) Cons_nth_drop_Suc [of 8 r] by simp
  then show "wr (t @ u64_bytes u @ drop 8 r) (8 + i * 9) d = Inr (t @ u64_bytes u @ [d] @ drop 9 r)"
    using assms by (simp add: wr_def list_update_append)
qed

lemma response_loop:
  assumes sh: "nw_shape nw ttl" and nz: "0 \<notin> fst ` set (joining nw)" and len: "90 \<le> length d0"
  shows "i < unat (numNewNodes nw) \<Longrightarrow>
    responseLoop nw (numNewNodes nw) [i..<10] (table_bytes (take i (joining nw)) @ drop (9 * i) d0, of_nat i)
    = Inr (table_bytes (joining nw) @ drop (9 * unat (numNewNodes nw)) d0, numNewNodes nw)"
proof (induction "unat (numNewNodes nw) - i" arbitrary: i)
  case 0
  then show ?case by simp
next
  case (Suc k)
  let ?n = "unat (numNewNodes nw)"
  have n: "?n \<le> 10" "length (newNodeUniqueId nw) = 10" "length (newNodeId nw) = 10" using sh by (simp_all add: nw_shape_def)
  note js = joining_simps(1) [OF sh]
  let ?u = "newNodeUniqueId nw ! i" and ?d = "newNodeId nw ! i"
  have ji: "joining nw ! i = (?u, ?d)" using joining_nth [OF sh Suc.prems] .
  have "joining nw ! i \<in> set (joining nw)" using Suc.prems js by simp
  then have u: "?u > 0" using nz ji by (force simp: word_gt_0)
  have num: "unat (of_nat i :: u8) = i" using Suc.prems n by (intro unat_u8_of_nat) simp
  have num1: "(of_nat i + 1 :: u8) = of_nat (Suc i)" by simp
  have tk: "take (Suc i) (joining nw) = take i (joining nw) @ [(?u, ?d)]"
    using Suc.prems js ji by (simp add: take_Suc_conv_app_nth)
  have lens: "length (table_bytes (take i (joining nw))) = 9 * i" "9 \<le> length (drop (9 * i) d0)"
    using Suc.prems n js len by simp_all
  note w = write_entry(1) [OF lens, of ?u] write_entry(2) [OF lens, of ?u ?d]
  have tb: "table_bytes (take (Suc i) (joining nw)) = table_bytes (take i (joining nw)) @ u64_bytes ?u @ [?d]"
    by (simp add: tk table_snoc)
  have upt: "[i..<10] = i # [Suc i..<10]" using Suc.prems n by (simp add: upt_conv_Cons)
  have step: "responseLoop nw (numNewNodes nw) [i..<10] (table_bytes (take i (joining nw)) @ drop (9 * i) d0, of_nat i)
    = (if of_nat (Suc i) = numNewNodes nw
       then Inr (table_bytes (take (Suc i) (joining nw)) @ drop (9 * Suc i) d0, of_nat (Suc i))
       else responseLoop nw (numNewNodes nw) [Suc i..<10]
         (table_bytes (take (Suc i) (joining nw)) @ drop (9 * Suc i) d0, of_nat (Suc i)))"
    using Suc.prems n u num w by (simp add: upt tb num1 del: of_nat_Suc upt_Suc)
  have "unat (of_nat (Suc i) :: u8) = Suc i" using Suc.prems n by (intro unat_u8_of_nat) linarith
  then have fin: "of_nat (Suc i) = numNewNodes nw \<longleftrightarrow> Suc i = ?n"
    by (simp add: u8_eq_iff del: of_nat_Suc)
  show ?case
  proof (cases "Suc i = ?n")
    case True
    then show ?thesis using step fin js by (simp del: of_nat_Suc)
  next
    case False
    then show ?thesis using step fin Suc.hyps(1) [of "Suc i"] Suc.hyps(2) Suc.prems by (simp del: of_nat_Suc)
  qed
qed

lemma scan_table:
  "i \<le> length ps \<Longrightarrow>
   responseScan (table_bytes ps @ r) u i (length ps - i) = Inr (map_of (drop i ps) u)"
proof (induction "length ps - i" arbitrary: i)
  case 0
  then show ?case by simp
next
  case (Suc k)
  then have i: "i < length ps" by simp
  have split: "table_bytes ps = table_bytes (take i ps) @ u64_bytes (fst (ps ! i)) @ [snd (ps ! i)] @ table_bytes (drop (Suc i) ps)"
    using arg_cong [OF id_take_nth_drop [OF i], of table_bytes] by (simp add: table_bytes_def entry_bytes_def)
  have lt: "length (table_bytes (take i ps)) = i * 9" using i by simp
  have rd: "rd_bytes (table_bytes ps @ r) (i * 9) 8 = Inr (u64_bytes (fst (ps ! i)))"
    using i unfolding split rd_bytes_def by simp
  have rd2: "rd (table_bytes ps @ r) (i * 9 + 8) = Inr (snd (ps ! i))"
    using i unfolding split rd_def by (simp add: nth_append)
  have k: "length ps - i = Suc (length ps - Suc i)" using i by simp
  have "drop i ps = ps ! i # drop (Suc i) ps" using i by (simp add: Cons_nth_drop_Suc)
  then show ?case
    using Suc.hyps(1) [of "Suc i"] Suc.hyps(2) i rd rd2
    by (simp add: k del: length_table)
qed


lemma response_run:
  assumes inv: "nw_inv nw ttl" and some: "0 < unat (numNewNodes nw)" and p: "wf_packet p"
  shows "\<exists>p'. txNewNodeResponse nw p = Inr p' \<and> wf_packet p' \<and>
    GET_PACKET_TYPE p' = packet_code NEW_NODE_RESPONSE_PACKET \<and> GET_PROTOCOL_VERSION p' = MICROBUS_VERSION \<and>
    master_dstNodeId p' = UNALLOCATED_NODE_ID \<and> unat (GET_PACKET_DATA_SIZE p') = 9 * unat (numNewNodes nw) \<and>
    udata p' = table_bytes (joining nw) @ drop (9 * unat (numNewNodes nw)) (udata p)"
proof -
  have sh: "nw_shape nw ttl" and nz: "0 \<notin> fst ` set (joining nw)" using inv by (simp_all add: nw_inv_def)
  let ?n = "unat (numNewNodes nw)"
  have n: "?n \<le> 10" using sh by (simp add: nw_shape_def)
  have ud: "length (udata p) = 178" "length (uhdr p) = 10" using p by (simp_all add: wf_packet_def)
  let ?p = "set_master_dstNodeId 0xFE (SET_PROTOCOL_VERSION_AND_PACKET_TYPE NEW_NODE_RESPONSE_PACKET p)"
  let ?d = "table_bytes (joining nw) @ drop (9 * ?n) (udata p)"
  let ?p' = "SET_PACKET_DATA_SIZE (of_nat (?n * 9)) (?p\<lparr>udata := ?d\<rparr>)"
  have up: "udata ?p = udata p" by (simp add: set_master_dstNodeId_def)
  have mx: "(of_nat (min ?n (178 div 9)) :: u8) = numNewNodes nw" using n by (simp add: min_def)
  have loop: "responseLoop nw (numNewNodes nw) [0..<10] (udata p, 0) = Inr (?d, numNewNodes nw)"
    using response_loop [OF sh nz _ some, of "udata p"] ud by (simp add: table_bytes_def)
  have run: "txNewNodeResponse nw p = Inr ?p'"
    using loop mx by (simp add: txNewNodeResponse_def Let_def up)
  have wf: "wf_packet ?p'"
    using ud n joining_simps(1) [OF sh] by (simp add: wf_packet_def set_master_dstNodeId_def)
  have ty: "GET_PACKET_TYPE ?p' = packet_code NEW_NODE_RESPONSE_PACKET" "GET_PROTOCOL_VERSION ?p' = 1"
    by (simp_all add: set_master_dstNodeId_def)
  have dst: "master_dstNodeId ?p' = 0xFE"
    using ud by (simp add: master_dstNodeId_def set_master_dstNodeId_def)
  have small: "unat (of_nat k :: u16) = k" if "k \<le> 90" for k using that by (simp add: unat_of_nat)
  have sz: "unat (GET_PACKET_DATA_SIZE ?p') = 9 * ?n"
    using n small [of "?n * 9"] by simp
  show ?thesis using run wf ty dst sz by (intro exI [of _ ?p']) simp
qed

lemma request_run:
  assumes "wf_packet p"
  shows "\<exists>p'. txNewNodeRequest p u = Inr p' \<and> wf_packet p' \<and>
    GET_PACKET_TYPE p' = packet_code NEW_NODE_REQUEST_PACKET \<and> GET_PROTOCOL_VERSION p' = MICROBUS_VERSION \<and>
    node_srcNodeId p' = UNALLOCATED_NODE_ID \<and> dataSize1 p' = 0 \<and> dataSize2 p' = 9 \<and> take 8 (udata p') = u64_bytes u"
proof -
  let ?p = "(set_node_srcNodeId 0xFE (SET_PROTOCOL_VERSION_AND_PACKET_TYPE NEW_NODE_REQUEST_PACKET p))
    \<lparr>dataSize1 := 0, dataSize2 := 9\<rparr>"
  let ?p' = "?p\<lparr>udata := u64_bytes u @ drop 8 (udata p)\<rparr>"
  have len: "length (udata p) = 178" "length (uhdr p) = 10" using assms by (simp_all add: wf_packet_def)
  have "txNewNodeRequest p u = Inr ?p'"
    using len by (simp add: txNewNodeRequest_def Let_def wr_bytes_def set_node_srcNodeId_def)
  moreover have "wf_packet ?p'" "node_srcNodeId ?p' = 0xFE"
    using len by (simp_all add: wf_packet_def set_node_srcNodeId_def node_srcNodeId_def)
  moreover have "GET_PACKET_TYPE ?p' = packet_code NEW_NODE_REQUEST_PACKET" "GET_PROTOCOL_VERSION ?p' = 1"
    by (simp_all add: GET_PACKET_TYPE_def GET_PROTOCOL_VERSION_def SET_PROTOCOL_VERSION_AND_PACKET_TYPE_def set_node_srcNodeId_def)
  ultimately show ?thesis by (intro exI [of _ ?p']) simp
qed

lemma response_read_back:
  assumes inv: "nw_inv nw ttl" and some: "0 < unat (numNewNodes nw)" and p: "wf_packet p"
  shows "\<exists>p'. txNewNodeResponse nw p = Inr p' \<and> wf_packet p' \<and>
    GET_PACKET_TYPE p' = packet_code NEW_NODE_RESPONSE_PACKET \<and> master_dstNodeId p' = UNALLOCATED_NODE_ID \<and>
    (\<forall>u nodeId t j. rxNewNodePacketResponse p' u nodeId t j = Inr (case map_of (joining nw) u of
       None \<Rightarrow> (nodeId, t, j) | Some d \<Rightarrow> (d, of_nat NODE_TIMEOUT_US, j + 1)))"
proof -
  have sh: "nw_shape nw ttl" using inv by (simp add: nw_inv_def)
  let ?n = "unat (numNewNodes nw)"
  have n: "?n \<le> 10" using sh by (simp add: nw_shape_def)
  have lenj: "length (joining nw) = ?n" using joining_simps(1) [OF sh] .
  obtain p' where run: "txNewNodeResponse nw p = Inr p'" "wf_packet p'" "GET_PACKET_TYPE p' = packet_code NEW_NODE_RESPONSE_PACKET"
    "master_dstNodeId p' = UNALLOCATED_NODE_ID" and sz: "unat (GET_PACKET_DATA_SIZE p') = 9 * ?n"
    and d: "udata p' = table_bytes (joining nw) @ drop (9 * ?n) (udata p)"
    using response_run [OF assms] by blast
  have ent: "unat (of_nat (unat (GET_PACKET_DATA_SIZE p') div 9) :: u8) = ?n" unfolding sz using n by simp
  have rx: "rxNewNodePacketResponse p' u nodeId t j = Inr (case map_of (joining nw) u of
       None \<Rightarrow> (nodeId, t, j) | Some d \<Rightarrow> (d, of_nat NODE_TIMEOUT_US, j + 1))" for u nodeId t j
    unfolding rxNewNodePacketResponse_def Let_def ent d
    using scan_table [of 0 "joining nw" "drop (9 * ?n) (udata p)" u] lenj by simp
  show ?thesis using run rx by (intro exI [of _ p']) blast
qed

text \<open>
  Claim C21. The response packet carries the whole admission table: a node that reads it finds
  the node id the master gave to its unique id, sets its time to live and counts the join,
  and a node whose unique id is not in the table is unaffected. No two unique ids in the table
  have the same node id.
\<close>

theorem nw_response_roundtrip:
  assumes inv: "nw_inv nw ttl" and some: "0 < unat (numNewNodes nw)" and p: "wf_packet p"
  shows "\<exists>p'. txNewNodeResponse nw p = Inr p' \<and> wf_packet p' \<and>
    GET_PACKET_TYPE p' = packet_code NEW_NODE_RESPONSE_PACKET \<and> master_dstNodeId p' = UNALLOCATED_NODE_ID \<and>
    (\<forall>u nodeId t j. rxNewNodePacketResponse p' u nodeId t j = Inr (case map_of (joining nw) u of
       None \<Rightarrow> (nodeId, t, j) | Some d \<Rightarrow> (d, of_nat NODE_TIMEOUT_US, j + 1))) \<and>
    (\<forall>u v d. map_of (joining nw) u = Some d \<and> map_of (joining nw) v = Some d \<longrightarrow> u = v)"
proof -
  have dist: "distinct (map snd (joining nw))" using inv by (simp add: nw_inv_def)
  have uniq: "u = v" if u: "map_of (joining nw) u = Some d" and v: "map_of (joining nw) v = Some d" for u v d
  proof -
    have "(u, d) \<in> set (joining nw)" "(v, d) \<in> set (joining nw)" using u v by (auto dest: map_of_SomeD)
    then show ?thesis using dist by (metis (no_types) distinct_map inj_onD prod.inject snd_conv)
  qed
  then show ?thesis using response_read_back [OF assms] by blast
qed

theorem nw_response_roundtrip_witness:
  "\<exists>nw ttl p. nw_inv nw ttl \<and> txNewNodeResponse nw zero_packet = Inr p \<and>
     (\<exists>d. rxNewNodePacketResponse p 77 UNALLOCATED_NODE_ID 0 0 = Inr (d, of_nat NODE_TIMEOUT_US, 1) \<and> node_id d)"
proof -
  have j: "joining (networkManagerInit zero_queue) = []" by (simp add: joining_def networkManagerInit_def)
  have "node_id 1 \<and> 1 \<notin> alive (replicate 64 0)" by (simp add: node_id_def alive_def)
  then have "\<not> (\<forall>x. node_id x \<longrightarrow> x \<in> alive (replicate 64 0))" by blast
  with register_spec [OF init_nw_inv, of 77 5] obtain nw ttl d where
    nw: "nw_inv nw ttl" "joining nw = [(77, d)]" "node_id d" by (auto simp: j)
  have sh: "nw_shape nw ttl" using nw(1) by (simp add: nw_inv_def)
  have "0 < unat (numNewNodes nw)" using joining_simps(1) [OF sh] nw(2) by simp
  from nw_response_roundtrip [OF nw(1) this, of zero_packet] obtain p where
    "txNewNodeResponse nw zero_packet = Inr p"
    "\<forall>u nodeId t j. rxNewNodePacketResponse p u nodeId t j = Inr (case map_of (joining nw) u of
       None \<Rightarrow> (nodeId, t, j) | Some d \<Rightarrow> (d, of_nat NODE_TIMEOUT_US, j + 1))" by auto
  with nw show ?thesis by (intro exI [of _ nw] exI [of _ ttl] exI [of _ p]) simp
qed

text \<open>
  The request packet a node builds makes the master register exactly that node's
  unique id.
\<close>

lemma nw_request_roundtrip:
  assumes "wf_packet p"
  shows "\<exists>p'. txNewNodeRequest p u = Inr p' \<and> wf_packet p' \<and>
    GET_PACKET_TYPE p' = packet_code NEW_NODE_REQUEST_PACKET \<and> node_srcNodeId p' = UNALLOCATED_NODE_ID \<and>
    rxNewNodePacketRequest nw ttl p' c = networkManagerRegisterNewNode nw ttl u c"
proof -
  obtain p' where p: "txNewNodeRequest p u = Inr p'" "wf_packet p'"
    "GET_PACKET_TYPE p' = packet_code NEW_NODE_REQUEST_PACKET" "node_srcNodeId p' = UNALLOCATED_NODE_ID"
    "dataSize2 p' = 9" "take 8 (udata p') = u64_bytes u"
    using request_run [OF assms] by blast
  then show ?thesis by (intro exI [of _ p']) (simp add: rxNewNodePacketRequest_def rd_bytes_def wf_packet_def)
qed

lemma nw_request_roundtrip_witness:
  "\<exists>p'. txNewNodeRequest zero_packet 77 = Inr p' \<and>
    rxNewNodePacketRequest (networkManagerInit zero_queue) (replicate MAX_NODES 0) p' 0 =
      networkManagerRegisterNewNode (networkManagerInit zero_queue) (replicate MAX_NODES 0) 77 0"
  using nw_request_roundtrip [of zero_packet 77 "networkManagerInit zero_queue" "replicate MAX_NODES 0" 0]
  by auto

subsection \<open>The node gives up before the master\<close>

fun both_clocks :: "tNetworkManager \<Rightarrow> u8 list \<Rightarrow> u32 \<Rightarrow> u32 list \<Rightarrow> (tNetworkManager \<times> u8 list \<times> u32) res" where
  "both_clocks nw ttl x [] = Inr (nw, ttl, x)"
| "both_clocks nw ttl x (us # uss) = and_then (networkManagerUpdateTimeUs nw ttl us) (\<lambda>(nw', ttl').
     both_clocks nw' ttl' (nodeNwUpdateTimeUs x us) uss)"

text \<open>How the master's clock, and then both clocks, stand after \<open>S\<close> microseconds.\<close>

definition ttl_at :: "nat \<Rightarrow> nat \<Rightarrow> u8 \<Rightarrow> tNetworkManager \<Rightarrow> u8 list \<Rightarrow> bool" where
  "ttl_at t0 S d nw ttl \<longleftrightarrow> length ttl = MAX_NODES \<and> unat (timeToLiveTimeUs nw) < 4358 \<and>
     (ttl ! unat d = REMOVE_NODE_TTL \<and> 128 * 4358 \<le> t0 + S \<or>
      1 \<le> unat (ttl ! unat d) \<and> unat (ttl ! unat d) \<le> 128 \<and>
        (128 - unat (ttl ! unat d)) * 4358 + unat (timeToLiveTimeUs nw) = t0 + S)"

definition clocks_at :: "nat \<Rightarrow> nat \<Rightarrow> u8 \<Rightarrow> tNetworkManager \<Rightarrow> u8 list \<Rightarrow> u32 \<Rightarrow> bool" where
  "clocks_at t0 S d nw ttl x \<longleftrightarrow> ttl_at t0 S d nw ttl \<and> (sint x \<le> 0 \<or> sint x = 523776 - int S)"

lemma node_clock_run:
  assumes "0 < sint x" and "sint x \<le> 523776" and "unat us \<le> 4358"
  shows "sint (nodeNwUpdateTimeUs x us) = sint x - int (unat us)"
proof -
  have "int (unat us) \<le> 4358" using assms(3) by (metis of_nat_le_iff of_nat_numeral)
  then have small: "uint us \<le> 4358" by simp
  have us: "sint us = int (unat us)"
    using small by (simp add: sint_uint signed_take_bit_int_eq_self order.trans [OF _ uint_ge_0])
  have "signed_take_bit 31 (sint x - uint us) = sint x - uint us"
  proof (rule signed_take_bit_int_eq_self)
    have "- 4358 \<le> sint x - uint us" "sint x - uint us \<le> 523776"
      using assms small uint_ge_0 [of us] by linarith+
    then show "- (2 ^ 31) \<le> sint x - uint us" "sint x - uint us < 2 ^ 31" by simp_all
  qed
  then have "sint (x - us) = sint x - sint us"
    using us by (simp add: sint_word_ariths)
  then show ?thesis using assms(1) us by (simp add: nodeNwUpdateTimeUs_def)
qed

lemma node_clock_step:
  assumes "sint x \<le> 0 \<or> sint x = 523776 - int S" and "unat us \<le> 4358"
  shows "sint (nodeNwUpdateTimeUs x us) \<le> 0 \<or> sint (nodeNwUpdateTimeUs x us) = 523776 - int (S + unat us)"
  using assms node_clock_run [of x us] by (cases "sint x > 0") (auto simp: nodeNwUpdateTimeUs_def)

lemma ttl_step:
  assumes at: "ttl_at t0 S d nw ttl" and d: "d \<noteq> 0" "unat d < MAX_NODES" and us: "unat us \<le> 4358"
  shows "\<exists>nw' ttl'. networkManagerUpdateTimeUs nw ttl us = Inr (nw', ttl') \<and> ttl_at t0 (S + unat us) d nw' ttl'"
proof -
  let ?t = "timeToLiveTimeUs nw" and ?v = "ttl ! unat d"
  have c: "length ttl = 64" "unat ?t < 4358" "?v = 255 \<and> 128 * 4358 \<le> t0 + S \<or>
      1 \<le> unat ?v \<and> unat ?v \<le> 128 \<and> (128 - unat ?v) * 4358 + unat ?t = t0 + S"
    using at by (simp_all add: ttl_at_def)
  have add: "unat (?t + us) = unat ?t + unat us"
    using c(2) us by (simp add: unat_word_ariths)
  obtain nw' ttl' where nw': "nw' = nw\<lparr>timeToLiveTimeUs :=
      (if unat (?t + us) \<ge> 4358 then ?t + us - 4358 else ?t + us)\<rparr>"
    and r: "networkManagerUpdateTimeUs nw ttl us = Inr (nw', ttl')" "length ttl' = 64"
      "ttl' ! unat d = (if unat (?t + us) \<ge> 4358 then tick ?v else ?v)"
    using update_time_spec [OF c(1), of nw us] d by auto
  have "ttl_at t0 (S + unat us) d nw' ttl'"
  proof (cases "unat (?t + us) \<ge> 4358")
    case False
    then show ?thesis using c r(2,3) add by (auto simp: ttl_at_def nw')
  next
    case True
    have sub: "unat (?t + us - 4358) = unat ?t + unat us - 4358"
      using True add by (simp add: unat_sub word_le_nat_alt)
    have "?v = 255 \<and> 128 * 4358 \<le> t0 + S \<or> unat ?v = 1 \<and> 127 * 4358 + unat ?t = t0 + S \<or>
        1 < unat ?v \<and> unat ?v \<le> 128 \<and> (128 - unat ?v) * 4358 + unat ?t = t0 + S"
      using c(3) by (cases "unat ?v = 1") auto
    then have "tick ?v = 255 \<and> 128 * 4358 \<le> t0 + (S + unat us) \<or>
      1 \<le> unat (tick ?v) \<and> unat (tick ?v) \<le> 128 \<and>
        (128 - unat (tick ?v)) * 4358 + (unat ?t + unat us - 4358) = t0 + (S + unat us)"
    proof (elim disjE)
      assume "?v = 255 \<and> 128 * 4358 \<le> t0 + S"
      then show ?thesis by (simp add: tick_def)
    next
      assume h: "unat ?v = 1 \<and> 127 * 4358 + unat ?t = t0 + S"
      then have "?v = 1" by (simp add: u8_eq_iff)
      then show ?thesis using h True add by (simp add: tick_def)
    next
      assume h: "1 < unat ?v \<and> unat ?v \<le> 128 \<and> (128 - unat ?v) * 4358 + unat ?t = t0 + S"
      then have dec: "unat (?v - 1) = unat ?v - 1" by (simp add: unat_u8_dec)
      have ne: "?v \<noteq> 255" "?v > 0" using h by (auto simp: word_less_nat_alt)
      have "?v - 1 \<noteq> 0" using h dec by (simp add: u8_eq_iff)
      then have "tick ?v = ?v - 1" using ne by (simp add: tick_def)
      moreover have "128 - unat (?v - 1) = Suc (128 - unat ?v)" using h unfolding dec by linarith
      moreover have "Suc (128 - unat ?v) * 4358 + (unat ?t + unat us - 4358) = t0 + (S + unat us)"
        using h True add by simp
      moreover have "1 \<le> unat (?v - 1)" "unat (?v - 1) \<le> 128" using h unfolding dec by linarith+
      ultimately show ?thesis by (intro disjI2) metis
    qed
    then show ?thesis using c(2) us r(2,3) True add sub by (simp add: ttl_at_def nw')
  qed
  with r(1) show ?thesis by blast
qed

lemma both_clocks_ok:
  assumes "clocks_at t0 S d nw ttl x" and "d \<noteq> 0" and "unat d < MAX_NODES" and "\<forall>us\<in>set uss. unat us \<le> 4358"
  shows "\<exists>nw' ttl' x'. both_clocks nw ttl x uss = Inr (nw', ttl', x') \<and>
    clocks_at t0 (S + sum_list (map unat uss)) d nw' ttl' x'"
  using assms
proof (induction uss arbitrary: S nw ttl x)
  case Nil
  then show ?case by simp
next
  case (Cons us uss)
  have c: "ttl_at t0 S d nw ttl" "sint x \<le> 0 \<or> sint x = 523776 - int S" and us: "unat us \<le> 4358"
    using Cons.prems by (simp_all add: clocks_at_def)
  obtain nw' ttl' where r: "networkManagerUpdateTimeUs nw ttl us = Inr (nw', ttl')" "ttl_at t0 (S + unat us) d nw' ttl'"
    using ttl_step [OF c(1) Cons.prems(2,3) us] by blast
  have "clocks_at t0 (S + unat us) d nw' ttl' (nodeNwUpdateTimeUs x us)"
    using r(2) node_clock_step [OF c(2) us] by (simp add: clocks_at_def)
  from Cons.IH [OF this Cons.prems(2,3)] Cons.prems(4) show ?case
    using r(1) by (simp add: add.assoc)
qed

text \<open>
  Claim C22. A node gives up its id before the master does: if the master last heard it and it
  last sent at the same moment, and both timers run on the same increments of at most 4358
  microseconds, then whenever the master has marked the node for removal the node has already
  timed out.
\<close>

theorem nw_node_times_out_first:
  assumes "length ttl = MAX_NODES" and "unat (timeToLiveTimeUs nw) < TIME_TO_LIVE_UPDATE_TIME_US"
    and "(d :: u8) \<noteq> 0" and "unat d < MAX_NODES" and "ttl ! unat d = MASTER_MAX_TIME_TO_LIVE"
    and "\<forall>us\<in>set uss. unat us \<le> TIME_TO_LIVE_UPDATE_TIME_US"
  shows "\<exists>nw' ttl' x. both_clocks nw ttl (nodeNwRecordTxPacketSent y) uss = Inr (nw', ttl', x) \<and>
    (ttl' ! unat d = REMOVE_NODE_TTL \<longrightarrow> nodeNwHasNodeTimedOut x)"
proof -
  have "clocks_at (unat (timeToLiveTimeUs nw)) 0 d nw ttl (nodeNwRecordTxPacketSent y)"
    using assms by (simp add: clocks_at_def ttl_at_def nodeNwRecordTxPacketSent_def)
  from both_clocks_ok [OF this assms(3,4), of uss] assms(6) obtain nw' ttl' x where r:
    "both_clocks nw ttl (nodeNwRecordTxPacketSent y) uss = Inr (nw', ttl', x)"
    "clocks_at (unat (timeToLiveTimeUs nw)) (sum_list (map unat uss)) d nw' ttl' x" by auto
  have "nodeNwHasNodeTimedOut x" if "ttl' ! unat d = 255"
  proof -
    have "128 * 4358 \<le> unat (timeToLiveTimeUs nw) + sum_list (map unat uss)"
      using r(2) that by (simp add: clocks_at_def ttl_at_def)
    then have "523776 \<le> sum_list (map unat uss)" using assms(2) by simp
    then have "523776 \<le> int (sum_list (map unat uss))" by (metis of_nat_le_iff of_nat_numeral)
    then show ?thesis using r(2) by (auto simp: clocks_at_def nodeNwHasNodeTimedOut_def)
  qed
  with r(1) show ?thesis by blast
qed

theorem nw_node_times_out_first_witness:
  "\<exists>nw' ttl' x. both_clocks (networkManagerInit zero_queue) ((replicate 64 0)[3 := 128])
     (nodeNwRecordTxPacketSent 0) (replicate 500 4000) = Inr (nw', ttl', x) \<and>
     (ttl' ! 3 = REMOVE_NODE_TTL \<longrightarrow> nodeNwHasNodeTimedOut x)"
  using nw_node_times_out_first [of "(replicate 64 0)[3 := 128]" "networkManagerInit zero_queue" 3
      "replicate 500 4000" 0]
  by (simp add: networkManagerInit_def)

end
