(* ===== verification/TxPointer.thy ===== *)
theory TxPointer
  imports TxSearch
begin

text \<open>
  Where a \<^verbatim>\<open>tPacket *\<close> of the transmit path can point: into the packet store, to the spare
  packet or to one of the two empty packet headers of the master or the node. The code casts a
  \<^verbatim>\<open>tPacketHeader *\<close> to \<^verbatim>\<open>tPacket *\<close>; only header bytes are accessed through it, and
  the headers are packets with an empty payload here. The memory is the triple of the
  transmit manager, the empty headers and the spare packet.
\<close>

datatype tTxPtr = Tx_Entry nat | Tmp_Packet | Tmp_Empty nat

type_synonym tx_memory = "tTxManager \<times> tPacket list \<times> tPacket"

fun tx_deref :: "tx_memory \<Rightarrow> tTxPtr \<Rightarrow> tPacket res" where
  "tx_deref (m, hs, tmp) (Tx_Entry i) = and_then (rd (entries (packetStore m)) i) (\<lambda>e. Inr (packet e))"
| "tx_deref (m, hs, tmp) Tmp_Packet = Inr tmp"
| "tx_deref (m, hs, tmp) (Tmp_Empty k) = rd hs k"

fun tx_write :: "tx_memory \<Rightarrow> tTxPtr \<Rightarrow> (tPacket \<Rightarrow> tPacket res) \<Rightarrow> tx_memory res" where
  "tx_write (m, hs, tmp) (Tx_Entry i) f =
     and_then (rd (entries (packetStore m)) i) (\<lambda>e.
     and_then (f (packet e)) (\<lambda>p. Inr (upd_packet i (\<lambda>_. p) m, hs, tmp)))"
| "tx_write (m, hs, tmp) Tmp_Packet f = and_then (f tmp) (\<lambda>p. Inr (m, hs, p))"
| "tx_write (m, hs, tmp) (Tmp_Empty k) f =
     and_then (rd hs k) (\<lambda>h. and_then (f h) (\<lambda>p. Inr (m, hs[k := p], tmp)))"

text \<open>An array of the header: \<open>w\<close> writes cell \<open>i\<close> of its four.\<close>

definition hdr_array :: "(nat \<Rightarrow> u8 \<Rightarrow> tPacket \<Rightarrow> tPacket) \<Rightarrow> nat \<Rightarrow> u8 \<Rightarrow> tPacket \<Rightarrow> tPacket res" where
  "hdr_array w i v p = (if i < MAX_TX_NODES_SCHEDULED then Inr (w i v p) else Inl Out_Of_Bounds)"

section \<open>Rewriting header bytes in place\<close>

text \<open>
  The acknowledgements, the schedule and the buffer level are written into a packet each time
  it is sent. Everything but the union's header bytes stays.
\<close>

definition same_message :: "tPacket \<Rightarrow> tPacket \<Rightarrow> bool" where
  "same_message p p' \<longleftrightarrow> p'\<lparr>uhdr := []\<rparr> = p\<lparr>uhdr := []\<rparr>"

lemma same_message_refl [simp]: "same_message p p"
  by (simp add: same_message_def)

lemma same_message_trans [trans]: "same_message p q \<Longrightarrow> same_message q r \<Longrightarrow> same_message p r"
  by (simp add: same_message_def)

lemma same_message_fields:
  assumes "same_message p p'"
  shows "udata p' = udata p" "txSeqNum p' = txSeqNum p" "dataSize1 p' = dataSize1 p" "dataSize2 p' = dataSize2 p"
    "GET_PACKET_DATA_SIZE p' = GET_PACKET_DATA_SIZE p" "GET_PACKET_TYPE p' = GET_PACKET_TYPE p"
    "GET_PROTOCOL_VERSION p' = GET_PROTOCOL_VERSION p"
  using assms by (cases p, cases p', simp add: same_message_def GET_PACKET_DATA_SIZE_def GET_PACKET_TYPE_def
      GET_PROTOCOL_VERSION_def)+

lemma same_message_uhdr [simp]: "same_message p (p\<lparr>uhdr := h\<rparr>)"
  by (simp add: same_message_def)

lemma same_message_sets [simp]:
  "same_message p (set_master_nextTxNodeId i v p)" "same_message p (set_master_nextTxNodeAckSeqNum i v p)"
  "same_message p (set_node_ackSeqNum v p)" "same_message p (set_node_bufferLevel v p)"
  by (simp_all add: packet_view_defs)

text \<open>The packets of every window are changed within \<open>R\<close>, and nothing else.\<close>

definition restamps :: "bool \<Rightarrow> (tPacket \<Rightarrow> tPacket \<Rightarrow> bool) \<Rightarrow> tTxManager \<Rightarrow> tTxManager \<Rightarrow> bool" where
  "restamps M R m m' \<longleftrightarrow> dst_ok m' = dst_ok m \<and> tx_frame m m' \<and> length (es m') = length (es m) \<and>
     (\<forall>d. dst_ok m d \<longrightarrow> list_all2 R (pending M m d) (pending M m' d) \<and>
        start_of m' d = start_of m d \<and> sent m' d = sent m d \<and> pause_of m' d = pause_of m d)"

lemma restamps_refl [simp]: "(\<And>p. R p p) \<Longrightarrow> restamps M R m m"
  by (simp add: restamps_def tx_frame_def list.rel_refl)

lemma restamps_all:
  assumes "restamps M R m m'" and "dst_ok m d" and "\<forall>p\<in>set (pending M m d). P p" and "\<And>p q. R p q \<Longrightarrow> P p \<Longrightarrow> P q"
  shows "\<forall>p\<in>set (pending M m' d). P p"
proof
  fix q assume q: "q \<in> set (pending M m' d)"
  have "list_all2 R (pending M m d) (pending M m' d)" using assms(1,2) by (simp add: restamps_def)
  then obtain i where "i < length (pending M m d)" "R (pending M m d ! i) q"
    using q unfolding list_all2_conv_all_nth in_set_conv_nth by metis
  then show "P q" using assms(3,4) nth_mem by blast
qed

lemma rewrite_entry:
  assumes inv: "tx_inv M m" and i: "i < length (es m)" and wf: "wf_packet p"
    and same: "txSeqNum p = txSeqNum (packet (es m ! i))" and R: "\<And>q. R q q" "owned m i \<Longrightarrow> R (packet (es m ! i)) p" and dst: "M \<Longrightarrow> master_dstNodeId p = master_dstNodeId (packet (es m ! i))"
  shows "tx_inv M (upd_packet i (\<lambda>_. p) m)" and "restamps M R m (upd_packet i (\<lambda>_. p) m)"
proof -
  have core: "tx_core M m" using inv by (simp add: tx_inv_def)
  let ?m = "upd_packet i (\<lambda>_. p) m"
  have es': "es ?m = (es m)[i := (es m ! i)\<lparr>packet := p\<rparr>]" by (simp add: upd_packet_def)
  have keys: "key M (es ?m ! j) = key M (es m ! j)" for j
    using i dst same by (auto simp: es' nth_list_update key_def)
  have owned: "owned ?m = owned m"
    using i by (auto simp: fun_eq_iff owned_def es' nth_list_update)
  have "tx_shape M ?m"
    using core wf set_update_subset_insert [of "es m" i "(es m ! i)\<lparr>packet := p\<rparr>"]
    by (auto simp: tx_core_def tx_shape_def es') (auto simp: upd_packet_def)
  moreover have "tx_windows ?m" using core by (simp add: tx_core_def tx_windows_def)
  moreover have "tx_stored M ?m" using core by (simp add: tx_core_def tx_stored_def owned keys)
  moreover have "tx_first M ?m"
    using core i unfolding tx_core_def tx_first_def owned keys
    by (auto simp: es' nth_list_update)
  ultimately have core': "tx_core M ?m" by (simp add: tx_core_def)
  then show "tx_inv M ?m" by (rule tx_inv_view [OF _ _ inv]) simp_all
  have "R (pending M m d ! k) (pending M ?m d ! k)" if d: "dst_ok m d" and k: "k < buffered m d" for d k
  proof -
    obtain j where j: "owned m j" "key M (es m ! j) = (d, slot_seq m d k)" "pending M m d ! k = packet (es m ! j)"
      using pending_entry [OF core d k] by blast
    have d': "dst_ok ?m d" and k': "k < buffered ?m d" using d k by simp_all
    obtain j' where j': "owned ?m j'" "key M (es ?m ! j') = (d, slot_seq ?m d k)" "pending M ?m d ! k = packet (es ?m ! j')"
      using pending_entry [OF core' d' k'] by blast
    have "j' = j" using owned_key_inj [OF core, of j' j] j j' by (simp add: owned keys)
    then show ?thesis using j(1,3) j'(3) R i by (auto simp: es' nth_list_update)
  qed
  then have "list_all2 R (pending M m d) (pending M ?m d)" if "dst_ok m d" for d
    using that by (simp add: list_all2_conv_all_nth)
  then show "restamps M R m ?m" by (simp add: restamps_def tx_frame_def es')
qed


section \<open>The packets in the store\<close>

text \<open>
  A pointer into the store may outlive the entry's ownership; what it points to still only
  changes by a submission into that entry.
\<close>

abbreviation packets :: "tTxManager \<Rightarrow> tPacket list" where
  "packets m \<equiv> map packet (es m)"

definition same_packets :: "tTxManager \<Rightarrow> tTxManager \<Rightarrow> bool" where
  "same_packets m m' \<longleftrightarrow> packets m' = packets m"

lemma freePacket_packets:
  "all_res (\<lambda>(b, st'). map packet (entries st') = map packet (entries st)) (freePacket st d s M)"
proof -
  have keep: "map packet (xs[i := (xs ! i)\<lparr>inUse := False\<rparr>]) = map packet xs" for xs i
    by (cases "i < length xs") (simp_all add: map_update nth_upd list_eq_iff_nth_eq nth_list_update)
  show ?thesis by (simp add: freePacket_def all_res_and_then keep)
qed

lemma rxAckLoop_packets: "all_res (\<lambda>(n', m'). same_packets m m') (rxAckLoop src ack M seq n m)"
proof (induction src ack M seq n m rule: rxAckLoop.induct)
  case (1 src ack M seq n m)
  let ?new = "INCR_SEQUENCE_NUM ack"
  show ?case
  proof (cases "seq = ?new")
    case True
    then show ?thesis by (subst rxAckLoop.simps) (simp add: same_packets_def)
  next
    case False
    show ?thesis
      unfolding rxAckLoop.simps [of src ack M seq] Let_def if_not_P [OF False]
    proof (intro all_res_bind, clarify, intro all_res_bind)
      fix v st u nx
      assume f: "freePacket (packetStore m) src seq M = Inr (v, st)" and v: "microbusAssert v = Inr u"
        and nx: "rd (txSeqNumNext m) (unat src) = Inr nx"
      have "map packet (entries st) = packets m" using all_resD [OF freePacket_packets f] by simp
      then show "all_res (\<lambda>(n', m'). same_packets m m') (rxAckLoop src ack M (INCR_SEQUENCE_NUM seq) (n + 1)
          (m\<lparr>packetStore := st, txSeqNumNext := (if seq = nx then (txSeqNumNext m)[unat src := ?new] else txSeqNumNext m)\<rparr>))"
        using 1 [OF refl False f refl v nx refl] by (auto simp: same_packets_def elim!: all_res_weaken)
    qed
  qed
qed

lemma rxAckLoop_packetsD [dest!]: "rxAckLoop src ack M seq n m = Inr (n', m') \<Longrightarrow> packets m' = packets m"
  using all_resD [OF rxAckLoop_packets] by (fastforce simp: same_packets_def)

lemma rxAck_packets: "all_res (\<lambda>(n, w, m'). same_packets m m') (rxAckSeqNum m src a M st)"
  unfolding rxAckSeqNum_def Let_def
  by (intro all_res_if all_res_bind; clarsimp simp: same_packets_def; intro all_res_if all_res_bind conjI impI;
    clarsimp simp: same_packets_def; intro all_res_bind; clarsimp)

lemma remove_packets: "all_res (\<lambda>(k, m'). same_packets m m') (masterTxManagerRemoveNode m d n)"
proof -
  have "map packet (map (\<lambda>e. if P e then e\<lparr>inUse := False\<rparr> else e) (take k xs) @ drop k xs) = map packet xs" for P k xs
  proof -
    have "map packet (map (\<lambda>e. if P e then e\<lparr>inUse := False\<rparr> else e) (take k xs) @ drop k xs)
        = map packet (take k xs @ drop k xs)" unfolding map_append map_map by simp
    then show ?thesis by simp
  qed
  then show ?thesis
    unfolding masterTxManagerRemoveNode_def Let_def
    by (intro all_res_bind) (auto simp: same_packets_def)
qed

lemma allocate_packets: "all_res (\<lambda>(r, m'). same_packets m m') (allocateTxPacket m)"
proof -
  have "map packet (xs[i := (xs ! i)\<lparr>inUse := True\<rparr>]) = map packet xs" for xs i
    by (cases "i < length xs") (simp_all add: list_eq_iff_nth_eq nth_list_update)
  then show ?thesis
    unfolding allocateTxPacket_def allocatePacketEntry_def and_then_assoc
    by (intro all_res_bind) (auto simp: same_packets_def split: option.split option.split_asm)
qed

lemma getNext_packets: "all_res (\<lambda>(r, m'). same_packets m m') (getNextTxPacketForNode m M d)"
  unfolding getNextTxPacketForNode_def Let_def
  by (intro all_res_if all_res_bind; simp add: same_packets_def; intro impI all_res_bind; simp)

lemma upd_packet_packets [simp]: "packets (upd_packet i f m) = (packets m)[i := f (packets m ! i)]"
  by (cases "i < length (es m)") (simp_all add: upd_packet_def map_update list_update_beyond)

definition stamps :: "bool \<Rightarrow> tPacketType \<Rightarrow> u16 \<Rightarrow> u8 \<Rightarrow> u8 \<Rightarrow> tTxManager \<Rightarrow> tTxManager \<Rightarrow> bool" where
  "stamps M ty n s d m m' \<longleftrightarrow> packets m' = packets m \<or>
     (\<exists>i seq. allocatedPacket m = Some i \<and> packets m' = (packets m)[i := stampPacket M ty n s d seq (packets m ! i)])"

lemma stampsI:
  "packets m' = packets m \<Longrightarrow> stamps M ty n s d m m'"
  "allocatedPacket m = Some i \<Longrightarrow> packets m' = (packets m)[i := stampPacket M ty n s d seq (packets m ! i)] \<Longrightarrow>
    stamps M ty n s d m m'"
  by (auto simp: stamps_def)

lemma submit_packets: "all_res (stamps M ty n s d m) (submitAllocatedTxPacket m M t t' s d ty n)"
proof -
  have rm: "packets m' = packets m1" if "masterTxManagerRemoveNode m1 d k = Inr (x, m')" for m1 m' k x
    using all_resD [OF remove_packets that] by (simp add: same_packets_def)
  show ?thesis
    unfolding submitAllocatedTxPacket_def Let_def
    by (intro all_res_if all_res_bind; clarsimp simp: and_then_eq_Inr stampsI split: if_split_asm option.split_asm;
      (intro all_res_if all_res_bind conjI impI)?; auto dest!: rm intro: stampsI)
qed

section \<open>What a pointer points to\<close>

lemma deref_entry: "tx_deref (m, hs, tmp) (Tx_Entry i) = rd (packets m) i"
  by (cases "i < length (es m)") simp_all

lemma deref_packets: "packets m' = packets m \<Longrightarrow> tx_deref (m', hs, tmp) q = tx_deref (m, hs, tmp) q"
  by (cases q) (simp_all only: deref_entry, simp_all)

lemma deref_upd:
  assumes "packets m' = (packets m)[i := p]" and "tx_deref (m, hs, tmp) q = Inr x"
  shows "tx_deref (m', hs, tmp) q = Inr (if q = Tx_Entry i then p else x)"
proof (cases q)
  case (Tx_Entry j)
  have "rd (packets m) j = Inr x" using assms(2) unfolding Tx_Entry deref_entry .
  then have "j < length (packets m)" "x = packets m ! j" by (simp_all only: rd_eq_Inr)
  then have "rd (packets m') j = Inr (if j = i then p else x)"
    unfolding assms(1) rd_eq_Inr by (simp only: length_list_update nth_list_update_eq nth_list_update_neq if_split) auto
  then show ?thesis unfolding Tx_Entry deref_entry by simp
qed (use assms in simp_all)

section \<open>The application writes the payload\<close>

text \<open>Between the allocation and the submission, into the entry it was given.\<close>

definition tx_fill :: "u8 list \<Rightarrow> tTxManager \<Rightarrow> tTxManager" where
  "tx_fill bytes m = (case allocatedPacket m of None \<Rightarrow> m | Some i \<Rightarrow> upd_packet i (\<lambda>p. p\<lparr>udata := bytes\<rparr>) m)"

lemma tx_fill_spec:
  assumes inv: "tx_inv M m" and len: "length bytes = MASTER_PACKET_DATA_SIZE"
  shows "tx_inv M (tx_fill bytes m)" and "restamps M (=) m (tx_fill bytes m)"
    and "packets (tx_fill bytes m) = packets m \<or>
      (\<exists>i. packets (tx_fill bytes m) = (packets m)[i := (packets m ! i)\<lparr>udata := bytes\<rparr>])"
    and "allocatedPacket (tx_fill bytes m) = allocatedPacket m"
proof -
  let ?m = "tx_fill bytes m"
  have "tx_inv M ?m \<and> restamps M (=) m ?m"
  proof (cases "allocatedPacket m")
    case None
    then show ?thesis using inv by (simp add: tx_fill_def)
  next
    case (Some a)
    then have a: "a < length (es m)" using inv by (simp add: tx_inv_def tx_core_def tx_first_def)
    let ?p = "(packet (es m ! a))\<lparr>udata := bytes\<rparr>"
    have wf: "wf_packet ?p" using inv a len by (simp add: tx_inv_def tx_core_def tx_shape_def wf_packet_def)
    have no: "\<not> owned m a" using Some by (simp add: owned_def)
    have eq: "upd_packet a (\<lambda>p. p\<lparr>udata := bytes\<rparr>) m = upd_packet a (\<lambda>_. ?p) m" by (simp add: upd_packet_def)
    have "tx_inv M (upd_packet a (\<lambda>_. ?p) m)" "restamps M (=) m (upd_packet a (\<lambda>_. ?p) m)"
      by (rule rewrite_entry [OF inv a wf]; use no in \<open>simp add: master_dstNodeId_def\<close>)+
    then show ?thesis using Some eq by (simp add: tx_fill_def)
  qed
  then show "tx_inv M ?m" "restamps M (=) m ?m" by simp_all
  show "packets ?m = packets m \<or> (\<exists>i. packets ?m = (packets m)[i := (packets m ! i)\<lparr>udata := bytes\<rparr>])"
    by (cases "allocatedPacket m") (auto simp: tx_fill_def)
  show "allocatedPacket ?m = allocatedPacket m" by (simp add: tx_fill_def split: option.split)
qed

lemma restamps_eq: "restamps M (=) m m' \<Longrightarrow> dst_ok m d \<Longrightarrow> window_of M m' d = window_of M m d"
  by (simp add: restamps_def list.rel_eq window_of_def)

end
