(* ===== verification/Wire.thy ===== *)
theory Wire
  imports NetworkManager
begin

text \<open>
  What the two sides rely on about each other's packets. The code of the receiver indexes
  arrays by these fields, or asserts them, without checking them first.
\<close>

section \<open>From a node to the master\<close>

definition passes :: "bool \<Rightarrow> tPacket \<Rightarrow> bool" where
  "passes rxCrcError p \<longleftrightarrow> protocolVersionAndPacketType p \<noteq> 0 \<and> protocolVersionAndPacketType p \<noteq> 255 \<and>
     \<not> rxCrcError \<and> GET_PROTOCOL_VERSION p = MICROBUS_VERSION \<and> unat (GET_PACKET_DATA_SIZE p) < MAX_PACKET_DATA_SIZE"

definition from_node :: "tPacket \<Rightarrow> bool" where
  "from_node p \<longleftrightarrow>
     (GET_PACKET_TYPE p \<in> {packet_code NODE_DATA_PACKET, packet_code NODE_EMPTY_PACKET} \<longrightarrow> node_id (node_srcNodeId p)) \<and>
     (GET_PACKET_TYPE p = packet_code NODE_DATA_PACKET \<longrightarrow>
        (dataSize1 p > 0 \<or> dataSize2 p > 0) \<and> node_bufferLevel p > 0) \<and>
     (GET_PACKET_TYPE p = packet_code NEW_NODE_REQUEST_PACKET \<longrightarrow>
        dataSize2 p = 9 \<and> bytes_u64 (take 8 (udata p)) \<noteq> 0)"

section \<open>From the master to a node\<close>

definition response_ok :: "tPacket \<Rightarrow> bool" where
  "response_ok p \<longleftrightarrow> unat (GET_PACKET_DATA_SIZE p) \<le> MASTER_PACKET_DATA_SIZE \<and>
     (\<forall>i<unat (GET_PACKET_DATA_SIZE p) div NEW_NODE_RESPONSE_ENTRY_SIZE.
        node_id (udata p ! (i * NEW_NODE_RESPONSE_ENTRY_SIZE + 8)))"

definition from_master :: "tPacket \<Rightarrow> bool" where
  "from_master p \<longleftrightarrow>
     (GET_PACKET_TYPE p = packet_code MASTER_DATA_PACKET \<longrightarrow> dataSize1 p > 0 \<or> dataSize2 p > 0) \<and>
     (GET_PACKET_TYPE p = packet_code NEW_NODE_RESPONSE_PACKET \<longrightarrow> response_ok p)"

text \<open>The admission table of the master, as it is sent, holds node ids only.\<close>

lemma table_id: "i < length ps \<Longrightarrow> (table_bytes ps @ r) ! (i * 9 + 8) = snd (ps ! i)"
proof (induction ps arbitrary: i)
  case Nil
  then show ?case by simp
next
  case (Cons p ps)
  have split: "table_bytes (p # ps) = (u64_bytes (fst p) @ [snd p]) @ table_bytes ps"
    by (simp add: table_bytes_def entry_bytes_def)
  show ?case
  proof (cases i)
    case 0
    then show ?thesis by (simp add: split nth_append)
  next
    case (Suc k)
    then show ?thesis using Cons.IH [of k] Cons.prems by (simp add: split nth_append add.commute)
  qed
qed

lemma table_response_ok:
  assumes inv: "nw_inv nw ttl" and sz: "unat (GET_PACKET_DATA_SIZE p) = 9 * unat (numNewNodes nw)"
    and d: "udata p = table_bytes (joining nw) @ r"
  shows "response_ok p"
proof -
  have sh: "nw_shape nw ttl" and ids: "snd ` set (joining nw) \<subseteq> alive ttl" using inv by (simp_all add: nw_inv_def)
  have "unat (numNewNodes nw) \<le> 10" using sh by (simp add: nw_shape_def)
  moreover have "node_id (snd (joining nw ! i))" if "i < unat (numNewNodes nw)" for i
  proof -
    have "snd (joining nw ! i) \<in> alive ttl" using that ids joining_simps(1) [OF sh] by (auto simp: image_subset_iff)
    then show ?thesis by (simp add: alive_def)
  qed
  ultimately show ?thesis
    using joining_simps(1) [OF sh] table_id [of _ "joining nw" r] by (simp add: response_ok_def sz d)
qed

section \<open>What each side may put on the air\<close>

text \<open>
  A header sent alone never has a type whose payload is read. A node's very first packet is the
  zeroed one, which the master counts as an empty slot.
\<close>

definition node_sends :: "tPacket \<Rightarrow> bool" where
  "node_sends p \<longleftrightarrow> protocolVersionAndPacketType p = 0 \<or>
     passes False p \<and> from_node p \<and> (udata p = [] \<longrightarrow> GET_PACKET_TYPE p \<noteq> packet_code NEW_NODE_REQUEST_PACKET)"

definition master_sends :: "tPacket \<Rightarrow> bool" where
  "master_sends p \<longleftrightarrow> from_master p \<and> (udata p = [] \<longrightarrow> GET_PACKET_TYPE p \<noteq> packet_code NEW_NODE_RESPONSE_PACKET)"

lemma version_byte:
  "GET_PROTOCOL_VERSION p = MICROBUS_VERSION \<Longrightarrow> protocolVersionAndPacketType p \<noteq> 0 \<and> protocolVersionAndPacketType p \<noteq> 255"
  by (auto simp: GET_PROTOCOL_VERSION_def)

lemma nonempty_size: "unat (GET_PACKET_DATA_SIZE p) > 0 \<longleftrightarrow> dataSize1 p > 0 \<or> dataSize2 p > 0"
  by (simp add: unat_data_size u8_less_iff)

section \<open>The wire\<close>

text \<open>
  The bytes of the sent packet arrive as they are; where only a header was sent, the transfer
  runs on over whatever memory follows it.
\<close>

definition on_wire :: "tPacket \<Rightarrow> tPacket \<Rightarrow> bool" where
  "on_wire p q \<longleftrightarrow> q\<lparr>udata := []\<rparr> = p\<lparr>udata := []\<rparr> \<and> (udata p \<noteq> [] \<longrightarrow> udata q = udata p) \<and> wf_packet q"

lemma wire_fields:
  assumes "on_wire p q"
  shows "GET_PACKET_TYPE q = GET_PACKET_TYPE p" "GET_PACKET_DATA_SIZE q = GET_PACKET_DATA_SIZE p"
    "dataSize1 q = dataSize1 p" "dataSize2 q = dataSize2 p" "uhdr q = uhdr p" "txSeqNum q = txSeqNum p"
    "wf_packet q" "udata p \<noteq> [] \<Longrightarrow> udata q = udata p"
  using assms by (cases p, cases q, simp add: on_wire_def GET_PACKET_TYPE_def GET_PACKET_DATA_SIZE_def)+

text \<open>Only the packet types with a payload depend on it.\<close>

lemma wire_from_node:
  assumes "on_wire p q" and "from_node p" and "udata p = [] \<Longrightarrow> GET_PACKET_TYPE p \<noteq> packet_code NEW_NODE_REQUEST_PACKET"
  shows "from_node q"
proof (cases "udata p = []")
  case True
  with assms(3) have "GET_PACKET_TYPE q \<noteq> packet_code NEW_NODE_REQUEST_PACKET" using wire_fields [OF assms(1)] by simp
  then show ?thesis using assms(2) wire_fields(1,3-5) [OF assms(1)]
    by (simp add: from_node_def node_srcNodeId_def node_bufferLevel_def)
next
  case False
  then show ?thesis using assms(2) wire_fields [OF assms(1)]
    by (simp add: from_node_def node_srcNodeId_def node_bufferLevel_def)
qed

lemma wire_from_master:
  assumes "on_wire p q" and "from_master p" and "udata p = [] \<Longrightarrow> GET_PACKET_TYPE p \<noteq> packet_code NEW_NODE_RESPONSE_PACKET"
  shows "from_master q"
proof (cases "udata p = []")
  case True
  with assms(3) have "GET_PACKET_TYPE q \<noteq> packet_code NEW_NODE_RESPONSE_PACKET" using wire_fields [OF assms(1)] by simp
  then show ?thesis using assms(2) wire_fields(1,3,4) [OF assms(1)] by (simp add: from_master_def)
next
  case False
  then show ?thesis using assms(2) wire_fields [OF assms(1)] by (simp add: from_master_def response_ok_def)
qed

end
