(* ===== verification/MasterTx.thy ===== *)
theory MasterTx
  imports TxPointer Wire
begin

text \<open>
  The master's transmit side, \<^verbatim>\<open>src/src/masterTx.c\<close>: which packet goes out in the coming
  slot, and the schedule and acknowledgements written into it at the last moment. The
  statistics, reached through a pointer, are passed in and out.
\<close>

record tMasterTx =
  nextTxPacket :: "tTxPtr option"
  tmpPacketCycle :: u8
  tmpEmptyPacketHeader :: "tPacket list"
  tmpPacket :: tPacket
  masterResetCycles :: u32
  txManager :: tTxManager

definition tx_memory_of :: "tMasterTx \<Rightarrow> tx_memory" where
  "tx_memory_of t = (txManager t, tmpEmptyPacketHeader t, tmpPacket t)"

definition with_tx_memory :: "tMasterTx \<Rightarrow> tx_memory \<Rightarrow> tMasterTx" where
  "with_tx_memory t mem = (case mem of (m, hs, tmp) \<Rightarrow>
     t\<lparr>txManager := m, tmpEmptyPacketHeader := hs, tmpPacket := tmp\<rparr>)"

text \<open>
  \<^verbatim>\<open>rxSeqNum[nodeId]\<close> is read for every scheduled id, and a joining slot's id is 0xFE: the
  read leaves the array of 64 and yields whatever the memory behind it holds, which is the
  parameter \<open>beyond\<close>.
\<close>

definition rxSeqNum_at :: "(nat \<Rightarrow> u8) \<Rightarrow> u8 list \<Rightarrow> u8 \<Rightarrow> u8" where
  "rxSeqNum_at beyond seqs nodeId =
     (if unat nodeId < length seqs then seqs ! unat nodeId else beyond (unat nodeId))"

definition fillSchedule ::
    "(nat \<Rightarrow> u8) \<Rightarrow> u8 list \<Rightarrow> u8 list \<Rightarrow> nat \<Rightarrow> tPacket \<Rightarrow> tPacket res" where
  "fillSchedule beyond seqs nextTxNodeId i p =
     and_then (rd nextTxNodeId i) (\<lambda>nodeId.
     and_then (hdr_array set_master_nextTxNodeId i nodeId p) (\<lambda>p'.
       hdr_array set_master_nextTxNodeAckSeqNum i (rxSeqNum_at beyond seqs nodeId) p'))"

definition masterQuickUpdateTxPacket ::
    "(nat \<Rightarrow> u8) \<Rightarrow> tMasterTx \<Rightarrow> tSchedulerState \<Rightarrow> u8 list \<Rightarrow> tNodeStats \<Rightarrow> (tMasterTx \<times> tNodeStats) res" where
  "masterQuickUpdateTxPacket beyond t s nextTxNodeId st =
     (case nextTxPacket t of
        None \<Rightarrow> Inr (t, st)
      | Some ptr \<Rightarrow>
          and_then (tx_write (tx_memory_of t) ptr
            (for_each (fillSchedule beyond (rxSeqNum (txManager t)) nextTxNodeId)
              [0..<unat (numTxNodesScheduled s)])) (\<lambda>mem.
          Inr (with_tx_memory t mem, st\<lparr>st_txPackets := st_txPackets st + 1\<rparr>)))"

definition masterProcessTx ::
    "tMasterTx \<Rightarrow> tNetworkManager \<Rightarrow> tNodeStats \<Rightarrow> (tMasterTx \<times> tNodeStats) res" where
  "masterProcessTx t nw st =
     (if masterResetCycles t > 0 then
        Inr (t\<lparr>masterResetCycles := masterResetCycles t - 1,
          tmpPacket := SET_PROTOCOL_VERSION_AND_PACKET_TYPE MASTER_RESET_PACKET (tmpPacket t),
          nextTxPacket := Some Tmp_Packet\<rparr>, st)
      else
        let cycle = (if tmpPacketCycle t + 1 \<ge> 4 then 0 else tmpPacketCycle t + 1);
            t1 = t\<lparr>tmpPacketCycle := cycle\<rparr> in
        if numNewNodes nw > 0 \<and> cycle = 1 then
          and_then (txNewNodeResponse nw (tmpPacket t1)) (\<lambda>p.
            Inr (t1\<lparr>tmpPacket := p, nextTxPacket := Some Tmp_Packet\<rparr>,
              st\<lparr>st_newNodeAllocated := st_newNodeAllocated st + 1\<rparr>))
        else
          and_then (masterGetNextTxDataPacket (txManager t1) 1) (\<lambda>(r, m).
          case r of
            None \<Rightarrow>
              (let k = unat cycle mod 2 in
               and_then (rd (tmpEmptyPacketHeader t1) k) (\<lambda>h.
               let h' = set_master_dstNodeId INVALID_NODE_ID
                     ((SET_PROTOCOL_VERSION_AND_PACKET_TYPE MASTER_EMPTY_PACKET h)\<lparr>dataSize1 := 0, dataSize2 := 0\<rparr>) in
               Inr (t1\<lparr>txManager := m, tmpEmptyPacketHeader := (tmpEmptyPacketHeader t1)[k := h'],
                 nextTxPacket := Some (Tmp_Empty k)\<rparr>, st)))
          | Some i \<Rightarrow>
              and_then (rd (entries (packetStore m)) i) (\<lambda>e.
              and_then (microbusAssert (unat (GET_PACKET_DATA_SIZE (packet e)) < MAX_PACKET_DATA_SIZE)) (\<lambda>_.
              Inr (t1\<lparr>txManager := m, nextTxPacket := Some (Tx_Entry i)\<rparr>,
                st\<lparr>st_txDataPackets := st_txDataPackets st + 1\<rparr>)))))"

definition masterTxGetNextTxPacket :: "tMasterTx \<Rightarrow> tTxPtr option" where
  "masterTxGetNextTxPacket t = nextTxPacket t"

text \<open>The rest of the struct was zeroed by \<^verbatim>\<open>masterInit\<close>.\<close>

definition masterTxInit :: "tNodeQueue \<Rightarrow> u8 \<Rightarrow> tPacketEntry list \<Rightarrow> tMasterTx" where
  "masterTxInit q maxTxPacketEntries txPacketEntries =
     \<lparr>nextTxPacket = Some Tmp_Packet, tmpPacketCycle = 0,
      tmpEmptyPacketHeader = [zero_header, zero_header],
      tmpPacket = set_master_dstNodeId INVALID_NODE_ID
        (SET_PROTOCOL_VERSION_AND_PACKET_TYPE MASTER_EMPTY_PACKET zero_packet),
      masterResetCycles = 0,
      txManager = initTxManager (of_nat MAX_NODES) (Some q) maxTxPacketEntries txPacketEntries\<rparr>"

section \<open>Invariant of the transmit side\<close>

text \<open>The packets waiting meet the assertion of \<open>masterProcessTx\<close> and the one of the node.\<close>

definition master_packet :: "tPacket \<Rightarrow> bool" where
  "master_packet p \<longleftrightarrow> GET_PACKET_TYPE p = packet_code MASTER_DATA_PACKET \<and>
     0 < unat (GET_PACKET_DATA_SIZE p) \<and> unat (GET_PACKET_DATA_SIZE p) < MAX_PACKET_DATA_SIZE"

definition all_small :: "tTxManager \<Rightarrow> bool" where
  "all_small m \<longleftrightarrow> (\<forall>d. dst_ok m d \<longrightarrow> (\<forall>p\<in>set (pending True m d). master_packet p))"

text \<open>A pointer into the store is to a data packet, whatever the application writes there.\<close>

definition sendable :: "tTxPtr \<Rightarrow> tPacket \<Rightarrow> bool" where
  "sendable q p \<longleftrightarrow> master_sends p \<and> (\<forall>i. q = Tx_Entry i \<longrightarrow> master_packet p)"

definition ptr_ok :: "tMasterTx \<Rightarrow> bool" where
  "ptr_ok t \<longleftrightarrow> (\<forall>q. nextTxPacket t = Some q \<longrightarrow> (\<exists>p. tx_deref (tx_memory_of t) q = Inr p \<and> sendable q p))"

definition mtx_inv :: "tMasterTx \<Rightarrow> bool" where
  "mtx_inv t \<longleftrightarrow> tx_inv True (txManager t) \<and> length (txSeqNumStart (txManager t)) = MAX_NODES \<and>
     all_small (txManager t) \<and> ptr_ok t \<and> length (tmpEmptyPacketHeader t) = 2 \<and>
     (\<forall>h\<in>set (tmpEmptyPacketHeader t). wf_header h) \<and> wf_packet (tmpPacket t)"

lemma mtx_invD:
  assumes "mtx_inv t"
  shows "tx_inv True (txManager t)" "length (txSeqNumStart (txManager t)) = 64" "all_small (txManager t)" "ptr_ok t"
    "length (tmpEmptyPacketHeader t) = 2" "\<forall>h\<in>set (tmpEmptyPacketHeader t). wf_header h" "wf_packet (tmpPacket t)"
  using assms by (simp_all add: mtx_inv_def)

lemma master_packet_sends: "master_packet p \<Longrightarrow> master_sends p"
  using nonempty_size [of p] by (simp add: master_packet_def master_sends_def from_master_def)

lemma master_same_message:
  assumes "same_message p p'"
  shows "master_packet p' = master_packet p" "master_sends p' = master_sends p"
  using same_message_fields [OF assms]
  by (simp_all add: master_packet_def master_sends_def from_master_def response_ok_def)

lemma sendable_same_message: "same_message p p' \<Longrightarrow> sendable q p' = sendable q p"
  by (simp add: sendable_def master_same_message)

lemma tx_inv_lengths:
  assumes "tx_inv True m" and "length (txSeqNumStart m) = MAX_NODES"
  shows "length (rxSeqNum m) = MAX_NODES" "dst_ok m d \<longleftrightarrow> unat d < MAX_NODES"
  using assms by (simp_all add: tx_inv_def tx_core_def tx_shape_def dst_ok_def)

lemma length_of_dst_ok:
  assumes "dst_ok m' = dst_ok m" and "length (txSeqNumStart m) = MAX_NODES" and "tx_inv True m'"
  shows "length (txSeqNumStart m') = MAX_NODES"
proof -
  have "unat d < length (txSeqNumStart m') \<longleftrightarrow> unat d < 64" for d :: u8
    using fun_cong [OF assms(1), of d] assms(2) by (simp add: dst_ok_def)
  from this [of 63] this [of 64] show ?thesis by simp
qed

lemma all_small_restamps:
  assumes "restamps True same_message m m'" and "all_small m"
  shows "all_small m'"
  using assms restamps_all [OF assms(1), where P = master_packet]
  by (simp add: all_small_def restamps_def master_same_message)

section \<open>Writing the schedule\<close>

lemma fill_step:
  assumes "i < 4" and "i < length ids" and "length (uhdr p) = 10"
  shows "\<exists>p'. fillSchedule beyond seqs ids i p = Inr p' \<and> same_message p p' \<and> length (uhdr p') = 10 \<and>
    master_dstNodeId p' = master_dstNodeId p \<and>
    p' = set_master_nextTxNodeAckSeqNum i (rxSeqNum_at beyond seqs (ids ! i)) (set_master_nextTxNodeId i (ids ! i) p)"
  using assms
  by (simp add: fillSchedule_def hdr_array_def) (auto simp: packet_view_defs same_message_def)

lemma fill_spec:
  assumes "n \<le> 4" and "n \<le> length ids" and "length (uhdr p) = 10"
  shows "\<exists>p'. for_each (fillSchedule beyond seqs ids) [0..<n] p = Inr p' \<and> same_message p p' \<and>
    length (uhdr p') = 10 \<and> master_dstNodeId p' = master_dstNodeId p \<and>
    (\<forall>i<n. master_nextTxNodeId p' i = ids ! i \<and>
      master_nextTxNodeAckSeqNum p' i = rxSeqNum_at beyond seqs (ids ! i))"
  using assms(1,2)
proof (induction n)
  case 0
  then show ?case using assms(3) by simp
next
  case (Suc n)
  then obtain q where q: "for_each (fillSchedule beyond seqs ids) [0..<n] p = Inr q" "same_message p q"
    "length (uhdr q) = 10" "master_dstNodeId q = master_dstNodeId p"
    "\<forall>i<n. master_nextTxNodeId q i = ids ! i \<and> master_nextTxNodeAckSeqNum q i = rxSeqNum_at beyond seqs (ids ! i)"
    by auto
  let ?q' = "set_master_nextTxNodeAckSeqNum n (rxSeqNum_at beyond seqs (ids ! n)) (set_master_nextTxNodeId n (ids ! n) q)"
  have n: "n < 4" "n < length ids" using Suc.prems by simp_all
  from fill_step [OF n q(3), of beyond seqs] have s: "fillSchedule beyond seqs ids n q = Inr ?q'" "same_message q ?q'"
    "length (uhdr ?q') = 10" "master_dstNodeId ?q' = master_dstNodeId q" by auto
  have "\<forall>i<Suc n. master_nextTxNodeId ?q' i = ids ! i \<and>
      master_nextTxNodeAckSeqNum ?q' i = rxSeqNum_at beyond seqs (ids ! i)"
    using q(3,5) n by (auto simp: packet_view_defs nth_list_update less_Suc_eq)
  then show ?case using s q(1,4) same_message_trans [OF q(2) s(2)] by (simp add: for_each_append)
qed

lemma wf_same_message: "wf_packet p \<Longrightarrow> same_message p p' \<Longrightarrow> length (uhdr p') = 10 \<Longrightarrow> wf_packet p'"
  using same_message_fields(1) [of p p'] by (simp add: wf_packet_def)

text \<open>What \<open>beyond\<close> does not decide: the entries of the ids below 64.\<close>

definition schedule_of :: "tPacket \<Rightarrow> nat \<Rightarrow> (u8 \<times> u8) list" where
  "schedule_of p n = map (\<lambda>i. (master_nextTxNodeId p i, master_nextTxNodeAckSeqNum p i)) [0..<n]"

lemma quickUpdate_spec:
  assumes inv: "mtx_inv t" and n: "n = unat (numTxNodesScheduled s)" "n \<le> 4" "n \<le> length ids" and ptr: "nextTxPacket t = Some q"
  shows "\<exists>t' st' p. masterQuickUpdateTxPacket beyond t s ids st = Inr (t', st') \<and> mtx_inv t' \<and>
    nextTxPacket t' = nextTxPacket t \<and> masterResetCycles t' = masterResetCycles t \<and>
    restamps True same_message (txManager t) (txManager t') \<and> tx_deref (tx_memory_of t') q = Inr p \<and>
    schedule_of p n = map (\<lambda>d. (d, rxSeqNum_at beyond (rxSeqNum (txManager t)) d)) (take n ids)"
proof -
  let ?m = "txManager t" and ?f = "for_each (fillSchedule beyond (rxSeqNum (txManager t)) ids) [0..<n]"
  note i = mtx_invD [OF inv]
  obtain p0 where p0: "tx_deref (tx_memory_of t) q = Inr p0" "sendable q p0"
    using i(4) ptr by (auto simp: ptr_ok_def)
  have sched: "schedule_of p n = map (\<lambda>d. (d, rxSeqNum_at beyond (rxSeqNum ?m) d)) (take n ids)"
    if "\<forall>i<n. master_nextTxNodeId p i = ids ! i \<and> master_nextTxNodeAckSeqNum p i = rxSeqNum_at beyond (rxSeqNum ?m) (ids ! i)" for p
    using that n(3) by (auto simp: schedule_of_def intro!: nth_equalityI)
  have fill: "\<exists>p'. ?f p = Inr p' \<and> same_message p p' \<and> length (uhdr p') = 10 \<and> master_dstNodeId p' = master_dstNodeId p \<and>
      schedule_of p' n = map (\<lambda>d. (d, rxSeqNum_at beyond (rxSeqNum ?m) d)) (take n ids)" if "length (uhdr p) = 10" for p
    using fill_spec [OF n(2,3) that, of beyond "rxSeqNum ?m"] sched by blast
  have run: "masterQuickUpdateTxPacket beyond t s ids st = and_then (tx_write (tx_memory_of t) q ?f)
      (\<lambda>mem. Inr (with_tx_memory t mem, st\<lparr>st_txPackets := st_txPackets st + 1\<rparr>))"
    using ptr n(1) by (simp add: masterQuickUpdateTxPacket_def)
  show ?thesis
  proof (cases q)
    case (Tx_Entry k)
    then have k: "k < length (es ?m)" "packet (es ?m ! k) = p0"
      using p0(1) by (auto simp: tx_memory_of_def and_then_eq_Inr rd_eq_Inr)
    let ?p = "packet (es ?m ! k)"
    have wf: "wf_packet ?p" using i(1) k(1) by (simp add: tx_inv_def tx_core_def tx_shape_def)
    then obtain p where p: "?f ?p = Inr p" "same_message ?p p" "length (uhdr p) = 10" "master_dstNodeId p = master_dstNodeId ?p"
      "schedule_of p n = map (\<lambda>d. (d, rxSeqNum_at beyond (rxSeqNum ?m) d)) (take n ids)"
      using fill by (auto simp: wf_packet_def)
    let ?m' = "upd_packet k (\<lambda>_. p) ?m"
    note re = rewrite_entry [OF i(1) k(1) wf_same_message [OF wf p(2,3)] same_message_fields(2) [OF p(2)], of same_message, OF same_message_refl p(2)]
    have r: "tx_inv True ?m'" "restamps True same_message ?m ?m'" using re p(4) by simp_all
    have "mtx_inv (with_tx_memory t (?m', tmpEmptyPacketHeader t, tmpPacket t))"
      using i r all_small_restamps [OF r(2) i(3)] k p0(2) sendable_same_message [OF p(2)]
      by (simp add: mtx_inv_def with_tx_memory_def ptr_ok_def ptr Tx_Entry tx_memory_of_def upd_packet_def)
    then show ?thesis
      using run p(1,5) k(1) r Tx_Entry ptr
      by (simp add: tx_memory_of_def with_tx_memory_def) (simp add: upd_packet_def)
  next
    case Tmp_Packet
    obtain p where p: "?f (tmpPacket t) = Inr p" "same_message (tmpPacket t) p" "length (uhdr p) = 10"
      "schedule_of p n = map (\<lambda>d. (d, rxSeqNum_at beyond (rxSeqNum ?m) d)) (take n ids)"
      using fill i(7) by (auto simp: wf_packet_def)
    have "mtx_inv (t\<lparr>tmpPacket := p\<rparr>)"
      using i wf_same_message [OF i(7) p(2,3)] p0 sendable_same_message [OF p(2)]
      by (simp add: mtx_inv_def ptr_ok_def ptr Tmp_Packet tx_memory_of_def)
    then show ?thesis
      using run p(1,4) Tmp_Packet ptr by (simp add: tx_memory_of_def with_tx_memory_def)
  next
    case (Tmp_Empty k)
    then have k: "k < 2" "tmpEmptyPacketHeader t ! k = p0" using p0(1) i(5) by (auto simp: tx_memory_of_def rd_eq_Inr)
    let ?h = "tmpEmptyPacketHeader t ! k"
    have "length (uhdr ?h) = 10" using i(5,6) k(1) by (simp add: wf_header_def)
    then obtain p where p: "?f ?h = Inr p" "same_message ?h p" "length (uhdr p) = 10"
      "schedule_of p n = map (\<lambda>d. (d, rxSeqNum_at beyond (rxSeqNum ?m) d)) (take n ids)"
      using fill by blast
    have "mtx_inv (t\<lparr>tmpEmptyPacketHeader := (tmpEmptyPacketHeader t)[k := p]\<rparr>)"
      using i p(3) set_update_subset_insert [of "tmpEmptyPacketHeader t" k p] k p0(2) sendable_same_message [OF p(2)]
      by (auto simp: mtx_inv_def ptr_ok_def ptr Tmp_Empty wf_header_def tx_memory_of_def)
    then show ?thesis
      using run p(1,4) Tmp_Empty ptr k(1) i(5) by (simp add: tx_memory_of_def with_tx_memory_def)
  qed
qed

section \<open>Choosing the next packet\<close>

lemma mtx_init_inv:
  assumes "length ps = unat k" and "unat k < 255" and "\<forall>e\<in>set ps. wf_packet (packet e)"
  shows "mtx_inv ((masterTxInit zero_queue k ps)\<lparr>masterResetCycles := c\<rparr>)"
proof -
  let ?m = "initTxManager 64 (Some zero_queue) k ps"
  have "tx_inv True ?m" using init_inv [OF assms, of 64 True "Some zero_queue"] by simp
  moreover have "pending True ?m d = []" if "dst_ok ?m d" for d
    using that by (simp add: pending_def buffered_def start_of_def end_of_def initTxManager_def dst_ok_def)
  then have "all_small ?m" by (simp add: all_small_def)
  moreover have "length (txSeqNumStart ?m) = 64" by (simp add: initTxManager_def)
  ultimately show ?thesis
    by (simp add: mtx_inv_def masterTxInit_def ptr_ok_def tx_memory_of_def sendable_def master_sends_def from_master_def
        set_master_dstNodeId_def zero_packet_def wf_packet_def)
qed

text \<open>What the struct may become once the next packet is chosen.\<close>

lemma mtx_inv_point:
  assumes "mtx_inv t" and "tx_inv True m" and "dst_ok m = dst_ok (txManager t)" and "all_small m"
    and "length hs = 2" and "\<forall>h\<in>set hs. wf_header h" and "wf_packet tmp"
    and "tx_deref (m, hs, tmp) q = Inr p" and "sendable q p"
  shows "mtx_inv (t\<lparr>tmpPacketCycle := c, masterResetCycles := n, txManager := m, tmpEmptyPacketHeader := hs,
    tmpPacket := tmp, nextTxPacket := Some q\<rparr>)"
  using assms length_of_dst_ok [OF assms(3) _ assms(2)]
  by (simp add: mtx_inv_def ptr_ok_def tx_memory_of_def)

lemma processTx_spec:
  assumes inv: "mtx_inv t" and nw: "nw_inv nw ttl"
  shows "\<exists>t' st' q. masterProcessTx t nw st = Inr (t', st') \<and> mtx_inv t' \<and> nextTxPacket t' = Some q \<and>
    tx_frame (txManager t) (txManager t') \<and> dst_ok (txManager t') = dst_ok (txManager t) \<and>
    packetStore (txManager t') = packetStore (txManager t) \<and>
    (\<forall>d. dst_ok (txManager t) d \<longrightarrow> pending True (txManager t') d = pending True (txManager t) d)"
proof -
  let ?m = "txManager t"
  note i = mtx_invD [OF inv]
  have fin: "?thesis" if "masterProcessTx t nw st = Inr (t\<lparr>tmpPacketCycle := c, masterResetCycles := n, txManager := m,
      tmpEmptyPacketHeader := hs, tmpPacket := tmp, nextTxPacket := Some q\<rparr>, st')"
    "tx_inv True m" "dst_ok m = dst_ok ?m" "tx_frame ?m m" "packetStore m = packetStore ?m"
    "\<And>d. dst_ok ?m d \<Longrightarrow> pending True m d = pending True ?m d"
    "length hs = 2" "\<forall>h\<in>set hs. wf_header h" "wf_packet tmp" "tx_deref (m, hs, tmp) q = Inr p" "sendable q p"
    for c n m hs tmp q st' p
  proof -
    have "all_small m" using i(3) that(3,6) by (simp add: all_small_def)
    from mtx_inv_point [OF inv that(2,3) this that(7-11)] that show ?thesis by simp
  qed
  have same: "tx_frame ?m ?m" by (simp add: tx_frame_def)
  let ?cycle = "if tmpPacketCycle t + 1 \<ge> 4 then 0 else tmpPacketCycle t + 1"
  show ?thesis
  proof (cases "masterResetCycles t > 0")
    case True
    let ?tmp = "SET_PROTOCOL_VERSION_AND_PACKET_TYPE MASTER_RESET_PACKET (tmpPacket t)"
    have "udata ?tmp \<noteq> []" using i(7) by (auto simp: wf_packet_def)
    then have "sendable Tmp_Packet ?tmp" by (simp add: sendable_def master_sends_def from_master_def)
    moreover have "wf_packet ?tmp" using i(7) by (simp add: wf_packet_def)
    ultimately show ?thesis
      using True i same by (intro fin [where c = "tmpPacketCycle t" and n = "masterResetCycles t - 1" and m = ?m and hs = "tmpEmptyPacketHeader t" and tmp = ?tmp and q = Tmp_Packet])
        (simp_all add: masterProcessTx_def)
  next
    case run: False
    show ?thesis
    proof (cases "numNewNodes nw > 0 \<and> ?cycle = 1")
      case True
      then have "0 < unat (numNewNodes nw)" by (simp add: u8_less_iff)
      from response_run [OF nw this i(7)] obtain p where p: "txNewNodeResponse nw (tmpPacket t) = Inr p" "wf_packet p"
        "GET_PACKET_TYPE p = packet_code NEW_NODE_RESPONSE_PACKET"
        "unat (GET_PACKET_DATA_SIZE p) = 9 * unat (numNewNodes nw)"
        "udata p = table_bytes (joining nw) @ drop (9 * unat (numNewNodes nw)) (udata (tmpPacket t))" by blast
      have "response_ok p" by (rule table_response_ok [OF nw p(4,5)])
      then have "sendable Tmp_Packet p" using p(2,3) by (auto simp: sendable_def master_sends_def from_master_def wf_packet_def)
      then show ?thesis
        using True run i same p
        by (intro fin [where c = ?cycle and n = "masterResetCycles t" and m = ?m and hs = "tmpEmptyPacketHeader t" and tmp = p and q = Tmp_Packet])
          (simp_all add: masterProcessTx_def Let_def)
    next
      case False
      obtain q where "activeTxNodes ?m = Some q" using i(1) by (auto simp: tx_inv_def tx_queued_def split: option.splits)
      from masterGetNext_spec [OF i(1) this, of 1] obtain r m where
        r: "masterGetNextTxDataPacket ?m 1 = Inr (r, m)" and s: "scan_ok ?m (queue_ids q) r m" by blast
      have m: "tx_inv True m" "dst_ok m = dst_ok ?m" "tx_frame ?m m" "packetStore m = packetStore ?m"
        using s by (simp_all add: scan_ok_def)
      have keep: "pending True m d = pending True ?m d" if "dst_ok ?m d" for d
      proof -
        have "w_packets (snd (w_next w)) = w_packets w" for w by (simp add: w_next_def)
        then have "w_packets (window_of True m d) = w_packets (window_of True ?m d)"
          using s that unfolding scan_ok_def by metis
        then show ?thesis by (simp add: window_of_def)
      qed
      show ?thesis
      proof (cases r)
        case None
        let ?k = "unat ?cycle mod 2"
        let ?h = "set_master_dstNodeId INVALID_NODE_ID ((SET_PROTOCOL_VERSION_AND_PACKET_TYPE MASTER_EMPTY_PACKET
          (tmpEmptyPacketHeader t ! ?k))\<lparr>dataSize1 := 0, dataSize2 := 0\<rparr>)"
        have k: "?k < 2" by simp
        then have "tmpEmptyPacketHeader t ! ?k \<in> set (tmpEmptyPacketHeader t)" using i(5) by (metis nth_mem)
        then have h: "wf_header ?h" "sendable (Tmp_Empty ?k) ?h"
          using i(6) by (simp_all add: sendable_def wf_header_def set_master_dstNodeId_def master_sends_def from_master_def
              GET_PACKET_TYPE_def SET_PROTOCOL_VERSION_AND_PACKET_TYPE_def)
        show ?thesis
          by (rule fin [where c = ?cycle and n = "masterResetCycles t" and m = m and hs = "(tmpEmptyPacketHeader t)[?k := ?h]" and tmp = "tmpPacket t" and q = "Tmp_Empty ?k"])
            (use False run r None i m keep h k set_update_subset_insert [of "tmpEmptyPacketHeader t" ?k ?h] in
              \<open>auto simp: masterProcessTx_def Let_def\<close>)
      next
        case (Some j)
        then obtain d where d: "d \<in> set (queue_ids q)" "w_next (window_of True ?m d) = (Some (packet (es m ! j)), window_of True m d)"
          "owned m j" "sent ?m d < buffered m d" using s by (auto simp: scan_ok_def)
        have ids: "dst_ok ?m d"
          using d(1) i(1) \<open>activeTxNodes ?m = Some q\<close> by (auto simp: tx_inv_def tx_queued_def)
        have "packet (es m ! j) = pending True ?m d ! sent ?m d"
          using w_next_Some [OF d(2)] by (simp add: window_of_def)
        moreover have "sent ?m d < length (pending True ?m d)"
          using d(4) keep [OF ids] by (metis length_pending)
        ultimately have "master_packet (packet (es m ! j))" using i(3) ids by (simp add: all_small_def)
        then have p: "sendable (Tx_Entry j) (packet (es m ! j))" "unat (GET_PACKET_DATA_SIZE (packet (es m ! j))) < 178"
          by (simp_all add: sendable_def master_packet_sends) (simp add: master_packet_def)
        have j: "j < length (es m)" using d(3) by (simp add: owned_def)
        show ?thesis
          by (rule fin [where c = ?cycle and n = "masterResetCycles t" and m = m and hs = "tmpEmptyPacketHeader t" and tmp = "tmpPacket t" and q = "Tx_Entry j"])
            (use False run r Some i m keep j p in \<open>auto simp: masterProcessTx_def Let_def\<close>)
      qed
    qed
  qed
qed

end
