(* ===== verification/RxHold.thy ===== *)
theory RxHold
  imports RxManager
begin

text \<open>
  The receive entries that a driver holds besides the queue: always the one the hardware
  writes into, and between the quick check and the processing of a packet also the one that
  holds it. Both the master and the nodes keep their entries by this discipline.
\<close>

definition rx_hold :: "tRxPacketManager \<Rightarrow> nat \<Rightarrow> nat option \<Rightarrow> bool" where
  "rx_hold rpm i prev \<longleftrightarrow> wf_rpm rpm \<and> i < rx_max rpm \<and> (\<forall>j<rx_max rpm. wf_packet (rx_packet rpm j)) \<and>
     rx_owned (insert i (set_option prev)) rpm \<and>
     (\<forall>j. prev = Some j \<longrightarrow> j < rx_max rpm \<and> j \<noteq> i \<and> Suc (rx_count rpm) < rx_max rpm)"

lemma rx_holdD:
  assumes "rx_hold rpm i prev"
  shows "wf_rpm rpm" "i < rx_max rpm" "length (rxPacketEntries rpm) = rx_max rpm"
    "j < rx_max rpm \<Longrightarrow> wf_packet (rx_packet rpm j)" "rx_owned (insert i (set_option prev)) rpm"
  using assms wf_rpmD(1) by (auto simp: rx_hold_def)

lemma hold_entry:
  assumes "rx_hold rpm i prev" and "j < rx_max rpm"
  shows "rd (rxPacketEntries rpm) j = Inr (rxPacketEntries rpm ! j)"
    "packet (rxPacketEntries rpm ! j) = rx_packet rpm j"
  using assms rx_holdD(3) [OF assms(1)] by (simp_all add: rx_packet_def)

text \<open>Another entry is taken for the next packet, or none is free.\<close>

lemma hold_fetch:
  assumes "rx_hold rpm i None"
  shows "findFreeRxPacket rpm = Inr (None, rpm) \<or>
    (\<exists>j rpm'. findFreeRxPacket rpm = Inr (Some j, rpm') \<and> rx_hold rpm' j (Some i) \<and>
      rx_contents rpm' = rx_contents rpm \<and> rx_packet rpm' = rx_packet rpm \<and> rx_max rpm' = rx_max rpm)"
proof -
  have r: "wf_rpm rpm" "i < rx_max rpm" "rx_owned {i} rpm" "\<forall>j<rx_max rpm. wf_packet (rx_packet rpm j)"
    using assms by (simp_all add: rx_hold_def)
  from findFreeRxPacket_spec [OF r(1,3)] obtain free rpm' where f: "findFreeRxPacket rpm = Inr (free, rpm')"
    and s: "wf_rpm rpm'" "rx_contents rpm' = rx_contents rpm"
      "rx_packet rpm' = rx_packet rpm" "rx_max rpm' = rx_max rpm"
    and c: "case free of None \<Rightarrow> rpm' = rpm
       | Some p \<Rightarrow> p < rx_max rpm \<and> p \<notin> {i} \<and> p \<notin> set (rx_pointers rpm) \<and> rx_owned (insert p {i}) rpm' \<and>
          Suc (rx_count rpm') < rx_max rpm'" by blast
  show ?thesis
  proof (cases free)
    case None
    then show ?thesis using f c by simp
  next
    case (Some j)
    then have "rx_hold rpm' j (Some i)" using r s c by (auto simp: rx_hold_def insert_commute)
    then show ?thesis using f s Some by blast
  qed
qed

definition rx_room :: "tRxPacketManager \<Rightarrow> bool" where
  "rx_room rpm = (case findFreeRxPacket rpm of Inr (Some _, _) \<Rightarrow> True | _ \<Rightarrow> False)"

text \<open>The held packet is given back, or put into the queue.\<close>

lemma hold_discard:
  assumes "rx_hold rpm i (Some j)"
  shows "\<exists>rpm'. set_rx_inUse j False rpm = Inr rpm' \<and> rx_hold rpm' i None \<and>
    rx_contents rpm' = rx_contents rpm \<and> rx_packet rpm' = rx_packet rpm \<and> rx_max rpm' = rx_max rpm"
proof -
  have r: "wf_rpm rpm" "i < rx_max rpm" "rx_owned {i, j} rpm" "j < rx_max rpm" "j \<noteq> i"
    "\<forall>k<rx_max rpm. wf_packet (rx_packet rpm k)"
    using assms by (auto simp: rx_hold_def)
  have len: "length (rxPacketEntries rpm) = rx_max rpm" using wf_rpmD(1) [OF r(1)] .
  have "j \<notin> set (rx_pointers rpm)" using r(3) by (auto simp: rx_owned_def)
  note w = wf_rpm_set_inUse [OF r(1), of False j]
  let ?r = "rpm\<lparr>rxPacketEntries := (rxPacketEntries rpm)[j := (rxPacketEntries rpm ! j)\<lparr>inUse := False\<rparr>]\<rparr>"
  have "rx_owned {i} ?r" using r(3-5) len \<open>j \<notin> _\<close> by (auto simp: rx_owned_def nth_list_update)
  then show ?thesis using w r len \<open>j \<notin> _\<close> by (simp add: set_rx_inUse_def rx_contents_def rx_hold_def)
qed

lemma hold_store:
  assumes "rx_hold rpm i (Some j)"
  shows "\<exists>rpm'. addRxDataPacket rpm j = Inr rpm' \<and> rx_hold rpm' i None \<and>
    rx_contents rpm' = rx_contents rpm @ [rx_packet rpm j] \<and> rx_max rpm' = rx_max rpm"
proof -
  have r: "wf_rpm rpm" "rx_owned (insert j {i}) rpm" "j < rx_max rpm" "j \<notin> {i}" "Suc (rx_count rpm) < rx_max rpm"
    using assms by (auto simp: rx_hold_def insert_commute)
  from addRxDataPacket_owned [OF this] obtain rpm' where a: "addRxDataPacket rpm j = Inr rpm'" "wf_rpm rpm'"
    "rx_owned {i} rpm'" "rx_contents rpm' = rx_contents rpm @ [rx_packet rpm j]"
    "maxRxPacketEntries rpm' = maxRxPacketEntries rpm" "rxPacketEntries rpm' = rxPacketEntries rpm" by blast
  have "rx_packet rpm' = rx_packet rpm" using a(6) by (simp add: rx_packet_def fun_eq_iff)
  then show ?thesis using a assms by (simp add: rx_hold_def)
qed

text \<open>The hardware writes the bytes of the next packet.\<close>

definition rx_deliver :: "tPacket \<Rightarrow> nat \<Rightarrow> tRxPacketManager \<Rightarrow> tRxPacketManager" where
  "rx_deliver p i rpm =
     rpm\<lparr>rxPacketEntries := (rxPacketEntries rpm)[i := (rxPacketEntries rpm ! i)\<lparr>packet := p\<rparr>]\<rparr>"

lemma hold_deliver:
  assumes "rx_hold rpm i prev" and "wf_packet p"
  shows "rx_hold (rx_deliver p i rpm) i prev" "rx_contents (rx_deliver p i rpm) = rx_contents rpm"
    "rx_packet (rx_deliver p i rpm) = (rx_packet rpm)(i := p)" "rx_max (rx_deliver p i rpm) = rx_max rpm"
proof -
  let ?r = "rx_deliver p i rpm"
  note h = rx_holdD [OF assms(1)]
  have v: "rx_max ?r = rx_max rpm" "rx_pointers ?r = rx_pointers rpm" "rx_count ?r = rx_count rpm"
    by (simp_all add: rx_deliver_def rx_pointers_def rx_cells_def rx_count_def)
  show "rx_max ?r = rx_max rpm" by (rule v(1))
  have use: "inUse (rxPacketEntries ?r ! k) = inUse (rxPacketEntries rpm ! k)" for k
    using h(2,3) by (simp add: rx_deliver_def nth_list_update)
  show pk: "rx_packet ?r = (rx_packet rpm)(i := p)"
    using h(2,3) by (auto simp: rx_packet_def rx_deliver_def fun_eq_iff nth_list_update)
  have "i \<notin> set (rx_pointers rpm)" using h(5) by (auto simp: rx_owned_def)
  then show "rx_contents ?r = rx_contents rpm" by (simp add: rx_contents_def v pk)
  have "wf_rpm ?r" using h(1) v use by (simp add: wf_rpm_def) (simp add: rx_deliver_def)
  moreover have "rx_owned held ?r = rx_owned held rpm" for held by (simp add: rx_owned_def v use)
  ultimately show "rx_hold ?r i prev" using assms by (simp add: rx_hold_def v pk)
qed

text \<open>The application reads meanwhile, and a departed node's packets are removed.\<close>

lemma peek_count: "wf_rpm rpm \<Longrightarrow> peekLoop k rpm = Inr (r, rpm') \<Longrightarrow> rx_count rpm' \<le> rx_count rpm"
proof (induction k arbitrary: rpm)
  case 0
  then show ?case by simp
next
  case (Suc k)
  show ?case
  proof (cases "rx_count rpm = 0 \<or> rxPacketQueue rpm ! unat (rx_start rpm) \<noteq> None")
    case True
    then have "rpm' = rpm"
      using Suc.prems wf_rpmD(2,3) [OF Suc.prems(1)] by (auto simp: rx_empty_iff split: if_splits)
    then show ?thesis by simp
  next
    case False
    let ?r = "rpm\<lparr>rx_start := ring_step (maxRxPacketEntries rpm) (rx_start rpm)\<rparr>"
    have ne: "rx_count rpm \<noteq> 0" using False by simp
    note adv = rx_cells_advance [OF Suc.prems(1) ne]
    have "peekLoop k ?r = Inr (r, rpm')"
      using Suc.prems False wf_rpmD(2,3) [OF Suc.prems(1)] by (simp add: rx_empty_iff rx_pop_step)
    from Suc.IH [OF adv(2) this] show ?thesis using arg_cong [OF adv(1), of length] by simp
  qed
qed

lemma hold_fewer:
  assumes "rx_hold rpm i prev" and "wf_rpm rpm'" and "rx_owned (insert i (set_option prev)) rpm'"
    and "rx_count rpm' \<le> rx_count rpm" and "rx_packet rpm' = rx_packet rpm" and "rx_max rpm' = rx_max rpm"
  shows "rx_hold rpm' i prev"
  using assms by (auto simp: rx_hold_def)

lemma hold_peek:
  assumes "rx_hold rpm i prev"
  shows "\<exists>r rpm'. peekNextRxDataPacket rpm = Inr (r, rpm') \<and> rx_hold rpm' i prev \<and>
    rx_contents rpm' = rx_contents rpm \<and> rx_packet rpm' = rx_packet rpm \<and> rx_max rpm' = rx_max rpm \<and>
    (case rx_contents rpm of [] \<Rightarrow> r = None
     | p # _ \<Rightarrow> (\<exists>j<rx_max rpm. r = Some j \<and> rx_packet rpm j = p) \<and> rx_cells rpm' \<noteq> [] \<and> hd (rx_cells rpm') \<noteq> None)"
proof -
  note h = rx_holdD [OF assms]
  from peekNextRxDataPacket_owned [OF h(1,5)] obtain rpm' where
    p: "peekNextRxDataPacket rpm = Inr (case rx_pointers rpm of [] \<Rightarrow> None | p # _ \<Rightarrow> Some p, rpm')"
    "wf_rpm rpm'" "rx_owned (insert i (set_option prev)) rpm'" "rx_contents rpm' = rx_contents rpm"
    "rx_packet rpm' = rx_packet rpm"
    "rx_contents rpm \<noteq> [] \<longrightarrow> rx_cells rpm' \<noteq> [] \<and> hd (rx_cells rpm') \<noteq> None" by blast
  from peekNextRxDataPacket_spec [OF h(1)] p(1) have m: "rx_max rpm' = rx_max rpm" by auto
  have "rx_hold rpm' i prev"
    using hold_fewer [OF assms p(2,3) _ p(5) m] peek_count [OF h(1)] p(1) by (simp add: peekNextRxDataPacket_def)
  moreover have "q \<in> set (rx_pointers rpm) \<Longrightarrow> q < rx_max rpm" for q using wf_rpmD(8) [OF h(1)] .
  ultimately show ?thesis using p m by (cases "rx_pointers rpm") (auto simp: rx_contents_def)
qed

lemma hold_pop:
  assumes "rx_hold rpm i prev" and "rx_cells rpm \<noteq> []" and "hd (rx_cells rpm) \<noteq> None"
  shows "\<exists>rpm'. popNextDataPacket rpm = Inr rpm' \<and> rx_hold rpm' i prev \<and> rx_contents rpm \<noteq> [] \<and>
    rx_contents rpm' = tl (rx_contents rpm) \<and> rx_packet rpm' = rx_packet rpm \<and> rx_max rpm' = rx_max rpm"
proof -
  note h = rx_holdD [OF assms(1)]
  from popNextDataPacket_owned [OF h(1,5) assms(2,3)] obtain rpm' where
    p: "popNextDataPacket rpm = Inr rpm'" "wf_rpm rpm'" "rx_owned (insert i (set_option prev)) rpm'"
    "rx_contents rpm \<noteq> []" "rx_contents rpm' = tl (rx_contents rpm)" by blast
  obtain q where "hd (rx_cells rpm) = Some q" using assms(3) by blast
  from popNextDataPacket_spec [OF h(1) assms(2) this] p(1) have m: "rx_cells rpm' = tl (rx_cells rpm)"
    "rx_packet rpm' = rx_packet rpm" "rx_max rpm' = rx_max rpm" by auto
  have "rx_count rpm' \<le> rx_count rpm" using arg_cong [OF m(1), of length] by simp
  from hold_fewer [OF assms(1) p(2,3) this m(2,3)] show ?thesis using p m by blast
qed

lemma hold_remove:
  assumes "rx_hold rpm i None" and "rx_end rpm \<noteq> 0 \<or> rx_start rpm = 0"
  shows "\<exists>rpm'. rxManagerRemoveAllPackets rpm d = Inr rpm' \<and> rx_hold rpm' i None \<and>
    rx_contents rpm' = filter (\<lambda>p. node_srcNodeId p \<noteq> d) (rx_contents rpm) \<and>
    rx_packet rpm' = rx_packet rpm \<and> rx_max rpm' = rx_max rpm"
proof -
  note h = rx_holdD [OF assms(1)]
  from rxManagerRemoveAllPackets_returns [OF h(1) assms(2) h(5), of d] show ?thesis
    using assms(1) by (fastforce simp: rx_hold_def)
qed

lemma hold_init:
  assumes "n > 2"
  shows "\<exists>i rpm. findFreeRxPacket (rxManagerInit n zero_rpm) = Inr (Some i, rpm) \<and> rx_hold rpm i None \<and>
    rx_contents rpm = [] \<and> maxRxPacketEntries rpm = n"
proof -
  let ?r0 = "rxManagerInit n zero_rpm"
  have pos: "0 < n" using assms by (simp add: u8_less_iff)
  note w = wf_rxManagerInit [OF pos]
  have n: "2 < rx_max ?r0" using assms by (simp add: rxManagerInit_def u8_less_iff)
  have "\<exists>i rpm. findFreeRxPacket ?r0 = Inr (Some i, rpm)"
  proof (cases rule: findFreeRxPacket_cases [OF w(1)])
    case 1
    then have "Suc (rx_count ?r0) = rx_max ?r0 \<or> inUse (rxPacketEntries ?r0 ! 0)" using n by auto
    moreover have "rx_count ?r0 = 0" by (simp add: rx_count_def rxManagerInit_def zero_rpm_def)
    moreover have "\<not> inUse (rxPacketEntries ?r0 ! 0)" using n by (simp add: rxManagerInit_def zero_entry_def)
    ultimately show ?thesis using n by simp
  qed auto
  then obtain i rpm where f: "findFreeRxPacket ?r0 = Inr (Some i, rpm)" by blast
  from findFreeRxPacket_spec [OF w(1,3)] f have s: "wf_rpm rpm" "rx_contents rpm = rx_contents ?r0"
    "rx_packet rpm = rx_packet ?r0" "rx_max rpm = rx_max ?r0" "i < rx_max ?r0" "rx_owned {i} rpm" by auto
  have "\<forall>j<rx_max ?r0. wf_packet (rx_packet ?r0 j)" by (simp add: rxManagerInit_def rx_packet_def zero_entry_def)
  then have "rx_hold rpm i None" using s by (simp add: rx_hold_def)
  moreover have "maxRxPacketEntries rpm = n" using s(4) by (simp add: rxManagerInit_def u8_eq_iff)
  moreover have "rx_contents rpm = []" using s(2) w(2) by (simp add: rx_contents_def)
  ultimately show ?thesis using f by blast
qed

section \<open>The packets of the entries\<close>

text \<open>Only the hardware writes them.\<close>

lemma in_use_packets: "set_rx_inUse i b rpm = Inr rpm' \<Longrightarrow> rx_packet rpm' = rx_packet rpm"
  by (auto simp: set_rx_inUse_def and_then_eq_Inr rd_eq_Inr)

lemma add_packets: "addRxDataPacket rpm i = Inr rpm' \<Longrightarrow> rx_packet rpm' = rx_packet rpm"
  by (auto simp: addRxDataPacket_def and_then_eq_Inr Let_def rx_packet_def fun_eq_iff)

lemma start_packets: "rx_packet (rpm\<lparr>rx_start := h\<rparr>) = rx_packet rpm"
  by (simp add: rx_packet_def fun_eq_iff)

lemma pop_packets: "popNextDataPacket rpm = Inr rpm' \<Longrightarrow> rx_packet rpm' = rx_packet rpm"
  by (auto simp: popNextDataPacket_def and_then_eq_Inr start_packets split: option.split_asm dest!: in_use_packets)

lemma peek_packets: "peekLoop k rpm = Inr (r, rpm') \<Longrightarrow> rx_packet rpm' = rx_packet rpm"
proof (induction k arbitrary: rpm)
  case (Suc k)
  then show ?case by (fastforce simp: and_then_eq_Inr start_packets split: if_split_asm option.split_asm)
qed simp

section \<open>Queues without holes\<close>

text \<open>Only the removal of a node makes holes, and only the master removes nodes.\<close>

definition no_holes :: "tRxPacketManager \<Rightarrow> bool" where
  "no_holes rpm \<longleftrightarrow> None \<notin> set (rx_cells rpm)"

lemma no_holes_in_use: "set_rx_inUse i b rpm = Inr rpm' \<Longrightarrow> no_holes rpm' = no_holes rpm"
  by (auto simp: set_rx_inUse_def and_then_eq_Inr no_holes_def)

lemma no_holes_fetch:
  assumes "wf_rpm rpm" and "findFreeRxPacket rpm = Inr (r, rpm')"
  shows "no_holes rpm' = no_holes rpm"
  using assms(2) by (cases rule: findFreeRxPacket_cases [OF assms(1)]) (auto simp: no_holes_def)

lemma no_holes_store:
  assumes "rx_hold rpm i (Some j)" and "addRxDataPacket rpm j = Inr rpm'" and "no_holes rpm"
  shows "no_holes rpm'"
proof -
  have r: "wf_rpm rpm" "Suc (rx_count rpm) < rx_max rpm" "j < rx_max rpm" "rx_owned {i, j} rpm"
    using assms(1) by (auto simp: rx_hold_def)
  then have "inUse (rxPacketEntries rpm ! j)" "j \<notin> set (rx_pointers rpm)" by (auto simp: rx_owned_def)
  from addRxDataPacket_spec [OF r(1-3) this] assms(2,3) show ?thesis by (auto simp: no_holes_def)
qed

lemma no_holes_init: "no_holes (rxManagerInit n zero_rpm)"
  by (cases "n = 0") (simp_all add: no_holes_def rx_cells_def rx_count_def rxManagerInit_def zero_rpm_def)

lemma no_holes_deliver [simp]: "no_holes (rx_deliver p i rpm) = no_holes rpm"
  by (simp add: no_holes_def rx_deliver_def)

lemma no_holes_front:
  assumes "wf_rpm rpm" and "no_holes rpm"
  shows "rx_contents rpm = [] \<longleftrightarrow> rx_count rpm = 0"
    and "rx_count rpm \<noteq> 0 \<Longrightarrow> \<exists>j ps. rx_pointers rpm = j # ps \<and> rx_cells rpm \<noteq> [] \<and> hd (rx_cells rpm) = Some j \<and>
      rxPacketQueue rpm ! unat (rx_start rpm) = Some j"
proof -
  have "None \<notin> set cs \<Longrightarrow> cs = map Some (somes cs)" for cs :: "nat option list"
    by (induction cs rule: somes.induct) auto
  then have cells: "rx_cells rpm = map Some (rx_pointers rpm)" using assms(2) by (simp add: no_holes_def rx_pointers_def)
  show "rx_contents rpm = [] \<longleftrightarrow> rx_count rpm = 0"
    using cells length_rx_cells [of rpm] by (auto simp: rx_contents_def)
  assume ne: "rx_count rpm \<noteq> 0"
  note adv = rx_cells_advance(1) [OF assms(1) ne]
  then obtain j ps where "rx_pointers rpm = j # ps" using cells by (cases "rx_pointers rpm") auto
  then show "\<exists>j ps. rx_pointers rpm = j # ps \<and> rx_cells rpm \<noteq> [] \<and> hd (rx_cells rpm) = Some j \<and>
      rxPacketQueue rpm ! unat (rx_start rpm) = Some j"
    using adv cells by auto
qed

end
