(* ===== verification/MasterRx.thy ===== *)
theory MasterRx
  imports TxSearch RxHold Wire
begin

text \<open>
  The master's receive side, \<^verbatim>\<open>src/src/masterRx.c\<close>: the quick check at the start of a slot,
  which accepts or refuses the packet's sequence number, and the processing later in the
  slot, which stores the packet. The received bytes are in the entry that
  \<open>nextRxPacketEntry\<close> points to, where the hardware has written them.
\<close>

record tMasterRx =
  rxPacketManager :: tRxPacketManager
  nextRxPacketEntry :: nat
  prevRxPacketEntry :: "nat option"
  validRxPacket :: bool
  validRxSeqNum :: bool

definition masterQuickProcessPrevRx ::
    "tMasterRx \<Rightarrow> tNetworkManager \<Rightarrow> tTxManager \<Rightarrow> u8 list \<Rightarrow> tNodeStats \<Rightarrow> bool \<Rightarrow>
     (tMasterRx \<times> tNetworkManager \<times> tTxManager \<times> u8 list \<times> tNodeStats) res" where
  "masterQuickProcessPrevRx r nw m ttl st rxCrcError =
     and_then (rd (rxPacketEntries (rxPacketManager r)) (nextRxPacketEntry r)) (\<lambda>e.
     let r1 = r\<lparr>prevRxPacketEntry := Some (nextRxPacketEntry r), validRxPacket := False\<rparr>; p = packet e in
     if protocolVersionAndPacketType p = 0 \<or> protocolVersionAndPacketType p = 255 then
       Inr (r1, nw, m, ttl, st\<lparr>st_emptyRx := st_emptyRx st + 1\<rparr>)
     else if rxCrcError then
       Inr (r1, nw, m, ttl, st\<lparr>st_rxCrcFailures := st_rxCrcFailures st + 1\<rparr>)
     else if GET_PROTOCOL_VERSION p \<noteq> MICROBUS_VERSION then
       Inr (r1, nw, m, ttl, st\<lparr>st_rxInvalidProtocol := st_rxInvalidProtocol st + 1\<rparr>)
     else if unat (GET_PACKET_DATA_SIZE p) \<ge> MAX_PACKET_DATA_SIZE then
       Inr (r1, nw, m, ttl, st\<lparr>st_rxInvalidDataSize := st_rxInvalidDataSize st + 1\<rparr>)
     else
       let st1 = st\<lparr>st_rxValid := st_rxValid st + 1\<rparr>; packetType = GET_PACKET_TYPE p; src = node_srcNodeId p in
       and_then
         (if packetType = packet_code NODE_DATA_PACKET \<or> packetType = packet_code NODE_EMPTY_PACKET
          then and_then (rd ttl (unat src)) (\<lambda>t.
            if t > 0 then networkManagerRecordRxPacket nw ttl src else Inr (nw, ttl))
          else Inr (nw, ttl)) (\<lambda>(nw1, ttl1).
       and_then (findFreeRxPacket (rxPacketManager r1)) (\<lambda>(freeEntry, rpm).
       case freeEntry of
         None \<Rightarrow> Inr (r1\<lparr>rxPacketManager := rpm\<rparr>, nw1, m, ttl1,
           st1\<lparr>st_rxBufferFull := st_rxBufferFull st1 + 1\<rparr>)
       | Some i \<Rightarrow>
           let r2 = r1\<lparr>rxPacketManager := rpm, nextRxPacketEntry := i, validRxPacket := True\<rparr> in
           if packetType = packet_code NODE_DATA_PACKET
           then and_then (rxPacketCheckAndUpdateSeqNum m src (txSeqNum p)) (\<lambda>(ok, m1).
             Inr (r2\<lparr>validRxSeqNum := ok\<rparr>, nw1, m1, ttl1, st1))
           else Inr (r2, nw1, m, ttl1, st1))))"

text \<open>One packet type per branch; the last result says whether the packet was stored.\<close>

definition masterProcessRx ::
    "tMasterRx \<Rightarrow> tNetworkManager \<Rightarrow> tSchedulerState \<Rightarrow> tTxManager \<Rightarrow> u8 list \<Rightarrow> tNodeStats \<Rightarrow>
     (u8 \<times> tMasterRx \<times> tNetworkManager \<times> tSchedulerState \<times> tTxManager \<times> u8 list \<times> tNodeStats) res" where
  "masterProcessRx r nw s m ttl st =
     (if \<not> validRxPacket r then Inr (0, r, nw, s, m, ttl, st)
      else
        and_then (case prevRxPacketEntry r of None \<Rightarrow> Inl Null_Pointer | Some i \<Rightarrow> Inr i) (\<lambda>i.
        and_then (rd (rxPacketEntries (rxPacketManager r)) i) (\<lambda>e.
        let p = packet e; packetType = GET_PACKET_TYPE p; src = node_srcNodeId p;
            st1 = st\<lparr>st_rxPacketEntries := st_rxPacketEntries st + 1\<rparr> in
        and_then
          (if packetType = packet_code NODE_EMPTY_PACKET then
             and_then (rxAckSeqNum m src (node_ackSeqNum p) True (st_txWindowRestarts st1)) (\<lambda>(n, w, m1).
               Inr (n, rxPacketManager r, nw, s, m1, ttl, st1\<lparr>st_txWindowRestarts := w\<rparr>, False))
           else if packetType = packet_code NODE_DATA_PACKET then
             and_then (rxAckSeqNum m src (node_ackSeqNum p) True (st_txWindowRestarts st1)) (\<lambda>(n, w, m1).
             let st2 = st1\<lparr>st_txWindowRestarts := w\<rparr> in
             if validRxSeqNum r then
               and_then (microbusAssert (dataSize1 p > 0 \<or> dataSize2 p > 0)) (\<lambda>_.
               and_then (schedulerUpdateNodeTxBufferLevel s src (node_bufferLevel p)) (\<lambda>s1.
               and_then (addRxDataPacket (rxPacketManager r) i) (\<lambda>rpm.
                 Inr (n, rpm, nw, s1, m1, ttl, st2\<lparr>st_rxDataPackets := st_rxDataPackets st2 + 1\<rparr>, True))))
             else Inr (n, rxPacketManager r, nw, s, m1, ttl, st2, False))
           else if packetType = packet_code NEW_NODE_REQUEST_PACKET then
             and_then (rxNewNodePacketRequest nw ttl p (st_networkFullCount st1)) (\<lambda>(nw1, ttl1, c).
               Inr (0, rxPacketManager r, nw1, NEW_NODE_HEARD_UPDATE_SCHEDULER s, m, ttl1,
                 st1\<lparr>st_networkFullCount := c, st_newNodeRequestRx := st_newNodeRequestRx st1 + 1\<rparr>, False))
           else Inr (0, rxPacketManager r, nw, s, m, ttl,
             st1\<lparr>st_rxInvalidPacketType := st_rxInvalidPacketType st1 + 1\<rparr>, False))
          (\<lambda>(n, rpm, nw1, s1, m1, ttl1, st2, packetStored).
        and_then (if packetStored then Inr rpm else set_rx_inUse i False rpm) (\<lambda>rpm1.
          Inr (n, r\<lparr>rxPacketManager := rpm1, validRxPacket := False, validRxSeqNum := False\<rparr>,
            nw1, s1, m1, ttl1, st2))))))"

definition masterRxGetNextPacketMemory :: "tMasterRx \<Rightarrow> nat" where
  "masterRxGetNextPacketMemory r = nextRxPacketEntry r"

text \<open>The rest of the struct was zeroed by \<^verbatim>\<open>masterInit\<close>.\<close>

definition masterRxInit :: "u8 \<Rightarrow> tMasterRx res" where
  "masterRxInit n =
     and_then (microbusAssert (n > 2)) (\<lambda>_.
     and_then (findFreeRxPacket (rxManagerInit n zero_rpm)) (\<lambda>(entry, rpm).
     case entry of
       None \<Rightarrow> Inl Assert_Failed
     | Some i \<Rightarrow> Inr \<lparr>rxPacketManager = rpm, nextRxPacketEntry = i, prevRxPacketEntry = None,
         validRxPacket = False, validRxSeqNum = False\<rparr>))"

section \<open>Invariant of the receive side\<close>

text \<open>The entry of the packet that awaits processing.\<close>

definition rx_prev :: "tMasterRx \<Rightarrow> nat option" where
  "rx_prev r = (if validRxPacket r then prevRxPacketEntry r else None)"

definition rx_inv :: "tMasterRx \<Rightarrow> bool" where
  "rx_inv r \<longleftrightarrow> rx_hold (rxPacketManager r) (nextRxPacketEntry r) (rx_prev r) \<and>
     (validRxPacket r \<longrightarrow> (\<exists>i. rx_prev r = Some i \<and> from_node (rx_packet (rxPacketManager r) i)))"

text \<open>The packet the hardware has received.\<close>

definition rx_input :: "tMasterRx \<Rightarrow> tPacket" where
  "rx_input r = rx_packet (rxPacketManager r) (nextRxPacketEntry r)"

definition rx_queue :: "tMasterRx \<Rightarrow> tPacket list" where
  "rx_queue r = rx_contents (rxPacketManager r)"

text \<open>What the quick check does to the sequence numbers, and whether the packet is kept.\<close>

definition quick_effect :: "tMasterRx \<Rightarrow> tTxManager \<Rightarrow> bool \<Rightarrow> tMasterRx \<Rightarrow> tTxManager \<Rightarrow> bool" where
  "quick_effect r m crc r' m' \<longleftrightarrow>
     (if validRxPacket r' \<and> GET_PACKET_TYPE (rx_input r) = packet_code NODE_DATA_PACKET
      then rxPacketCheckAndUpdateSeqNum m (node_srcNodeId (rx_input r)) (txSeqNum (rx_input r))
        = Inr (validRxSeqNum r', m')
      else m' = m) \<and>
     (validRxPacket r' \<longleftrightarrow> passes crc (rx_input r) \<and> rx_room (rxPacketManager r)) \<and>
     (validRxPacket r' \<longrightarrow>
        (\<exists>i. prevRxPacketEntry r' = Some i \<and> rx_packet (rxPacketManager r') i = rx_input r))"

lemma rx_inv_idle: "rx_inv r \<Longrightarrow> \<not> validRxPacket r \<Longrightarrow> rx_hold (rxPacketManager r) (nextRxPacketEntry r) None"
  by (simp add: rx_inv_def rx_prev_def)

lemma rx_inv_busy:
  assumes "rx_inv r" and "validRxPacket r"
  obtains i where "prevRxPacketEntry r = Some i" "rx_hold (rxPacketManager r) (nextRxPacketEntry r) (Some i)"
    "from_node (rx_packet (rxPacketManager r) i)" "i < rx_max (rxPacketManager r)"
  using assms by (auto simp: rx_inv_def rx_prev_def rx_hold_def)

lemma heard_source:
  assumes nw: "nw_inv nw ttl" and p: "from_node p"
  shows "\<exists>nw' ttl'. (if GET_PACKET_TYPE p = packet_code NODE_DATA_PACKET \<or> GET_PACKET_TYPE p = packet_code NODE_EMPTY_PACKET
      then and_then (rd ttl (unat (node_srcNodeId p))) (\<lambda>t. if t > 0 then networkManagerRecordRxPacket nw ttl (node_srcNodeId p)
        else Inr (nw, ttl))
      else Inr (nw, ttl)) = Inr (nw', ttl') \<and> nw_inv nw' ttl' \<and> alive ttl' = alive ttl"
proof -
  let ?src = "node_srcNodeId p" and ?t = "GET_PACKET_TYPE p"
  have len: "length ttl = 64" using nw by (simp add: nw_inv_def nw_shape_def)
  show ?thesis
  proof (cases "?t \<in> {packet_code NODE_DATA_PACKET, packet_code NODE_EMPTY_PACKET} \<and> ttl ! unat ?src > 0")
    case False
    moreover have "unat ?src < 64" if "?t \<in> {packet_code NODE_DATA_PACKET, packet_code NODE_EMPTY_PACKET}"
      using that p by (auto simp: from_node_def node_id_def)
    ultimately show ?thesis using nw len by auto
  next
    case True
    then have n: "node_id ?src" "?src \<in> alive ttl" using p by (auto simp: from_node_def alive_def word_gt_0)
    have "alive (ttl[unat ?src := 128]) = alive ttl" using alive_upd [of ?src ttl 128] n len node_id_dead by auto
    with record_spec [OF nw n(2)] True len n show ?thesis by (auto simp: node_id_def)
  qed
qed

lemma quick_spec:
  assumes inv: "rx_inv r" and idle: "\<not> validRxPacket r" and nw: "nw_inv nw ttl"
    and tx: "tx_inv True m" "length (rxSeqNum m) = MAX_NODES"
    and ok: "passes crc (rx_input r) \<Longrightarrow> from_node (rx_input r)"
  shows "\<exists>r' nw' m' ttl' st'. masterQuickProcessPrevRx r nw m ttl st crc = Inr (r', nw', m', ttl', st') \<and>
    rx_inv r' \<and> nw_inv nw' ttl' \<and> alive ttl' = alive ttl \<and> rx_queue r' = rx_queue r \<and> quick_effect r m crc r' m' \<and>
    (\<exists>v. m' = m\<lparr>rxSeqNum := v\<rparr> \<and> length v = MAX_NODES)"
proof -
  let ?rpm = "rxPacketManager r" and ?n = "nextRxPacketEntry r" and ?p = "rx_input r"
  let ?r1 = "r\<lparr>prevRxPacketEntry := Some ?n, validRxPacket := False\<rparr>"
  note hold = rx_inv_idle [OF inv idle]
  note e = hold_entry [OF hold rx_holdD(2) [OF hold], folded rx_input_def]
  have inv1: "rx_inv ?r1" "rx_queue ?r1 = rx_queue r"
    using hold by (simp_all add: rx_inv_def rx_prev_def rx_queue_def)
  have same: "m = m\<lparr>rxSeqNum := rxSeqNum m\<rparr>" by simp
  have drop: "?thesis" if "masterQuickProcessPrevRx r nw m ttl st crc = Inr (?r1, nw', m, ttl', st')"
    "nw_inv nw' ttl'" "alive ttl' = alive ttl" "\<not> (passes crc ?p \<and> rx_room ?rpm)" for nw' ttl' st'
  proof -
    have "quick_effect r m crc ?r1 m" using that(4) by (simp add: quick_effect_def)
    moreover have "\<exists>v. m = m\<lparr>rxSeqNum := v\<rparr> \<and> length v = MAX_NODES" using same tx(2) by blast
    ultimately show ?thesis using that inv1 by blast
  qed
  show ?thesis
  proof (cases "passes crc ?p")
    case False
    then have "\<exists>st'. masterQuickProcessPrevRx r nw m ttl st crc = Inr (?r1, nw, m, ttl, st')"
      by (auto simp: passes_def masterQuickProcessPrevRx_def e Let_def not_less)
    then show ?thesis using drop nw False by blast
  next
    case True
    let ?src = "node_srcNodeId ?p" and ?t = "GET_PACKET_TYPE ?p"
    let ?heard = "if ?t = packet_code NODE_DATA_PACKET \<or> ?t = packet_code NODE_EMPTY_PACKET
      then and_then (rd ttl (unat ?src)) (\<lambda>t. if t > 0 then networkManagerRecordRxPacket nw ttl ?src else Inr (nw, ttl))
      else Inr (nw, ttl)"
    have from': "from_node ?p" using ok True .
    obtain nw' ttl' where heard: "?heard = Inr (nw', ttl')" "nw_inv nw' ttl'" "alive ttl' = alive ttl"
      using heard_source [OF nw from'] by blast
    show ?thesis
    proof (cases "findFreeRxPacket ?rpm = Inr (None, ?rpm)")
      case None: True
      then have "masterQuickProcessPrevRx r nw m ttl st crc =
          Inr (?r1, nw', m, ttl', st\<lparr>st_rxValid := st_rxValid st + 1, st_rxBufferFull := st_rxBufferFull st + 1\<rparr>)"
        using True heard(1)
        by (simp add: masterQuickProcessPrevRx_def e passes_def Let_def)
      moreover have "\<not> rx_room ?rpm" using None by (simp add: rx_room_def)
      ultimately show ?thesis using drop heard(2,3) by blast
    next
      case False
      then obtain i rpm where f: "findFreeRxPacket ?rpm = Inr (Some i, rpm)" "rx_hold rpm i (Some ?n)"
        "rx_contents rpm = rx_contents ?rpm" "rx_packet rpm = rx_packet ?rpm"
        using hold_fetch [OF hold] by blast
      let ?r2 = "\<lambda>b. r\<lparr>prevRxPacketEntry := Some ?n, rxPacketManager := rpm, nextRxPacketEntry := i,
        validRxPacket := True, validRxSeqNum := b\<rparr>"
      let ?st = "st\<lparr>st_rxValid := st_rxValid st + 1\<rparr>"
      have input: "rx_packet rpm ?n = ?p" using f(4) by (simp add: rx_input_def)
      have room: "rx_room ?rpm" using f(1) by (simp add: rx_room_def)
      have kept: "rx_inv (?r2 b)" for b using f(2) from' input by (simp add: rx_inv_def rx_prev_def)
      have fin: "?thesis" if "masterQuickProcessPrevRx r nw m ttl st crc = Inr (?r2 b, nw', m', ttl', ?st)"
        "if ?t = packet_code NODE_DATA_PACKET then rxPacketCheckAndUpdateSeqNum m ?src (txSeqNum ?p) = Inr (b, m')
         else m' = m" "\<exists>v. m' = m\<lparr>rxSeqNum := v\<rparr> \<and> length v = MAX_NODES" for b m'
      proof -
        have "quick_effect r m crc (?r2 b) m'" using that(2) True input room by (simp add: quick_effect_def)
        moreover have "rx_queue (?r2 b) = rx_queue r" using f(3) by (simp add: rx_queue_def)
        ultimately show ?thesis using that(1,3) kept [of b] heard(2,3) by blast
      qed
      show ?thesis
      proof (cases "?t = packet_code NODE_DATA_PACKET")
        case data: True
        then have "unat ?src < length (rxSeqNum m)" using from' tx(2) by (auto simp: from_node_def node_id_def)
        then obtain b v where c: "rxPacketCheckAndUpdateSeqNum m ?src (txSeqNum ?p)
            = Inr (b, m\<lparr>rxSeqNum := (rxSeqNum m)[unat ?src := v]\<rparr>)" using check_spec by blast
        show ?thesis
          by (rule fin [of b "m\<lparr>rxSeqNum := (rxSeqNum m)[unat ?src := v]\<rparr>"])
            (use True f(1) heard(1) data c tx(2) in
              \<open>auto simp: masterQuickProcessPrevRx_def e passes_def Let_def\<close>)
      next
        case data: False
        have "masterQuickProcessPrevRx r nw m ttl st crc = Inr (?r2 (validRxSeqNum r), nw', m, ttl', ?st)"
          using True f(1) heard(1) data by (simp add: masterQuickProcessPrevRx_def e passes_def Let_def)
        moreover have "\<exists>v. m = m\<lparr>rxSeqNum := v\<rparr> \<and> length v = MAX_NODES" using same tx(2) by blast
        ultimately show ?thesis using fin [of "validRxSeqNum r" m] data by presburger
      qed
    qed
  qed
qed

section \<open>Processing\<close>

definition levels_cover :: "tSchedulerState \<Rightarrow> bool" where
  "levels_cover s \<longleftrightarrow> (\<forall>x\<in>set (queue_ids (nodeTxNodes s)). nodeTxBufferLevel s ! unat x \<noteq> 0)"

lemma level_above_zero:
  assumes inv: "sched_inv s" and cover: "levels_cover s" and x: "node_id x" and level: "level > 0"
  shows "\<exists>s'. schedulerUpdateNodeTxBufferLevel s x level = Inr s' \<and> sched_inv s' \<and> levels_cover s' \<and>
    numTxNodesScheduled s' = numTxNodesScheduled s"
proof -
  let ?q = "nodeTxNodes s" and ?l = "nodeTxBufferLevel s"
  have len: "length ?l = 64" and q: "wf_queue ?q" "\<forall>y\<in>set (queue_ids ?q). node_id y"
    using inv by (simp_all add: sched_inv_def nodes_queue_def)
  have x64: "unat x < 64" using x by (simp add: node_id_def)
  have upd: "?l[unat x := level] ! unat y \<noteq> 0" if "y = x \<or> ?l ! unat y \<noteq> 0" for y
    using that level x64 len by (auto simp: nth_list_update word_gt_0)
  have fin: "?thesis" if "schedulerUpdateNodeTxBufferLevel s x level = Inr (s\<lparr>nodeTxNodes := q', nodeTxBufferLevel := ?l[unat x := level]\<rparr>)"
    "wf_queue q'" "set (queue_ids q') \<subseteq> insert x (set (queue_ids ?q))" for q'
  proof -
    let ?s = "s\<lparr>nodeTxNodes := q', nodeTxBufferLevel := ?l[unat x := level]\<rparr>"
    have "nodes_queue q'" using that(2,3) q(2) x by (auto simp: nodes_queue_def)
    then have "sched_inv ?s" using inv by (simp add: sched_inv_def)
    moreover have "levels_cover ?s" using that(3) cover upd by (force simp: levels_cover_def)
    ultimately show ?thesis using that(1) by simp
  qed
  show ?thesis
  proof (cases "?l ! unat x = 0")
    case True
    have "set (queue_ids ?q) \<subseteq> {y. node_id y}" using q(2) by auto
    from nodeq.add_never_fails [OF q(1) this node_ids_bounded, of x]
    obtain q' where q': "nodeQueueAdd ?q x = Inr (True, q')" "wf_queue q'"
      "set (queue_ids q') = insert x (set (queue_ids ?q))" by blast
    then show ?thesis
      using True level len x64 by (intro fin [of q']) (simp_all add: schedulerUpdateNodeTxBufferLevel_def)
  next
    case False
    then have "schedulerUpdateNodeTxBufferLevel s x level = Inr (s\<lparr>nodeTxNodes := ?q, nodeTxBufferLevel := ?l[unat x := level]\<rparr>)"
      using level len x64 by (auto simp: schedulerUpdateNodeTxBufferLevel_def)
    then show ?thesis using q(1) by (intro fin) auto
  qed
qed

lemma heard_inv: "sched_inv s \<Longrightarrow> sched_inv (NEW_NODE_HEARD_UPDATE_SCHEDULER s)"
  "levels_cover (NEW_NODE_HEARD_UPDATE_SCHEDULER s) = levels_cover s"
  "numTxNodesScheduled (NEW_NODE_HEARD_UPDATE_SCHEDULER s) = numTxNodesScheduled s"
  by (simp_all add: sched_inv_def NEW_NODE_HEARD_UPDATE_SCHEDULER_def levels_cover_def)

text \<open>What processing may do to the windows.\<close>

definition acks_only :: "tTxManager \<Rightarrow> tTxManager \<Rightarrow> bool" where
  "acks_only m m' \<longleftrightarrow> tx_frame m m' \<and> dst_ok m' = dst_ok m \<and>
     (\<forall>d. dst_ok m d \<longrightarrow> window_of True m' d = window_of True m d \<or>
        (\<exists>a. window_of True m' d = w_ack a (window_of True m d)))"

definition will_store :: "tMasterRx \<Rightarrow> tPacket list" where
  "will_store r = (case prevRxPacketEntry r of None \<Rightarrow> [] | Some i \<Rightarrow>
     let p = rx_packet (rxPacketManager r) i in
     if validRxPacket r \<and> GET_PACKET_TYPE p = packet_code NODE_DATA_PACKET \<and> validRxSeqNum r then [p] else [])"

lemma ack_spec:
  assumes "tx_inv True m" and "length (txSeqNumStart m) = MAX_NODES" and "node_id src"
  shows "\<exists>n w m'. rxAckSeqNum m src a True st = Inr (n, w, m') \<and> tx_inv True m' \<and> acks_only m m'"
proof -
  have "dst_ok m src" using assms(2,3) by (simp add: dst_ok_def node_id_def)
  from rxAck_spec [OF assms(1) this, of a st] show ?thesis
    by (fastforce simp: acks_only_def only_at_def)
qed

lemma acks_only_refl: "acks_only m m"
  by (simp add: acks_only_def tx_frame_def)

lemma process_spec:
  assumes inv: "rx_inv r" and nw: "nw_inv nw ttl" and s: "sched_inv s" "levels_cover s"
    and tx: "tx_inv True m" "length (txSeqNumStart m) = MAX_NODES"
  shows "\<exists>n r' nw' s' m' ttl' st'. masterProcessRx r nw s m ttl st = Inr (n, r', nw', s', m', ttl', st') \<and>
    rx_inv r' \<and> \<not> validRxPacket r' \<and> rx_queue r' = rx_queue r @ will_store r \<and> nw_inv nw' ttl' \<and>
    sched_inv s' \<and> levels_cover s' \<and> numTxNodesScheduled s' = numTxNodesScheduled s \<and>
    tx_inv True m' \<and> acks_only m m'"
proof (cases "validRxPacket r")
  case False
  then have "masterProcessRx r nw s m ttl st = Inr (0, r, nw, s, m, ttl, st)" by (simp add: masterProcessRx_def)
  moreover have "will_store r = []" using False by (simp add: will_store_def split: option.split)
  ultimately show ?thesis using assms False acks_only_refl by simp
next
  case v: True
  let ?rpm = "rxPacketManager r"
  obtain i where i: "prevRxPacketEntry r = Some i" "i < rx_max ?rpm" "from_node (rx_packet ?rpm i)"
    and hold: "rx_hold ?rpm (nextRxPacketEntry r) (Some i)" using rx_inv_busy [OF inv v] by metis
  let ?p = "rx_packet ?rpm i"
  let ?t = "GET_PACKET_TYPE ?p" and ?src = "node_srcNodeId ?p" and ?a = "node_ackSeqNum ?p"
  let ?st = "st\<lparr>st_rxPacketEntries := st_rxPacketEntries st + 1\<rparr>"
  note e = hold_entry [OF hold i(2)]
  note start = masterProcessRx_def v i(1) e Let_def
  have idle: "rx_inv (r\<lparr>rxPacketManager := q, validRxPacket := False, validRxSeqNum := False\<rparr>)"
    if "rx_hold q (nextRxPacketEntry r) None" for q using that by (simp add: rx_inv_def rx_prev_def)
  obtain rpmF where F: "set_rx_inUse i False ?rpm = Inr rpmF"
    "rx_inv (r\<lparr>rxPacketManager := rpmF, validRxPacket := False, validRxSeqNum := False\<rparr>)" "rx_contents rpmF = rx_queue r"
    using hold_discard [OF hold] idle by (auto simp: rx_queue_def)
  obtain rpmS where S: "addRxDataPacket ?rpm i = Inr rpmS"
    "rx_inv (r\<lparr>rxPacketManager := rpmS, validRxPacket := False, validRxSeqNum := False\<rparr>)" "rx_contents rpmS = rx_queue r @ [?p]"
    using hold_store [OF hold] idle by (auto simp: rx_queue_def)
  have queue: "rx_queue (r\<lparr>rxPacketManager := q, validRxPacket := False, validRxSeqNum := False\<rparr>) = rx_contents q" for q
    by (simp add: rx_queue_def)
  have discard: "?thesis"
    if "masterProcessRx r nw s m ttl st =
        Inr (n, r\<lparr>rxPacketManager := rpmF, validRxPacket := False, validRxSeqNum := False\<rparr>, nw', s', m', ttl', st')"
      "will_store r = []" "nw_inv nw' ttl'" "sched_inv s'" "levels_cover s'"
      "numTxNodesScheduled s' = numTxNodesScheduled s" "tx_inv True m'" "acks_only m m'" for n nw' s' m' ttl' st'
    using that F queue by simp
  show ?thesis
  proof (cases "?t \<in> {packet_code NODE_DATA_PACKET, packet_code NODE_EMPTY_PACKET}")
    case True
    then have src: "node_id ?src" using i(3) by (auto simp: from_node_def)
    obtain n w m' where ack: "rxAckSeqNum m ?src ?a True (st_txWindowRestarts st) = Inr (n, w, m')" "tx_inv True m'"
      "acks_only m m'" using ack_spec [OF tx src] by blast
    show ?thesis
    proof (cases "?t = packet_code NODE_DATA_PACKET \<and> validRxSeqNum r")
      case False
      then have "will_store r = []" using i(1) by (auto simp: will_store_def Let_def)
      moreover have "masterProcessRx r nw s m ttl st =
          Inr (n, r\<lparr>rxPacketManager := rpmF, validRxPacket := False, validRxSeqNum := False\<rparr>, nw, s, m', ttl,
            ?st\<lparr>st_txWindowRestarts := w\<rparr>)"
        using True False ack(1) F(1) by (auto simp: start)
      ultimately show ?thesis using discard nw s ack(2,3) by blast
    next
      case data: True
      then have ok: "dataSize1 ?p > 0 \<or> dataSize2 ?p > 0" "node_bufferLevel ?p > 0" using i(3) by (auto simp: from_node_def)
      obtain s' where s': "schedulerUpdateNodeTxBufferLevel s ?src (node_bufferLevel ?p) = Inr s'" "sched_inv s'"
        "levels_cover s'" "numTxNodesScheduled s' = numTxNodesScheduled s"
        using level_above_zero [OF s src ok(2)] by blast
      have "masterProcessRx r nw s m ttl st =
          Inr (n, r\<lparr>rxPacketManager := rpmS, validRxPacket := False, validRxSeqNum := False\<rparr>, nw, s', m', ttl,
            ?st\<lparr>st_txWindowRestarts := w, st_rxDataPackets := st_rxDataPackets st + 1\<rparr>)"
        using data ok(1) ack(1) S(1) s'(1) by (simp add: start)
      moreover have "will_store r = [?p]" using data v i(1) by (simp add: will_store_def Let_def)
      ultimately show ?thesis using S(2,3) queue nw s'(2-4) ack(2,3) by simp
    qed
  next
    case other: False
    then have none: "will_store r = []" using i(1) by (auto simp: will_store_def Let_def)
    show ?thesis
    proof (cases "?t = packet_code NEW_NODE_REQUEST_PACKET")
      case True
      have u: "dataSize2 ?p = 9" "bytes_u64 (take 8 (udata ?p)) \<noteq> 0" using True i(3) by (auto simp: from_node_def)
      have "length (udata ?p) = 178" using rx_holdD(4) [OF hold i(2)] by (simp add: wf_packet_def)
      then obtain nw' ttl' c where reg: "rxNewNodePacketRequest nw ttl ?p (st_networkFullCount st) = Inr (nw', ttl', c)"
        "nw_inv nw' ttl'"
        using register_spec [OF nw u(2), of "st_networkFullCount st"] u(1)
        by (auto simp: rxNewNodePacketRequest_def rd_bytes_def)
      have "masterProcessRx r nw s m ttl st =
          Inr (0, r\<lparr>rxPacketManager := rpmF, validRxPacket := False, validRxSeqNum := False\<rparr>, nw',
            NEW_NODE_HEARD_UPDATE_SCHEDULER s, m, ttl',
            ?st\<lparr>st_networkFullCount := c, st_newNodeRequestRx := st_newNodeRequestRx st + 1\<rparr>)"
        using True reg(1) F(1) by (simp add: start)
      then show ?thesis using discard none reg(2) heard_inv s tx(1) acks_only_refl by blast
    next
      case False
      then have "masterProcessRx r nw s m ttl st =
          Inr (0, r\<lparr>rxPacketManager := rpmF, validRxPacket := False, validRxSeqNum := False\<rparr>, nw, s, m, ttl,
            ?st\<lparr>st_rxInvalidPacketType := st_rxInvalidPacketType st + 1\<rparr>)"
        using other F(1) by (auto simp: start)
      then show ?thesis using discard none nw s tx(1) acks_only_refl by blast
    qed
  qed
qed

lemma rx_init_inv:
  assumes "n > 2"
  shows "\<exists>r. masterRxInit n = Inr r \<and> rx_inv r \<and> \<not> validRxPacket r \<and> rx_queue r = []"
proof -
  obtain i rpm where "findFreeRxPacket (rxManagerInit n zero_rpm) = Inr (Some i, rpm)" "rx_hold rpm i None" "rx_contents rpm = []"
    using hold_init [OF assms] by blast
  then show ?thesis using assms by (simp add: masterRxInit_def rx_inv_def rx_prev_def rx_queue_def)
qed

end
