(* ===== verification/Master.thy ===== *)
theory Master
  imports MasterTx MasterRx
begin

text \<open>
  The master, \<^verbatim>\<open>src/src/master.c\<close>: the slot handlers of the pipelined dual channel and of the
  single channel, the removal of timed out nodes, and the calls of the application. The three
  node queues of \<^verbatim>\<open>tMaster\<close> are each kept once, in the module that owns the pointer
  (\<open>activeNodes\<close> in the network manager, \<open>activeTxNodes\<close> in the transmit manager,
  \<open>nodeTxNodes\<close> in the scheduler).
\<close>

section \<open>The code\<close>

record tMaster =
  scheduler :: tSchedulerState
  nwManager :: tNetworkManager
  rx :: tMasterRx
  tx :: tMasterTx
  stats :: tNodeStats
  currentTxNodeId :: u8
  nextTxNodeId :: "u8 list"
  masterNodeTimeToLive :: "u8 list"

definition masterUpdateSchedule :: "tMaster \<Rightarrow> tMaster res" where
  "masterUpdateSchedule m =
     (if masterResetCycles (tx m) > 0 then
        and_then (for_each (\<lambda>i ids. wr ids i MASTER_NODE_ID)
          [1..<unat (numTxNodesScheduled (scheduler m)) + 1] (nextTxNodeId m)) (\<lambda>ids.
        Inr (m\<lparr>currentTxNodeId := MASTER_NODE_ID, nextTxNodeId := ids\<rparr>))
      else
        and_then (rd (nextTxNodeId m) 0) (\<lambda>current.
        and_then (tx_queue (txManager (tx m))) (\<lambda>q.
        and_then (schedulerUpdateAndCalcNextTxNodes (scheduler m) (activeNodes (nwManager m)) q
            (nextTxNodeId m) (getNumAllBufferedTxPackets (txManager (tx m)))) (\<lambda>(ids, s, a, q').
        Inr (m\<lparr>currentTxNodeId := current, nextTxNodeId := ids, scheduler := s,
          nwManager := (nwManager m)\<lparr>activeNodes := a\<rparr>,
          tx := (tx m)\<lparr>txManager := (txManager (tx m))\<lparr>activeTxNodes := Some q'\<rparr>\<rparr>\<rparr>)))))"

text \<open>The body of the loop of \<open>masterRemoveAnyTimeoutNodes\<close> for one node.\<close>

definition removeIfTimedOut :: "nat \<Rightarrow> u8 \<times> tMaster \<Rightarrow> (u8 \<times> tMaster) res" where
  "removeIfTimedOut i = (\<lambda>(numTxPacketsFreed, m).
     and_then (rd (masterNodeTimeToLive m) i) (\<lambda>t.
     if t = REMOVE_NODE_TTL then
       let nodeId = of_nat i in
       and_then (networkManagerRemoveNewNodeRequest (nwManager m) nodeId) (\<lambda>(_, nw).
       and_then (nodeQueueRemoveIfExists (activeNodes nw) nodeId) (\<lambda>a.
       and_then (nodeQueueRemoveIfExists (nodeTxNodes (scheduler m)) nodeId) (\<lambda>q.
       and_then (masterTxManagerRemoveNode (txManager (tx m)) nodeId numTxPacketsFreed) (\<lambda>(n, txm).
       and_then (rxManagerRemoveAllPackets (rxPacketManager (rx m)) nodeId) (\<lambda>rpm.
         Inr (n, m\<lparr>masterNodeTimeToLive := (masterNodeTimeToLive m)[i := 0],
           nwManager := nw\<lparr>activeNodes := a\<rparr>, scheduler := (scheduler m)\<lparr>nodeTxNodes := q\<rparr>,
           tx := (tx m)\<lparr>txManager := txm\<rparr>, rx := (rx m)\<lparr>rxPacketManager := rpm\<rparr>\<rparr>))))))
     else Inr (numTxPacketsFreed, m)))"

definition masterRemoveAnyTimeoutNodes :: "tMaster \<Rightarrow> (u8 \<times> tMaster) res" where
  "masterRemoveAnyTimeoutNodes m = for_each removeIfTimedOut [FIRST_NODE_ID..<MAX_NODES] (0, m)"

subsection \<open>The calls into the receive and transmit sides\<close>

definition quickProcessPrevRx :: "bool \<Rightarrow> tMaster \<Rightarrow> tMaster res" where
  "quickProcessPrevRx crcError m =
     and_then (masterQuickProcessPrevRx (rx m) (nwManager m) (txManager (tx m)) (masterNodeTimeToLive m)
       (stats m) crcError) (\<lambda>(r, nw, txm, ttl, st).
     Inr (m\<lparr>rx := r, nwManager := nw, tx := (tx m)\<lparr>txManager := txm\<rparr>, masterNodeTimeToLive := ttl, stats := st\<rparr>))"

definition processRx :: "tMaster \<Rightarrow> (u8 \<times> tMaster) res" where
  "processRx m =
     and_then (masterProcessRx (rx m) (nwManager m) (scheduler m) (txManager (tx m)) (masterNodeTimeToLive m)
       (stats m)) (\<lambda>(n, r, nw, s, txm, ttl, st).
     Inr (n, m\<lparr>rx := r, nwManager := nw, scheduler := s, tx := (tx m)\<lparr>txManager := txm\<rparr>,
       masterNodeTimeToLive := ttl, stats := st\<rparr>))"

definition quickUpdateTx :: "(nat \<Rightarrow> u8) \<Rightarrow> tMaster \<Rightarrow> tMaster res" where
  "quickUpdateTx beyond m =
     and_then (masterQuickUpdateTxPacket beyond (tx m) (scheduler m) (nextTxNodeId m) (stats m)) (\<lambda>(t, st).
     Inr (m\<lparr>tx := t, stats := st\<rparr>))"

definition processTx :: "tMaster \<Rightarrow> tMaster res" where
  "processTx m =
     and_then (masterProcessTx (tx m) (nwManager m) (stats m)) (\<lambda>(t, st). Inr (m\<lparr>tx := t, stats := st\<rparr>))"

subsection \<open>Dual channel, pipelined\<close>

definition masterDualChannelPipelinedPreProcess ::
    "(nat \<Rightarrow> u8) \<Rightarrow> tMaster \<Rightarrow> bool \<Rightarrow> (tTxPtr option \<times> nat \<times> tMaster) res" where
  "masterDualChannelPipelinedPreProcess beyond m crcError =
     and_then (masterUpdateSchedule m) (\<lambda>m1.
     and_then (quickProcessPrevRx crcError m1) (\<lambda>m2.
     and_then (quickUpdateTx beyond m2) (\<lambda>m3.
       Inr (masterTxGetNextTxPacket (tx m3), masterRxGetNextPacketMemory (rx m3), m3))))"

definition masterDualChannelPipelinedPostProcess :: "tMaster \<Rightarrow> (u8 \<times> tMaster) res" where
  "masterDualChannelPipelinedPostProcess m =
     and_then (processRx m) (\<lambda>(numTxFreed, m1).
     and_then (processTx m1) (\<lambda>m2.
     and_then (masterRemoveAnyTimeoutNodes m2) (\<lambda>(n, m3). Inr (numTxFreed + n, m3))))"

subsection \<open>Single channel, no pipeline\<close>

definition masterGetRxPacketMemory :: "tMaster \<Rightarrow> nat" where
  "masterGetRxPacketMemory m = masterRxGetNextPacketMemory (rx m)"

definition masterNoDelaySingleChannelProcessRx :: "tMaster \<Rightarrow> bool \<Rightarrow> (u8 \<times> tMaster) res" where
  "masterNoDelaySingleChannelProcessRx m crcError =
     and_then (masterUpdateSchedule m) (\<lambda>m1. and_then (quickProcessPrevRx crcError m1) processRx)"

definition masterNoDelaySingleChannelProcessTx ::
    "(nat \<Rightarrow> u8) \<Rightarrow> tMaster \<Rightarrow> (tTxPtr option \<times> u8 \<times> tMaster) res" where
  "masterNoDelaySingleChannelProcessTx beyond m =
     and_then (processTx m) (\<lambda>m1.
     and_then (masterUpdateSchedule m1) (\<lambda>m2.
     and_then (quickUpdateTx beyond m2) (\<lambda>m3.
     and_then (masterRemoveAnyTimeoutNodes m3) (\<lambda>(n, m4). Inr (masterTxGetNextTxPacket (tx m3), n, m4)))))"

subsection \<open>Timer and application\<close>

definition masterUpdateTimeUs :: "tMaster \<Rightarrow> u32 \<Rightarrow> tMaster res" where
  "masterUpdateTimeUs m usIncr =
     and_then (networkManagerUpdateTimeUs (nwManager m) (masterNodeTimeToLive m) usIncr) (\<lambda>(nw, ttl).
     Inr (m\<lparr>nwManager := nw, masterNodeTimeToLive := ttl\<rparr>))"

definition masterInit :: "u8 \<Rightarrow> u8 \<Rightarrow> tPacketEntry list \<Rightarrow> u8 \<Rightarrow> tMaster res" where
  "masterInit numTx maxTxPacketEntries txPacketEntries maxRxEntries =
     and_then (masterRxInit maxRxEntries) (\<lambda>r.
     Inr \<lparr>scheduler = schedulerInit zero_queue numTx 80, nwManager = networkManagerInit zero_queue,
       rx = r, tx = (masterTxInit zero_queue maxTxPacketEntries txPacketEntries)\<lparr>masterResetCycles := 20\<rparr>,
       stats = zero_stats, currentTxNodeId = 0, nextTxNodeId = replicate (MAX_TX_NODES_SCHEDULED + 2) 0,
       masterNodeTimeToLive = replicate MAX_NODES 0\<rparr>)"

text \<open>Bit \<open>7 - node mod 8\<close> of byte \<open>node div 8\<close>.\<close>

definition set_node_bit :: "nat \<Rightarrow> u8 list \<Rightarrow> u8 list res" where
  "set_node_bit node bits =
     and_then (rd bits (node div 8)) (\<lambda>b. wr bits (node div 8) (b OR push_bit (7 - node mod 8) 1))"

definition clear_node_bit :: "nat \<Rightarrow> u8 list \<Rightarrow> u8 list res" where
  "clear_node_bit node bits =
     and_then (rd bits (node div 8)) (\<lambda>b. wr bits (node div 8) (b AND NOT (push_bit (7 - node mod 8) 1)))"

definition getConnectedNodesBitField :: "tMaster \<Rightarrow> u8 list \<Rightarrow> (u8 list \<times> tMaster) res" where
  "getConnectedNodesBitField m bits =
     and_then (wr (masterNodeTimeToLive m) 0 1) (\<lambda>ttl.
     and_then (for_each (\<lambda>node b. and_then (rd ttl node) (\<lambda>t. if t > 0 then set_node_bit node b else Inr b))
       [0..<MAX_NODES] bits) (\<lambda>bits1.
     and_then (for_each (\<lambda>i b. and_then (rd (newNodeId (nwManager m)) i) (\<lambda>node.
         and_then (microbusAssert (node \<noteq> 0)) (\<lambda>_. clear_node_bit (unat node) b)))
       [0..<unat (numNewNodes (nwManager m))] bits1) (\<lambda>bits2.
       Inr (bits2, m\<lparr>masterNodeTimeToLive := ttl\<rparr>))))"

definition masterResetTxCredits :: "tMaster \<Rightarrow> tMaster" where
  "masterResetTxCredits m = m\<lparr>tx := (tx m)\<lparr>txManager := masterTxClearBuffers (txManager (tx m))\<rparr>\<rparr>"

text \<open>The size, the source and the entry whose payload is returned.\<close>

definition masterPeekNextRxDataPacket :: "tMaster \<Rightarrow> ((u16 \<times> u8 \<times> nat) option \<times> tMaster) res" where
  "masterPeekNextRxDataPacket m =
     and_then (peekNextRxDataPacket (rxPacketManager (rx m))) (\<lambda>(r, rpm).
     let m1 = m\<lparr>rx := (rx m)\<lparr>rxPacketManager := rpm\<rparr>\<rparr> in
     case r of
       None \<Rightarrow> Inr (None, m1)
     | Some i \<Rightarrow> and_then (rd (rxPacketEntries rpm) i) (\<lambda>e.
         Inr (Some (GET_PACKET_DATA_SIZE (packet e), node_srcNodeId (packet e), i), m1)))"

definition masterPopNextDataPacket :: "tMaster \<Rightarrow> tMaster res" where
  "masterPopNextDataPacket m =
     and_then (popNextDataPacket (rxPacketManager (rx m))) (\<lambda>rpm. Inr (m\<lparr>rx := (rx m)\<lparr>rxPacketManager := rpm\<rparr>\<rparr>))"

definition masterAllocateTxPacket :: "tMaster \<Rightarrow> (nat option \<times> tMaster) res" where
  "masterAllocateTxPacket m =
     and_then (allocateTxPacket (txManager (tx m))) (\<lambda>(r, txm).
     let m1 = m\<lparr>tx := (tx m)\<lparr>txManager := txm\<rparr>\<rparr> in
     case r of
       None \<Rightarrow> Inr (None, m1\<lparr>stats := (stats m1)\<lparr>st_txBufferFull := st_txBufferFull (stats m1) + 1\<rparr>\<rparr>)
     | Some i \<Rightarrow> Inr (Some i, m1))"

definition masterSubmitAllocatedTxPacket :: "tMaster \<Rightarrow> u8 \<Rightarrow> u16 \<Rightarrow> tMaster res" where
  "masterSubmitAllocatedTxPacket m dstNodeId numBytes =
     and_then (microbusAssert (unat numBytes \<le> MASTER_PACKET_DATA_SIZE)) (\<lambda>_.
     and_then (microbusAssert (allocatedPacket (txManager (tx m)) \<noteq> None)) (\<lambda>_.
     and_then (rd (masterNodeTimeToLive m) (unat dstNodeId)) (\<lambda>t.
     and_then (submitAllocatedTxPacket (txManager (tx m)) True t t MASTER_NODE_ID dstNodeId
         MASTER_DATA_PACKET numBytes) (\<lambda>txm.
       Inr (m\<lparr>tx := (tx m)\<lparr>txManager := txm\<rparr>\<rparr>)))))"

end
