(* ===== verification/MasterProps.thy ===== *)
theory MasterProps
  imports Master
begin

text \<open>
  The properties of the master: no sequence of its calls fails while the nodes' packets are
  well-formed, except for the one loop of the receive buffer that does not end, and whatever it
  sends is a packet that the nodes can take.
\<close>

section \<open>Invariant\<close>

definition master_ok ::
    "tMasterRx \<Rightarrow> tMasterTx \<Rightarrow> tNetworkManager \<Rightarrow> u8 list \<Rightarrow> tSchedulerState \<Rightarrow> u8 list \<Rightarrow> bool" where
  "master_ok r t nw ttl s ids \<longleftrightarrow> rx_inv r \<and> mtx_inv t \<and> nw_inv nw ttl \<and> sched_inv s \<and> levels_cover s \<and>
     1 \<le> unat (numTxNodesScheduled s) \<and> unat (numTxNodesScheduled s) \<le> MAX_TX_NODES_SCHEDULED \<and>
     length ids = MAX_TX_NODES_SCHEDULED + 2"

definition master_inv :: "tMaster \<Rightarrow> bool" where
  "master_inv m \<longleftrightarrow> master_ok (rx m) (tx m) (nwManager m) (masterNodeTimeToLive m) (scheduler m) (nextTxNodeId m)"

lemma master_invD:
  assumes "master_inv m"
  shows "rx_inv (rx m)" "mtx_inv (tx m)" "nw_inv (nwManager m) (masterNodeTimeToLive m)" "sched_inv (scheduler m)"
    "levels_cover (scheduler m)" "1 \<le> unat (numTxNodesScheduled (scheduler m))"
    "unat (numTxNodesScheduled (scheduler m)) \<le> 4" "length (nextTxNodeId m) = 6" "length (masterNodeTimeToLive m) = 64"
    "nodes_queue (activeNodes (nwManager m))"
  using assms by (auto simp: master_inv_def master_ok_def nw_inv_def nw_shape_def nodes_queue_def alive_def)

definition no_node_gone :: "tMaster \<Rightarrow> bool" where
  "no_node_gone m \<longleftrightarrow> REMOVE_NODE_TTL \<notin> set (masterNodeTimeToLive m)"

lemma master_init:
  assumes "maxRx > 2" and "1 \<le> unat n" and "unat n \<le> 4" and "length ps = unat k" and "unat k < 255"
    and "\<forall>e\<in>set ps. wf_packet (packet e)"
  shows "\<exists>m. masterInit n k ps maxRx = Inr m \<and> master_inv m \<and> \<not> validRxPacket (rx m) \<and>
    allocatedPacket (txManager (tx m)) = None \<and> scheduler m = schedulerInit zero_queue n 80 \<and>
    masterResetCycles (tx m) = 20 \<and> nextTxNodeId m = replicate 6 0"
proof -
  obtain r where r: "masterRxInit maxRx = Inr r" "rx_inv r" "\<not> validRxPacket r" using rx_init_inv [OF assms(1)] by blast
  have "nodes_queue zero_queue" by (simp add: nodes_queue_def)
  then have s: "sched_inv (schedulerInit zero_queue n 80)" by (rule sched_init_inv) simp_all
  have "levels_cover (schedulerInit zero_queue n 80)" "numTxNodesScheduled (schedulerInit zero_queue n 80) = n"
    by (simp_all add: levels_cover_def schedulerInit_def)
  moreover have "mtx_inv ((masterTxInit zero_queue k ps)\<lparr>masterResetCycles := 20\<rparr>)" by (rule mtx_init_inv [OF assms(4-6)])
  moreover have "nw_inv (networkManagerInit zero_queue) (replicate 64 0)" using init_nw_inv by simp
  moreover have "allocatedPacket (txManager (masterTxInit zero_queue k ps)) = None" by (simp add: masterTxInit_def initTxManager_def)
  ultimately show ?thesis
    using r s assms(2,3) by (simp add: masterInit_def master_inv_def master_ok_def)
qed

section \<open>Changing the transmit manager\<close>

lemma mtx_change:
  assumes inv: "mtx_inv t" and m: "tx_inv True m" "dst_ok m = dst_ok (txManager t)" "all_small m"
    and ptr: "\<And>q p. tx_deref (tx_memory_of t) q = Inr p \<Longrightarrow> sendable q p \<Longrightarrow>
      \<exists>p'. tx_deref (m, tmpEmptyPacketHeader t, tmpPacket t) q = Inr p' \<and> sendable q p'"
  shows "mtx_inv (t\<lparr>txManager := m\<rparr>)"
proof -
  note i = mtx_invD [OF inv]
  have "length (txSeqNumStart m) = 64" using length_of_dst_ok [OF m(2) _ m(1)] i(2) by simp
  then show ?thesis using i m ptr by (fastforce simp: mtx_inv_def ptr_ok_def tx_memory_of_def)
qed

lemma mtx_same_packets:
  assumes inv: "mtx_inv t" and m: "tx_inv True m" "dst_ok m = dst_ok (txManager t)" "packets m = packets (txManager t)"
    and sub: "\<And>d. dst_ok m d \<Longrightarrow> set (pending True m d) \<subseteq> set (pending True (txManager t) d)"
  shows "mtx_inv (t\<lparr>txManager := m\<rparr>)"
proof (rule mtx_change [OF inv m(1,2)])
  show "all_small m" using mtx_invD(3) [OF inv] sub m(2) by (auto simp: all_small_def)
  show "\<exists>p'. tx_deref (m, tmpEmptyPacketHeader t, tmpPacket t) q = Inr p' \<and> sendable q p'"
    if "tx_deref (tx_memory_of t) q = Inr p" "sendable q p" for q p
    using that deref_packets [OF m(3)] by (simp add: tx_memory_of_def)
qed

lemma mtx_rxSeqNum:
  assumes inv: "mtx_inv t" and len: "length v = MAX_NODES"
  shows "mtx_inv (t\<lparr>txManager := (txManager t)\<lparr>rxSeqNum := v\<rparr>\<rparr>)"
proof -
  note i = mtx_invD [OF inv]
  have "length v = length (rxSeqNum (txManager t))" using len tx_inv_lengths(1) [OF i(1)] i(2) by simp
  note f = rxSeqNum_frame [OF i(1) this]
  show ?thesis
    by (rule mtx_same_packets [OF inv f(1,2)]) (use f(3) in \<open>simp_all add: window_of_def fun_eq_iff\<close>)
qed

lemma mtx_queue:
  assumes inv: "mtx_inv t" and q: "activeTxNodes (txManager t) = Some q" "wf_queue q'" "queue_ids q' = queue_ids q"
  shows "mtx_inv (t\<lparr>txManager := (txManager t)\<lparr>activeTxNodes := Some q'\<rparr>\<rparr>)"
proof -
  let ?m = "txManager t" and ?m' = "(txManager t)\<lparr>activeTxNodes := Some q'\<rparr>"
  have views: "dst_ok ?m' = dst_ok ?m" "buffered ?m' = buffered ?m" "pending True ?m' = pending True ?m"
    by (rule tx_views_cong; simp)+
  have "tx_core True ?m' = tx_core True ?m" by (rule tx_core_cong) simp_all
  then have "tx_inv True ?m'" using mtx_invD(1) [OF inv] q views by (simp add: tx_inv_def tx_queued_def)
  then show ?thesis by (rule mtx_same_packets [OF inv]) (use views in simp_all)
qed

text \<open>The queue of destinations, as the scheduler and the transmit manager see it.\<close>

lemma master_tx_queue:
  assumes "mtx_inv t"
  obtains q where "tx_queue (txManager t) = Inr q" "activeTxNodes (txManager t) = Some q" "nodes_queue q"
  using mtx_invD(1) [OF assms] by (auto simp: tx_inv_def tx_queued_def tx_queue_def nodes_queue_def split: option.splits)

section \<open>The steps\<close>

lemma joining_active: "joining (nw\<lparr>activeNodes := a\<rparr>) = joining nw"
  by (simp add: joining_def)

lemma shift_nth:
  assumes "0 < n" and "n \<le> length xs" and "i < n"
  shows "(drop 1 (take n xs) @ [y] @ drop n xs) ! i = (if i + 1 < n then xs ! (i + 1) else y)"
  using assms by (auto simp: nth_append min_def)

text \<open>The owner of the slot that begins, and the slots that move up; none while resets are sent.\<close>

definition schedule_moves :: "tMaster \<Rightarrow> tMaster \<Rightarrow> bool" where
  "schedule_moves m m' \<longleftrightarrow>
     (if masterResetCycles (tx m) > 0
      then currentTxNodeId m' = MASTER_NODE_ID \<and> (\<forall>i<length (nextTxNodeId m). nextTxNodeId m' ! i \<in> {MASTER_NODE_ID, nextTxNodeId m ! i})
      else currentTxNodeId m' = nextTxNodeId m ! 0 \<and>
        (\<forall>i. i + 1 < unat (numTxNodesScheduled (scheduler m)) \<longrightarrow> nextTxNodeId m' ! i = nextTxNodeId m ! (i + 1)))"

lemma masterSchedule_inv:
  assumes inv: "master_inv m"
  shows "\<exists>m'. masterUpdateSchedule m = Inr m' \<and> master_inv m' \<and> rx m' = rx m \<and> schedule_moves m m' \<and>
    nextTxPacket (tx m') = nextTxPacket (tx m) \<and> masterResetCycles (tx m') = masterResetCycles (tx m) \<and>
    rxSeqNum (txManager (tx m')) = rxSeqNum (txManager (tx m)) \<and>
    masterNodeTimeToLive m' = masterNodeTimeToLive m \<and> numTxNodesScheduled (scheduler m') = numTxNodesScheduled (scheduler m) \<and>
    allocatedPacket (txManager (tx m')) = allocatedPacket (txManager (tx m))"
proof (cases "masterResetCycles (tx m) > 0")
  case True
  let ?n = "unat (numTxNodesScheduled (scheduler m))"
  note i = master_invD [OF inv]
  have "\<exists>ids'. for_each (\<lambda>i ids. wr ids i (0 :: u8)) [1..<k] ids = Inr ids' \<and> length ids' = length ids \<and> (\<forall>i<length ids. ids' ! i \<in> {0, ids ! i})"
    if "k \<le> length ids" for k and ids :: "u8 list"
    using that
  proof (induction k)
    case (Suc k)
    show ?case
    proof (cases "k = 0")
      case False
      then obtain ids' where "for_each (\<lambda>i ids. wr ids i (0 :: u8)) [1..<k] ids = Inr ids'" "length ids' = length ids"
        "\<forall>i<length ids. ids' ! i \<in> {0, ids ! i}" using Suc by auto
      then show ?thesis using False Suc.prems by (auto simp: for_each_append nth_list_update)
    qed simp
  qed simp
  from this [of "?n + 1" "nextTxNodeId m"] obtain ids' where
    "for_each (\<lambda>i ids. wr ids i (0 :: u8)) [1..<?n + 1] (nextTxNodeId m) = Inr ids'" "length ids' = 6"
    "\<forall>i<6. ids' ! i \<in> {0, nextTxNodeId m ! i}" using i(7,8) by auto
  then show ?thesis using True inv i(8) by (simp add: masterUpdateSchedule_def master_inv_def master_ok_def schedule_moves_def)
next
  case False
  note i = master_invD [OF inv]
  obtain q where q: "tx_queue (txManager (tx m)) = Inr q" "activeTxNodes (txManager (tx m)) = Some q" "nodes_queue q"
    using master_tx_queue [OF i(2)] .
  have n: "0 < unat (numTxNodesScheduled (scheduler m))" "unat (numTxNodesScheduled (scheduler m)) \<le> length (nextTxNodeId m)"
    using i(6-8) by simp_all
  from update_spec [OF i(4,10) q(3) refl n, of "getNumAllBufferedTxPackets (txManager (tx m))"]
  obtain node s' a' t' where u: "schedulerUpdateAndCalcNextTxNodes (scheduler m) (activeNodes (nwManager m)) q (nextTxNodeId m)
      (getNumAllBufferedTxPackets (txManager (tx m))) = Inr (drop 1 (take (unat (numTxNodesScheduled (scheduler m))) (nextTxNodeId m))
        @ [node] @ drop (unat (numTxNodesScheduled (scheduler m))) (nextTxNodeId m), s', a', t')"
    "sched_inv s'" "nodes_queue a'" "queue_ids a' = queue_ids (activeNodes (nwManager m))" "nodes_queue t'" "queue_ids t' = queue_ids q"
    "queue_ids (nodeTxNodes s') = queue_ids (nodeTxNodes (scheduler m))" "nodeTxBufferLevel s' = nodeTxBufferLevel (scheduler m)"
    "numTxNodesScheduled s' = numTxNodesScheduled (scheduler m)" by blast
  have "mtx_inv ((tx m)\<lparr>txManager := (txManager (tx m))\<lparr>activeTxNodes := Some t'\<rparr>\<rparr>)"
    by (rule mtx_queue [OF i(2) q(2)]) (use u in \<open>simp_all add: nodes_queue_def\<close>)
  moreover have "nw_inv ((nwManager m)\<lparr>activeNodes := a'\<rparr>) (masterNodeTimeToLive m)"
    using i(3) u(3,4) by (simp add: nw_inv_def nw_shape_def joining_active nodes_queue_def)
  moreover have "levels_cover s'" using i(5) u(7,8) by (simp add: levels_cover_def)
  ultimately show ?thesis
    using False q(1) u i n
    using shift_nth [OF n, where y = node]
    by (simp add: masterUpdateSchedule_def master_inv_def master_ok_def schedule_moves_def)
qed

text \<open>The packet the hardware has received.\<close>

definition master_input :: "tMaster \<Rightarrow> tPacket" where
  "master_input m = rx_input (rx m)"

definition master_queue :: "tMaster \<Rightarrow> tPacket list" where
  "master_queue m = rx_queue (rx m)"

text \<open>What a call that is not the start of a slot leaves alone.\<close>

definition master_calm :: "tMaster \<Rightarrow> tMaster \<Rightarrow> bool" where
  "master_calm m m' \<longleftrightarrow> master_input m' = master_input m \<and> nextTxNodeId m' = nextTxNodeId m \<and>
     numTxNodesScheduled (scheduler m') = numTxNodesScheduled (scheduler m) \<and>
     (masterResetCycles (tx m') > 0 \<longrightarrow> masterResetCycles (tx m) > 0)"

lemma master_calm_trans: "master_calm m m1 \<Longrightarrow> master_calm m1 m2 \<Longrightarrow> master_calm m m2"
  by (simp add: master_calm_def)

lemma master_calm_same:
  "rx_input (rx m') = rx_input (rx m) \<Longrightarrow> nextTxNodeId m' = nextTxNodeId m \<Longrightarrow>
   numTxNodesScheduled (scheduler m') = numTxNodesScheduled (scheduler m) \<Longrightarrow>
   masterResetCycles (tx m') = masterResetCycles (tx m) \<Longrightarrow> master_calm m m'"
  by (simp add: master_calm_def master_input_def)

lemma masterProcessRx_input:
  "all_res (\<lambda>(k, r', nw', s', m', ttl', st'). rx_input r' = rx_input r) (masterProcessRx r nw s m ttl st)"
proof -
  have bind: "all_res (\<lambda>(n, rpm, rest). rx_packet rpm = rx_packet (rxPacketManager r)) r0 \<Longrightarrow>
      (\<And>n rpm rest. rx_packet rpm = rx_packet (rxPacketManager r) \<Longrightarrow> all_res P (f (n, rpm, rest))) \<Longrightarrow>
      all_res P (and_then r0 f)" for r0 :: "(u8 \<times> tRxPacketManager \<times> 'a) res" and f :: "_ \<Rightarrow> 'b res" and P
    by (cases r0) auto
  have tail: "all_res (\<lambda>(k, r', nw', s', m', ttl', st'). rx_input r' = rx_input r)
      (and_then (if b then Inr rpm else set_rx_inUse i False rpm) (\<lambda>rpm1.
        Inr (n, r\<lparr>rxPacketManager := rpm1, validRxPacket := False, validRxSeqNum := False\<rparr>, nw1, s1, m1, ttl1, st2)))"
    if "rx_packet rpm = rx_packet (rxPacketManager r)" for b rpm i n nw1 s1 m1 ttl1 st2
    using that by (auto simp: rx_input_def in_use_packets intro!: all_res_bind split: if_split_asm)
  show ?thesis
    unfolding masterProcessRx_def Let_def
    by (rule all_res_if, simp, rule all_res_bind, rule all_res_bind, rule bind,
        (auto intro!: all_res_bind simp: add_packets) [1], simp only: split_paired_all prod.case, rule tail)
qed

lemma masterProcessTx_resets:
  "all_res (\<lambda>(t', st'). masterResetCycles t' > 0 \<longrightarrow> masterResetCycles t > 0) (masterProcessTx t nw st)"
  by (auto simp: masterProcessTx_def Let_def and_then_eq_Inr split: if_split_asm option.split_asm intro!: all_resI)

lemma quickRx_inv:
  assumes inv: "master_inv m" and idle: "\<not> validRxPacket (rx m)"
    and ok: "passes crc (master_input m) \<Longrightarrow> from_node (master_input m)"
  shows "\<exists>m'. quickProcessPrevRx crc m = Inr m' \<and> master_inv m' \<and> master_queue m' = master_queue m \<and>
    quick_effect (rx m) (txManager (tx m)) crc (rx m') (txManager (tx m')) \<and> nextTxNodeId m' = nextTxNodeId m \<and>
    numTxNodesScheduled (scheduler m') = numTxNodesScheduled (scheduler m) \<and> nextTxPacket (tx m') = nextTxPacket (tx m) \<and>
    allocatedPacket (txManager (tx m')) = allocatedPacket (txManager (tx m)) \<and> currentTxNodeId m' = currentTxNodeId m \<and>
    alive (masterNodeTimeToLive m') = alive (masterNodeTimeToLive m) \<and> masterResetCycles (tx m') = masterResetCycles (tx m)"
proof -
  note i = master_invD [OF inv]
  have tx: "tx_inv True (txManager (tx m))" "length (rxSeqNum (txManager (tx m))) = 64"
    using mtx_invD(1,2) [OF i(2)] tx_inv_lengths(1) by auto
  obtain r nw txm ttl st where q: "masterQuickProcessPrevRx (rx m) (nwManager m) (txManager (tx m)) (masterNodeTimeToLive m) (stats m) crc
      = Inr (r, nw, txm, ttl, st)" "rx_inv r" "nw_inv nw ttl" "alive ttl = alive (masterNodeTimeToLive m)" "rx_queue r = rx_queue (rx m)"
    "quick_effect (rx m) (txManager (tx m)) crc r txm" "\<exists>v. txm = (txManager (tx m))\<lparr>rxSeqNum := v\<rparr> \<and> length v = 64"
    using quick_spec [OF i(1) idle i(3) tx ok [unfolded master_input_def], where st = "stats m"] by metis
  then obtain v where v: "txm = (txManager (tx m))\<lparr>rxSeqNum := v\<rparr>" "length v = 64" by blast
  have "mtx_inv ((tx m)\<lparr>txManager := txm\<rparr>)" using mtx_rxSeqNum [OF i(2)] v by simp
  then show ?thesis
    using q i v(1) by (simp add: quickProcessPrevRx_def master_inv_def master_ok_def master_queue_def)
qed

lemma quickTx_inv:
  assumes inv: "master_inv m"
  shows "\<exists>m'. quickUpdateTx beyond m = Inr m' \<and> master_inv m' \<and> rx m' = rx m \<and> nextTxPacket (tx m') = nextTxPacket (tx m) \<and>
    masterNodeTimeToLive m' = masterNodeTimeToLive m \<and> nextTxNodeId m' = nextTxNodeId m \<and> scheduler m' = scheduler m \<and>
    currentTxNodeId m' = currentTxNodeId m \<and> masterResetCycles (tx m') = masterResetCycles (tx m) \<and>
    (\<forall>q. nextTxPacket (tx m) = Some q \<longrightarrow> (\<exists>p. tx_deref (tx_memory_of (tx m')) q = Inr p \<and> master_sends p \<and>
      schedule_of p (unat (numTxNodesScheduled (scheduler m))) =
        map (\<lambda>d. (d, rxSeqNum_at beyond (rxSeqNum (txManager (tx m))) d)) (take (unat (numTxNodesScheduled (scheduler m))) (nextTxNodeId m))))"
proof (cases "nextTxPacket (tx m)")
  case None
  then show ?thesis using inv
    by (simp add: quickUpdateTx_def masterQuickUpdateTxPacket_def master_inv_def)
next
  case (Some q)
  note i = master_invD [OF inv]
  let ?n = "unat (numTxNodesScheduled (scheduler m))"
  have n: "?n \<le> 4" "?n \<le> length (nextTxNodeId m)" using i(7,8) by simp_all
  from quickUpdate_spec [OF i(2) refl n Some, of beyond "stats m"] obtain t st p where
    u: "masterQuickUpdateTxPacket beyond (tx m) (scheduler m) (nextTxNodeId m) (stats m) = Inr (t, st)" "mtx_inv t"
    "nextTxPacket t = nextTxPacket (tx m)" "masterResetCycles t = masterResetCycles (tx m)" "tx_deref (tx_memory_of t) q = Inr p"
    "schedule_of p ?n = map (\<lambda>d. (d, rxSeqNum_at beyond (rxSeqNum (txManager (tx m))) d)) (take ?n (nextTxNodeId m))" by blast
  have "master_sends p" using mtx_invD(4) [OF u(2)] u(3,5) Some by (auto simp: ptr_ok_def sendable_def)
  then show ?thesis using u i Some by (simp add: quickUpdateTx_def master_inv_def master_ok_def)
qed

lemma masterProcessRx_packets:
  "all_res (\<lambda>(k, r', nw', s', m', ttl', st'). packets m' = packets m) (masterProcessRx r nw s m ttl st)"
proof -
  have ack: "packets m' = packets m" if "rxAckSeqNum m src a M st0 = Inr (k, w, m')" for src a M st0 k w m'
    using all_resD [OF rxAck_packets that] by (simp add: same_packets_def)
  show ?thesis
    by (auto simp: masterProcessRx_def Let_def and_then_eq_Inr split: if_split_asm prod.split_asm intro!: all_resI dest!: ack)
qed

lemma processRx_master:
  assumes inv: "master_inv m"
  shows "\<exists>k m'. processRx m = Inr (k, m') \<and> master_inv m' \<and> \<not> validRxPacket (rx m') \<and>
    master_queue m' = master_queue m @ will_store (rx m) \<and> nextTxNodeId m' = nextTxNodeId m \<and>
    numTxNodesScheduled (scheduler m') = numTxNodesScheduled (scheduler m) \<and>
    allocatedPacket (txManager (tx m')) = allocatedPacket (txManager (tx m)) \<and> rxSeqNum (txManager (tx m')) = rxSeqNum (txManager (tx m)) \<and>
    master_calm m m'"
proof -
  note i = master_invD [OF inv]
  note t = mtx_invD(1,2) [OF i(2)]
  obtain k r nw s txm ttl st where p: "masterProcessRx (rx m) (nwManager m) (scheduler m) (txManager (tx m)) (masterNodeTimeToLive m) (stats m)
      = Inr (k, r, nw, s, txm, ttl, st)" "rx_inv r" "\<not> validRxPacket r" "rx_queue r = rx_queue (rx m) @ will_store (rx m)" "nw_inv nw ttl"
    "sched_inv s" "levels_cover s" "numTxNodesScheduled s = numTxNodesScheduled (scheduler m)" "tx_inv True txm" "acks_only (txManager (tx m)) txm"
    using process_spec [OF i(1,3,4,5) t(1), of "stats m"] t(2) by auto
  have pk: "packets txm = packets (txManager (tx m))" using all_resD [OF masterProcessRx_packets p(1)] by simp
  have input: "rx_input r = rx_input (rx m)" using all_resD [OF masterProcessRx_input p(1)] by simp
  have sub: "set (w_packets (w_ack a w)) \<subseteq> set (w_packets w)" for a w by (auto simp: w_ack_def dest: in_set_dropD)
  have "set (pending True txm d) \<subseteq> set (pending True (txManager (tx m)) d)" if "dst_ok txm d" for d
  proof -
    have d: "dst_ok (txManager (tx m)) d" using p(10) that by (simp add: acks_only_def)
    with p(10) consider "window_of True txm d = window_of True (txManager (tx m)) d"
      | a where "window_of True txm d = w_ack a (window_of True (txManager (tx m)) d)" by (auto simp: acks_only_def)
    then have "set (w_packets (window_of True txm d)) \<subseteq> set (w_packets (window_of True (txManager (tx m)) d))"
      using sub by cases auto
    then show ?thesis by (simp add: window_of_def)
  qed
  moreover have "dst_ok txm = dst_ok (txManager (tx m))" using p(10) by (simp add: acks_only_def)
  ultimately have "mtx_inv ((tx m)\<lparr>txManager := txm\<rparr>)" using mtx_same_packets [OF i(2) p(9) _ pk] by blast
  then show ?thesis
    using p i input
    by (simp add: processRx_def master_inv_def master_ok_def master_queue_def acks_only_def tx_frame_def master_calm_same)
qed

lemma processTx_master:
  assumes inv: "master_inv m"
  shows "\<exists>m' q. processTx m = Inr m' \<and> master_inv m' \<and> rx m' = rx m \<and> nextTxPacket (tx m') = Some q \<and>
    masterNodeTimeToLive m' = masterNodeTimeToLive m \<and> nextTxNodeId m' = nextTxNodeId m \<and>
    allocatedPacket (txManager (tx m')) = allocatedPacket (txManager (tx m)) \<and> rxSeqNum (txManager (tx m')) = rxSeqNum (txManager (tx m)) \<and>
    master_calm m m'"
proof -
  note i = master_invD [OF inv]
  from processTx_spec [OF i(2,3), of "stats m"] show ?thesis
    using i all_resD [OF masterProcessTx_resets]
    by (fastforce simp: processTx_def master_inv_def master_ok_def tx_frame_def master_calm_def master_input_def)
qed

subsection \<open>Removing timed out nodes\<close>

lemma gone_nw:
  assumes inv: "nw_inv nw ttl" and d: "node_id d"
  shows "\<exists>nw1 a. networkManagerRemoveNewNodeRequest nw d = Inr (d \<in> snd ` set (joining nw), nw1) \<and>
    nodeQueueRemoveIfExists (activeNodes nw1) d = Inr a \<and> nw_inv (nw1\<lparr>activeNodes := a\<rparr>) (ttl[unat d := 0])"
proof -
  from remove_request_inv [OF inv, of d] obtain nw1 where r: "networkManagerRemoveNewNodeRequest nw d = Inr (d \<in> snd ` set (joining nw), nw1)"
    "nw_inv nw1 ttl" "activeNodes nw1 = activeNodes nw" "joining nw1 = filter (\<lambda>p. snd p \<noteq> d) (joining nw)" by blast
  have sh: "nw_shape nw1 ttl" using r(2) by (simp add: nw_inv_def)
  then have q: "wf_queue (activeNodes nw1)" "length ttl = 64" by (simp_all add: nw_shape_def)
  obtain a where a: "nodeQueueRemoveIfExists (activeNodes nw1) d = Inr a" "wf_queue a" "queue_ids a = remove1 d (queue_ids (activeNodes nw1))"
    using nodeQueueRemoveIfExists_spec [OF q(1)] by blast
  have d64: "unat d < 64" using d by (simp add: node_id_def)
  have alive: "alive (ttl[unat d := 0]) = alive ttl - {d}"
    using d64 q(2) by (auto simp: alive_def nth_list_update u8_eq_iff split: if_splits)
  have "set (queue_ids a) = set (queue_ids (activeNodes nw1)) - {d}" using a(3) q(1) by (simp add: wf_queue_def)
  then have "nw_inv (nw1\<lparr>activeNodes := a\<rparr>) (ttl[unat d := 0])"
    using r(2,4) a(2) alive by (auto simp: nw_inv_def nw_shape_def joining_active)
  then show ?thesis using r(1) a(1) by blast
qed

lemma gone_tx:
  assumes inv: "mtx_inv t" and d: "node_id d" and none: "allocatedPacket (txManager t) = None"
  shows "\<exists>k' m. masterTxManagerRemoveNode (txManager t) d k = Inr (k', m) \<and> mtx_inv (t\<lparr>txManager := m\<rparr>) \<and> allocatedPacket m = None"
proof -
  note i = mtx_invD [OF inv]
  have dst: "dst_ok (txManager t) d" using d i(2) by (simp add: dst_ok_def node_id_def)
  from removeNode_spec [OF i(1) dst none, of k] obtain m where
    r: "masterTxManagerRemoveNode (txManager t) d k = Inr (k + of_nat (buffered (txManager t) d), m)" "tx_inv True m"
    "allocatedPacket m = None" "only_at True (txManager t) m d" "window_of True m d = no_window" by blast
  have "packets m = packets (txManager t)" using all_resD [OF remove_packets r(1)] by (simp add: same_packets_def)
  moreover have "set (pending True m x) \<subseteq> set (pending True (txManager t) x)" if "dst_ok m x" for x
  proof (cases "x = d")
    case True
    then have "pending True m x = []" using arg_cong [OF r(5), of w_packets] by (simp add: window_of_def no_window_def)
    then show ?thesis by simp
  next
    case False
    then have "window_of True m x = window_of True (txManager t) x" using r(4) that by (simp add: only_at_def)
    then show ?thesis using arg_cong [of _ _ w_packets] by (force simp: window_of_def)
  qed
  moreover have "dst_ok m = dst_ok (txManager t)" using r(4) by (simp add: only_at_def)
  ultimately have "mtx_inv (t\<lparr>txManager := m\<rparr>)" using mtx_same_packets [OF inv r(2)] by blast
  then show ?thesis using r(1,3) by blast
qed

lemma gone_rx:
  assumes inv: "rx_inv r" and idle: "\<not> validRxPacket r"
  shows "rxManagerRemoveAllPackets (rxPacketManager r) d = Inl No_Return \<or>
    (\<exists>rpm. rxManagerRemoveAllPackets (rxPacketManager r) d = Inr rpm \<and> rx_inv (r\<lparr>rxPacketManager := rpm\<rparr>) \<and>
      rx_packet rpm = rx_packet (rxPacketManager r))"
proof -
  note hold = rx_inv_idle [OF inv idle]
  show ?thesis
  proof (cases "rx_end (rxPacketManager r) \<noteq> 0 \<or> rx_start (rxPacketManager r) = 0")
    case True
    from hold_remove [OF hold True, of d] show ?thesis using idle by (auto simp: rx_inv_def rx_prev_def rx_queue_def)
  next
    case False
    then show ?thesis using rxManagerRemoveAllPackets_hangs [OF rx_holdD(1) [OF hold]] by simp
  qed
qed

definition removal_ok :: "tMaster \<Rightarrow> bool" where
  "removal_ok m \<longleftrightarrow> master_inv m \<and> \<not> validRxPacket (rx m) \<and> (no_node_gone m \<or> allocatedPacket (txManager (tx m)) = None)"

definition removal_effect :: "tMaster \<Rightarrow> tMaster \<Rightarrow> bool" where
  "removal_effect m m' \<longleftrightarrow> removal_ok m' \<and> nextTxPacket (tx m') = nextTxPacket (tx m) \<and> master_calm m m' \<and>
     allocatedPacket (txManager (tx m')) = allocatedPacket (txManager (tx m)) \<and>
     set (masterNodeTimeToLive m') \<subseteq> insert 0 (set (masterNodeTimeToLive m)) \<and>
     (no_node_gone m \<longrightarrow> m' = m)"

lemma remove_step:
  assumes ok: "removal_ok m" and i: "1 \<le> i" "i < MAX_NODES"
  shows "removeIfTimedOut i (k, m) = Inl No_Return \<and> \<not> no_node_gone m \<or>
    (\<exists>k' m'. removeIfTimedOut i (k, m) = Inr (k', m') \<and> removal_effect m m')"
proof -
  have inv: "master_inv m" and idle: "\<not> validRxPacket (rx m)" using ok by (simp_all add: removal_ok_def)
  note j = master_invD [OF inv]
  show ?thesis
  proof (cases "masterNodeTimeToLive m ! i = REMOVE_NODE_TTL")
    case False
    then have "removeIfTimedOut i (k, m) = Inr (k, m)" using i j(9) by (simp add: removeIfTimedOut_def)
    then show ?thesis using ok by (auto simp: removal_effect_def master_calm_def)
  next
    case True
    then have gone: "\<not> no_node_gone m" using i(2) j(9) nth_mem [of i "masterNodeTimeToLive m"] by (simp add: no_node_gone_def)
    then have none: "allocatedPacket (txManager (tx m)) = None" using ok by (simp add: removal_ok_def)
    let ?d = "of_nat i :: u8"
    have u: "unat ?d = i" by (rule unat_u8_of_nat) (use i in simp)
    have d: "node_id ?d" using i u by (simp add: node_id_def)
    obtain nw1 a where n: "networkManagerRemoveNewNodeRequest (nwManager m) ?d = Inr (?d \<in> snd ` set (joining (nwManager m)), nw1)"
      "nodeQueueRemoveIfExists (activeNodes nw1) ?d = Inr a" "nw_inv (nw1\<lparr>activeNodes := a\<rparr>) ((masterNodeTimeToLive m)[i := 0])"
      using gone_nw [OF j(3) d] u by auto
    have sq: "nodes_queue (nodeTxNodes (scheduler m))" using j(4) by (simp add: sched_inv_def)
    then obtain q where q: "nodeQueueRemoveIfExists (nodeTxNodes (scheduler m)) ?d = Inr q" "wf_queue q"
      "queue_ids q = remove1 ?d (queue_ids (nodeTxNodes (scheduler m)))"
      using nodeQueueRemoveIfExists_spec by (fastforce simp: nodes_queue_def)
    have sub: "set (queue_ids q) \<subseteq> set (queue_ids (nodeTxNodes (scheduler m)))" using q(3) set_remove1_subset by metis
    then have "nodes_queue q" using q(2) sq by (auto simp: nodes_queue_def)
    then have s: "sched_inv ((scheduler m)\<lparr>nodeTxNodes := q\<rparr>)" "levels_cover ((scheduler m)\<lparr>nodeTxNodes := q\<rparr>)"
      using j(4,5) sub by (auto simp: levels_cover_def)
    obtain k' txm where t: "masterTxManagerRemoveNode (txManager (tx m)) ?d k = Inr (k', txm)" "mtx_inv ((tx m)\<lparr>txManager := txm\<rparr>)"
      "allocatedPacket txm = None" using gone_tx [OF j(2) d none] by blast
    note run = removeIfTimedOut_def True n(1,2) q(1) t(1)
    from gone_rx [OF j(1) idle, of ?d] show ?thesis
    proof (elim disjE exE conjE)
      assume "rxManagerRemoveAllPackets (rxPacketManager (rx m)) ?d = Inl No_Return"
      then show ?thesis using gone i j(9) by (simp add: run Let_def)
    next
      fix rpm
      assume r: "rxManagerRemoveAllPackets (rxPacketManager (rx m)) ?d = Inr rpm" "rx_inv ((rx m)\<lparr>rxPacketManager := rpm\<rparr>)"
        "rx_packet rpm = rx_packet (rxPacketManager (rx m))"
      let ?m = "m\<lparr>masterNodeTimeToLive := (masterNodeTimeToLive m)[i := 0], nwManager := nw1\<lparr>activeNodes := a\<rparr>,
        scheduler := (scheduler m)\<lparr>nodeTxNodes := q\<rparr>, tx := (tx m)\<lparr>txManager := txm\<rparr>, rx := (rx m)\<lparr>rxPacketManager := rpm\<rparr>\<rparr>"
      have e: "removeIfTimedOut i (k, m) = Inr (k', ?m)" using r(1) i j(9) by (simp add: run Let_def)
      have "master_inv ?m" using r(2) t(2) n(3) s j by (simp add: master_inv_def master_ok_def)
      moreover have "master_calm m ?m" using r(3) by (simp add: master_calm_same rx_input_def)
      ultimately have "removal_effect m ?m"
        using idle none t(3) gone set_update_subset_insert [of "masterNodeTimeToLive m" i 0] by (simp add: removal_effect_def removal_ok_def)
      then show ?thesis using e by blast
    qed
  qed
qed

lemma removal_effect_refl: "removal_ok m \<Longrightarrow> removal_effect m m"
  by (auto simp: removal_effect_def master_calm_def)

lemma removal_effect_trans:
  assumes "removal_effect m m1" and "removal_effect m1 m2"
  shows "removal_effect m m2"
  using assms unfolding removal_effect_def by (intro conjI) (auto intro: master_calm_trans)

lemma remove_loop:
  assumes "removal_ok m" and "\<forall>i\<in>set is. 1 \<le> i \<and> i < MAX_NODES"
  shows "for_each removeIfTimedOut is (k, m) = Inl No_Return \<and> \<not> no_node_gone m \<or>
    (\<exists>k' m'. for_each removeIfTimedOut is (k, m) = Inr (k', m') \<and> removal_effect m m')"
  using assms
proof (induction "is" arbitrary: k m)
  case Nil
  then show ?case using removal_effect_refl by simp
next
  case (Cons i "is")
  have i: "1 \<le> i" "i < MAX_NODES" using Cons.prems(2) by simp_all
  from remove_step [OF Cons.prems(1) i, of k] show ?case
  proof (elim disjE exE conjE)
    fix k1 m1
    assume 1: "removeIfTimedOut i (k, m) = Inr (k1, m1)" "removal_effect m m1"
    have ok: "removal_ok m1" using 1(2) by (simp add: removal_effect_def)
    have "\<not> no_node_gone m" if "\<not> no_node_gone m1" using 1(2) that by (auto simp: removal_effect_def)
    then show ?thesis using Cons.IH [OF ok] Cons.prems(2) 1 removal_effect_trans [OF 1(2)] by fastforce
  qed simp
qed

lemma removeTimedOut_inv:
  assumes "removal_ok m"
  shows "masterRemoveAnyTimeoutNodes m = Inl No_Return \<and> \<not> no_node_gone m \<or>
    (\<exists>k m'. masterRemoveAnyTimeoutNodes m = Inr (k, m') \<and> removal_effect m m')"
  using remove_loop [OF assms, of "[1..<64]" 0] by (simp add: masterRemoveAnyTimeoutNodes_def)

subsection \<open>The application\<close>

lemma master_tx_inv:
  assumes inv: "master_inv m" and t: "mtx_inv ((tx m)\<lparr>txManager := txm\<rparr>)"
  shows "master_inv (m\<lparr>tx := (tx m)\<lparr>txManager := txm\<rparr>, stats := st\<rparr>)"
  using assms by (simp add: master_inv_def master_ok_def)

lemma masterAllocate_inv:
  assumes inv: "master_inv m" and none: "allocatedPacket (txManager (tx m)) = None"
  shows "\<exists>r m'. masterAllocateTxPacket m = Inr (r, m') \<and> master_inv m' \<and> rx m' = rx m"
proof -
  let ?m = "txManager (tx m)"
  note t = mtx_invD [OF master_invD(2) [OF inv]]
  have "\<exists>r m'. allocateTxPacket ?m = Inr (r, m') \<and> tx_inv True m' \<and> dst_ok m' = dst_ok ?m \<and>
      (\<forall>d. dst_ok ?m d \<longrightarrow> window_of True m' d = window_of True ?m d)"
  proof (cases "\<exists>e\<in>set (es ?m). \<not> inUse e")
    case True
    from allocate_free [OF t(1) none True] show ?thesis by blast
  next
    case False
    then show ?thesis using allocate_full [OF t(1)] t(1) by auto
  qed
  then obtain r m' where a: "allocateTxPacket ?m = Inr (r, m')" "tx_inv True m'" "dst_ok m' = dst_ok ?m"
    "\<forall>d. dst_ok ?m d \<longrightarrow> window_of True m' d = window_of True ?m d" by blast
  have pk: "packets m' = packets ?m" using all_resD [OF allocate_packets a(1)] by (simp add: same_packets_def)
  have "set (pending True m' d) \<subseteq> set (pending True ?m d)" if "dst_ok m' d" for d
    using a(3,4) that by (simp add: window_of_def)
  from mtx_same_packets [OF master_invD(2) [OF inv] a(2,3) pk this]
  have "master_inv (m\<lparr>tx := (tx m)\<lparr>txManager := m'\<rparr>, stats := st\<rparr>)" for st by (rule master_tx_inv [OF inv])
  from this [of "stats m"] this show ?thesis
    using a(1) by (cases r) (auto simp: masterAllocateTxPacket_def Let_def)
qed

lemma masterFill_inv:
  assumes inv: "master_inv m" and len: "length bytes = MASTER_PACKET_DATA_SIZE"
  shows "master_inv (m\<lparr>tx := (tx m)\<lparr>txManager := tx_fill bytes (txManager (tx m))\<rparr>\<rparr>)"
proof -
  let ?m = "txManager (tx m)" and ?m' = "tx_fill bytes (txManager (tx m))"
  have t: "mtx_inv (tx m)" by (rule master_invD(2) [OF inv])
  note f = tx_fill_spec [OF mtx_invD(1) [OF t] len]
  have d: "dst_ok ?m' = dst_ok ?m" using f(2) by (simp add: restamps_def)
  have same: "pending True ?m' x = pending True ?m x" if "dst_ok ?m' x" for x
    using restamps_eq [OF f(2), of x] that d by (simp add: window_of_def)
  have "mtx_inv ((tx m)\<lparr>txManager := ?m'\<rparr>)"
  proof (rule mtx_change [OF t f(1) d])
    show "all_small ?m'" using mtx_invD(3) [OF t] same d by (simp add: all_small_def)
    show "\<exists>p'. tx_deref (?m', tmpEmptyPacketHeader (tx m), tmpPacket (tx m)) q = Inr p' \<and> sendable q p'"
      if q: "tx_deref (tx_memory_of (tx m)) q = Inr p" "sendable q p" for q p
    proof -
      from f(3) show ?thesis
      proof (elim disjE exE)
        assume "packets ?m' = packets ?m"
        from deref_packets [OF this] show ?thesis using q by (simp add: tx_memory_of_def)
      next
        fix i assume u: "packets ?m' = (packets ?m)[i := (packets ?m ! i)\<lparr>udata := bytes\<rparr>]"
        have pi: "packets ?m ! i = p" if "q = Tx_Entry i"
          using q(1) that by (simp add: tx_memory_of_def deref_entry rd_eq_Inr del: tx_deref.simps)
        have "sendable q (p\<lparr>udata := bytes\<rparr>)" if "q = Tx_Entry i"
        proof -
          have "master_packet (p\<lparr>udata := bytes\<rparr>)" using q(2) that by (simp add: sendable_def master_packet_def)
          then show ?thesis by (simp add: sendable_def master_packet_sends)
        qed
        then show ?thesis using deref_upd [OF u q(1) [unfolded tx_memory_of_def]] q(2) pi by (cases "q = Tx_Entry i") auto
      qed
    qed
  qed
  from master_tx_inv [OF inv this, of "stats m"] show ?thesis by simp
qed

lemma masterSubmit_inv:
  assumes inv: "master_inv m" and a: "allocatedPacket (txManager (tx m)) \<noteq> None" and d: "node_id d"
    and live: "masterNodeTimeToLive m ! unat d \<noteq> 0" and sz: "0 < unat k" "unat k < MAX_PACKET_DATA_SIZE"
  shows "\<exists>m'. masterSubmitAllocatedTxPacket m d k = Inr m' \<and> master_inv m' \<and> rx m' = rx m"
proof -
  let ?m = "txManager (tx m)" and ?ttl = "masterNodeTimeToLive m ! unat d"
  have t: "mtx_inv (tx m)" by (rule master_invD(2) [OF inv])
  note i = mtx_invD [OF t]
  obtain e where e: "allocatedPacket ?m = Some e" using a by blast
  have dst: "dst_ok ?m d" "unat d < 64" using d i(2) by (simp_all add: dst_ok_def node_id_def)
  have pos: "0 < ?ttl" using live by (simp add: word_gt_0)
  from submit_spec [OF i(1) e dst(1), of ?ttl ?ttl 0 MASTER_DATA_PACKET k] pos d obtain m' where
    s: "submitAllocatedTxPacket ?m True ?ttl ?ttl 0 d MASTER_DATA_PACKET k = Inr m'" "tx_inv True m'" "only_at True ?m m' d"
    "window_of True m' d = w_push (stampPacket True MASTER_DATA_PACKET k 0 d (end_of ?m d) (packet (es ?m ! e))) (window_of True ?m d)"
    by auto
  have len: "e < length (es ?m)" using i(1) e by (simp add: tx_inv_def tx_core_def tx_first_def)
  then have wf: "wf_packet (packet (es ?m ! e))" using i(1) by (simp add: tx_inv_def tx_core_def tx_shape_def)
  have stamped: "master_packet (stampPacket True MASTER_DATA_PACKET k 0 d seq p)" if "wf_packet p" for seq p
    using stamp_facts [OF that] sz by (simp add: master_packet_def)
  have pend: "pending True m' x = pending True ?m x \<or> x = d \<and>
      pending True m' d = pending True ?m d @ [stampPacket True MASTER_DATA_PACKET k 0 d (end_of ?m d) (packet (es ?m ! e))]"
    if "dst_ok m' x" for x
    using s(3,4) that by (cases "x = d") (simp_all add: window_of_def w_push_def only_at_def)
  have dd: "dst_ok m' = dst_ok ?m" using s(3) by (simp add: only_at_def)
  have "mtx_inv ((tx m)\<lparr>txManager := m'\<rparr>)"
  proof (rule mtx_change [OF t s(2) dd])
    show "all_small m'" using i(3) pend dd stamped [OF wf] by (fastforce simp: all_small_def)
    show "\<exists>p'. tx_deref (m', tmpEmptyPacketHeader (tx m), tmpPacket (tx m)) q = Inr p' \<and> sendable q p'"
      if q: "tx_deref (tx_memory_of (tx m)) q = Inr p" "sendable q p" for q p
    proof -
      have "stamps True MASTER_DATA_PACKET k 0 d ?m m'" using all_resD [OF submit_packets s(1)] .
      then consider "packets m' = packets ?m"
        | seq where "packets m' = (packets ?m)[e := stampPacket True MASTER_DATA_PACKET k 0 d seq (packets ?m ! e)]"
        using e by (auto simp: stamps_def)
      then show ?thesis
      proof cases
        case 1
        from deref_packets [OF this] show ?thesis using q by (simp add: tx_memory_of_def)
      next
        case (2 seq)
        have "sendable q (stampPacket True MASTER_DATA_PACKET k 0 d seq (packets ?m ! e))" if "q = Tx_Entry e"
          using stamped [OF wf] len master_packet_sends by (simp add: sendable_def)
        then show ?thesis using deref_upd [OF 2 q(1) [unfolded tx_memory_of_def]] q(2) by (cases "q = Tx_Entry e") auto
      qed
    qed
  qed
  from master_tx_inv [OF inv this, of "stats m"] show ?thesis
    using s(1) e sz dst(2) master_invD(9) [OF inv] by (simp add: masterSubmitAllocatedTxPacket_def)
qed

lemma masterRead_inv:
  assumes inv: "master_inv m"
  shows "\<exists>r m1. masterPeekNextRxDataPacket m = Inr (r, m1) \<and> master_inv m1 \<and> validRxPacket (rx m1) = validRxPacket (rx m) \<and>
    (r \<noteq> None \<longrightarrow> (\<exists>m'. masterPopNextDataPacket m1 = Inr m' \<and> master_inv m' \<and> validRxPacket (rx m') = validRxPacket (rx m) \<and>
      master_queue m' = tl (master_queue m)))"
proof -
  let ?rpm = "rxPacketManager (rx m)" and ?i = "nextRxPacketEntry (rx m)" and ?prev = "rx_prev (rx m)"
  note j = master_invD [OF inv]
  have hold: "rx_hold ?rpm ?i ?prev" using j(1) by (simp add: rx_inv_def)
  have change: "master_inv (m\<lparr>rx := (rx m)\<lparr>rxPacketManager := rpm\<rparr>\<rparr>)" if "rx_hold rpm ?i ?prev" "rx_packet rpm = rx_packet ?rpm" for rpm
    using that j by (simp add: master_inv_def master_ok_def rx_inv_def rx_prev_def split: if_splits)
  from hold_peek [OF hold] obtain r rpm where p: "peekNextRxDataPacket ?rpm = Inr (r, rpm)" "rx_hold rpm ?i ?prev"
    "rx_contents rpm = rx_contents ?rpm" "rx_packet rpm = rx_packet ?rpm" "rx_max rpm = rx_max ?rpm"
    "case rx_contents ?rpm of [] \<Rightarrow> r = None
     | p # _ \<Rightarrow> (\<exists>j<rx_max ?rpm. r = Some j \<and> rx_packet ?rpm j = p) \<and> rx_cells rpm \<noteq> [] \<and> hd (rx_cells rpm) \<noteq> None" by blast
  let ?m1 = "m\<lparr>rx := (rx m)\<lparr>rxPacketManager := rpm\<rparr>\<rparr>"
  show ?thesis
  proof (cases r)
    case None
    then show ?thesis using p change [OF p(2,4)] by (simp add: masterPeekNextRxDataPacket_def Let_def)
  next
    case (Some k)
    then obtain q qs where q: "rx_contents ?rpm = q # qs" using p(6) by (cases "rx_contents ?rpm") auto
    then have k: "k < rx_max rpm" "rx_cells rpm \<noteq> []" "hd (rx_cells rpm) \<noteq> None" using p(5,6) Some by auto
    note e = hold_entry [OF p(2) k(1)]
    from hold_pop [OF p(2) k(2,3)] obtain rpm' where o: "popNextDataPacket rpm = Inr rpm'" "rx_hold rpm' ?i ?prev"
      "rx_contents rpm' = tl (rx_contents rpm)" "rx_packet rpm' = rx_packet rpm" by blast
    have "masterPopNextDataPacket ?m1 = Inr (m\<lparr>rx := (rx m)\<lparr>rxPacketManager := rpm'\<rparr>\<rparr>)"
      using o(1) by (simp add: masterPopNextDataPacket_def)
    then show ?thesis using Some p e change [OF p(2,4)] change [OF o(2)] o(3,4)
      by (simp add: masterPeekNextRxDataPacket_def Let_def master_queue_def rx_queue_def)
  qed
qed

lemma masterTime_inv:
  assumes inv: "master_inv m"
  shows "\<exists>m'. masterUpdateTimeUs m us = Inr m' \<and> master_inv m' \<and> rx m' = rx m"
proof -
  note j = master_invD [OF inv]
  from update_time_inv [OF j(3), of us] show ?thesis
    using j by (auto simp: masterUpdateTimeUs_def master_inv_def master_ok_def)
qed

subsection \<open>The connected nodes\<close>

definition node_bit :: "u8 list \<Rightarrow> nat \<Rightarrow> bool" where
  "node_bit bits d \<longleftrightarrow> bit (bits ! (d div 8)) (7 - d mod 8)"

lemma node_bit_upd:
  assumes "length bits = 8" and "node < 64" and "d < 64"
    and "\<And>k. bit v k = (if k = 7 - node mod 8 then x else bit (bits ! (node div 8)) k)"
  shows "node_bit (bits[node div 8 := v]) d = (if d = node then x else node_bit bits d)"
proof -
  have "d = node" if "d div 8 = node div 8" "7 - d mod 8 = 7 - node mod 8"
  proof -
    have "d mod 8 < 8" "node mod 8 < 8" by simp_all
    then have "d mod 8 = node mod 8" using that(2) by linarith
    then show ?thesis using that(1) by (metis div_mult_mod_eq)
  qed
  moreover have "node div 8 < 8" "d div 8 < 8" using assms(2,3) by simp_all
  ultimately show ?thesis using assms(1,4) by (auto simp: node_bit_def nth_list_update)
qed

lemma set_bit_spec:
  assumes "length bits = 8" and "node < 64"
  shows "\<exists>b. set_node_bit node bits = Inr b \<and> length b = 8 \<and> (\<forall>d<64. node_bit b d \<longleftrightarrow> d = node \<or> node_bit bits d)"
proof -
  let ?v = "bits ! (node div 8) OR push_bit (7 - node mod 8) 1"
  have n: "node div 8 < 8" using assms(2) by simp
  have "bit ?v k = (if k = 7 - node mod 8 then True else bit (bits ! (node div 8)) k)" for k
    by (auto simp: bit_or_iff bit_push_bit_iff bit_1_iff bit_exp_iff possible_bit_word less_Suc_eq_le)
  from node_bit_upd [OF assms _ this] have "\<forall>d<64. node_bit (bits[node div 8 := ?v]) d \<longleftrightarrow> d = node \<or> node_bit bits d" by auto
  then show ?thesis using assms(1) n by (simp add: set_node_bit_def)
qed

lemma clear_bit_spec:
  assumes "length bits = 8" and "node < 64"
  shows "\<exists>b. clear_node_bit node bits = Inr b \<and> length b = 8 \<and> (\<forall>d<64. node_bit b d \<longleftrightarrow> d \<noteq> node \<and> node_bit bits d)"
proof -
  let ?v = "bits ! (node div 8) AND NOT (push_bit (7 - node mod 8) 1)"
  have n: "node div 8 < 8" using assms(2) by simp
  have "bit ?v k = (if k = 7 - node mod 8 then False else bit (bits ! (node div 8)) k)" for k
    by (auto simp: bit_and_iff bit_not_iff bit_push_bit_iff bit_1_iff bit_exp_iff possible_bit_word less_Suc_eq_le dest: bit_imp_possible_bit)
  from node_bit_upd [OF assms _ this] have "\<forall>d<64. node_bit (bits[node div 8 := ?v]) d \<longleftrightarrow> d \<noteq> node \<and> node_bit bits d" by auto
  then show ?thesis using assms(1) n by (simp add: clear_node_bit_def)
qed

lemma set_bits:
  assumes "length bits = 8" and "length ttl = 64" and "\<forall>d\<in>set ds. d < 64"
  shows "\<exists>b. for_each (\<lambda>node b. and_then (rd ttl node) (\<lambda>t :: u8. if t > 0 then set_node_bit node b else Inr b)) ds bits = Inr b \<and>
    length b = 8 \<and> (\<forall>d<64. node_bit b d \<longleftrightarrow> node_bit bits d \<or> d \<in> set ds \<and> ttl ! d > 0)"
  using assms(1,3)
proof (induction ds arbitrary: bits)
  case (Cons x ds)
  then have x: "x < 64" by simp
  show ?case
  proof (cases "ttl ! x > 0")
    case True
    from set_bit_spec [OF Cons.prems(1) x] obtain b where b: "set_node_bit x bits = Inr b" "length b = 8"
      "\<forall>d<64. node_bit b d \<longleftrightarrow> d = x \<or> node_bit bits d" by blast
    from Cons.IH [OF b(2)] Cons.prems(2) obtain b' where "for_each (\<lambda>node b. and_then (rd ttl node)
        (\<lambda>t. if t > 0 then set_node_bit node b else Inr b)) ds b = Inr b'" "length b' = 8"
      "\<forall>d<64. node_bit b' d \<longleftrightarrow> node_bit b d \<or> d \<in> set ds \<and> ttl ! d > 0" by auto
    then show ?thesis using b True x assms(2) by auto
  next
    case False
    then show ?thesis using Cons.IH [OF Cons.prems(1)] Cons.prems(2) x assms(2) by auto
  qed
qed simp

lemma clear_bits:
  assumes "length bits = 8" and "\<forall>i\<in>set is. i < length ids \<and> node_id (ids ! i)"
  shows "\<exists>b. for_each (\<lambda>i b. and_then (rd ids i) (\<lambda>node.
      and_then (microbusAssert (node \<noteq> 0)) (\<lambda>_. clear_node_bit (unat node) b))) is bits = Inr b \<and>
    length b = 8 \<and> (\<forall>d<64. node_bit b d \<longleftrightarrow> node_bit bits d \<and> d \<notin> (\<lambda>i. unat (ids ! i)) ` set is)"
  using assms
proof (induction "is" arbitrary: bits)
  case (Cons x "is")
  then have x: "x < length ids" "unat (ids ! x) < 64" "ids ! x \<noteq> 0" by (auto simp: node_id_def)
  from clear_bit_spec [OF Cons.prems(1) x(2)] obtain b where b: "clear_node_bit (unat (ids ! x)) bits = Inr b" "length b = 8"
    "\<forall>d<64. node_bit b d \<longleftrightarrow> d \<noteq> unat (ids ! x) \<and> node_bit bits d" by blast
  from Cons.IH [OF b(2)] Cons.prems(2) obtain b' where "for_each (\<lambda>i b. and_then (rd ids i) (\<lambda>node.
      and_then (microbusAssert (node \<noteq> 0)) (\<lambda>_. clear_node_bit (unat node) b))) is b = Inr b'" "length b' = 8"
    "\<forall>d<64. node_bit b' d \<longleftrightarrow> node_bit b d \<and> d \<notin> (\<lambda>i. unat (ids ! i)) ` set is" by auto
  then show ?case using b x by auto
qed simp

lemma connected_spec:
  assumes inv: "master_inv m" and len: "length bits = 8"
  shows "\<exists>bits' m'. getConnectedNodesBitField m bits = Inr (bits', m') \<and> length bits' = 8 \<and> master_inv m' \<and> rx m' = rx m \<and>
    (\<forall>d<64. node_bit bits' d \<longleftrightarrow>
      (node_bit bits d \<or> d = 0 \<or> of_nat d \<in> alive (masterNodeTimeToLive m)) \<and> of_nat d \<notin> snd ` set (joining (nwManager m)))"
proof -
  note j = master_invD [OF inv]
  let ?nw = "nwManager m" and ?ttl = "(masterNodeTimeToLive m)[0 := 1]"
  have alive: "alive ?ttl = alive (masterNodeTimeToLive m)" by (auto simp: alive_def node_id_def nth_list_update)
  then have "nw_inv ?nw ?ttl" using j(3) by (simp add: nw_inv_def nw_shape_def)
  then have m': "master_inv (m\<lparr>masterNodeTimeToLive := ?ttl\<rparr>)" using j by (simp add: master_inv_def master_ok_def)
  have sh: "nw_shape ?nw (masterNodeTimeToLive m)" and sub: "snd ` set (joining ?nw) \<subseteq> alive (masterNodeTimeToLive m)"
    using j(3) by (simp_all add: nw_inv_def)
  let ?n = "unat (numNewNodes ?nw)"
  have lens: "?n \<le> 10" "length (newNodeId ?nw) = 10" using sh by (simp_all add: nw_shape_def)
  have ids: "snd ` set (joining ?nw) = (\<lambda>i. newNodeId ?nw ! i) ` {0..<?n}"
  proof -
    have "snd ` set (joining ?nw) = set (take ?n (newNodeId ?nw))" using joining_simps(3) [OF sh] by (metis set_map)
    then show ?thesis using nth_image [of ?n "newNodeId ?nw"] lens by simp
  qed
  then have ok: "\<forall>i\<in>set [0..<?n]. i < length (newNodeId ?nw) \<and> node_id (newNodeId ?nw ! i)"
    using sub lens by (auto simp: alive_def)
  have "length ?ttl = 64" using j(9) by simp
  from set_bits [OF len this, of "[0..<64]"] obtain b1 where b1: "for_each (\<lambda>node b. and_then (rd ?ttl node)
      (\<lambda>t. if t > 0 then set_node_bit node b else Inr b)) [0..<64] bits = Inr b1" "length b1 = 8"
    "\<forall>d<64. node_bit b1 d \<longleftrightarrow> node_bit bits d \<or> d \<in> set [0..<64] \<and> ?ttl ! d > 0" by auto
  from clear_bits [OF b1(2) ok] obtain b2 where b2: "for_each (\<lambda>i b. and_then (rd (newNodeId ?nw) i) (\<lambda>node.
      and_then (microbusAssert (node \<noteq> 0)) (\<lambda>_. clear_node_bit (unat node) b))) [0..<?n] b1 = Inr b2" "length b2 = 8"
    "\<forall>d<64. node_bit b2 d \<longleftrightarrow> node_bit b1 d \<and> d \<notin> (\<lambda>i. unat (newNodeId ?nw ! i)) ` set [0..<?n]" by blast
  have run: "getConnectedNodesBitField m bits = Inr (b2, m\<lparr>masterNodeTimeToLive := ?ttl\<rparr>)"
    using b1(1) b2(1) j(9) by (simp add: getConnectedNodesBitField_def)
  have "node_bit b2 d \<longleftrightarrow> (node_bit bits d \<or> d = 0 \<or> of_nat d \<in> alive (masterNodeTimeToLive m)) \<and>
      of_nat d \<notin> snd ` set (joining ?nw)" if d: "d < 64" for d
  proof -
    have u: "unat (of_nat d :: u8) = d" by (rule unat_u8_of_nat) (use d in simp)
    have "?ttl ! d > 0 \<longleftrightarrow> d = 0 \<or> of_nat d \<in> alive (masterNodeTimeToLive m)"
      using d u j(9) by (cases "d = 0") (auto simp: alive_def node_id_def word_gt_0)
    moreover have "d \<in> (\<lambda>i. unat (newNodeId ?nw ! i)) ` set [0..<?n] \<longleftrightarrow> of_nat d \<in> snd ` set (joining ?nw)"
      unfolding ids using u by (auto simp: u8_eq_iff image_iff)
    ultimately show ?thesis using b1(3) b2(3) d by simp
  qed
  then show ?thesis using run b2(2) m' by auto
qed

section \<open>Any sequence of calls\<close>

text \<open>Processing a packet marks no node for removal: it can only start an id's time to live.\<close>

lemma wr_set: "wr xs i v = Inr ys \<Longrightarrow> set ys \<subseteq> insert v (set xs)"
  using set_update_subset_insert [of xs i v] by (auto simp: wr_eq_Inr)

lemma register_ttl: "all_res (\<lambda>(nw', ttl', c'). set ttl' \<subseteq> insert MASTER_MAX_TIME_TO_LIVE (set ttl)) (networkManagerRegisterNewNode nw ttl u c)"
  by (auto simp: networkManagerRegisterNewNode_def Let_def and_then_eq_Inr split: if_split_asm intro!: all_resI dest!: wr_set)

lemma processRx_ttl:
  "all_res (\<lambda>(k, r', nw', s', m', ttl', st'). set ttl' \<subseteq> insert MASTER_MAX_TIME_TO_LIVE (set ttl)) (masterProcessRx r nw s m ttl st)"
proof -
  have req: "set ttl' \<subseteq> insert MASTER_MAX_TIME_TO_LIVE (set ttl)" if "rxNewNodePacketRequest nw ttl p c = Inr (nw', ttl', c')" for p c nw' ttl' c'
    using that all_resD [OF register_ttl] by (fastforce simp: rxNewNodePacketRequest_def and_then_eq_Inr)
  show ?thesis
    by (auto simp: masterProcessRx_def Let_def and_then_eq_Inr split: if_split_asm prod.split_asm intro!: all_resI dest!: req)
qed

lemma processRx_gone: "processRx m = Inr (k, m') \<Longrightarrow> no_node_gone m \<Longrightarrow> no_node_gone m'"
  using all_resD [OF processRx_ttl] by (fastforce simp: processRx_def and_then_eq_Inr no_node_gone_def)

datatype master_call =
    Master_Receive tPacket
  | Master_Pre bool
  | Master_Post
  | Master_Single_Rx bool
  | Master_Single_Tx
  | Master_Time u32
  | Master_Alloc
  | Master_Fill "u8 list"
  | Master_Submit u8 u16
  | Master_Read
  | Master_Connected "u8 list"

text \<open>The packet that goes to the transmitter, and the one that the hardware delivers.\<close>

definition master_on_air :: "tTxPtr option \<Rightarrow> tMaster \<Rightarrow> tPacket option res" where
  "master_on_air ptr m = (case ptr of None \<Rightarrow> Inr None | Some q \<Rightarrow> and_then (tx_deref (tx_memory_of (tx m)) q) (\<lambda>p. Inr (Some p)))"

definition master_receive :: "tPacket \<Rightarrow> tMaster \<Rightarrow> tMaster" where
  "master_receive p m = m\<lparr>rx := (rx m)\<lparr>rxPacketManager := rx_deliver p (nextRxPacketEntry (rx m)) (rxPacketManager (rx m))\<rparr>\<rparr>"

fun master_do :: "(nat \<Rightarrow> u8) \<Rightarrow> master_call \<Rightarrow> tMaster \<Rightarrow> (tPacket option \<times> tMaster) res" where
  "master_do beyond (Master_Receive p) m = Inr (None, master_receive p m)"
| "master_do beyond (Master_Pre crc) m = and_then (masterDualChannelPipelinedPreProcess beyond m crc) (\<lambda>(ptr, mem, m').
     and_then (master_on_air ptr m') (\<lambda>out. Inr (out, m')))"
| "master_do beyond Master_Post m = and_then (masterDualChannelPipelinedPostProcess m) (\<lambda>(n, m'). Inr (None, m'))"
| "master_do beyond (Master_Single_Rx crc) m = and_then (masterNoDelaySingleChannelProcessRx m crc) (\<lambda>(n, m'). Inr (None, m'))"
| "master_do beyond Master_Single_Tx m = and_then (masterNoDelaySingleChannelProcessTx beyond m) (\<lambda>(ptr, n, m').
     and_then (master_on_air ptr m') (\<lambda>out. Inr (out, m')))"
| "master_do beyond (Master_Time us) m = and_then (masterUpdateTimeUs m us) (\<lambda>m'. Inr (None, m'))"
| "master_do beyond Master_Alloc m = and_then (masterAllocateTxPacket m) (\<lambda>(r, m'). Inr (None, m'))"
| "master_do beyond (Master_Fill bytes) m = Inr (None, m\<lparr>tx := (tx m)\<lparr>txManager := tx_fill bytes (txManager (tx m))\<rparr>\<rparr>)"
| "master_do beyond (Master_Submit d k) m = and_then (masterSubmitAllocatedTxPacket m d k) (\<lambda>m'. Inr (None, m'))"
| "master_do beyond Master_Read m = and_then (masterPeekNextRxDataPacket m) (\<lambda>(r, m1).
     if r = None then Inr (None, m1) else and_then (masterPopNextDataPacket m1) (\<lambda>m'. Inr (None, m')))"
| "master_do beyond (Master_Connected bits) m = and_then (getConnectedNodesBitField m bits) (\<lambda>(b, m'). Inr (None, m'))"

text \<open>
  The two halves of a slot alternate, a packet received without a CRC error is a correct
  node's, the application allocates once per submission, submits to a living node, a size
  that fits, and has submitted what it allocated before a node is removed.
\<close>

fun master_allowed :: "master_call \<Rightarrow> tMaster \<Rightarrow> bool" where
  "master_allowed (Master_Receive p) m = wf_packet p"
| "master_allowed (Master_Pre crc) m = (\<not> validRxPacket (rx m) \<and> (passes crc (master_input m) \<longrightarrow> from_node (master_input m)))"
| "master_allowed Master_Post m = (no_node_gone m \<or> allocatedPacket (txManager (tx m)) = None)"
| "master_allowed (Master_Single_Rx crc) m = (\<not> validRxPacket (rx m) \<and> (passes crc (master_input m) \<longrightarrow> from_node (master_input m)))"
| "master_allowed Master_Single_Tx m = (\<not> validRxPacket (rx m) \<and> (no_node_gone m \<or> allocatedPacket (txManager (tx m)) = None))"
| "master_allowed Master_Alloc m = (allocatedPacket (txManager (tx m)) = None)"
| "master_allowed (Master_Fill bytes) m = (length bytes = MASTER_PACKET_DATA_SIZE)"
| "master_allowed (Master_Submit d k) m = (allocatedPacket (txManager (tx m)) \<noteq> None \<and> node_id d \<and>
     masterNodeTimeToLive m ! unat d \<noteq> 0 \<and> 0 < unat k \<and> unat k < MAX_PACKET_DATA_SIZE)"
| "master_allowed (Master_Connected bits) m = (length bits = 8)"
| "master_allowed _ m = True"

lemma master_receive_inv:
  assumes inv: "master_inv m" and p: "wf_packet p"
  shows "master_inv (master_receive p m)"
proof -
  let ?rpm = "rxPacketManager (rx m)" and ?i = "nextRxPacketEntry (rx m)"
  note j = master_invD [OF inv]
  have hold: "rx_hold ?rpm ?i (rx_prev (rx m))" using j(1) by (simp add: rx_inv_def)
  note d = hold_deliver [OF hold p]
  have "k \<noteq> ?i" if "rx_prev (rx m) = Some k" for k using hold that by (simp add: rx_hold_def)
  then have "rx_inv ((rx m)\<lparr>rxPacketManager := rx_deliver p ?i ?rpm\<rparr>)"
    using j(1) d by (auto simp: rx_inv_def rx_prev_def)
  then show ?thesis using j by (simp add: master_inv_def master_ok_def master_receive_def)
qed

lemma master_air:
  assumes "master_inv m" and "ptr = nextTxPacket (tx m)"
  shows "\<exists>out. master_on_air ptr m = Inr out \<and> (\<forall>p. out = Some p \<longrightarrow> master_sends p)"
  using mtx_invD(4) [OF master_invD(2) [OF assms(1)]] assms(2)
  by (cases "nextTxPacket (tx m)") (auto simp: master_on_air_def ptr_ok_def sendable_def)

text \<open>A slot of the dual channel, up to the transmission.\<close>

lemma masterPre_inv:
  assumes inv: "master_inv m" and idle: "\<not> validRxPacket (rx m)"
    and ok: "passes crc (master_input m) \<Longrightarrow> from_node (master_input m)"
  shows "\<exists>ptr mem m'. masterDualChannelPipelinedPreProcess beyond m crc = Inr (ptr, mem, m') \<and> master_inv m' \<and>
    ptr = nextTxPacket (tx m') \<and> schedule_moves m m' \<and> masterResetCycles (tx m') = masterResetCycles (tx m) \<and>
    numTxNodesScheduled (scheduler m') = numTxNodesScheduled (scheduler m) \<and>
    (\<forall>q. ptr = Some q \<longrightarrow> (\<exists>p. tx_deref (tx_memory_of (tx m')) q = Inr p \<and> master_sends p \<and>
      map fst (schedule_of p (unat (numTxNodesScheduled (scheduler m)))) = take (unat (numTxNodesScheduled (scheduler m))) (nextTxNodeId m')))"
proof -
  from masterSchedule_inv [OF inv] obtain m1 where m1: "masterUpdateSchedule m = Inr m1" "master_inv m1" "rx m1 = rx m"
    "schedule_moves m m1" "masterResetCycles (tx m1) = masterResetCycles (tx m)"
    "numTxNodesScheduled (scheduler m1) = numTxNodesScheduled (scheduler m)" by blast
  have "passes crc (master_input m1) \<Longrightarrow> from_node (master_input m1)" "\<not> validRxPacket (rx m1)"
    using ok idle m1(3) by (simp_all add: master_input_def)
  from quickRx_inv [OF m1(2) this(2,1)] obtain m2 where m2: "quickProcessPrevRx crc m1 = Inr m2" "master_inv m2"
    "nextTxNodeId m2 = nextTxNodeId m1" "currentTxNodeId m2 = currentTxNodeId m1" "masterResetCycles (tx m2) = masterResetCycles (tx m1)"
    "numTxNodesScheduled (scheduler m2) = numTxNodesScheduled (scheduler m1)" by blast
  let ?n = "unat (numTxNodesScheduled (scheduler m))"
  from quickTx_inv [OF m2(2), of beyond] obtain m3 where m3: "quickUpdateTx beyond m2 = Inr m3" "master_inv m3"
    "nextTxPacket (tx m3) = nextTxPacket (tx m2)" "nextTxNodeId m3 = nextTxNodeId m2" "scheduler m3 = scheduler m2"
    "currentTxNodeId m3 = currentTxNodeId m2" "masterResetCycles (tx m3) = masterResetCycles (tx m2)"
    and sent: "\<forall>q. nextTxPacket (tx m2) = Some q \<longrightarrow> (\<exists>p. tx_deref (tx_memory_of (tx m3)) q = Inr p \<and> master_sends p \<and>
      schedule_of p ?n = map (\<lambda>d. (d, rxSeqNum_at beyond (rxSeqNum (txManager (tx m2))) d)) (take ?n (nextTxNodeId m2)))"
    using m1(6) m2(6) by auto
  have "map fst (map (\<lambda>d. (d, f d)) xs) = xs" for f and xs :: "u8 list" by (simp add: comp_def)
  then have "\<forall>q. nextTxPacket (tx m3) = Some q \<longrightarrow> (\<exists>p. tx_deref (tx_memory_of (tx m3)) q = Inr p \<and> master_sends p \<and>
      map fst (schedule_of p ?n) = take ?n (nextTxNodeId m3))"
    using sent m3(3,4) by metis
  moreover have "schedule_moves m m3" using m1(4) m2(3,4) m3(4,6) by (simp add: schedule_moves_def split: if_split_asm)
  ultimately show ?thesis using m1 m2 m3
    by (simp add: masterDualChannelPipelinedPreProcess_def masterTxGetNextTxPacket_def)
qed

lemma masterPost_inv:
  assumes inv: "master_inv m" and ok: "no_node_gone m \<or> allocatedPacket (txManager (tx m)) = None"
  shows "masterDualChannelPipelinedPostProcess m = Inl No_Return \<and> \<not> no_node_gone m \<or>
    (\<exists>n m'. masterDualChannelPipelinedPostProcess m = Inr (n, m') \<and> master_inv m' \<and> \<not> validRxPacket (rx m') \<and>
      master_calm m m' \<and> (no_node_gone m \<longrightarrow> master_queue m' = master_queue m @ will_store (rx m)))"
proof -
  from processRx_master [OF inv] obtain k m1 where m1: "processRx m = Inr (k, m1)" "master_inv m1" "\<not> validRxPacket (rx m1)"
    "master_queue m1 = master_queue m @ will_store (rx m)"
    "allocatedPacket (txManager (tx m1)) = allocatedPacket (txManager (tx m))" "master_calm m m1" by blast
  from processTx_master [OF m1(2)] obtain m2 where m2: "processTx m1 = Inr m2" "master_inv m2" "rx m2 = rx m1"
    "masterNodeTimeToLive m2 = masterNodeTimeToLive m1" "allocatedPacket (txManager (tx m2)) = allocatedPacket (txManager (tx m1))"
    "master_calm m1 m2" by blast
  have calm: "master_calm m m2" by (rule master_calm_trans [OF m1(6) m2(6)])
  have gone: "no_node_gone m2 = no_node_gone m1" "no_node_gone m \<Longrightarrow> no_node_gone m1"
    using m2(4) processRx_gone [OF m1(1)] by (simp_all add: no_node_gone_def)
  then have r: "removal_ok m2" using m1 m2 ok by (auto simp: removal_ok_def)
  from removeTimedOut_inv [OF r] show ?thesis
    using m1(1-5) m2(1-5) gone master_calm_trans [OF calm]
    by (auto simp: masterDualChannelPipelinedPostProcess_def removal_effect_def removal_ok_def master_queue_def)
qed

lemma masterSingleRx_inv:
  assumes inv: "master_inv m" and idle: "\<not> validRxPacket (rx m)"
    and ok: "passes crc (master_input m) \<Longrightarrow> from_node (master_input m)"
  shows "\<exists>n m'. masterNoDelaySingleChannelProcessRx m crc = Inr (n, m') \<and> master_inv m'"
proof -
  from masterSchedule_inv [OF inv] obtain m1 where m1: "masterUpdateSchedule m = Inr m1" "master_inv m1" "rx m1 = rx m" by blast
  have "passes crc (master_input m1) \<Longrightarrow> from_node (master_input m1)" "\<not> validRxPacket (rx m1)"
    using ok idle m1(3) by (simp_all add: master_input_def)
  from quickRx_inv [OF m1(2) this(2,1)] obtain m2 where m2: "quickProcessPrevRx crc m1 = Inr m2" "master_inv m2" by blast
  from processRx_master [OF m2(2)] show ?thesis
    using m1 m2 by (auto simp: masterNoDelaySingleChannelProcessRx_def)
qed

lemma tx_write_allocated: "all_res (\<lambda>(m', hs', tmp'). allocatedPacket m' = allocatedPacket m) (tx_write (m, hs, tmp) q f)"
  by (cases q) (auto simp: and_then_eq_Inr intro!: all_resI)

lemma masterSingleTx_inv:
  assumes inv: "master_inv m" and idle: "\<not> validRxPacket (rx m)" and ok: "no_node_gone m \<or> allocatedPacket (txManager (tx m)) = None"
  shows "masterNoDelaySingleChannelProcessTx beyond m = Inl No_Return \<and> \<not> no_node_gone m \<or>
    (\<exists>ptr n m'. masterNoDelaySingleChannelProcessTx beyond m = Inr (ptr, n, m') \<and> master_inv m' \<and> ptr = nextTxPacket (tx m'))"
proof -
  from processTx_master [OF inv] obtain m1 where m1: "processTx m = Inr m1" "master_inv m1" "rx m1 = rx m"
    "masterNodeTimeToLive m1 = masterNodeTimeToLive m" "allocatedPacket (txManager (tx m1)) = allocatedPacket (txManager (tx m))" by blast
  from masterSchedule_inv [OF m1(2)] obtain m2 where m2: "masterUpdateSchedule m1 = Inr m2" "master_inv m2" "rx m2 = rx m1"
    "masterNodeTimeToLive m2 = masterNodeTimeToLive m1" "allocatedPacket (txManager (tx m2)) = allocatedPacket (txManager (tx m1))" by blast
  have alloc: "all_res (\<lambda>(t, st). allocatedPacket (txManager t) = allocatedPacket (txManager (tx m2)))
    (masterQuickUpdateTxPacket beyond (tx m2) (scheduler m2) (nextTxNodeId m2) (stats m2))"
    using all_resD [OF tx_write_allocated [of "txManager (tx m2)" "tmpEmptyPacketHeader (tx m2)" "tmpPacket (tx m2)"]]
    by (fastforce simp: masterQuickUpdateTxPacket_def tx_memory_of_def with_tx_memory_def and_then_eq_Inr
        intro!: all_resI split: option.split_asm prod.split_asm)
  from quickTx_inv [OF m2(2), of beyond] obtain m3 where m3: "quickUpdateTx beyond m2 = Inr m3" "master_inv m3" "rx m3 = rx m2"
    "masterNodeTimeToLive m3 = masterNodeTimeToLive m2" by blast
  have "allocatedPacket (txManager (tx m3)) = allocatedPacket (txManager (tx m2))"
    using m3(1) all_resD [OF alloc] by (fastforce simp: quickUpdateTx_def and_then_eq_Inr)
  then have r: "removal_ok m3" and gone: "no_node_gone m3 = no_node_gone m"
    using m1 m2 m3 ok idle by (auto simp: removal_ok_def no_node_gone_def)
  from removeTimedOut_inv [OF r] show ?thesis
    using m1(1) m2(1) m3(1) gone
    by (auto simp: masterNoDelaySingleChannelProcessTx_def removal_effect_def removal_ok_def masterTxGetNextTxPacket_def)
qed

lemma master_step:
  assumes inv: "master_inv m" and ok: "master_allowed c m"
  shows "master_do beyond c m = Inl No_Return \<and> c \<in> {Master_Post, Master_Single_Tx} \<and> \<not> no_node_gone m \<or>
    (\<exists>out m'. master_do beyond c m = Inr (out, m') \<and> master_inv m' \<and> (\<forall>p. out = Some p \<longrightarrow> master_sends p))"
proof (cases c)
  case (Master_Receive p)
  then show ?thesis using ok master_receive_inv [OF inv] by simp
next
  case (Master_Pre crc)
  with ok have "\<not> validRxPacket (rx m)" "passes crc (master_input m) \<Longrightarrow> from_node (master_input m)" by auto
  from masterPre_inv [where beyond = beyond and crc = crc, OF inv this] obtain ptr mem m' where
    r: "masterDualChannelPipelinedPreProcess beyond m crc = Inr (ptr, mem, m')" "master_inv m'" "ptr = nextTxPacket (tx m')" by blast
  from master_air [OF r(2,3)] show ?thesis using r Master_Pre by auto
next
  case Master_Post
  then show ?thesis using ok masterPost_inv [OF inv] by auto
next
  case (Master_Single_Rx crc)
  with ok have "\<not> validRxPacket (rx m)" "passes crc (master_input m) \<Longrightarrow> from_node (master_input m)" by auto
  from masterSingleRx_inv [where crc = crc, OF inv this] show ?thesis using Master_Single_Rx by auto
next
  case Master_Single_Tx
  with ok have "\<not> validRxPacket (rx m)" "no_node_gone m \<or> allocatedPacket (txManager (tx m)) = None" by auto
  from masterSingleTx_inv [OF inv this, of beyond] show ?thesis
  proof (elim disjE exE conjE)
    fix ptr n m'
    assume r: "masterNoDelaySingleChannelProcessTx beyond m = Inr (ptr, n, m')" "master_inv m'" "ptr = nextTxPacket (tx m')"
    from master_air [OF r(2,3)] show ?thesis using r Master_Single_Tx by auto
  qed (simp add: Master_Single_Tx)
next
  case (Master_Time us)
  then show ?thesis using masterTime_inv [OF inv, of us] by auto
next
  case Master_Alloc
  then show ?thesis using ok masterAllocate_inv [OF inv] by auto
next
  case (Master_Fill bytes)
  then show ?thesis using ok masterFill_inv [OF inv] by simp
next
  case (Master_Submit d k)
  then show ?thesis using ok masterSubmit_inv [OF inv, of d k] by auto
next
  case Master_Read
  from masterRead_inv [OF inv] obtain r m1 where r: "masterPeekNextRxDataPacket m = Inr (r, m1)" "master_inv m1"
    "r \<noteq> None \<longrightarrow> (\<exists>m'. masterPopNextDataPacket m1 = Inr m' \<and> master_inv m')" by blast
  then show ?thesis using Master_Read by (cases "r = None") auto
next
  case (Master_Connected bits)
  then have "length bits = 8" using ok by simp
  from connected_spec [OF inv this] obtain b m' where "getConnectedNodesBitField m bits = Inr (b, m')" "master_inv m'" by blast
  then show ?thesis using Master_Connected by simp
qed

text \<open>The calls between and within slots leave the schedule and the received packet alone.\<close>

fun slot_call :: "master_call \<Rightarrow> bool" where
  "slot_call (Master_Receive p) = True"
| "slot_call (Master_Pre crc) = True"
| "slot_call (Master_Single_Rx crc) = True"
| "slot_call Master_Single_Tx = True"
| "slot_call c = False"

lemma other_master_calm:
  assumes inv: "master_inv m" and ok: "master_allowed c m" and c: "\<not> slot_call c" and run: "master_do beyond c m = Inr (out, m')"
  shows "master_calm m m' \<and> (validRxPacket (rx m') \<longrightarrow> validRxPacket (rx m) \<and> c \<noteq> Master_Post)"
proof (cases c)
  case Master_Post
  then show ?thesis using masterPost_inv [OF inv] ok run by (auto simp: and_then_eq_Inr)
next
  case Master_Read
  from run obtain r rpm where p: "peekNextRxDataPacket (rxPacketManager (rx m)) = Inr (r, rpm)"
    by (auto simp: Master_Read masterPeekNextRxDataPacket_def and_then_eq_Inr)
  have "rx_packet rpm = rx_packet (rxPacketManager (rx m))" using peek_packets p by (simp add: peekNextRxDataPacket_def)
  then show ?thesis using run p
    by (auto simp: Master_Read masterPeekNextRxDataPacket_def masterPopNextDataPacket_def and_then_eq_Inr Let_def rx_input_def pop_packets
        intro!: master_calm_same split: option.split_asm if_split_asm)
next
  case (Master_Time us)
  then show ?thesis using run by (auto simp: masterUpdateTimeUs_def and_then_eq_Inr intro!: master_calm_same)
next
  case Master_Alloc
  then show ?thesis using run
    by (auto simp: masterAllocateTxPacket_def and_then_eq_Inr Let_def intro!: master_calm_same split: option.split_asm)
next
  case (Master_Submit d k)
  then show ?thesis using run by (auto simp: masterSubmitAllocatedTxPacket_def and_then_eq_Inr intro!: master_calm_same)
next
  case (Master_Connected bits)
  then show ?thesis using run by (auto simp: getConnectedNodesBitField_def and_then_eq_Inr intro!: master_calm_same)
qed (use c run in \<open>auto intro!: master_calm_same\<close>)

text \<open>
  A master as it is set up: one to four slots ahead, at least three receive entries, a store of
  at most 254.
\<close>

definition master_config :: "u8 \<Rightarrow> u8 \<Rightarrow> tPacketEntry list \<Rightarrow> u8 \<Rightarrow> bool" where
  "master_config n k ps maxRx \<longleftrightarrow> maxRx > 2 \<and> 1 \<le> unat n \<and> unat n \<le> MAX_TX_NODES_SCHEDULED \<and> length ps = unat k \<and>
     unat k < 255 \<and> (\<forall>e\<in>set ps. wf_packet (packet e))"

inductive master_reach :: "(nat \<Rightarrow> u8) \<Rightarrow> tMaster \<Rightarrow> bool" for beyond where
  Init: "masterInit n k ps maxRx = Inr m \<Longrightarrow> master_config n k ps maxRx \<Longrightarrow> master_reach beyond m"
| Call: "master_reach beyond m \<Longrightarrow> master_allowed c m \<Longrightarrow> master_do beyond c m = Inr (out, m') \<Longrightarrow> master_reach beyond m'"

lemma master_config_inv:
  assumes "master_config n k ps maxRx"
  shows "\<exists>m. masterInit n k ps maxRx = Inr m \<and> master_inv m \<and> \<not> validRxPacket (rx m) \<and>
    allocatedPacket (txManager (tx m)) = None \<and> scheduler m = schedulerInit zero_queue n 80 \<and>
    masterResetCycles (tx m) = 20 \<and> nextTxNodeId m = replicate 6 0"
  using assms master_init [of maxRx n ps k] by (simp add: master_config_def)

lemma master_reach_inv: "master_reach beyond m \<Longrightarrow> master_inv m"
proof (induction rule: master_reach.induct)
  case (Init n k ps maxRx m)
  then show ?case using master_config_inv [OF Init(2)] by auto
next
  case (Call m c out m')
  then show ?case using master_step [OF Call.IH Call.hyps(2), of beyond] by auto
qed

section \<open>Properties\<close>



text \<open>
  The bit field of connected nodes: a node's bit is set exactly if the master counts it
  as alive and it has been heard since it was given its id (the master's own bit is always set, bits
  set before are kept), and reporting changes nothing else.
\<close>

lemma master_connected_bits:
  assumes "master_reach beyond m" and "length bits = 8"
  shows "\<exists>bits' m'. getConnectedNodesBitField m bits = Inr (bits', m') \<and> length bits' = 8 \<and>
    alive (masterNodeTimeToLive m') = alive (masterNodeTimeToLive m) \<and>
    (\<forall>d<64. node_bit bits' d \<longleftrightarrow>
      (node_bit bits d \<or> d = 0 \<or> of_nat d \<in> alive (masterNodeTimeToLive m)) \<and> of_nat d \<notin> snd ` set (joining (nwManager m)))"
proof -
  from connected_spec [OF master_reach_inv [OF assms(1)] assms(2)] obtain b m' where b: "getConnectedNodesBitField m bits = Inr (b, m')"
    "length b = 8" "\<forall>d<64. node_bit b d \<longleftrightarrow>
      (node_bit bits d \<or> d = 0 \<or> of_nat d \<in> alive (masterNodeTimeToLive m)) \<and> of_nat d \<notin> snd ` set (joining (nwManager m))" by blast
  have "m' = m\<lparr>masterNodeTimeToLive := (masterNodeTimeToLive m)[0 := 1]\<rparr>"
    using b(1) by (auto simp: getConnectedNodesBitField_def and_then_eq_Inr wr_eq_Inr)
  then have "alive (masterNodeTimeToLive m') = alive (masterNodeTimeToLive m)"
    by (auto simp: alive_def node_id_def nth_list_update)
  then show ?thesis using b by blast
qed

lemma master_connected_bits_witness:
  "\<exists>m bits' m'. masterInit 4 2 [zero_entry, zero_entry] 3 = Inr m \<and>
     getConnectedNodesBitField m (replicate 8 0) = Inr (bits', m') \<and> node_bit bits' 0"
proof -
  have c: "master_config 4 2 [zero_entry, zero_entry] 3" by (simp add: master_config_def zero_entry_def)
  from master_config_inv [OF c] obtain m where m: "masterInit 4 2 [zero_entry, zero_entry] 3 = Inr m" "master_inv m" by blast
  have "0 \<notin> snd ` set (joining (nwManager m))"
    using master_invD(3) [OF m(2)] by (auto simp: nw_inv_def alive_def node_id_def image_subset_iff)
  then show ?thesis
    using master_connected_bits [OF master_reach.Init [where beyond = "\<lambda>_. 0", OF m(1) c], of "replicate 8 0"] m(1) by auto
qed

text \<open>
  The sequence number that the master waits for from a node, and the packets it takes: data
  packets in sequence, while an entry is free.
\<close>

definition master_next_seq :: "tMaster \<Rightarrow> u8 \<Rightarrow> u8" where
  "master_next_seq m src = (let rx = rxSeqNum (txManager (tx m)) ! unat src in
     if rx = NULL_SEQUENCE_NUM then 0 else INCR_SEQUENCE_NUM rx)"

definition master_wants :: "tMaster \<Rightarrow> tPacket \<Rightarrow> bool" where
  "master_wants m p \<longleftrightarrow> GET_PACKET_TYPE p = packet_code NODE_DATA_PACKET \<and> rx_room (rxPacketManager (rx m)) \<and>
     txSeqNum p = master_next_seq m (node_srcNodeId p)"

lemma singleRx_takes:
  assumes inv: "master_inv m" and idle: "\<not> validRxPacket (rx m)"
    and ok: "passes crc (master_input m) \<Longrightarrow> from_node (master_input m)"
  shows "\<exists>n m'. masterNoDelaySingleChannelProcessRx m crc = Inr (n, m') \<and>
    (let p = master_input m; taken = passes crc p \<and> master_wants m p in
     master_queue m' = master_queue m @ (if taken then [p] else []) \<and>
     rxSeqNum (txManager (tx m')) =
       (if taken then (rxSeqNum (txManager (tx m)))[unat (node_srcNodeId p) := txSeqNum p] else rxSeqNum (txManager (tx m))))"
proof -
  from masterSchedule_inv [OF inv] obtain m1 where m1: "masterUpdateSchedule m = Inr m1" "master_inv m1" "rx m1 = rx m"
    "rxSeqNum (txManager (tx m1)) = rxSeqNum (txManager (tx m))" by blast
  let ?p = "master_input m"
  have in1: "master_input m1 = ?p" "rx_input (rx m) = ?p" "master_queue m1 = master_queue m"
    using m1(3) by (simp_all add: master_input_def master_queue_def)
  have "passes crc (master_input m1) \<Longrightarrow> from_node (master_input m1)" "\<not> validRxPacket (rx m1)" using ok idle m1(3) in1 by simp_all
  from quickRx_inv [where crc = crc, OF m1(2) this(2,1)] obtain m2 where m2: "quickProcessPrevRx crc m1 = Inr m2" "master_inv m2"
    "master_queue m2 = master_queue m" "quick_effect (rx m) (txManager (tx m1)) crc (rx m2) (txManager (tx m2))"
    using in1 m1(3) by auto
  from processRx_master [OF m2(2)] obtain k m3 where m3: "processRx m2 = Inr (k, m3)" "master_queue m3 = master_queue m2 @ will_store (rx m2)"
    "rxSeqNum (txManager (tx m3)) = rxSeqNum (txManager (tx m2))" by blast
  let ?src = "node_srcNodeId ?p" and ?seqs = "rxSeqNum (txManager (tx m))"
  have valid: "validRxPacket (rx m2) \<longleftrightarrow> passes crc ?p \<and> rx_room (rxPacketManager (rx m))"
    using m2(4) in1 by (simp add: quick_effect_def)
  obtain "will_store (rx m2) = (if passes crc ?p \<and> master_wants m ?p then [?p] else [])"
    and "rxSeqNum (txManager (tx m2)) = (if passes crc ?p \<and> master_wants m ?p then ?seqs[unat ?src := txSeqNum ?p] else ?seqs)"
  proof (cases "validRxPacket (rx m2) \<and> GET_PACKET_TYPE ?p = packet_code NODE_DATA_PACKET")
    case True
    then have "node_id ?src" using ok valid by (simp add: from_node_def)
    then have "unat ?src < length ?seqs"
      using mtx_invD(1,2) [OF master_invD(2) [OF inv]] tx_inv_lengths(1) by (simp add: node_id_def)
    then have "rxPacketCheckAndUpdateSeqNum (txManager (tx m1)) ?src (txSeqNum ?p) =
        (if txSeqNum ?p = master_next_seq m ?src then Inr (True, (txManager (tx m1))\<lparr>rxSeqNum := ?seqs[unat ?src := txSeqNum ?p]\<rparr>)
         else Inr (False, txManager (tx m1)))"
      using m1(4) by (simp add: rxPacketCheckAndUpdateSeqNum_def Let_def master_next_seq_def)
    moreover have "rxPacketCheckAndUpdateSeqNum (txManager (tx m1)) ?src (txSeqNum ?p) = Inr (validRxSeqNum (rx m2), txManager (tx m2))"
      using m2(4) True in1 by (simp add: quick_effect_def)
    ultimately have c: "validRxSeqNum (rx m2) \<longleftrightarrow> txSeqNum ?p = master_next_seq m ?src"
      "txManager (tx m2) = (if txSeqNum ?p = master_next_seq m ?src
        then (txManager (tx m1))\<lparr>rxSeqNum := ?seqs[unat ?src := txSeqNum ?p]\<rparr> else txManager (tx m1))"
      by (simp_all split: if_split_asm)
    have "will_store (rx m2) = (if validRxSeqNum (rx m2) then [?p] else [])"
      using m2(4) True in1 by (auto simp: quick_effect_def will_store_def)
    then show ?thesis using that c True valid m1(4) by (simp add: master_wants_def)
  next
    case False
    then have "will_store (rx m2) = []"
      using m2(4) in1 by (auto simp: quick_effect_def will_store_def Let_def split: option.split)
    moreover have "txManager (tx m2) = txManager (tx m1)" using m2(4) False in1 by (auto simp: quick_effect_def)
    ultimately show ?thesis using that False valid m1(4) by (auto simp: master_wants_def)
  qed
  then show ?thesis
    using m1(1) m2(1,3) m3 by (simp add: masterNoDelaySingleChannelProcessRx_def Let_def)
qed



text \<open>
  Claim C35. The source of a received packet is not checked: a readable data or empty packet whose
  source id is 64 or more makes the master read its table of times to live beyond its end, at any
  time.
\<close>

theorem master_unchecked_source:
  assumes "master_reach beyond m" and "passes crc (master_input m)" and "unat (node_srcNodeId (master_input m)) \<ge> MAX_NODES"
    and "GET_PACKET_TYPE (master_input m) \<in> {packet_code NODE_DATA_PACKET, packet_code NODE_EMPTY_PACKET}"
  shows "masterNoDelaySingleChannelProcessRx m crc = Inl Out_Of_Bounds"
proof -
  from masterSchedule_inv [OF master_reach_inv [OF assms(1)]] obtain m1 where m1: "masterUpdateSchedule m = Inr m1"
    "master_inv m1" "rx m1 = rx m" by blast
  note i = master_invD [OF m1(2)]
  have hold: "rx_hold (rxPacketManager (rx m1)) (nextRxPacketEntry (rx m1)) (rx_prev (rx m1))" using i(1) by (simp add: rx_inv_def)
  note e = hold_entry [OF hold rx_holdD(2) [OF hold]]
  have p: "rx_packet (rxPacketManager (rx m1)) (nextRxPacketEntry (rx m1)) = master_input m"
    using m1(3) by (simp add: master_input_def rx_input_def)
  have "masterQuickProcessPrevRx (rx m1) (nwManager m1) (txManager (tx m1)) (masterNodeTimeToLive m1) (stats m1) crc = Inl Out_Of_Bounds"
    using assms(2-4) i(9) by (auto simp: masterQuickProcessPrevRx_def e p passes_def Let_def rd_def)
  then show ?thesis using m1(1) by (simp add: masterNoDelaySingleChannelProcessRx_def quickProcessPrevRx_def)
qed

text \<open>An empty packet that claims to come from node 200.\<close>

definition forged :: tPacket where
  "forged = set_node_srcNodeId 200 (SET_PROTOCOL_VERSION_AND_PACKET_TYPE NODE_EMPTY_PACKET zero_packet)"

theorem master_unchecked_source_witness:
  "\<exists>m. masterInit 4 2 [zero_entry, zero_entry] 3 = Inr m \<and>
     masterNoDelaySingleChannelProcessRx (master_receive forged m) False = Inl Out_Of_Bounds"
proof -
  have c: "master_config 4 2 [zero_entry, zero_entry] 3" by (simp add: master_config_def zero_entry_def)
  from master_config_inv [OF c] obtain m where m: "masterInit 4 2 [zero_entry, zero_entry] 3 = Inr m" "master_inv m" by blast
  have f: "wf_packet forged" "passes False forged" "node_srcNodeId forged = 200" "GET_PACKET_TYPE forged = packet_code NODE_EMPTY_PACKET"
    by (simp_all add: forged_def zero_packet_def wf_packet_def passes_def packet_view_defs
        GET_PROTOCOL_VERSION_def GET_PACKET_TYPE_def GET_PACKET_DATA_SIZE_def SET_PROTOCOL_VERSION_AND_PACKET_TYPE_def)
  have "rx_hold (rxPacketManager (rx m)) (nextRxPacketEntry (rx m)) (rx_prev (rx m))"
    using master_invD(1) [OF m(2)] by (simp add: rx_inv_def)
  from hold_deliver(3) [OF this f(1)] have input: "master_input (master_receive forged m) = forged"
    by (simp add: master_input_def rx_input_def master_receive_def)
  have "master_reach (\<lambda>_. 0) (master_receive forged m)"
    by (rule master_reach.Call [OF master_reach.Init [OF m(1) c], where c = "Master_Receive forged" and out = None]) (simp_all add: f)
  from master_unchecked_source [OF this, of False] show ?thesis using m(1) input f by auto
qed

end
