(* ===== verification/Node.thy ===== *)
theory Node
  imports TxPointer RxHold Wire
begin

text \<open>
  A node, \<^verbatim>\<open>src/src/node.c\<close>: the slot handlers of both channel modes, the timeout, the reset
  and the calls of the application. A pointer into the receive entries is an index, \<open>None\<close> is
  NULL; where the transmit packet can point to is \<open>tTxPtr\<close>. The static random seed of the
  file is a field of the node.
\<close>

abbreviation (input) MAX_NEW_NODE_BACKOFF :: nat where "MAX_NEW_NODE_BACKOFF \<equiv> 32"

record tNode =
  initialised :: bool
  txManager :: tTxManager
  rxPacketManager :: tRxPacketManager
  uniqueId :: u64
  nodeId :: u8
  currentTxNodeId :: u8
  nextTxNodeId :: "u8 list"
  timeToLive :: u32
  sentNewNodeRequest :: bool
  nextNewNodeResponseCountdown :: u8
  nextRxPacketEntry :: nat
  prevRxPacketEntry :: "nat option"
  nextTxPacket :: "tTxPtr option"
  savedRxAckValid :: bool
  savedRxAck :: u8
  validRxSeqNum :: bool
  validRxPacket :: bool
  stats :: tNodeStats
  tmpPacketCycle :: u8
  tmpEmptyPacketHeader :: "tPacket list"
  tmpPacket :: tPacket
  seed :: u32

section \<open>The code\<close>

subsection \<open>Random numbers\<close>

definition customSrand :: "u32 \<Rightarrow> u32" where
  "customSrand s = (if s \<noteq> 0 then s else 1)"

text \<open>The number and the next seed.\<close>

definition customRand :: "u32 \<Rightarrow> nat \<times> u32" where
  "customRand s = (let s' = s * 1103515245 + 12345 in (unat (drop_bit 16 s' AND 0x7FFF), s'))"

definition newNodeBackoff_of :: "nat \<Rightarrow> u8" where
  "newNodeBackoff_of r = of_nat (r mod MAX_NEW_NODE_BACKOFF)"

subsection \<open>Start, reset, and leaving the network\<close>

definition nodeInit :: "u64 \<Rightarrow> u8 \<Rightarrow> tPacketEntry list \<Rightarrow> u8 \<Rightarrow> tNode res" where
  "nodeInit uid maxTxPacketEntries txPacketEntries maxRxEntries =
     and_then (microbusAssert (maxRxEntries > 2)) (\<lambda>_.
     and_then (findFreeRxPacket (rxManagerInit maxRxEntries zero_rpm)) (\<lambda>(entry, rpm).
     case entry of
       None \<Rightarrow> Inl Assert_Failed
     | Some i \<Rightarrow> Inr
         \<lparr>initialised = True,
          txManager = initTxManager 1 None maxTxPacketEntries txPacketEntries,
          rxPacketManager = rpm, uniqueId = uid, nodeId = UNALLOCATED_NODE_ID,
          currentTxNodeId = 0, nextTxNodeId = replicate (MAX_TX_NODES_SCHEDULED + 1) 0,
          timeToLive = 0, sentNewNodeRequest = False, nextNewNodeResponseCountdown = 0,
          nextRxPacketEntry = i, prevRxPacketEntry = None, nextTxPacket = Some Tmp_Packet,
          savedRxAckValid = False, savedRxAck = 0, validRxSeqNum = False, validRxPacket = False,
          stats = zero_stats, tmpPacketCycle = 0, tmpEmptyPacketHeader = [zero_header, zero_header],
          tmpPacket = zero_packet, seed = customSrand (ucast uid XOR ucast (drop_bit 32 uid))\<rparr>))"

definition nodeReset :: "tNode \<Rightarrow> tNode res" where
  "nodeReset n = nodeInit (uniqueId n) (maxEntries (packetStore (txManager n)))
     (entries (packetStore (txManager n))) (maxRxPacketEntries (rxPacketManager n))"

definition nodeRemoveFromNetwork :: "tNode \<Rightarrow> tNode res" where
  "nodeRemoveFromNetwork n =
     (if nodeId n \<noteq> UNALLOCATED_NODE_ID then
        and_then (nodeReset n) (\<lambda>n'.
        Inr (n'\<lparr>stats := (stats n')\<lparr>st_nodeLeftNw := st_nodeLeftNw (stats n) + 1,
          st_nodeJoinedNw := st_nodeJoinedNw (stats n)\<rparr>\<rparr>))
      else Inr n)"

subsection \<open>Receiving\<close>

text \<open>The last acknowledgement whose slot is ours.\<close>

definition recordAcks :: "tPacket \<Rightarrow> nat \<Rightarrow> tNode \<Rightarrow> tNode" where
  "recordAcks p i n =
     (if master_nextTxNodeId p i = nodeId n
      then n\<lparr>savedRxAckValid := True, savedRxAck := master_nextTxNodeAckSeqNum p i\<rparr> else n)"

text \<open>
  The end of the quick check: a packet for us is kept if another entry is free. The final
  assertion of the code, on a pointer that the model never has as NULL, always holds.
\<close>

definition nodeKeepRxPacket :: "tPacket \<Rightarrow> tNode \<Rightarrow> tNode res" where
  "nodeKeepRxPacket p n =
     (if master_dstNodeId p \<noteq> nodeId n then Inr n
      else
        let n1 = n\<lparr>validRxPacket := True, stats := (stats n)\<lparr>st_rxValid := st_rxValid (stats n) + 1\<rparr>\<rparr> in
        and_then (findFreeRxPacket (rxPacketManager n1)) (\<lambda>(freeEntry, rpm).
        case freeEntry of
          None \<Rightarrow> Inr (n1\<lparr>rxPacketManager := rpm, validRxPacket := False,
            stats := (stats n1)\<lparr>st_rxBufferFull := st_rxBufferFull (stats n1) + 1\<rparr>\<rparr>)
        | Some i \<Rightarrow>
            let n2 = n1\<lparr>rxPacketManager := rpm, nextRxPacketEntry := i, validRxSeqNum := True\<rparr> in
            if nodeId n2 \<noteq> UNALLOCATED_NODE_ID \<and> GET_PACKET_TYPE p = packet_code MASTER_DATA_PACKET
            then and_then (rxPacketCheckAndUpdateSeqNum (txManager n2) MASTER_NODE_ID (txSeqNum p)) (\<lambda>(ok, m).
              Inr (n2\<lparr>validRxSeqNum := ok, txManager := m\<rparr>))
            else Inr n2))"

definition nodeQuickProcessPrevRx :: "tNode \<Rightarrow> bool \<Rightarrow> tNode res" where
  "nodeQuickProcessPrevRx n rxCrcError =
     (if \<not> initialised n then Inr n
      else
        and_then (rd (rxPacketEntries (rxPacketManager n)) (nextRxPacketEntry n)) (\<lambda>e.
        let p = packet e;
            n1 = n\<lparr>prevRxPacketEntry := Some (nextRxPacketEntry n), validRxPacket := False, savedRxAckValid := False\<rparr> in
        if rxCrcError then
          Inr (n1\<lparr>stats := (stats n1)\<lparr>st_rxCrcFailures := st_rxCrcFailures (stats n1) + 1\<rparr>\<rparr>)
        else if protocolVersionAndPacketType p = 0 \<or> protocolVersionAndPacketType p = 255 then Inr n1
        else if GET_PROTOCOL_VERSION p \<noteq> MICROBUS_VERSION then
          Inr (n1\<lparr>stats := (stats n1)\<lparr>st_rxInvalidProtocol := st_rxInvalidProtocol (stats n1) + 1\<rparr>\<rparr>)
        else if GET_PACKET_TYPE p = packet_code MASTER_RESET_PACKET then nodeRemoveFromNetwork n1
        else
          and_then (for_each (\<lambda>i ids. wr ids i (master_nextTxNodeId p i)) [0..<MAX_TX_NODES_SCHEDULED]
            (nextTxNodeId n1)) (\<lambda>ids.
          let n2 = n1\<lparr>nextTxNodeId := ids\<rparr> in
          nodeKeepRxPacket p (if nodeId n2 \<noteq> UNALLOCATED_NODE_ID
            then fold (recordAcks p) [0..<MAX_TX_NODES_SCHEDULED] n2 else n2))))"

text \<open>The entry is handed over by its pointer; the result of the branch says whether it was stored.\<close>

definition nodeProcessRxData :: "tNode \<Rightarrow> nat \<Rightarrow> tNode res" where
  "nodeProcessRxData n i =
     and_then (rd (rxPacketEntries (rxPacketManager n)) i) (\<lambda>e.
     let p = packet e; packetType = GET_PACKET_TYPE p;
         n1 = n\<lparr>stats := (stats n)\<lparr>st_rxPacketEntries := st_rxPacketEntries (stats n) + 1\<rparr>\<rparr> in
     and_then
       (if nodeId n1 = UNALLOCATED_NODE_ID then
          if packetType = packet_code NEW_NODE_RESPONSE_PACKET \<and> sentNewNodeRequest n1 then
            and_then (rxNewNodePacketResponse p (uniqueId n1) (nodeId n1) (timeToLive n1)
              (st_nodeJoinedNw (stats n1))) (\<lambda>(d, t, j).
            Inr (n1\<lparr>nodeId := d, timeToLive := t,
              stats := (stats n1)\<lparr>st_newNodeAllocatedRx := st_newNodeAllocatedRx (stats n1) + 1, st_nodeJoinedNw := j\<rparr>\<rparr>, False))
          else Inr (n1, False)
        else if master_dstNodeId p = nodeId n1 then
          if packetType = packet_code MASTER_DATA_PACKET then
            and_then (microbusAssert (dataSize1 p > 0 \<or> dataSize2 p > 0)) (\<lambda>_.
            if validRxSeqNum n1 then
              and_then (addRxDataPacket (rxPacketManager n1) i) (\<lambda>rpm.
              Inr (n1\<lparr>rxPacketManager := rpm,
                stats := (stats n1)\<lparr>st_rxDataPackets := st_rxDataPackets (stats n1) + 1\<rparr>\<rparr>, True))
            else Inr (n1, False))
          else Inr (n1\<lparr>stats := (stats n1)\<lparr>st_rxInvalidPacketType := st_rxInvalidPacketType (stats n1) + 1\<rparr>\<rparr>, False)
        else Inr (n1, False)) (\<lambda>(n2, packetStored).
     if packetStored then Inr n2
     else and_then (set_rx_inUse i False (rxPacketManager n2)) (\<lambda>rpm. Inr (n2\<lparr>rxPacketManager := rpm\<rparr>))))"

definition nodeProcessRx :: "tNode \<Rightarrow> tNode res" where
  "nodeProcessRx n =
     and_then
       (if savedRxAckValid n then
          and_then (rxAckSeqNum (txManager n) MASTER_NODE_ID (savedRxAck n) False (st_txWindowRestarts (stats n)))
            (\<lambda>(k, w, m). Inr (n\<lparr>txManager := m, stats := (stats n)\<lparr>st_txWindowRestarts := w\<rparr>\<rparr>))
        else Inr n) (\<lambda>n1.
     if validRxPacket n1 then
       and_then (case prevRxPacketEntry n1 of None \<Rightarrow> Inl Null_Pointer | Some i \<Rightarrow> Inr i) (nodeProcessRxData n1)
     else Inr n1)"

subsection \<open>Schedule\<close>

definition nodeUpdateSchedule :: "tNode \<Rightarrow> tNode res" where
  "nodeUpdateSchedule n =
     and_then (rd (nextTxNodeId n) 0) (\<lambda>current.
     and_then (for_each (\<lambda>i ids. and_then (rd ids (Suc i)) (wr ids i)) [0..<MAX_TX_NODES_SCHEDULED - 1]
       (nextTxNodeId n)) (\<lambda>ids.
     and_then (wr ids (MAX_TX_NODES_SCHEDULED - 1) INVALID_NODE_ID) (\<lambda>ids'.
       Inr (n\<lparr>currentTxNodeId := current, nextTxNodeId := ids'\<rparr>))))"

subsection \<open>Transmitting\<close>

definition node_memory :: "tNode \<Rightarrow> tx_memory" where
  "node_memory n = (txManager n, tmpEmptyPacketHeader n, tmpPacket n)"

definition with_node_memory :: "tNode \<Rightarrow> tx_memory \<Rightarrow> tNode" where
  "with_node_memory n mem = (case mem of (m, hs, tmp) \<Rightarrow>
     n\<lparr>txManager := m, tmpEmptyPacketHeader := hs, tmpPacket := tmp\<rparr>)"

definition nodeEmptyPacket :: "tNode \<Rightarrow> (tTxPtr \<times> tNode) res" where
  "nodeEmptyPacket n =
     (let cycle = (if tmpPacketCycle n + 1 \<ge> 2 then 0 else tmpPacketCycle n + 1); k = unat cycle in
      and_then (rd (tmpEmptyPacketHeader n) k) (\<lambda>h.
      and_then (rd (rxSeqNum (txManager n)) (unat MASTER_NODE_ID)) (\<lambda>ack.
      let h' = set_node_ackSeqNum ack ((set_node_srcNodeId (nodeId n)
            (SET_PACKET_DATA_SIZE 0 (SET_PROTOCOL_VERSION_AND_PACKET_TYPE NODE_EMPTY_PACKET h)))
              \<lparr>txSeqNum := INVALID_SEQUENCE_NUM\<rparr>) in
      Inr (Tmp_Empty k, n\<lparr>tmpPacketCycle := cycle, tmpEmptyPacketHeader := (tmpEmptyPacketHeader n)[k := h']\<rparr>))))"

definition keepsTxPacket :: "tNode \<Rightarrow> bool res" where
  "keepsTxPacket n = (case nextTxPacket n of
     None \<Rightarrow> Inr False
   | Some ptr \<Rightarrow> and_then (tx_deref (node_memory n) ptr) (\<lambda>p.
       Inr (GET_PACKET_TYPE p = packet_code NODE_DATA_PACKET \<or>
         GET_PACKET_TYPE p = packet_code NEW_NODE_REQUEST_PACKET)))"

definition nodeProcessTx :: "tNode \<Rightarrow> tNode res" where
  "nodeProcessTx n =
     and_then (keepsTxPacket n) (\<lambda>keep.
     if keep then Inr n
     else if nodeId n \<noteq> UNALLOCATED_NODE_ID then
       and_then (nodeGetNextTxDataPacket (txManager n)) (\<lambda>(r, m).
       let n1 = n\<lparr>txManager := m\<rparr> in
       and_then (case r of None \<Rightarrow> nodeEmptyPacket n1 | Some i \<Rightarrow> Inr (Tx_Entry i, n1)) (\<lambda>(ptr, n2).
       and_then (getNumInTxBuffer (txManager n2) MASTER_NODE_ID) (\<lambda>level.
       and_then (tx_write (node_memory n2) ptr (\<lambda>p. Inr (set_node_bufferLevel level p))) (\<lambda>mem.
       Inr ((with_node_memory n2 mem)\<lparr>nextTxPacket := Some ptr\<rparr>)))))
     else if nextNewNodeResponseCountdown n = 0 then
       and_then (txNewNodeRequest (tmpPacket n) (uniqueId n)) (\<lambda>p.
       let (r, s) = customRand (seed n) in
       Inr (n\<lparr>stats := (stats n)\<lparr>st_newNodeRequest := st_newNodeRequest (stats n) + 1\<rparr>,
         sentNewNodeRequest := True, tmpPacket := p, nextNewNodeResponseCountdown := newNodeBackoff_of r,
         seed := s, nextTxPacket := Some Tmp_Packet\<rparr>))
     else Inr (n\<lparr>nextNewNodeResponseCountdown := nextNewNodeResponseCountdown n - 1, nextTxPacket := None\<rparr>))"

definition nodeQuickUpdateTxPacket :: "tNode \<Rightarrow> tNode res" where
  "nodeQuickUpdateTxPacket n =
     (case nextTxPacket n of
        None \<Rightarrow> Inr n
      | Some ptr \<Rightarrow>
          and_then (rd (rxSeqNum (txManager n)) (unat MASTER_NODE_ID)) (\<lambda>ack.
          and_then (tx_write (node_memory n) ptr (\<lambda>p. Inr (set_node_ackSeqNum ack p))) (\<lambda>mem.
          Inr (with_node_memory n mem))))"

definition nodeSendTxPacket :: "tNode \<Rightarrow> tTxPtr \<Rightarrow> (tTxPtr option \<times> tNode) res" where
  "nodeSendTxPacket n ptr =
     and_then (nodeQuickUpdateTxPacket n) (\<lambda>n1.
     and_then (tx_deref (node_memory n1) ptr) (\<lambda>p.
     let st = (stats n1)\<lparr>st_txPackets := st_txPackets (stats n1) + 1\<rparr> in
     Inr (Some ptr, n1\<lparr>nextTxPacket := None,
       stats := (if GET_PACKET_TYPE p = packet_code NODE_DATA_PACKET
         then st\<lparr>st_txDataPackets := st_txDataPackets st + 1\<rparr> else st),
       timeToLive := nodeNwRecordTxPacketSent (timeToLive n1)\<rparr>)))"

definition nodeGetTxPacket :: "tNode \<Rightarrow> (tTxPtr option \<times> tNode) res" where
  "nodeGetTxPacket n =
     (case nextTxPacket n of
        None \<Rightarrow> Inr (None, n)
      | Some ptr \<Rightarrow>
          if nodeId n = UNALLOCATED_NODE_ID then
            if nextNewNodeResponseCountdown n = 0 then
              let (r, s) = customRand (seed n) in
              nodeSendTxPacket (n\<lparr>stats := (stats n)\<lparr>st_newNodeRequest := st_newNodeRequest (stats n) + 1\<rparr>,
                nextNewNodeResponseCountdown := newNodeBackoff_of r, seed := s\<rparr>) ptr
            else Inr (None, n\<lparr>nextNewNodeResponseCountdown := nextNewNodeResponseCountdown n - 1\<rparr>)
          else nodeSendTxPacket n ptr)"

subsection \<open>Slots\<close>

definition nodeCheckIfTimedOut :: "tNode \<Rightarrow> tNode res" where
  "nodeCheckIfTimedOut n = (if nodeNwHasNodeTimedOut (timeToLive n) then nodeRemoveFromNetwork n else Inr n)"

text \<open>The two pointers that the caller passes by reference go in and come out.\<close>

definition nodeDualChannelPipelinedPreProcess ::
    "tNode \<Rightarrow> tTxPtr option \<Rightarrow> nat option \<Rightarrow> bool \<Rightarrow> (tTxPtr option \<times> nat option \<times> tNode) res" where
  "nodeDualChannelPipelinedPreProcess n txPacket rxPacketMemory crcError =
     (if \<not> initialised n then Inr (txPacket, rxPacketMemory, n)
      else
        and_then (nodeQuickProcessPrevRx n crcError) (\<lambda>n1.
        and_then (nodeUpdateSchedule n1) (\<lambda>n2.
        if currentTxNodeId n2 = nodeId n2 \<and> nextTxPacket n2 \<noteq> None
        then and_then (nodeGetTxPacket n2) (\<lambda>(ptr, n3). Inr (ptr, Some (nextRxPacketEntry n2), n3))
        else Inr (txPacket, Some (nextRxPacketEntry n2), n2))))"

definition nodeDualChannelPipelinedPostProcess :: "tNode \<Rightarrow> tNode res" where
  "nodeDualChannelPipelinedPostProcess n =
     (if \<not> initialised n then Inr n
      else and_then (nodeCheckIfTimedOut n) (\<lambda>n1. and_then (nodeProcessRx n1) nodeProcessTx))"

definition nodeGetRxPacketMemory :: "tNode \<Rightarrow> nat" where
  "nodeGetRxPacketMemory n = nextRxPacketEntry n"

definition nodeIsTxMode :: "tNode \<Rightarrow> (bool \<times> tNode) res" where
  "nodeIsTxMode n =
     (if \<not> initialised n then Inr (False, n)
      else and_then (nodeCheckIfTimedOut n) (\<lambda>n1. and_then (nodeUpdateSchedule n1) (\<lambda>n2.
        Inr (currentTxNodeId n = nodeId n, n2))))"

definition nodeNoDelaySingleChannelProcessRx :: "tNode \<Rightarrow> bool \<Rightarrow> tNode res" where
  "nodeNoDelaySingleChannelProcessRx n crcError =
     (if \<not> initialised n then Inr n else and_then (nodeQuickProcessPrevRx n crcError) nodeProcessRx)"

definition nodeNoDelaySingleChannelProcessTx :: "tNode \<Rightarrow> tTxPtr option \<Rightarrow> (tTxPtr option \<times> tNode) res" where
  "nodeNoDelaySingleChannelProcessTx n txPacket =
     (if \<not> initialised n then Inr (txPacket, n) else and_then (nodeProcessTx n) nodeGetTxPacket)"

definition nodeUpdateTimeUs :: "tNode \<Rightarrow> u32 \<Rightarrow> tNode" where
  "nodeUpdateTimeUs n usIncr = n\<lparr>timeToLive := nodeNwUpdateTimeUs (timeToLive n) usIncr\<rparr>"

subsection \<open>The application\<close>

definition nodeAllocateTxPacketFull :: "tNode \<Rightarrow> (nat option \<times> tNode) res" where
  "nodeAllocateTxPacketFull n =
     and_then (allocateTxPacket (txManager n)) (\<lambda>(r, m).
     let n1 = n\<lparr>txManager := m\<rparr> in
     case r of
       None \<Rightarrow> Inr (None, n1\<lparr>stats := (stats n1)\<lparr>st_txBufferFull := st_txBufferFull (stats n1) + 1\<rparr>\<rparr>)
     | Some i \<Rightarrow> Inr (Some i, n1))"

text \<open>The same entry: the payload starts at a fixed offset in it.\<close>

definition nodeAllocateTxPacket :: "tNode \<Rightarrow> (nat option \<times> tNode) res" where
  "nodeAllocateTxPacket n = nodeAllocateTxPacketFull n"

definition nodeSubmitAllocatedTxPacket :: "tNode \<Rightarrow> u8 \<Rightarrow> u16 \<Rightarrow> tNode res" where
  "nodeSubmitAllocatedTxPacket n dstNodeId numBytes =
     and_then (microbusAssert (unat numBytes \<le> MASTER_PACKET_DATA_SIZE)) (\<lambda>_.
     and_then (microbusAssert (allocatedPacket (txManager n) \<noteq> None)) (\<lambda>_.
     and_then (submitAllocatedTxPacket (txManager n) False 0 0 (nodeId n) MASTER_NODE_ID NODE_DATA_PACKET numBytes) (\<lambda>m.
       Inr (n\<lparr>txManager := m\<rparr>))))"

definition nodePeekNextRxDataPacketFull :: "tNode \<Rightarrow> nat option res" where
  "nodePeekNextRxDataPacketFull n =
     (let rpm = rxPacketManager n in
      if CIRCULAR_BUFFER_EMPTY (rx_start rpm) (rx_end rpm) (maxRxPacketEntries rpm) then Inr None
      else case CIRCULAR_BUFFER_PEEK (rx_start rpm) (rx_end rpm) (maxRxPacketEntries rpm) of
          None \<Rightarrow> Inl Assert_Failed
        | Some cell \<Rightarrow> and_then (rd (rxPacketQueue rpm) cell) (\<lambda>entry.
            case entry of None \<Rightarrow> Inl Null_Pointer | Some i \<Rightarrow> Inr (Some i)))"

text \<open>The size, the source and the entry whose payload is returned.\<close>

definition nodePeekNextRxDataPacket :: "tNode \<Rightarrow> (u16 \<times> u8 \<times> nat) option res" where
  "nodePeekNextRxDataPacket n =
     and_then (nodePeekNextRxDataPacketFull n) (\<lambda>r.
     case r of
       None \<Rightarrow> Inr None
     | Some i \<Rightarrow>
         and_then (rd (rxPacketEntries (rxPacketManager n)) i) (\<lambda>e.
         and_then (microbusAssert (GET_PACKET_DATA_SIZE (packet e) > 0)) (\<lambda>_.
         Inr (Some (GET_PACKET_DATA_SIZE (packet e), MASTER_NODE_ID, i)))))"

text \<open>Without a test for an empty buffer: the peek is NULL then, and dereferenced.\<close>

definition nodePopNextDataPacket :: "tNode \<Rightarrow> (bool \<times> tNode) res" where
  "nodePopNextDataPacket n =
     (let rpm = rxPacketManager n in
      case CIRCULAR_BUFFER_PEEK (rx_start rpm) (rx_end rpm) (maxRxPacketEntries rpm) of
        None \<Rightarrow> Inl Null_Pointer
      | Some cell \<Rightarrow>
          and_then (rd (rxPacketQueue rpm) cell) (\<lambda>entry.
          case entry of
            None \<Rightarrow> Inl Null_Pointer
          | Some i \<Rightarrow>
              and_then (set_rx_inUse i False rpm) (\<lambda>rpm1.
              and_then (CIRCULAR_BUFFER_POP (rx_start rpm1) (rx_end rpm1) (maxRxPacketEntries rpm1)) (\<lambda>h.
              Inr (True, n\<lparr>rxPacketManager := rpm1\<lparr>rx_start := h\<rparr>\<rparr>)))))"

end
