(* ===== verification/NodeProps.thy ===== *)
theory NodeProps
  imports Node
begin

text \<open>
  The properties of a node: no sequence of its calls fails while the master's packets are
  well-formed, and whatever it sends is a packet that the master can take.
\<close>

section \<open>Invariant\<close>

text \<open>The packets waiting in the window.\<close>

definition node_packet :: "tPacket \<Rightarrow> bool" where
  "node_packet p \<longleftrightarrow> GET_PACKET_TYPE p = packet_code NODE_DATA_PACKET \<and> GET_PROTOCOL_VERSION p = MICROBUS_VERSION \<and>
     0 < unat (GET_PACKET_DATA_SIZE p) \<and> unat (GET_PACKET_DATA_SIZE p) < MAX_PACKET_DATA_SIZE \<and> node_id (node_srcNodeId p)"

definition node_tx_ok :: "tTxManager \<Rightarrow> bool" where
  "node_tx_ok m \<longleftrightarrow> tx_inv False m \<and> length (txSeqNumStart m) = 1 \<and>
     (\<forall>p\<in>set (pending False m 0). node_packet p)"

text \<open>A pointer into the store is to a data packet, with its buffer level filled in.\<close>

definition points_ok :: "tTxPtr \<Rightarrow> tPacket \<Rightarrow> bool" where
  "points_ok q p \<longleftrightarrow> wf_header p \<and> node_sends p \<and> (\<forall>i. q = Tx_Entry i \<longrightarrow> node_packet p \<and> node_bufferLevel p > 0)"

definition node_mem_ok :: "tx_memory \<Rightarrow> tTxPtr option \<Rightarrow> bool" where
  "node_mem_ok mem ptr \<longleftrightarrow> (case mem of (m, hs, tmp) \<Rightarrow>
     node_tx_ok m \<and> length hs = 2 \<and> (\<forall>h\<in>set hs. wf_header h) \<and> wf_packet tmp \<and>
     (\<forall>q. ptr = Some q \<longrightarrow> (\<exists>p. tx_deref mem q = Inr p \<and> points_ok q p)))"

text \<open>
  \<open>busy\<close> tells the time between the quick check of a packet and its processing: the flag
  \<open>validRxPacket\<close> stays set after the packet has been processed.
\<close>

definition node_rx_ok :: "tRxPacketManager \<Rightarrow> nat \<Rightarrow> nat option \<Rightarrow> bool" where
  "node_rx_ok rpm i prev \<longleftrightarrow> rx_hold rpm i prev \<and> maxRxPacketEntries rpm > 2 \<and> no_holes rpm \<and>
     (\<forall>j. prev = Some j \<longrightarrow> from_master (rx_packet rpm j)) \<and>
     (\<forall>p\<in>set (rx_contents rpm). 0 < unat (GET_PACKET_DATA_SIZE p))"

definition node_prev :: "bool \<Rightarrow> bool \<Rightarrow> nat option \<Rightarrow> nat option" where
  "node_prev busy valid prev = (if busy \<and> valid then prev else None)"

text \<open>The invariant over the fields it depends on.\<close>

definition node_ok ::
    "bool \<Rightarrow> bool \<Rightarrow> u64 \<Rightarrow> u8 \<Rightarrow> nat \<Rightarrow> tx_memory \<Rightarrow> tTxPtr option \<Rightarrow> tRxPacketManager \<Rightarrow> nat \<Rightarrow> nat option \<Rightarrow> bool \<Rightarrow> bool" where
  "node_ok busy init uid d len mem ptr rpm i prev valid \<longleftrightarrow> init \<and> uid \<noteq> 0 \<and>
     (d = UNALLOCATED_NODE_ID \<or> node_id d) \<and> len = MAX_TX_NODES_SCHEDULED + 1 \<and> node_mem_ok mem ptr \<and>
     node_rx_ok rpm i (node_prev busy valid prev) \<and> (busy \<and> valid \<longrightarrow> prev \<noteq> None)"

definition node_inv :: "bool \<Rightarrow> tNode \<Rightarrow> bool" where
  "node_inv busy n \<longleftrightarrow> node_ok busy (initialised n) (uniqueId n) (nodeId n) (length (nextTxNodeId n))
     (txManager n, tmpEmptyPacketHeader n, tmpPacket n) (nextTxPacket n)
     (rxPacketManager n) (nextRxPacketEntry n) (prevRxPacketEntry n) (validRxPacket n)"

lemma node_invD:
  assumes "node_inv busy n"
  shows "initialised n" "uniqueId n \<noteq> 0" "nodeId n = UNALLOCATED_NODE_ID \<or> node_id (nodeId n)" "length (nextTxNodeId n) = 5"
    "node_mem_ok (txManager n, tmpEmptyPacketHeader n, tmpPacket n) (nextTxPacket n)"
    "node_rx_ok (rxPacketManager n) (nextRxPacketEntry n) (node_prev busy (validRxPacket n) (prevRxPacketEntry n))"
    "node_tx_ok (txManager n)" "dst_ok (txManager n) 0" "length (rxSeqNum (txManager n)) = 1"
    "length (tmpEmptyPacketHeader n) = 2" "\<forall>h\<in>set (tmpEmptyPacketHeader n). wf_header h" "wf_packet (tmpPacket n)"
  using assms by (auto simp: node_inv_def node_ok_def node_mem_ok_def node_tx_ok_def dst_ok_def
      tx_inv_def tx_core_def tx_shape_def)

lemma node_inv_idle: "\<not> validRxPacket n \<Longrightarrow> node_inv True n \<Longrightarrow> node_inv False n"
  by (simp add: node_inv_def node_ok_def node_prev_def)

section \<open>Starting and leaving\<close>

lemma node_init:
  assumes "maxRx > 2" and "uid \<noteq> 0" and "length ps = unat k" and "unat k < 255" and "\<forall>e\<in>set ps. wf_packet (packet e)"
  shows "\<exists>n. nodeInit uid k ps maxRx = Inr n \<and> node_inv busy n \<and> nodeId n = UNALLOCATED_NODE_ID \<and>
    rx_contents (rxPacketManager n) = [] \<and> pending False (txManager n) 0 = []"
proof -
  let ?m = "initTxManager 1 None k ps"
  obtain i rpm where f: "findFreeRxPacket (rxManagerInit maxRx zero_rpm) = Inr (Some i, rpm)" "rx_hold rpm i None"
    "rx_contents rpm = []" "maxRxPacketEntries rpm = maxRx" using hold_init [OF assms(1)] by blast
  have "0 < maxRx" using assms(1) by (simp add: u8_less_iff)
  then have holes: "no_holes rpm" using no_holes_fetch [OF wf_rxManagerInit(1) f(1)] no_holes_init by blast
  have m: "tx_inv False ?m" using init_inv [OF assms(3-5), of 1 False None] by simp
  have len: "length (txSeqNumStart ?m) = 1" by (simp add: initTxManager_def)
  have "pending False ?m 0 = []" by (simp add: pending_def buffered_def start_of_def end_of_def initTxManager_def)
  then have tx: "node_tx_ok ?m" "pending False ?m 0 = []" using m len by (simp_all add: node_tx_ok_def)
  have "wf_header zero_packet" "node_sends zero_packet"
    by (simp_all add: node_sends_def) (simp add: zero_packet_def)
  then have "node_mem_ok (?m, [zero_header, zero_header], zero_packet) (Some Tmp_Packet)"
    using tx(1) by (simp add: node_mem_ok_def points_ok_def)
  then show ?thesis
    using assms(1,2) f tx holes by (simp add: nodeInit_def node_inv_def node_ok_def node_prev_def node_rx_ok_def)
qed

lemma node_remove:
  assumes "node_inv busy n"
  shows "\<exists>n'. nodeRemoveFromNetwork n = Inr n' \<and> node_inv busy n' \<and> nodeId n' = UNALLOCATED_NODE_ID"
proof (cases "nodeId n = UNALLOCATED_NODE_ID")
  case True
  then show ?thesis using assms by (simp add: nodeRemoveFromNetwork_def)
next
  case False
  note i = node_invD [OF assms]
  have m: "length (es (txManager n)) = unat (maxEntries (packetStore (txManager n)))" "length (es (txManager n)) < 255"
    "\<forall>e\<in>set (es (txManager n)). wf_packet (packet e)"
    using i(7) by (simp_all add: node_tx_ok_def tx_inv_def tx_core_def tx_shape_def)
  have "maxRxPacketEntries (rxPacketManager n) > 2" using i(6) by (simp add: node_rx_ok_def)
  from node_init [OF this i(2) m(1) _ m(3), of busy] obtain n' where "nodeReset n = Inr n'" "node_inv busy n'"
    "nodeId n' = UNALLOCATED_NODE_ID" using m(1,2) by (auto simp: nodeReset_def)
  then show ?thesis using False by (simp add: nodeRemoveFromNetwork_def node_inv_def)
qed

section \<open>Receiving\<close>

lemma record_acks: "\<exists>v a. fold (recordAcks p) is n = n\<lparr>savedRxAckValid := v, savedRxAck := a\<rparr>"
proof (induction "is" arbitrary: n)
  case Nil
  show ?case by (rule exI [of _ "savedRxAckValid n"], rule exI [of _ "savedRxAck n"]) simp
next
  case (Cons i "is")
  from Cons [of "recordAcks p i n"] obtain v a where
    "fold (recordAcks p) is (recordAcks p i n) = (recordAcks p i n)\<lparr>savedRxAckValid := v, savedRxAck := a\<rparr>" by blast
  then have "fold (recordAcks p) (i # is) n = n\<lparr>savedRxAckValid := v, savedRxAck := a\<rparr>" by (simp add: recordAcks_def)
  then show ?case by blast
qed

lemma five:
  assumes "length xs = 5"
  obtains a b c d e where "xs = [a, b, c, d, e]"
  using assms by (auto simp: numeral_eq_Suc length_Suc_conv)

lemma store_ids:
  assumes "length ids = 5"
  shows "for_each (\<lambda>i ids. wr ids i (f i)) [0..<4] ids = Inr [f 0, f 1, f 2, f 3, ids ! 4]"
  using assms by (rule five) (simp add: upt_rec numeral_eq_Suc)

lemma updateSchedule_spec:
  assumes "length (nextTxNodeId n) = 5"
  shows "nodeUpdateSchedule n = Inr (n\<lparr>currentTxNodeId := nextTxNodeId n ! 0,
    nextTxNodeId := [nextTxNodeId n ! 1, nextTxNodeId n ! 2, nextTxNodeId n ! 3, INVALID_NODE_ID, nextTxNodeId n ! 4]\<rparr>)"
  using assms by (rule five) (simp add: nodeUpdateSchedule_def upt_rec numeral_eq_Suc)

lemma updateSchedule_inv:
  assumes "node_inv b n"
  shows "\<exists>n'. nodeUpdateSchedule n = Inr n' \<and> node_inv b n' \<and> nodeId n' = nodeId n \<and> nextTxPacket n' = nextTxPacket n"
  using updateSchedule_spec [OF node_invD(4) [OF assms]] node_invD(4) [OF assms] assms
  by (simp add: node_inv_def eval_nat_numeral)

text \<open>The packet the hardware has received.\<close>

definition node_input :: "tNode \<Rightarrow> tPacket" where
  "node_input n = rx_packet (rxPacketManager n) (nextRxPacketEntry n)"

definition node_queue :: "tNode \<Rightarrow> tPacket list" where
  "node_queue n = rx_contents (rxPacketManager n)"

text \<open>
  The sequence number that the node waits for, and the packets it takes: its own data packets, in
  sequence, while an entry is free.
\<close>

definition node_next_seq :: "tNode \<Rightarrow> u8" where
  "node_next_seq n = (let rx = rxSeqNum (txManager n) ! 0 in
     if rx = NULL_SEQUENCE_NUM then 0 else INCR_SEQUENCE_NUM rx)"

definition node_wants :: "tNode \<Rightarrow> tPacket \<Rightarrow> bool" where
  "node_wants n p \<longleftrightarrow> master_dstNodeId p = nodeId n \<and> nodeId n \<noteq> UNALLOCATED_NODE_ID \<and>
     GET_PACKET_TYPE p = packet_code MASTER_DATA_PACKET \<and> rx_room (rxPacketManager n) \<and> txSeqNum p = node_next_seq n"

definition node_readable :: "bool \<Rightarrow> tPacket \<Rightarrow> bool" where
  "node_readable crc p \<longleftrightarrow> \<not> crc \<and> protocolVersionAndPacketType p \<noteq> 0 \<and> protocolVersionAndPacketType p \<noteq> 255 \<and>
     GET_PROTOCOL_VERSION p = MICROBUS_VERSION"

text \<open>What the processing of a slot will put into the queue, once the quick check is done.\<close>

definition node_will_store :: "tNode \<Rightarrow> tPacket list" where
  "node_will_store n = (case prevRxPacketEntry n of None \<Rightarrow> [] | Some i \<Rightarrow>
     let p = rx_packet (rxPacketManager n) i in
     if validRxPacket n \<and> nodeId n \<noteq> UNALLOCATED_NODE_ID \<and> master_dstNodeId p = nodeId n \<and>
       GET_PACKET_TYPE p = packet_code MASTER_DATA_PACKET \<and> validRxSeqNum n then [p] else [])"

definition node_rx_effect :: "bool \<Rightarrow> tNode \<Rightarrow> tNode \<Rightarrow> bool" where
  "node_rx_effect takes n n' \<longleftrightarrow> node_queue n' = node_queue n \<and>
     node_will_store n' = (if takes then [node_input n] else []) \<and>
     rxSeqNum (txManager n') ! 0 = (if takes then txSeqNum (node_input n) else rxSeqNum (txManager n) ! 0)"

lemma node_tx_rxSeqNum:
  assumes "node_tx_ok m" and "length v = length (rxSeqNum m)"
  shows "node_tx_ok (m\<lparr>rxSeqNum := v\<rparr>)"
  using assms rxSeqNum_frame [of False m v] by (simp add: node_tx_ok_def window_of_def fun_eq_iff)

lemma node_mem_tx:
  assumes "node_mem_ok (m, hs, tmp) ptr" and "node_tx_ok m'" and "packets m' = packets m"
  shows "node_mem_ok (m', hs, tmp) ptr"
  using assms deref_packets [OF assms(3)] by (simp add: node_mem_ok_def)

lemma keep_inv:
  assumes inv: "node_inv True n" and idle: "\<not> validRxPacket n" and prev: "prevRxPacketEntry n = Some (nextRxPacketEntry n)"
    and p: "p = node_input n" and ok: "from_master p"
  shows "\<exists>n'. nodeKeepRxPacket p n = Inr n' \<and> node_inv True n' \<and> node_rx_effect (node_wants n p) n n'"
proof (cases "master_dstNodeId p = nodeId n")
  case False
  then show ?thesis using inv idle prev
    by (simp add: nodeKeepRxPacket_def node_rx_effect_def node_wants_def node_will_store_def)
next
  case True
  let ?rpm = "rxPacketManager n" and ?i = "nextRxPacketEntry n"
  note i = node_invD [OF inv]
  have rx: "node_rx_ok ?rpm ?i None" using i(6) idle by (simp add: node_prev_def)
  then have hold: "rx_hold ?rpm ?i None" by (simp add: node_rx_ok_def)
  show ?thesis
  proof (cases "findFreeRxPacket ?rpm = Inr (None, ?rpm)")
    case full: True
    then have "\<not> rx_room ?rpm" by (simp add: rx_room_def)
    then show ?thesis using full True inv idle prev
      by (simp add: nodeKeepRxPacket_def Let_def node_inv_def node_rx_effect_def node_wants_def node_will_store_def node_queue_def)
  next
    case full: False
    then obtain k rpm where f: "findFreeRxPacket ?rpm = Inr (Some k, rpm)" "rx_hold rpm k (Some ?i)"
      "rx_contents rpm = rx_contents ?rpm" "rx_packet rpm = rx_packet ?rpm" "rx_max rpm = rx_max ?rpm"
      using hold_fetch [OF hold] by blast
    have "from_master (rx_packet rpm ?i)" using ok f(4) p by (simp add: node_input_def)
    then have rx': "node_rx_ok rpm k (Some ?i)"
      using f rx no_holes_fetch [OF rx_holdD(1) [OF hold] f(1)] by (simp add: node_rx_ok_def u8_less_iff)
    have kept: "node_ok True (initialised n) (uniqueId n) (nodeId n) (length (nextTxNodeId n))
        (m, tmpEmptyPacketHeader n, tmpPacket n) (nextTxPacket n) rpm k (prevRxPacketEntry n) True"
      if "node_tx_ok m" "packets m = packets (txManager n)" for m
      using i(1-4) rx' prev node_mem_tx [OF i(5) that] by (simp add: node_ok_def node_prev_def)
    let ?m = "(txManager n)\<lparr>rxSeqNum := (rxSeqNum (txManager n))[0 := node_next_seq n]\<rparr>"
    have c: "rxPacketCheckAndUpdateSeqNum (txManager n) 0 (txSeqNum p) =
        (if txSeqNum p = node_next_seq n then Inr (True, ?m) else Inr (False, txManager n))"
      using i(9) by (simp add: rxPacketCheckAndUpdateSeqNum_def node_next_seq_def Let_def)
    have m: "node_tx_ok ?m" using node_tx_rxSeqNum [OF i(7)] by simp
    have room: "rx_room ?rpm" using f(1) by (simp add: rx_room_def)
    have same: "rx_packet rpm (nextRxPacketEntry n) = p" using f(4) p by (simp add: node_input_def)
    show ?thesis
      using True f(1,3) c kept [OF m] kept [OF i(7) refl] room same prev i(9) p
      by (simp add: nodeKeepRxPacket_def Let_def node_inv_def node_rx_effect_def node_wants_def node_will_store_def node_queue_def)
  qed
qed

lemma quick_inv:
  assumes inv: "node_inv False n" and ok: "\<not> crc \<Longrightarrow> from_master (node_input n)"
  shows "\<exists>n'. nodeQuickProcessPrevRx n crc = Inr n' \<and> node_inv True n' \<and>
    (if node_readable crc (node_input n) \<and> GET_PACKET_TYPE (node_input n) = packet_code MASTER_RESET_PACKET
     then nodeId n' = UNALLOCATED_NODE_ID \<and> node_will_store n' = []
     else node_rx_effect (node_readable crc (node_input n) \<and> node_wants n (node_input n)) n n')"
proof -
  let ?rpm = "rxPacketManager n" and ?i = "nextRxPacketEntry n" and ?p = "node_input n"
  note i = node_invD [OF inv]
  have rx: "node_rx_ok ?rpm ?i None" using i(6) by (simp add: node_prev_def)
  then have hold: "rx_hold ?rpm ?i None" by (simp add: node_rx_ok_def)
  have e: "rd (rxPacketEntries ?rpm) ?i = Inr (rxPacketEntries ?rpm ! ?i)" "packet (rxPacketEntries ?rpm ! ?i) = ?p"
    using hold_entry [OF hold rx_holdD(2) [OF hold]] by (simp_all add: node_input_def)
  let ?n1 = "n\<lparr>prevRxPacketEntry := Some ?i, validRxPacket := False, savedRxAckValid := False\<rparr>"
  have inv1: "node_inv True ?n1" using i rx by (simp add: node_inv_def node_ok_def node_prev_def)
  obtain nr where nr: "nodeRemoveFromNetwork ?n1 = Inr nr" "node_inv True nr" "nodeId nr = UNALLOCATED_NODE_ID"
    using node_remove [OF inv1] by blast
  have gone: "node_will_store x = []" if "\<not> validRxPacket x \<or> nodeId x = UNALLOCATED_NODE_ID" for x
    using that by (auto simp: node_will_store_def Let_def split: option.split)
  let ?ids = "[master_nextTxNodeId ?p 0, master_nextTxNodeId ?p 1, master_nextTxNodeId ?p 2,
    master_nextTxNodeId ?p 3, nextTxNodeId n ! 4]"
  let ?n2 = "?n1\<lparr>nextTxNodeId := ?ids\<rparr>"
  obtain n3 where n3: "n3 = (if nodeId n \<noteq> UNALLOCATED_NODE_ID then fold (recordAcks ?p) [0..<4] ?n2 else ?n2)" by blast
  have inv2: "node_inv True ?n2" using inv1 i(4) by (simp add: node_inv_def eval_nat_numeral)
  have n3_inv: "node_inv True n3" "rxPacketManager n3 = ?rpm" "nextRxPacketEntry n3 = ?i" "prevRxPacketEntry n3 = Some ?i"
    "\<not> validRxPacket n3" "node_queue n3 = node_queue n" "node_wants n3 = node_wants n" "txManager n3 = txManager n"
    using inv2 record_acks [of ?p "[0..<4]" ?n2] by (auto simp: n3 node_inv_def node_queue_def node_wants_def node_next_seq_def fun_eq_iff)
  have st: "node_inv True (?n1\<lparr>stats := st\<rparr>)" for st using inv1 by (simp add: node_inv_def)
  show ?thesis
  proof (cases crc)
    case True
    then show ?thesis unfolding nodeQuickProcessPrevRx_def e(1) and_then_Inr Let_def
      using i(1) st gone by (simp add: node_readable_def node_rx_effect_def node_queue_def)
  next
    case False
  with n3_inv obtain n' where n': "nodeKeepRxPacket ?p n3 = Inr n'" "node_inv True n'" "node_rx_effect (node_wants n ?p) n3 n'"
    using keep_inv [OF _ _ _ _ ok, of n3] by (auto simp: node_input_def)
  then have eff: "node_rx_effect (node_wants n ?p) n n'" using n3_inv by (simp add: node_rx_effect_def node_input_def)
  have ids: "for_each (\<lambda>i ids. wr ids i (master_nextTxNodeId ?p i)) [0..<4] (nextTxNodeId ?n1) = Inr ?ids"
    using store_ids [OF i(4), of "master_nextTxNodeId ?p"] by simp
  have tail: "nodeKeepRxPacket ?p (if nodeId ?n2 \<noteq> UNALLOCATED_NODE_ID then fold (recordAcks ?p) [0..<4] ?n2 else ?n2) = Inr n'"
    using n'(1) n3 by simp
  show ?thesis
    unfolding nodeQuickProcessPrevRx_def e(1) and_then_Inr e(2) Let_def ids tail
    using i(1) inv1 st nr gone n'(2) eff False by (simp add: node_readable_def node_rx_effect_def node_queue_def)
  qed
qed

section \<open>Processing what was received\<close>

lemma scan_total:
  "(i + k) * 9 \<le> length d \<Longrightarrow> \<exists>r. responseScan d u i k = Inr r \<and>
     (\<forall>x. r = Some x \<longrightarrow> (\<exists>j<i + k. x = d ! (j * 9 + 8)))"
proof (induction k arbitrary: i)
  case 0
  then show ?case by simp
next
  case (Suc k)
  have len: "i * 9 + 8 < length d" "(Suc i + k) * 9 \<le> length d" using Suc.prems by simp_all
  have bs: "rd_bytes d (i * 9) 8 = Inr (take 8 (drop (i * 9) d))" using len by (simp add: rd_bytes_def)
  have i: "i < i + Suc k" by simp
  show ?case
  proof (cases "bytes_u64 (take 8 (drop (i * 9) d)) = u")
    case True
    then show ?thesis using bs len i by (intro exI [of _ "Some (d ! (i * 9 + 8))"]) (auto intro!: exI [of _ i] simp del: add_Suc_right)
  next
    case False
    then show ?thesis using bs len Suc.IH [OF len(2)] by auto
  qed
qed

lemma response_read:
  assumes "response_ok p" and "wf_packet p"
  shows "\<exists>d' t' j'. rxNewNodePacketResponse p u d t j = Inr (d', t', j') \<and> (d' = d \<or> node_id d')"
proof -
  let ?k = "unat (GET_PACKET_DATA_SIZE p) div 9"
  have sz: "unat (GET_PACKET_DATA_SIZE p) \<le> 178" using assms(1) by (simp add: response_ok_def)
  have len: "?k \<le> 19" using sz by linarith
  have k: "unat (of_nat ?k :: u8) = ?k" by (rule unat_u8_of_nat) (use len in linarith)
  have "(0 + ?k) * 9 \<le> length (udata p)" using len assms(2) by (simp add: wf_packet_def)
  from scan_total [OF this, of u] obtain r where r: "responseScan (udata p) u 0 ?k = Inr r"
    "\<forall>x. r = Some x \<longrightarrow> (\<exists>j<?k. x = udata p ! (j * 9 + 8))" by auto
  have "node_id x" if "r = Some x" for x using r(2) that assms(1) by (auto simp: response_ok_def)
  then show ?thesis using r(1) by (cases r) (simp_all add: rxNewNodePacketResponse_def Let_def k)
qed

lemma node_ack:
  assumes "node_tx_ok m"
  shows "\<exists>k w m'. rxAckSeqNum m 0 a False st = Inr (k, w, m') \<and> node_tx_ok m' \<and> packets m' = packets m \<and>
    rxSeqNum m' = rxSeqNum m"
proof -
  have m: "tx_inv False m" "dst_ok m 0" "length (txSeqNumStart m) = 1" using assms by (simp_all add: node_tx_ok_def dst_ok_def)
  obtain k w m' where r: "rxAckSeqNum m 0 a False st = Inr (k, w, m')" "tx_inv False m'" "only_at False m m' 0" "tx_frame m m'"
    "window_of False m' 0 = w_ack a (window_of False m 0)" using rxAck_spec [OF m(1,2), of a st] by blast
  have "packets m' = packets m" using all_resD [OF rxAck_packets r(1)] by (simp add: same_packets_def)
  moreover have "pending False m' 0 = w_packets (w_ack a (window_of False m 0))"
    unfolding r(5) [symmetric] by (simp add: window_of_def)
  then have "set (pending False m' 0) \<subseteq> set (pending False m 0)"
    by (auto simp: w_ack_def window_of_def dest: in_set_dropD)
  moreover have "length (txSeqNumStart m') = 1"
  proof -
    have "dst_ok m' 0 = dst_ok m 0" using r(3) by (simp add: only_at_def)
    then show ?thesis using m(2) r(2) by (auto simp: dst_ok_def tx_inv_def tx_core_def tx_shape_def)
  qed
  ultimately show ?thesis using r(1,2,4) assms by (auto simp: node_tx_ok_def tx_frame_def)
qed

lemma processRxData_inv:
  assumes inv: "node_inv True n" and v: "validRxPacket n" and prev: "prevRxPacketEntry n = Some i"
  shows "\<exists>n'. nodeProcessRxData n i = Inr n' \<and> node_inv False n' \<and> node_queue n' = node_queue n @ node_will_store n \<and>
    txManager n' = txManager n"
proof -
  let ?rpm = "rxPacketManager n" and ?k = "nextRxPacketEntry n"
  let ?p = "rx_packet ?rpm i"
  note j = node_invD [OF inv]
  have rx: "node_rx_ok ?rpm ?k (Some i)" using j(6) v prev by (simp add: node_prev_def)
  then have hold: "rx_hold ?rpm ?k (Some i)" and ok: "from_master ?p" and sizes: "\<forall>p\<in>set (rx_contents ?rpm). 0 < unat (GET_PACKET_DATA_SIZE p)"
    by (simp_all add: node_rx_ok_def)
  have im: "i < rx_max ?rpm" using hold by (simp add: rx_hold_def)
  note e = hold_entry [OF hold im]
  obtain rpmF where F: "set_rx_inUse i False ?rpm = Inr rpmF" "rx_hold rpmF ?k None" "rx_contents rpmF = rx_contents ?rpm"
    "rx_max rpmF = rx_max ?rpm" using hold_discard [OF hold] by blast
  obtain rpmS where S: "addRxDataPacket ?rpm i = Inr rpmS" "rx_hold rpmS ?k None" "rx_contents rpmS = rx_contents ?rpm @ [?p]"
    "rx_max rpmS = rx_max ?rpm" using hold_store [OF hold] by blast
  have freed: "node_ok False (initialised n) (uniqueId n) d (length (nextTxNodeId n)) (txManager n, tmpEmptyPacketHeader n, tmpPacket n)
      (nextTxPacket n) rpmF ?k (prevRxPacketEntry n) True" if "d = UNALLOCATED_NODE_ID \<or> node_id d" for d
    using j(1,2,4,5) that F rx sizes no_holes_in_use [OF F(1)] by (simp add: node_ok_def node_prev_def node_rx_ok_def u8_less_iff)
  have stored: "node_ok False (initialised n) (uniqueId n) (nodeId n) (length (nextTxNodeId n))
      (txManager n, tmpEmptyPacketHeader n, tmpPacket n) (nextTxPacket n) rpmS ?k (prevRxPacketEntry n) True"
    if "GET_PACKET_TYPE ?p = packet_code MASTER_DATA_PACKET"
    using j(1-5) that S rx sizes ok nonempty_size [of ?p] no_holes_store [OF hold S(1)]
    by (auto simp: node_ok_def node_prev_def node_rx_ok_def u8_less_iff from_master_def)
  note defs = nodeProcessRxData_def e Let_def node_inv_def v node_queue_def node_will_store_def prev F(3) S(3)
  show ?thesis
  proof (cases "nodeId n = UNALLOCATED_NODE_ID")
    case un: True
    show ?thesis
    proof (cases "GET_PACKET_TYPE ?p = packet_code NEW_NODE_RESPONSE_PACKET \<and> sentNewNodeRequest n")
      case True
      then have "response_ok ?p" using ok by (simp add: from_master_def)
      from response_read [OF this rx_holdD(4) [OF hold im], of "uniqueId n" "nodeId n" "timeToLive n" "st_nodeJoinedNw (stats n)"]
      obtain d t jn where "rxNewNodePacketResponse ?p (uniqueId n) (nodeId n) (timeToLive n) (st_nodeJoinedNw (stats n)) = Inr (d, t, jn)"
        "d = nodeId n \<or> node_id d" by blast
      then show ?thesis using True un F(1) freed [of d] by (simp add: defs)
    next
      case False
      then show ?thesis using un F(1) freed [of "nodeId n"] by (cases "sentNewNodeRequest n") (simp_all add: defs)
    qed
  next
    case alloc: False
    have d: "nodeId n = UNALLOCATED_NODE_ID \<or> node_id (nodeId n)" by (rule j(3))
    show ?thesis
    proof (cases "master_dstNodeId ?p = nodeId n \<and> GET_PACKET_TYPE ?p = packet_code MASTER_DATA_PACKET")
      case True
      then have "dataSize1 ?p > 0 \<or> dataSize2 ?p > 0" using ok by (simp add: from_master_def)
      then show ?thesis using True alloc S(1) F(1) stored freed [OF d] by (cases "validRxSeqNum n") (simp_all add: defs)
    next
      case False
      then show ?thesis using alloc F(1) freed [OF d] by (cases "master_dstNodeId ?p = nodeId n") (simp_all add: defs)
    qed
  qed
qed

lemma processRx_inv:
  assumes inv: "node_inv True n"
  shows "\<exists>n'. nodeProcessRx n = Inr n' \<and> node_inv False n' \<and> node_queue n' = node_queue n @ node_will_store n \<and>
    rxSeqNum (txManager n') = rxSeqNum (txManager n)"
proof -
  obtain n1 where n1: "(if savedRxAckValid n then
          and_then (rxAckSeqNum (txManager n) MASTER_NODE_ID (savedRxAck n) False (st_txWindowRestarts (stats n)))
            (\<lambda>(k, w, m). Inr (n\<lparr>txManager := m, stats := (stats n)\<lparr>st_txWindowRestarts := w\<rparr>\<rparr>))
        else Inr n) = Inr n1" "node_inv True n1"
    "node_queue n1 = node_queue n" "node_will_store n1 = node_will_store n"
    "rxSeqNum (txManager n1) = rxSeqNum (txManager n)"
  proof (cases "savedRxAckValid n")
    case True
    note j = node_invD [OF inv]
    from node_ack [OF j(7), of "savedRxAck n" "st_txWindowRestarts (stats n)"] obtain k w m where
      m: "rxAckSeqNum (txManager n) 0 (savedRxAck n) False (st_txWindowRestarts (stats n)) = Inr (k, w, m)"
      "node_tx_ok m" "packets m = packets (txManager n)" "rxSeqNum m = rxSeqNum (txManager n)" by blast
    have "node_inv True (n\<lparr>txManager := m, stats := (stats n)\<lparr>st_txWindowRestarts := w\<rparr>\<rparr>)"
      using inv node_mem_tx [OF j(5) m(2,3)] by (simp add: node_inv_def node_ok_def)
    moreover have "node_will_store (n\<lparr>txManager := m, stats := st\<rparr>) = node_will_store n" for st
      by (simp add: node_will_store_def split: option.split)
    ultimately show ?thesis using that m(1,4) True by (simp add: node_queue_def)
  next
    case False
    then show ?thesis using that inv by simp
  qed
  show ?thesis
  proof (cases "validRxPacket n1")
    case True
    then obtain i where "prevRxPacketEntry n1 = Some i" using n1(2) by (auto simp: node_inv_def node_ok_def)
    with True processRxData_inv [OF n1(2) True this] show ?thesis
      unfolding nodeProcessRx_def n1(1) using n1(3-5) by auto
  next
    case False
    then have "node_inv False n1" using n1(2) by (rule node_inv_idle)
    moreover have "node_will_store n = []"
      using False n1(4) by (simp add: node_will_store_def split: option.splits)
    ultimately show ?thesis using False n1(3,5) unfolding nodeProcessRx_def n1(1) by simp
  qed
qed

section \<open>Transmitting\<close>

definition node_restamp :: "tPacket \<Rightarrow> tPacket \<Rightarrow> bool" where
  "node_restamp p q \<longleftrightarrow> same_message p q \<and> node_srcNodeId q = node_srcNodeId p"

lemma node_restamps [simp]:
  "node_restamp p p" "node_restamp p (set_node_ackSeqNum a p)" "node_restamp p (set_node_bufferLevel l p)"
  by (simp_all add: node_restamp_def) (simp_all add: packet_view_defs)

lemma node_packet_restamp: "node_restamp p q \<Longrightarrow> node_packet p \<Longrightarrow> node_packet q"
  using same_message_fields [of p q] by (simp add: node_restamp_def node_packet_def)

lemma node_packet_sends:
  assumes "node_packet p" and "node_bufferLevel p > 0"
  shows "node_sends p"
  using assms version_byte [of p] nonempty_size [of p]
  by (simp add: node_sends_def passes_def from_node_def node_packet_def)

lemma sends_ack: "node_sends (set_node_ackSeqNum a p) = node_sends p"
  by (simp add: node_sends_def passes_def from_node_def set_node_ackSeqNum_def node_srcNodeId_def node_bufferLevel_def)

lemma write_ok:
  assumes m: "node_tx_ok m" and hs: "length hs = 2" "\<forall>h\<in>set hs. wf_header h" and tmp: "wf_packet tmp"
    and p: "tx_deref (m, hs, tmp) q = Inr p" and f: "node_restamp p (f p)" "points_ok q (f p)"
  shows "\<exists>mem. tx_write (m, hs, tmp) q (\<lambda>p. Inr (f p)) = Inr mem \<and> node_mem_ok mem (Some q) \<and> tx_deref mem q = Inr (f p)"
proof (cases q)
  case (Tx_Entry i)
  then have i: "i < length (es m)" "packet (es m ! i) = p" using p by (auto simp: and_then_eq_Inr rd_eq_Inr)
  have inv: "tx_inv False m" "length (txSeqNumStart m) = 1" using m by (simp_all add: node_tx_ok_def)
  have same: "same_message p (f p)" "wf_header (f p)" using f by (simp_all add: node_restamp_def points_ok_def)
  have "wf_packet p" using inv(1) i by (force simp: tx_inv_def tx_core_def tx_shape_def)
  then have wf: "wf_packet (f p)" using same_message_fields(1) [OF same(1)] same(2) by (simp add: wf_packet_def wf_header_def)
  let ?m = "upd_packet i (\<lambda>_. f p) m"
  note r = rewrite_entry [OF inv(1) i(1) wf, of node_restamp, unfolded i(2),
      OF same_message_fields(2) [OF same(1)] node_restamps(1) f(1)]
  have d: "dst_ok m 0" using inv(2) by (simp add: dst_ok_def)
  have "\<forall>p\<in>set (pending False m 0). node_packet p" using m by (simp add: node_tx_ok_def)
  from restamps_all [OF r(2) d this node_packet_restamp] have "\<forall>p\<in>set (pending False ?m 0). node_packet p" by simp
  then have "node_tx_ok ?m" using r(1) inv(2) by (simp add: node_tx_ok_def)
  moreover have "i < length (es ?m)" "packet (es ?m ! i) = f p" using i(1) by (simp_all add: upd_packet_def)
  ultimately show ?thesis using Tx_Entry i hs tmp f(2) by (simp add: node_mem_ok_def)
next
  case Tmp_Packet
  have "wf_packet (f tmp)" if "p = tmp"
    using that tmp f same_message_fields(1) [of p "f p"] by (simp add: wf_packet_def wf_header_def node_restamp_def points_ok_def)
  then show ?thesis using Tmp_Packet p m hs tmp f by (simp add: node_mem_ok_def)
next
  case (Tmp_Empty k)
  then have k: "k < length hs" "hs ! k = p" using p by (auto simp: rd_eq_Inr)
  have "\<forall>h\<in>set (hs[k := f p]). wf_header h" using hs(2) f(2) set_update_subset_insert [of hs k "f p"] by (auto simp: points_ok_def)
  then show ?thesis using Tmp_Empty k m hs tmp f by (simp add: node_mem_ok_def)
qed

lemma node_fetch:
  assumes "node_tx_ok m"
  shows "\<exists>r m'. nodeGetNextTxDataPacket m = Inr (r, m') \<and> node_tx_ok m' \<and>
    (\<forall>i. r = Some i \<longrightarrow> i < length (es m') \<and> node_packet (packet (es m' ! i)) \<and> buffered m' 0 > 0)"
proof -
  have m: "tx_inv False m" "length (txSeqNumStart m) = 1" "\<forall>p\<in>set (pending False m 0). node_packet p"
    using assms by (simp_all add: node_tx_ok_def)
  have d: "dst_ok m 0" using m(2) by (simp add: dst_ok_def)
  let ?w = "window_of False m 0"
  from nodeGetNext_spec [OF m(1) d] obtain r m' where r: "nodeGetNextTxDataPacket m = Inr (r, m')" "tx_inv False m'"
    "only_at False m m' 0" and w: "(fetched m' r, window_of False m' 0) = w_next_stamped (rxSeqNum m ! 0) ?w"
    and own: "\<forall>i. r = Some i \<longrightarrow> owned m' i \<and> sent m 0 < buffered m' 0" by blast
  have "dst_ok m' 0" using r(3) d by (simp add: only_at_def)
  then have len: "length (txSeqNumStart m') = 1" using r(2) by (auto simp: dst_ok_def tx_inv_def tx_core_def tx_shape_def)
  have w': "pending False m' 0 = w_packets (snd (w_next_stamped (rxSeqNum m ! 0) ?w))"
    unfolding w [symmetric] by (simp add: window_of_def)
  have all: "\<forall>p\<in>set (w_packets ?w). node_packet p" using m(3) by (simp add: window_of_def)
  have "(\<forall>p\<in>set (w_packets (snd (w_next_stamped a v))). node_packet p) \<and>
      (\<forall>p. fst (w_next_stamped a v) = Some p \<longrightarrow> w_sent v < length (w_packets v) \<longrightarrow> node_packet p)"
    if v: "\<forall>p\<in>set (w_packets v). node_packet p" for a v
  proof (cases "w_next v")
    case (Pair x v')
    show ?thesis
    proof (cases x)
      case None
      then show ?thesis using Pair v w_next_None [of v] by (simp add: w_next_stamped_def)
    next
      case (Some p)
      note n = w_next_Some [OF Pair [unfolded Some]]
      let ?q = "set_node_ackSeqNum a p"
      have q: "node_packet ?q" if "w_sent v < length (w_packets v)"
        using that n v node_packet_restamp [of p ?q] by simp
      have "node_packet y" if "y \<in> set ((w_packets v)[w_sent v := ?q])" for y
        using that v q by (cases "w_sent v < length (w_packets v)") (auto simp: list_update_beyond dest!: set_update_subset_insert [THEN subsetD])
      then show ?thesis using Pair Some n q by (simp add: w_next_stamped_def)
    qed
  qed
  from this [OF all, of "rxSeqNum m ! 0"] have pk: "\<forall>p\<in>set (pending False m' 0). node_packet p"
    "\<forall>p. fst (w_next_stamped (rxSeqNum m ! 0) ?w) = Some p \<longrightarrow> sent m 0 < length (pending False m 0) \<longrightarrow> node_packet p"
    using w' by (simp_all add: window_of_def)
  have "length (pending False m' 0) = length (pending False m 0)"
    unfolding w' by (simp add: w_next_stamped_def w_next_def window_of_def split: prod.split option.split if_splits)
  then have "sent m 0 < length (pending False m 0)" if "sent m 0 < buffered m' 0" using that by (simp add: length_pending)
  moreover have "fst (w_next_stamped (rxSeqNum m ! 0) ?w) = Some (packet (es m' ! i))" if "r = Some i" for i
    unfolding w [symmetric] using that by (simp add: fetched_def)
  ultimately show ?thesis
    using r(1,2) len pk own by (auto simp: node_tx_ok_def owned_def)
qed

lemma level_positive:
  assumes "node_tx_ok m" and "buffered m 0 > 0"
  shows "\<exists>l. getNumInTxBuffer m 0 = Inr l \<and> l > 0"
proof -
  have len: "0 < length (txSeqNumStart m)" "0 < length (txSeqNumEnd m)"
    using assms(1) by (auto simp: node_tx_ok_def tx_inv_def tx_core_def tx_shape_def)
  have "start_of m 0 \<noteq> end_of m 0" using assms(2) by (auto simp: buffered_def)
  then show ?thesis using len by (simp add: getNumInTxBuffer_def start_of_def end_of_def word_gt_0)
qed

lemma level_total:
  assumes "node_tx_ok m"
  shows "\<exists>l. getNumInTxBuffer m 0 = Inr l"
  using assms by (auto simp: node_tx_ok_def tx_inv_def tx_core_def tx_shape_def getNumInTxBuffer_def)

lemma bufferLevel_set [simp]: "wf_header p \<Longrightarrow> node_bufferLevel (set_node_bufferLevel l p) = l"
  "wf_header p \<Longrightarrow> wf_header (set_node_bufferLevel l p)" "wf_header p \<Longrightarrow> wf_header (set_node_ackSeqNum a p)"
  "GET_PACKET_TYPE (set_node_bufferLevel l p) = GET_PACKET_TYPE p" "GET_PACKET_TYPE (set_node_ackSeqNum l p) = GET_PACKET_TYPE p"
  by (simp_all add: packet_view_defs wf_header_def)

text \<open>The empty packet: its buffer level is written afterwards.\<close>

lemma empty_packet:
  assumes "node_tx_ok m" and hs: "length hs = 2" "\<forall>h\<in>set hs. wf_header h" and d: "node_id (nodeId n)"
    and n: "txManager n = m" "tmpEmptyPacketHeader n = hs"
  shows "\<exists>k n' p. nodeEmptyPacket n = Inr (Tmp_Empty k, n') \<and>
    n' = n\<lparr>tmpPacketCycle := tmpPacketCycle n', tmpEmptyPacketHeader := hs[k := p]\<rparr> \<and> k < 2 \<and> wf_header p \<and>
    (\<forall>l. node_sends (set_node_bufferLevel l p))"
proof -
  have rx: "0 < length (rxSeqNum m)" using assms(1) by (auto simp: node_tx_ok_def tx_inv_def tx_core_def tx_shape_def)
  let ?c = "if tmpPacketCycle n + 1 \<ge> 2 then 0 else tmpPacketCycle n + 1 :: u8"
  have k: "unat ?c < 2" by (auto simp: u8_less_iff not_le dest: u8_less_iff [THEN iffD1])
  let ?p = "set_node_ackSeqNum (rxSeqNum m ! 0) ((set_node_srcNodeId (nodeId n)
      (SET_PACKET_DATA_SIZE 0 (SET_PROTOCOL_VERSION_AND_PACKET_TYPE NODE_EMPTY_PACKET (hs ! unat ?c))))\<lparr>txSeqNum := 255\<rparr>)"
  have "wf_header (hs ! unat ?c)" using hs k by simp
  then have p: "wf_header ?p" "\<And>l. node_srcNodeId (set_node_bufferLevel l ?p) = nodeId n"
    by (simp_all add: wf_header_def packet_view_defs)
  have "GET_PROTOCOL_VERSION (set_node_bufferLevel l ?p) = 1" "GET_PACKET_TYPE (set_node_bufferLevel l ?p) = 4"
    "GET_PACKET_DATA_SIZE (set_node_bufferLevel l ?p) = 0" for l
    by (simp_all add: packet_view_defs)
  then have "node_sends (set_node_bufferLevel l ?p)" for l
    using d p(2) version_byte [of "set_node_bufferLevel l ?p"] by (simp add: node_sends_def passes_def from_node_def)
  then show ?thesis
    using n rx hs k p(1)
    by (intro exI [of _ "unat ?c"] exI [of _ "n\<lparr>tmpPacketCycle := ?c, tmpEmptyPacketHeader := hs[unat ?c := ?p]\<rparr>"] exI [of _ ?p])
      (simp add: nodeEmptyPacket_def Let_def)
qed

lemma mem_okD:
  assumes "node_mem_ok (m, hs, tmp) ptr"
  shows "node_tx_ok m" "length hs = 2" "\<forall>h\<in>set hs. wf_header h" "wf_packet tmp"
    "ptr = Some q \<Longrightarrow> \<exists>p. tx_deref (m, hs, tmp) q = Inr p \<and> points_ok q p"
  using assms by (simp_all add: node_mem_ok_def)

lemma keeps_total:
  assumes "node_inv b n"
  shows "\<exists>k. keepsTxPacket n = Inr k"
  using mem_okD(5) [OF node_invD(5) [OF assms]] by (cases "nextTxPacket n") (auto simp: keepsTxPacket_def node_memory_def)

lemma processTx_inv:
  assumes inv: "node_inv b n"
  shows "\<exists>n'. nodeProcessTx n = Inr n' \<and> node_inv b n'"
proof -
  note j = node_invD [OF inv]
  obtain keep where k: "keepsTxPacket n = Inr keep" using keeps_total [OF inv] by blast
  show ?thesis
  proof (cases keep)
    case True
    then show ?thesis using inv k by (simp add: nodeProcessTx_def)
  next
    case go: False
    show ?thesis
    proof (cases "nodeId n = UNALLOCATED_NODE_ID")
      case alloc: False
      then have d: "node_id (nodeId n)" using j(3) by blast
      obtain r m where f: "nodeGetNextTxDataPacket (txManager n) = Inr (r, m)" "node_tx_ok m"
        "\<forall>i. r = Some i \<longrightarrow> i < length (es m) \<and> node_packet (packet (es m ! i)) \<and> buffered m 0 > 0"
        using node_fetch [OF j(7)] by blast
      let ?n1 = "n\<lparr>txManager := m\<rparr>"
      obtain ptr c hs p where choose: "(case r of None \<Rightarrow> nodeEmptyPacket ?n1 | Some i \<Rightarrow> Inr (Tx_Entry i, ?n1))
          = Inr (ptr, ?n1\<lparr>tmpPacketCycle := c, tmpEmptyPacketHeader := hs\<rparr>)"
        and hs: "length hs = 2" "\<forall>h\<in>set hs. wf_header h"
        and p: "tx_deref (m, hs, tmpPacket n) ptr = Inr p"
        and send: "\<And>l. getNumInTxBuffer m 0 = Inr l \<Longrightarrow> points_ok ptr (set_node_bufferLevel l p)"
      proof (cases r)
        case None
        from empty_packet [OF f(2) j(10,11), of ?n1] d obtain k n' p where e:
          "nodeEmptyPacket ?n1 = Inr (Tmp_Empty k, n')"
          "n' = ?n1\<lparr>tmpPacketCycle := tmpPacketCycle n', tmpEmptyPacketHeader := (tmpEmptyPacketHeader n)[k := p]\<rparr>"
          "k < 2" "wf_header p" "\<forall>l. node_sends (set_node_bufferLevel l p)" by auto
        show ?thesis
          by (rule that [where ptr = "Tmp_Empty k" and c = "tmpPacketCycle n'" and hs = "(tmpEmptyPacketHeader n)[k := p]" and p = p])
            (use None e j(10,11) set_update_subset_insert [of "tmpEmptyPacketHeader n" k p] in \<open>auto simp: points_ok_def\<close>)
      next
        case (Some i)
        then have i: "i < length (es m)" "node_packet (packet (es m ! i))" "buffered m 0 > 0" using f(3) by auto
        let ?p = "packet (es m ! i)"
        have "wf_packet ?p" using f(2) i(1) by (simp add: node_tx_ok_def tx_inv_def tx_core_def tx_shape_def)
        then have h: "wf_header ?p" by (rule wf_packet_header)
        have s: "points_ok (Tx_Entry i) (set_node_bufferLevel l ?p)" if "getNumInTxBuffer m 0 = Inr l" for l
        proof -
          have "node_packet (set_node_bufferLevel l ?p)" using node_packet_restamp [OF node_restamps(3) i(2)] .
          moreover have "node_bufferLevel (set_node_bufferLevel l ?p) > 0" using level_positive [OF f(2) i(3)] that h by auto
          ultimately show ?thesis using node_packet_sends h by (simp add: points_ok_def)
        qed
        show ?thesis
          by (rule that [where ptr = "Tx_Entry i" and c = "tmpPacketCycle n" and hs = "tmpEmptyPacketHeader n" and p = ?p]) (use Some i j(10,11) s in auto)
      qed
      obtain l where l: "getNumInTxBuffer m 0 = Inr l" using level_total [OF f(2)] by blast
      from write_ok [OF f(2) hs j(12) p, of "set_node_bufferLevel l", OF node_restamps(3) send [OF l]]
      obtain m' hs' tmp' where w: "tx_write (m, hs, tmpPacket n) ptr (\<lambda>p. Inr (set_node_bufferLevel l p)) = Inr (m', hs', tmp')"
        "node_mem_ok (m', hs', tmp') (Some ptr)" by (metis prod_cases3)
      let ?n' = "n\<lparr>tmpPacketCycle := c, txManager := m', tmpEmptyPacketHeader := hs', tmpPacket := tmp', nextTxPacket := Some ptr\<rparr>"
      have "nodeProcessTx n = Inr ?n'"
        unfolding nodeProcessTx_def k and_then_Inr
        using go alloc f(1) choose l w(1) by (simp add: node_memory_def with_node_memory_def)
      moreover have "node_inv b ?n'" using inv w(2) by (simp add: node_inv_def node_ok_def)
      ultimately show ?thesis by blast
    next
      case un: True
      show ?thesis
      proof (cases "nextNewNodeResponseCountdown n = 0")
        case True
        obtain p where p: "txNewNodeRequest (tmpPacket n) (uniqueId n) = Inr p" "wf_packet p"
          "GET_PACKET_TYPE p = packet_code NEW_NODE_REQUEST_PACKET" "GET_PROTOCOL_VERSION p = MICROBUS_VERSION"
          "dataSize1 p = 0" "dataSize2 p = 9" "take 8 (udata p) = u64_bytes (uniqueId n)"
          using request_run [OF j(12), of "uniqueId n"] by blast
        have "unat (GET_PACKET_DATA_SIZE p) = 9" by (simp add: unat_data_size p(5,6))
        then have "node_sends p"
          using p version_byte [of p] j(2) by (auto simp: node_sends_def passes_def from_node_def wf_packet_def)
        then have "node_mem_ok (txManager n, tmpEmptyPacketHeader n, p) (Some Tmp_Packet)"
          using mem_okD(1-3) [OF j(5)] p(2) by (simp add: node_mem_ok_def wf_packet_header points_ok_def)
        then show ?thesis
          using go un True k p(1) inv by (simp add: nodeProcessTx_def node_inv_def node_ok_def split: prod.split)
      next
        case False
        have "node_mem_ok (txManager n, tmpEmptyPacketHeader n, tmpPacket n) None"
          using mem_okD(1-4) [OF j(5)] by (simp add: node_mem_ok_def)
        then show ?thesis using go un False k inv by (simp add: nodeProcessTx_def node_inv_def node_ok_def)
      qed
    qed
  qed
qed

text \<open>What is handed to the transmitter may be sent.\<close>

definition handed_out :: "tNode \<Rightarrow> tTxPtr option \<Rightarrow> bool" where
  "handed_out n ptr \<longleftrightarrow> (\<forall>q. ptr = Some q \<longrightarrow> (\<exists>p. tx_deref (node_memory n) q = Inr p \<and> node_sends p))"

lemma sendTx_inv:
  assumes inv: "node_inv b n" and ptr: "nextTxPacket n = Some q"
  shows "\<exists>n'. nodeSendTxPacket n q = Inr (Some q, n') \<and> node_inv b n' \<and> handed_out n' (Some q)"
proof -
  note j = node_invD [OF inv]
  obtain p where p: "tx_deref (txManager n, tmpEmptyPacketHeader n, tmpPacket n) q = Inr p" "points_ok q p"
    using mem_okD(5) [OF j(5) ptr] by blast
  let ?ack = "rxSeqNum (txManager n) ! 0"
  have "points_ok q (set_node_ackSeqNum ?ack p)"
    using p(2) node_packet_restamp [of p "set_node_ackSeqNum ?ack p"]
    by (simp add: points_ok_def sends_ack) (simp add: packet_view_defs wf_header_def)
  from write_ok [OF j(7,10-12) p(1), of "set_node_ackSeqNum ?ack", OF node_restamps(2) this]
  obtain m hs tmp where w: "tx_write (txManager n, tmpEmptyPacketHeader n, tmpPacket n) q (\<lambda>p. Inr (set_node_ackSeqNum ?ack p))
      = Inr (m, hs, tmp)" "node_mem_ok (m, hs, tmp) (Some q)" "tx_deref (m, hs, tmp) q = Inr (set_node_ackSeqNum ?ack p)"
    by (metis prod_cases3)
  have none: "node_mem_ok (m, hs, tmp) None" using mem_okD(1-4) [OF w(2)] by (simp add: node_mem_ok_def)
  let ?n1 = "n\<lparr>txManager := m, tmpEmptyPacketHeader := hs, tmpPacket := tmp\<rparr>"
  have q1: "nodeQuickUpdateTxPacket n = Inr ?n1"
    using ptr w(1) j(9) by (simp add: nodeQuickUpdateTxPacket_def node_memory_def with_node_memory_def)
  then show ?thesis
    using w(3) none inv p(2)
    by (simp add: nodeSendTxPacket_def node_memory_def node_inv_def node_ok_def handed_out_def Let_def sends_ack points_ok_def)
qed

lemma getTx_inv:
  assumes inv: "node_inv b n"
  shows "\<exists>ptr n'. nodeGetTxPacket n = Inr (ptr, n') \<and> node_inv b n' \<and> handed_out n' ptr"
proof (cases "nextTxPacket n")
  case None
  then show ?thesis using inv by (simp add: nodeGetTxPacket_def handed_out_def)
next
  case (Some q)
  have send: "\<exists>n'. nodeSendTxPacket n1 q = Inr (Some q, n') \<and> node_inv b n' \<and> handed_out n' (Some q)"
    if "node_inv b n1" "nextTxPacket n1 = Some q" for n1 using sendTx_inv [OF that] .
  show ?thesis
  proof (cases "nodeId n = UNALLOCATED_NODE_ID")
    case False
    then show ?thesis using Some send [OF inv Some] by (auto simp: nodeGetTxPacket_def)
  next
    case un: True
    show ?thesis
    proof (cases "nextNewNodeResponseCountdown n = 0")
      case True
      obtain r s where rs: "customRand (seed n) = (r, s)" by (cases "customRand (seed n)")
      let ?n1 = "n\<lparr>stats := (stats n)\<lparr>st_newNodeRequest := st_newNodeRequest (stats n) + 1\<rparr>,
        nextNewNodeResponseCountdown := newNodeBackoff_of r, seed := s\<rparr>"
      have "node_inv b ?n1" "nextTxPacket ?n1 = Some q" using inv Some by (simp_all add: node_inv_def)
      from send [OF this] show ?thesis using Some un True rs by (auto simp: nodeGetTxPacket_def)
    next
      case False
      then show ?thesis using Some un inv by (simp add: nodeGetTxPacket_def handed_out_def node_inv_def)
    qed
  qed
qed

section \<open>The calls\<close>

lemma preProcess_inv:
  assumes inv: "node_inv False n" and ok: "\<not> crc \<Longrightarrow> from_master (node_input n)"
  shows "\<exists>ptr mem n'. nodeDualChannelPipelinedPreProcess n None mem0 crc = Inr (ptr, mem, n') \<and> node_inv True n' \<and>
    handed_out n' ptr"
proof -
  obtain n1 where n1: "nodeQuickProcessPrevRx n crc = Inr n1" "node_inv True n1" using quick_inv [OF assms] by blast
  obtain n2 where n2: "nodeUpdateSchedule n1 = Inr n2" "node_inv True n2" using updateSchedule_inv [OF n1(2)] by blast
  obtain ptr n3 where "nodeGetTxPacket n2 = Inr (ptr, n3)" "node_inv True n3" "handed_out n3 ptr"
    using getTx_inv [OF n2(2)] by blast
  moreover have "handed_out n2 None" by (simp add: handed_out_def)
  ultimately show ?thesis
    using node_invD(1) [OF inv] n1(1) n2 by (simp add: nodeDualChannelPipelinedPreProcess_def)
qed

lemma checkTimedOut_inv:
  assumes "node_inv b n"
  shows "\<exists>n'. nodeCheckIfTimedOut n = Inr n' \<and> node_inv b n'"
  using assms node_remove [OF assms] by (auto simp: nodeCheckIfTimedOut_def)

lemma postProcess_inv:
  assumes inv: "node_inv True n"
  shows "\<exists>n'. nodeDualChannelPipelinedPostProcess n = Inr n' \<and> node_inv False n'"
proof -
  obtain n1 where n1: "nodeCheckIfTimedOut n = Inr n1" "node_inv True n1" using checkTimedOut_inv [OF inv] by blast
  obtain n2 where n2: "nodeProcessRx n1 = Inr n2" "node_inv False n2" using processRx_inv [OF n1(2)] by blast
  from processTx_inv [OF n2(2)] show ?thesis
    using node_invD(1) [OF inv] n1(1) n2(1) by (simp add: nodeDualChannelPipelinedPostProcess_def)
qed

lemma singleRx_spec:
  assumes inv: "node_inv False n" and ok: "\<not> crc \<Longrightarrow> from_master (node_input n)"
  shows "\<exists>n'. nodeNoDelaySingleChannelProcessRx n crc = Inr n' \<and> node_inv False n' \<and>
    (let p = node_input n; taken = node_readable crc p \<and> node_wants n p in
     \<not> (node_readable crc p \<and> GET_PACKET_TYPE p = packet_code MASTER_RESET_PACKET) \<longrightarrow>
     node_queue n' = node_queue n @ (if taken then [p] else []) \<and>
     rxSeqNum (txManager n') ! 0 = (if taken then txSeqNum p else rxSeqNum (txManager n) ! 0))"
proof -
  obtain n1 where n1: "nodeQuickProcessPrevRx n crc = Inr n1" "node_inv True n1"
    "(if node_readable crc (node_input n) \<and> GET_PACKET_TYPE (node_input n) = packet_code MASTER_RESET_PACKET
     then nodeId n1 = UNALLOCATED_NODE_ID \<and> node_will_store n1 = []
     else node_rx_effect (node_readable crc (node_input n) \<and> node_wants n (node_input n)) n n1)"
    using quick_inv [OF assms] by blast
  from processRx_inv [OF n1(2)] obtain n2 where "nodeProcessRx n1 = Inr n2" "node_inv False n2"
    "node_queue n2 = node_queue n1 @ node_will_store n1" "rxSeqNum (txManager n2) = rxSeqNum (txManager n1)" by blast
  then show ?thesis
    using node_invD(1) [OF inv] n1(1,3) by (simp add: nodeNoDelaySingleChannelProcessRx_def Let_def node_rx_effect_def split: if_splits)
qed

lemma singleTx_inv:
  assumes inv: "node_inv b n"
  shows "\<exists>ptr n'. nodeNoDelaySingleChannelProcessTx n ptr0 = Inr (ptr, n') \<and> node_inv b n' \<and> handed_out n' ptr"
proof -
  obtain n1 where n1: "nodeProcessTx n = Inr n1" "node_inv b n1" using processTx_inv [OF inv] by blast
  from getTx_inv [OF n1(2)] show ?thesis
    using node_invD(1) [OF inv] n1(1) by (simp add: nodeNoDelaySingleChannelProcessTx_def)
qed

lemma txMode_inv:
  assumes inv: "node_inv b n"
  shows "\<exists>t n'. nodeIsTxMode n = Inr (t, n') \<and> node_inv b n'"
proof -
  obtain n1 where n1: "nodeCheckIfTimedOut n = Inr n1" "node_inv b n1" using checkTimedOut_inv [OF inv] by blast
  from updateSchedule_inv [OF n1(2)] show ?thesis
    using node_invD(1) [OF inv] n1(1) by (auto simp: nodeIsTxMode_def)
qed

subsection \<open>The application\<close>

text \<open>Changing the transmit manager only, with the pointer's packet kept up.\<close>

lemma node_inv_tx:
  assumes inv: "node_inv b n" and m: "node_tx_ok m"
    and ptr: "\<And>q p. tx_deref (txManager n, tmpEmptyPacketHeader n, tmpPacket n) q = Inr p \<Longrightarrow> points_ok q p \<Longrightarrow>
      \<exists>p'. tx_deref (m, tmpEmptyPacketHeader n, tmpPacket n) q = Inr p' \<and> points_ok q p'"
  shows "node_inv b (n\<lparr>txManager := m, stats := st\<rparr>)"
proof -
  note j = mem_okD [OF node_invD(5) [OF inv]]
  have "node_mem_ok (m, tmpEmptyPacketHeader n, tmpPacket n) (nextTxPacket n)"
    using m j(2-4) j(5) ptr by (fastforce simp: node_mem_ok_def)
  then show ?thesis using inv by (simp add: node_inv_def node_ok_def)
qed

lemma node_tx_len:
  assumes "dst_ok m' = dst_ok m" and "length (txSeqNumStart m) = 1" and "tx_inv False m'"
  shows "length (txSeqNumStart m') = 1"
proof -
  have "dst_ok m' 0" using assms(1,2) by (simp add: dst_ok_def)
  then show ?thesis using assms(3) by (auto simp: dst_ok_def tx_inv_def tx_core_def tx_shape_def)
qed

lemma allocate_inv:
  assumes inv: "node_inv b n" and none: "allocatedPacket (txManager n) = None"
  shows "\<exists>r n'. nodeAllocateTxPacket n = Inr (r, n') \<and> node_inv b n'"
proof -
  let ?m = "txManager n"
  have m: "tx_inv False ?m" "length (txSeqNumStart ?m) = 1" "\<forall>p\<in>set (pending False ?m 0). node_packet p" "dst_ok ?m 0"
    using node_invD(7,8) [OF inv] by (simp_all add: node_tx_ok_def)
  have "\<exists>r m'. allocateTxPacket ?m = Inr (r, m') \<and> node_tx_ok m'"
  proof (cases "\<exists>e\<in>set (es ?m). \<not> inUse e")
    case True
    from allocate_free [OF m(1) none True] obtain a m' where a: "allocateTxPacket ?m = Inr (Some a, m')" "tx_inv False m'"
      "dst_ok m' = dst_ok ?m" "\<forall>d. dst_ok ?m d \<longrightarrow> window_of False m' d = window_of False ?m d" by blast
    have "pending False m' 0 = pending False ?m 0" using a(4) m(4) by (simp add: window_of_def)
    then show ?thesis using a(1,2) m(3) node_tx_len [OF a(3) m(2) a(2)] by (simp add: node_tx_ok_def)
  next
    case False
    then show ?thesis using allocate_full [OF m(1)] m by (simp add: node_tx_ok_def)
  qed
  then obtain r m' where a: "allocateTxPacket ?m = Inr (r, m')" "node_tx_ok m'" by blast
  have pk: "packets m' = packets ?m" using all_resD [OF allocate_packets a(1)] by (simp add: same_packets_def)
  have "node_inv b (n\<lparr>txManager := m', stats := st\<rparr>)" for st
    by (rule node_inv_tx [OF inv a(2)]) (simp add: deref_packets [OF pk])
  from this [of "stats n"] this show ?thesis
    using a(1) by (cases r) (auto simp: nodeAllocateTxPacket_def nodeAllocateTxPacketFull_def Let_def)
qed

lemma fill_inv:
  assumes inv: "node_inv b n" and len: "length bytes = MASTER_PACKET_DATA_SIZE"
  shows "node_inv b (n\<lparr>txManager := tx_fill bytes (txManager n)\<rparr>)"
proof -
  let ?m = "txManager n" and ?m' = "tx_fill bytes (txManager n)"
  have m: "tx_inv False ?m" "length (txSeqNumStart ?m) = 1" "\<forall>p\<in>set (pending False ?m 0). node_packet p" "dst_ok ?m 0"
    using node_invD(7,8) [OF inv] by (simp_all add: node_tx_ok_def)
  note f = tx_fill_spec [OF m(1) len]
  have "pending False ?m' 0 = pending False ?m 0" using restamps_eq [OF f(2) m(4)] by (simp add: window_of_def)
  moreover have "dst_ok ?m' = dst_ok ?m" using f(2) by (simp add: restamps_def)
  ultimately have ok: "node_tx_ok ?m'" using f(1) m(3) node_tx_len [OF _ m(2) f(1)] by (simp add: node_tx_ok_def)
  have ptr: "\<exists>p'. tx_deref (?m', hs, tmp) q = Inr p' \<and> points_ok q p'"
    if d: "tx_deref (?m, hs, tmp) q = Inr p" "points_ok q p" for q p hs tmp
  proof -
    have filled: "points_ok (Tx_Entry i) (p\<lparr>udata := bytes\<rparr>)" if "q = Tx_Entry i" for i
    proof -
      have "node_packet p" "node_bufferLevel p > 0" "wf_header p" using d(2) that by (simp_all add: points_ok_def)
      then have "node_packet (p\<lparr>udata := bytes\<rparr>)" "node_bufferLevel (p\<lparr>udata := bytes\<rparr>) > 0" "wf_header (p\<lparr>udata := bytes\<rparr>)"
        by (simp_all add: node_packet_def node_srcNodeId_def node_bufferLevel_def wf_header_def)
      then show ?thesis using node_packet_sends by (simp add: points_ok_def)
    qed
    from f(3) show ?thesis
    proof (elim disjE exE)
      assume "packets ?m' = packets ?m"
      then show ?thesis using d deref_packets by metis
    next
      fix i assume u: "packets ?m' = (packets ?m)[i := (packets ?m ! i)\<lparr>udata := bytes\<rparr>]"
      have "packets ?m ! i = p" if "q = Tx_Entry i" using d(1) that by (simp add: deref_entry rd_eq_Inr del: tx_deref.simps)
      then show ?thesis using deref_upd [OF u d(1)] d(2) filled by (cases "q = Tx_Entry i") auto
    qed
  qed
  have "node_inv b (n\<lparr>txManager := ?m', stats := stats n\<rparr>)" by (rule node_inv_tx [OF inv ok]) (rule ptr)
  then show ?thesis by simp
qed

lemma nodeSubmit_inv:
  assumes inv: "node_inv b n" and a: "allocatedPacket (txManager n) \<noteq> None" and alloc: "nodeId n \<noteq> UNALLOCATED_NODE_ID"
    and sz: "0 < unat k" "unat k < MAX_PACKET_DATA_SIZE"
  shows "\<exists>n'. nodeSubmitAllocatedTxPacket n d k = Inr n' \<and> node_inv b n'"
proof -
  let ?m = "txManager n"
  have m: "tx_inv False ?m" "length (txSeqNumStart ?m) = 1" "\<forall>p\<in>set (pending False ?m 0). node_packet p" "dst_ok ?m 0"
    using node_invD(7,8) [OF inv] by (simp_all add: node_tx_ok_def)
  obtain i where i: "allocatedPacket ?m = Some i" using a by blast
  have id: "node_id (nodeId n)" "unat (nodeId n) < 64" using node_invD(3) [OF inv] alloc by (auto simp: node_id_def)
  from submit_spec [OF m(1) i m(4), of 0 0 "nodeId n" NODE_DATA_PACKET k] id obtain m' where
    s: "submitAllocatedTxPacket ?m False 0 0 (nodeId n) 0 NODE_DATA_PACKET k = Inr m'" "tx_inv False m'"
    "only_at False ?m m' 0"
    "window_of False m' 0 = w_push (stampPacket False NODE_DATA_PACKET k (nodeId n) 0 (end_of ?m 0) (packet (es ?m ! i))) (window_of False ?m 0)"
    by auto
  have len: "i < length (es ?m)" using m(1) i by (simp add: tx_inv_def tx_core_def tx_first_def)
  have wf: "wf_packet (packet (es ?m ! i))" using m(1) len by (simp add: tx_inv_def tx_core_def tx_shape_def)
  have stamped: "node_packet (stampPacket False NODE_DATA_PACKET k (nodeId n) 0 seq p)" if "wf_packet p" for seq p
    using stamp_facts(4) [OF that, of False] stamp_facts(6-8) [OF that] sz id(1) by (simp add: node_packet_def)
  have "pending False m' 0 = pending False ?m 0 @ [stampPacket False NODE_DATA_PACKET k (nodeId n) 0 (end_of ?m 0) (packet (es ?m ! i))]"
    using s(4) by (simp add: window_of_def w_push_def)
  then have ok: "node_tx_ok m'" using s(2,3) m(3) stamped [OF wf] node_tx_len [OF _ m(2) s(2)]
    by (auto simp: node_tx_ok_def only_at_def)
  have ptr: "\<exists>p'. tx_deref (m', hs, tmp) q = Inr p' \<and> points_ok q p'"
    if d: "tx_deref (?m, hs, tmp) q = Inr p" "points_ok q p" for q p hs tmp
  proof -
    have "stamps False NODE_DATA_PACKET k (nodeId n) 0 ?m m'" using all_resD [OF submit_packets s(1)] .
    then consider "packets m' = packets ?m"
      | seq where "packets m' = (packets ?m)[i := stampPacket False NODE_DATA_PACKET k (nodeId n) 0 seq (packets ?m ! i)]"
      using i by (auto simp: stamps_def)
    then show ?thesis
    proof cases
      case 1
      then show ?thesis using d deref_packets by metis
    next
      case (2 seq)
      let ?p = "stampPacket False NODE_DATA_PACKET k (nodeId n) 0 seq p"
      have pi: "packets ?m ! i = p" "wf_packet p" "node_bufferLevel p > 0" "wf_header p" if "q = Tx_Entry i"
        using d that len wf by (auto simp: points_ok_def and_then_eq_Inr rd_eq_Inr)
      have "points_ok (Tx_Entry i) ?p" if "q = Tx_Entry i"
      proof -
        note p = pi [OF that]
        have "node_packet ?p" by (rule stamped [OF p(2)])
        moreover have "node_bufferLevel ?p > 0" "wf_header ?p"
          using p(3,4) by (simp_all add: stampPacket_def Let_def packet_view_defs wf_header_def)
        ultimately show ?thesis using node_packet_sends by (simp add: points_ok_def)
      qed
      then show ?thesis using deref_upd [OF 2 d(1)] d(2) pi(1) by (cases "q = Tx_Entry i") auto
    qed
  qed
  have "node_inv b (n\<lparr>txManager := m', stats := stats n\<rparr>)" by (rule node_inv_tx [OF inv ok]) (rule ptr)
  then show ?thesis using s(1) i sz by (simp add: nodeSubmitAllocatedTxPacket_def)
qed

subsection \<open>Reading\<close>

lemma node_queue_front:
  assumes inv: "node_inv b n"
  shows "nodePeekNextRxDataPacketFull n = Inr (case rx_pointers (rxPacketManager n) of [] \<Rightarrow> None | i # _ \<Rightarrow> Some i)"
    and "node_queue n = [] \<longleftrightarrow> rx_count (rxPacketManager n) = 0"
proof -
  let ?rpm = "rxPacketManager n"
  have wf: "wf_rpm ?rpm" and nh: "no_holes ?rpm"
    using node_invD(6) [OF inv] by (auto simp: node_rx_ok_def dest: rx_holdD(1))
  note f = no_holes_front [OF wf nh]
  show e: "node_queue n = [] \<longleftrightarrow> rx_count ?rpm = 0" using f(1) by (simp add: node_queue_def)
  show "nodePeekNextRxDataPacketFull n = Inr (case rx_pointers ?rpm of [] \<Rightarrow> None | i # _ \<Rightarrow> Some i)"
  proof (cases "rx_count ?rpm = 0")
    case True
    then have "rx_pointers ?rpm = []" using e by (simp add: node_queue_def rx_contents_def)
    then show ?thesis using True wf by (simp add: nodePeekNextRxDataPacketFull_def Let_def rx_empty_iff)
  next
    case False
    then obtain j ps where "rx_pointers ?rpm = j # ps" "rxPacketQueue ?rpm ! unat (rx_start ?rpm) = Some j" using f(2) by blast
    then show ?thesis using False wf wf_rpmD(2,3) [OF wf]
      by (simp add: nodePeekNextRxDataPacketFull_def Let_def rx_empty_iff CIRCULAR_BUFFER_PEEK_def)
  qed
qed

text \<open>The node has its own copy of the pop of the shared buffer.\<close>

lemma nodePop_copy:
  "nodePopNextDataPacket n = and_then (popNextDataPacket (rxPacketManager n)) (\<lambda>rpm. Inr (True, n\<lparr>rxPacketManager := rpm\<rparr>))"
  by (cases "CIRCULAR_BUFFER_PEEK (rx_start (rxPacketManager n)) (rx_end (rxPacketManager n)) (maxRxPacketEntries (rxPacketManager n))")
    (auto simp: nodePopNextDataPacket_def popNextDataPacket_def Let_def and_then_assoc intro!: and_then_cong split: option.split)

lemma nodePop_inv:
  assumes inv: "node_inv b n" and ne: "rx_count (rxPacketManager n) \<noteq> 0"
  shows "\<exists>n'. nodePopNextDataPacket n = Inr (True, n') \<and> node_inv b n' \<and> node_queue n' = tl (node_queue n)"
proof -
  let ?rpm = "rxPacketManager n" and ?prev = "node_prev b (validRxPacket n) (prevRxPacketEntry n)"
  note j = node_invD [OF inv]
  have rx: "rx_hold ?rpm (nextRxPacketEntry n) ?prev" "no_holes ?rpm" "maxRxPacketEntries ?rpm > 2"
    "\<forall>p\<in>set (rx_contents ?rpm). 0 < unat (GET_PACKET_DATA_SIZE p)" using j(6) by (simp_all add: node_rx_ok_def)
  note wf = rx_holdD(1) [OF rx(1)]
  obtain i ps where p: "rx_pointers ?rpm = i # ps" "rx_cells ?rpm \<noteq> []" "hd (rx_cells ?rpm) = Some i"
    using no_holes_front(2) [OF wf rx(2) ne] by blast
  from hold_pop [OF rx(1) p(2)] p(3) obtain rpm where r: "popNextDataPacket ?rpm = Inr rpm"
    "rx_hold rpm (nextRxPacketEntry n) ?prev" "rx_contents ?rpm \<noteq> []" "rx_contents rpm = tl (rx_contents ?rpm)"
    "rx_packet rpm = rx_packet ?rpm" "rx_max rpm = rx_max ?rpm" by auto
  have "rx_cells rpm = tl (rx_cells ?rpm)" using popNextDataPacket_spec [OF wf p(2,3)] r(1) by auto
  then have "no_holes rpm" using rx(2) by (auto simp: no_holes_def dest: list.set_sel(2) [OF p(2)])
  then have "node_rx_ok rpm (nextRxPacketEntry n) ?prev"
    using j(6) r rx by (auto simp: node_rx_ok_def u8_less_iff dest: list.set_sel(2) [OF r(3)])
  then have "node_inv b (n\<lparr>rxPacketManager := rpm\<rparr>)" using inv by (simp add: node_inv_def node_ok_def)
  then show ?thesis using r(1,4) by (simp add: nodePop_copy node_queue_def)
qed

interpretation nodeq: fifo_reader "node_inv b" node_queue "\<lambda>n. rx_count (rxPacketManager n) \<noteq> 0"
  "\<lambda>n. and_then (nodePeekNextRxDataPacketFull n) (\<lambda>r. Inr (r, n))"
  "\<lambda>n. and_then (nodePopNextDataPacket n) (\<lambda>(_, n'). Inr n')" "\<lambda>n. rx_packet (rxPacketManager n)" for b
proof (unfold_locales, goal_cases)
  case (1 n)
  then have "rx_pointers (rxPacketManager n) = []" by (simp add: node_queue_def rx_contents_def)
  then show ?case using 1 node_queue_front(1) [OF 1(1)] by simp
next
  case (2 n m ms)
  then obtain i ps where "rx_pointers (rxPacketManager n) = i # ps" "rx_packet (rxPacketManager n) i = m"
    by (auto simp: node_queue_def rx_contents_def)
  then show ?case using 2 node_queue_front [OF 2(1)] by simp
next
  case (3 n)
  then show ?case using nodePop_inv by fastforce
qed

lemma nodePeek_total:
  assumes inv: "node_inv b n"
  shows "\<exists>r. nodePeekNextRxDataPacket n = Inr r \<and> (r \<noteq> None \<longleftrightarrow> rx_count (rxPacketManager n) \<noteq> 0)"
proof -
  let ?rpm = "rxPacketManager n"
  have rx: "rx_hold ?rpm (nextRxPacketEntry n) (node_prev b (validRxPacket n) (prevRxPacketEntry n))"
    "\<forall>p\<in>set (rx_contents ?rpm). 0 < unat (GET_PACKET_DATA_SIZE p)"
    using node_invD(6) [OF inv] by (simp_all add: node_rx_ok_def)
  note q = node_queue_front [OF inv]
  show ?thesis
  proof (cases "rx_pointers ?rpm")
    case Nil
    then show ?thesis using q by (simp add: nodePeekNextRxDataPacket_def node_queue_def rx_contents_def)
  next
    case (Cons i ps)
    then have i: "i < rx_max ?rpm" "rx_packet ?rpm i \<in> set (rx_contents ?rpm)"
      using wf_rpmD(8) [OF rx_holdD(1) [OF rx(1)], of i] by (simp_all add: rx_contents_def)
    have "GET_PACKET_DATA_SIZE (rx_packet ?rpm i) > 0" using rx(2) i(2) by (simp add: unat_gt_0 word_gt_0)
    moreover have "rx_count ?rpm \<noteq> 0" using q(2) Cons by (auto simp: node_queue_def rx_contents_def)
    ultimately show ?thesis using q(1) Cons hold_entry [OF rx(1) i(1)] by (simp add: nodePeekNextRxDataPacket_def)
  qed
qed

section \<open>Any sequence of calls\<close>

datatype node_call =
    Node_Receive tPacket
  | Node_Pre bool
  | Node_Post
  | Node_Single_Rx bool
  | Node_Single_Tx
  | Node_Tx_Mode
  | Node_Time u32
  | Node_Alloc
  | Node_Fill "u8 list"
  | Node_Submit u16
  | Node_Read

text \<open>The packet that goes to the transmitter.\<close>

definition node_on_air :: "tTxPtr option \<Rightarrow> tNode \<Rightarrow> tPacket option res" where
  "node_on_air ptr n = (case ptr of None \<Rightarrow> Inr None | Some q \<Rightarrow> and_then (tx_deref (node_memory n) q) (\<lambda>p. Inr (Some p)))"

definition node_receive :: "tPacket \<Rightarrow> tNode \<Rightarrow> tNode" where
  "node_receive p n = n\<lparr>rxPacketManager := rx_deliver p (nextRxPacketEntry n) (rxPacketManager n)\<rparr>"

text \<open>
  The flag tells the time between the two halves of a slot. The result is the packet that the
  call hands to the transmitter, if any.
\<close>

fun node_do :: "node_call \<Rightarrow> bool \<times> tNode \<Rightarrow> (tPacket option \<times> bool \<times> tNode) res" where
  "node_do (Node_Receive p) (busy, n) = Inr (None, busy, node_receive p n)"
| "node_do (Node_Pre crc) (busy, n) = and_then (nodeDualChannelPipelinedPreProcess n None None crc) (\<lambda>(ptr, mem, n').
     and_then (node_on_air ptr n') (\<lambda>out. Inr (out, True, n')))"
| "node_do Node_Post (busy, n) = and_then (nodeDualChannelPipelinedPostProcess n) (\<lambda>n'. Inr (None, False, n'))"
| "node_do (Node_Single_Rx crc) (busy, n) =
     and_then (nodeNoDelaySingleChannelProcessRx n crc) (\<lambda>n'. Inr (None, busy, n'))"
| "node_do Node_Single_Tx (busy, n) = and_then (nodeNoDelaySingleChannelProcessTx n None) (\<lambda>(ptr, n').
     and_then (node_on_air ptr n') (\<lambda>out. Inr (out, busy, n')))"
| "node_do Node_Tx_Mode (busy, n) = and_then (nodeIsTxMode n) (\<lambda>(_, n'). Inr (None, busy, n'))"
| "node_do (Node_Time us) (busy, n) = Inr (None, busy, nodeUpdateTimeUs n us)"
| "node_do Node_Alloc (busy, n) = and_then (nodeAllocateTxPacket n) (\<lambda>(_, n'). Inr (None, busy, n'))"
| "node_do (Node_Fill bytes) (busy, n) = Inr (None, busy, n\<lparr>txManager := tx_fill bytes (txManager n)\<rparr>)"
| "node_do (Node_Submit k) (busy, n) =
     and_then (nodeSubmitAllocatedTxPacket n MASTER_NODE_ID k) (\<lambda>n'. Inr (None, busy, n'))"
| "node_do Node_Read (busy, n) = and_then (nodePeekNextRxDataPacket n) (\<lambda>r.
     if r = None then Inr (None, busy, n)
     else and_then (nodePopNextDataPacket n) (\<lambda>(_, n'). Inr (None, busy, n')))"

text \<open>
  The two halves of a slot alternate, a packet received without a CRC error is a correct
  master's, and the application allocates once per submission, with a size that fits and an id
  to submit under.
\<close>

fun node_allowed :: "node_call \<Rightarrow> bool \<times> tNode \<Rightarrow> bool" where
  "node_allowed (Node_Receive p) (busy, n) = wf_packet p"
| "node_allowed (Node_Pre crc) (busy, n) = (\<not> busy \<and> (crc \<or> from_master (node_input n)))"
| "node_allowed Node_Post (busy, n) = busy"
| "node_allowed (Node_Single_Rx crc) (busy, n) = (\<not> busy \<and> (crc \<or> from_master (node_input n)))"
| "node_allowed Node_Alloc (busy, n) = (allocatedPacket (txManager n) = None)"
| "node_allowed (Node_Fill bytes) (busy, n) = (length bytes = MASTER_PACKET_DATA_SIZE)"
| "node_allowed (Node_Submit k) (busy, n) = (allocatedPacket (txManager n) \<noteq> None \<and>
     nodeId n \<noteq> UNALLOCATED_NODE_ID \<and> 0 < unat k \<and> unat k < MAX_PACKET_DATA_SIZE)"
| "node_allowed _ (busy, n) = True"

lemma receive_inv:
  assumes inv: "node_inv b n" and p: "wf_packet p"
  shows "node_inv b (node_receive p n)"
proof -
  let ?rpm = "rxPacketManager n" and ?i = "nextRxPacketEntry n" and ?prev = "node_prev b (validRxPacket n) (prevRxPacketEntry n)"
  have rx: "node_rx_ok ?rpm ?i ?prev" by (rule node_invD(6) [OF inv])
  then have hold: "rx_hold ?rpm ?i ?prev" by (simp add: node_rx_ok_def)
  note d = hold_deliver [OF hold p]
  have "j \<noteq> ?i" if "?prev = Some j" for j using hold that by (simp add: rx_hold_def)
  then have "node_rx_ok (rx_deliver p ?i ?rpm) ?i ?prev" using rx d by (auto simp: node_rx_ok_def u8_less_iff)
  then show ?thesis using inv by (simp add: node_inv_def node_ok_def node_receive_def)
qed

lemma on_air:
  assumes "handed_out n ptr"
  shows "\<exists>out. node_on_air ptr n = Inr out \<and> (\<forall>p. out = Some p \<longrightarrow> node_sends p)"
  using assms by (cases ptr) (auto simp: handed_out_def node_on_air_def)

lemma read_inv:
  assumes inv: "node_inv b n"
  shows "\<exists>n'. node_do Node_Read (b, n) = Inr (None, b, n') \<and> node_inv b n' \<and> node_queue n' = tl (node_queue n)"
proof -
  obtain r where r: "nodePeekNextRxDataPacket n = Inr r" "r \<noteq> None \<longleftrightarrow> rx_count (rxPacketManager n) \<noteq> 0"
    using nodePeek_total [OF inv] by blast
  show ?thesis
  proof (cases "r = None")
    case True
    then show ?thesis using r inv node_queue_front(2) [OF inv] by simp
  next
    case False
    then obtain n' where "nodePopNextDataPacket n = Inr (True, n')" "node_inv b n'" "node_queue n' = tl (node_queue n)"
      using nodePop_inv [OF inv] r(2) by blast
    then show ?thesis using r(1) False by auto
  qed
qed

lemma node_step:
  assumes inv: "node_inv (fst s) (snd s)" and ok: "node_allowed c s"
  shows "\<exists>out s'. node_do c s = Inr (out, s') \<and> node_inv (fst s') (snd s') \<and> (\<forall>p. out = Some p \<longrightarrow> node_sends p)"
proof -
  obtain b n where s: "s = (b, n)" by (cases s)
  note inv = inv [unfolded s fst_conv snd_conv]
  show ?thesis
  proof (cases c)
    case (Node_Receive p)
    then show ?thesis using ok s receive_inv [OF inv] by simp
  next
    case (Node_Pre crc)
    then have "node_inv False n" "\<not> crc \<Longrightarrow> from_master (node_input n)" using ok s inv by auto
    from preProcess_inv [OF this, of crc None] obtain ptr mem n' where
      "nodeDualChannelPipelinedPreProcess n None None crc = Inr (ptr, mem, n')" "node_inv True n'" "handed_out n' ptr" by blast
    then show ?thesis using on_air [of n' ptr] Node_Pre s by auto
  next
    case Node_Post
    then show ?thesis using ok s inv postProcess_inv [of n] by auto
  next
    case (Node_Single_Rx crc)
    then have "node_inv False n" "\<not> crc \<Longrightarrow> from_master (node_input n)" and b: "\<not> b" using ok s inv by auto
    from singleRx_spec [of n crc, OF this(1,2)] show ?thesis using Node_Single_Rx s b by auto
  next
    case Node_Single_Tx
    from singleTx_inv [OF inv, of None] obtain ptr n' where
      "nodeNoDelaySingleChannelProcessTx n None = Inr (ptr, n')" "node_inv b n'" "handed_out n' ptr" by blast
    then show ?thesis using on_air [of n' ptr] Node_Single_Tx s by auto
  next
    case Node_Tx_Mode
    then show ?thesis using s txMode_inv [OF inv] by auto
  next
    case (Node_Time us)
    then show ?thesis using s inv by (simp add: nodeUpdateTimeUs_def node_inv_def)
  next
    case Node_Alloc
    then show ?thesis using ok s allocate_inv [OF inv] by auto
  next
    case (Node_Fill bytes)
    then show ?thesis using ok s fill_inv [OF inv] by auto
  next
    case (Node_Submit k)
    then show ?thesis using ok s nodeSubmit_inv [OF inv, of k MASTER_NODE_ID] by auto
  next
    case Node_Read
    then show ?thesis using s read_inv [OF inv] by auto
  qed
qed

text \<open>A node as it is set up: at least three receive entries, a store of at most 254.\<close>

definition node_config :: "u64 \<Rightarrow> u8 \<Rightarrow> tPacketEntry list \<Rightarrow> u8 \<Rightarrow> bool" where
  "node_config uid k ps maxRx \<longleftrightarrow> maxRx > 2 \<and> uid \<noteq> 0 \<and> length ps = unat k \<and> unat k < 255 \<and>
     (\<forall>e\<in>set ps. wf_packet (packet e))"

inductive node_reach :: "bool \<times> tNode \<Rightarrow> bool" where
  Init: "nodeInit uid k ps maxRx = Inr n \<Longrightarrow> node_config uid k ps maxRx \<Longrightarrow> node_reach (False, n)"
| Call: "node_reach s \<Longrightarrow> node_allowed c s \<Longrightarrow> node_do c s = Inr (out, s') \<Longrightarrow> node_reach s'"

lemma config_inv:
  assumes "node_config uid k ps maxRx"
  shows "\<exists>n. nodeInit uid k ps maxRx = Inr n \<and> node_inv b n"
  using assms node_init [of maxRx uid ps k b] by (auto simp: node_config_def)

lemma node_reach_inv: "node_reach s \<Longrightarrow> node_inv (fst s) (snd s)"
proof (induction rule: node_reach.induct)
  case (Init uid k ps maxRx n)
  then show ?case using config_inv [OF Init(2), of False] by simp
next
  case (Call s c out s')
  then show ?case using node_step [OF Call.IH Call.hyps(2)] by auto
qed

section \<open>Properties\<close>





lemma submit_outcome:
  assumes inv: "node_inv b n"
  shows "case nodeSubmitAllocatedTxPacket n d k of
     Inl e \<Rightarrow> e = Assert_Failed \<and>
       (unat k > MASTER_PACKET_DATA_SIZE \<or> allocatedPacket (txManager n) = None \<or> nodeId n = UNALLOCATED_NODE_ID)
   | Inr n' \<Rightarrow> \<exists>i. allocatedPacket (txManager n) = Some i \<and> nodeId n \<noteq> UNALLOCATED_NODE_ID \<and>
       pending False (txManager n') 0 = pending False (txManager n) 0 @
         [stampPacket False NODE_DATA_PACKET k (nodeId n) 0 (end_of (txManager n) 0) (packet (es (txManager n) ! i))]"
proof (cases "unat k > MASTER_PACKET_DATA_SIZE \<or> allocatedPacket (txManager n) = None")
  case True
  then show ?thesis by (auto simp: nodeSubmitAllocatedTxPacket_def microbusAssert_def)
next
  case False
  then obtain i where i: "allocatedPacket (txManager n) = Some i" by blast
  show ?thesis
  proof (cases "nodeId n = UNALLOCATED_NODE_ID")
    case un: True
    then show ?thesis using False i
      by (simp add: nodeSubmitAllocatedTxPacket_def submitAllocatedTxPacket_def microbusAssert_def)
  next
    case alloc: False
    then have id: "unat (nodeId n) < 64" using node_invD(3) [OF inv] by (auto simp: node_id_def)
    have m: "tx_inv False (txManager n)" "dst_ok (txManager n) 0" using node_invD(7,8) [OF inv] by (simp_all add: node_tx_ok_def)
    from submit_spec [OF m(1) i m(2), of 0 0 "nodeId n" NODE_DATA_PACKET k] id obtain m' where
      s: "submitAllocatedTxPacket (txManager n) False 0 0 (nodeId n) 0 NODE_DATA_PACKET k = Inr m'"
      "window_of False m' 0 = w_push (stampPacket False NODE_DATA_PACKET k (nodeId n) 0 (end_of (txManager n) 0)
        (packet (es (txManager n) ! i))) (window_of False (txManager n) 0)" by auto
    then show ?thesis using False i alloc by (simp add: nodeSubmitAllocatedTxPacket_def window_of_def w_push_def)
  qed
qed

text \<open>
  Claim C32. Submitting on a node either appends the packet, stamped with the node's id, to the
  window to the master, or fails an assertion: exactly if it is larger than a packet, nothing is
  allocated, or the node has no id. The last happens to an application that follows the
  protocol: a time-out between allocation and submission resets the node.
\<close>

theorem node_submit_outcome:
  assumes "node_reach (b, n)"
  shows "case nodeSubmitAllocatedTxPacket n d k of
     Inl e \<Rightarrow> e = Assert_Failed \<and>
       (unat k > MASTER_PACKET_DATA_SIZE \<or> allocatedPacket (txManager n) = None \<or> nodeId n = UNALLOCATED_NODE_ID)
   | Inr n' \<Rightarrow> \<exists>i. allocatedPacket (txManager n) = Some i \<and> nodeId n \<noteq> UNALLOCATED_NODE_ID \<and>
       pending False (txManager n') 0 = pending False (txManager n) 0 @
         [stampPacket False NODE_DATA_PACKET k (nodeId n) 0 (end_of (txManager n) 0) (packet (es (txManager n) ! i))]"
  using submit_outcome [where b = b and n = n and d = d and k = k] node_reach_inv [OF assms] by simp

theorem node_submit_outcome_witness:
  "\<exists>n. nodeInit 5 2 [zero_entry, zero_entry] 3 = Inr n \<and> nodeSubmitAllocatedTxPacket n 0 5 = Inl Assert_Failed"
proof -
  have c: "node_config 5 2 [zero_entry, zero_entry] 3" by (simp add: node_config_def zero_entry_def)
  from node_init [of 3 5 "[zero_entry, zero_entry]" 2 False] c obtain n where
    n: "nodeInit 5 2 [zero_entry, zero_entry] 3 = Inr n" "nodeId n = UNALLOCATED_NODE_ID" by (auto simp: node_config_def)
  from node_submit_outcome [OF node_reach.Init [OF n(1) c], where d = 0 and k = 5] n show ?thesis
    by (auto split: sum.split_asm)
qed

text \<open>Reading by peek and pop hands out the queue in order, through the interface of the buffer.\<close>

lemma node_drain:
  assumes "node_reach (b, n)"
  shows "\<exists>n'. drain (\<lambda>n. and_then (nodePeekNextRxDataPacketFull n) (\<lambda>r. Inr (r, n)))
      (\<lambda>n. and_then (nodePopNextDataPacket n) (\<lambda>(_, n'). Inr n')) (\<lambda>n. rx_packet (rxPacketManager n)) k n
    = Inr (take k (node_queue n), n') \<and> node_inv b n' \<and> node_queue n' = drop k (node_queue n)"
  by (rule nodeq.drain_law) (use node_reach_inv [OF assms] in simp)

end
