(* ===== verification/NodeSlots.thy ===== *)
theory NodeSlots
  imports NodeProps
begin

text \<open>
  When a node transmits: the schedule it has heard, its own shift of it between two packets of
  the master, and the slots it takes.
\<close>

section \<open>Which calls touch the schedule and the received packet\<close>

text \<open>A reset clears both; only the quick check of a packet and the slot functions change them.\<close>

definition ids_kept :: "tNode \<Rightarrow> tNode \<Rightarrow> bool" where
  "ids_kept n n' \<longleftrightarrow> nextTxNodeId n' = nextTxNodeId n \<or> nextTxNodeId n' = replicate (MAX_TX_NODES_SCHEDULED + 1) 0"

definition heard_so_far :: "tNode \<Rightarrow> u8 list \<times> tPacket" where
  "heard_so_far n = (nextTxNodeId n, node_input n)"

definition calm :: "tNode \<Rightarrow> tNode \<Rightarrow> bool" where
  "calm n n' \<longleftrightarrow> heard_so_far n' = heard_so_far n \<or> heard_so_far n' = (replicate (MAX_TX_NODES_SCHEDULED + 1) 0, zero_packet)"

lemma calm_ids: "calm n n' \<Longrightarrow> ids_kept n n'"
  by (auto simp: calm_def ids_kept_def heard_so_far_def)

lemma calm_refl: "heard_so_far n' = heard_so_far n \<Longrightarrow> calm n n'"
  by (simp add: calm_def)

lemma calm_trans: "calm n n1 \<Longrightarrow> calm n1 n2 \<Longrightarrow> calm n n2"
  by (auto simp: calm_def)

lemma calm_bind:
  assumes "all_res (calm n) r" and "\<And>n1. all_res (calm n1) (f n1)"
  shows "all_res (calm n) (and_then r f)"
proof (rule all_res_bind)
  fix x
  assume "r = Inr x"
  with assms(1) have "calm n x" by simp
  then show "all_res (calm n) (f x)" using assms(2) [of x] by (auto elim!: all_res_weaken intro: calm_trans)
qed

lemma heard_cong:
  "nextTxNodeId n' = nextTxNodeId n \<Longrightarrow> nextRxPacketEntry n' = nextRxPacketEntry n \<Longrightarrow>
   rx_packet (rxPacketManager n') = rx_packet (rxPacketManager n) \<Longrightarrow> heard_so_far n' = heard_so_far n"
  by (simp add: heard_so_far_def node_input_def)

lemma init_heard: "nodeInit uid k ps maxRx = Inr n \<Longrightarrow> heard_so_far n = (replicate 5 0, zero_packet)"
proof -
  assume n: "nodeInit uid k ps maxRx = Inr n"
  then obtain i rpm where f: "findFreeRxPacket (rxManagerInit maxRx zero_rpm) = Inr (Some i, rpm)" "maxRx > 2"
    and n': "nextTxNodeId n = replicate 5 0" "nextRxPacketEntry n = i" "rxPacketManager n = rpm"
    by (auto simp: nodeInit_def and_then_eq_Inr split: option.split_asm)
  have "0 < maxRx" using f(2) by (simp add: u8_less_iff)
  from findFreeRxPacket_spec [OF wf_rxManagerInit(1,3) [OF this]] f(1)
  have "rx_packet rpm = rx_packet (rxManagerInit maxRx zero_rpm)" "i < unat maxRx" by (auto simp: rxManagerInit_def)
  then have "rx_packet rpm i = zero_packet" by (simp add: rx_packet_def rxManagerInit_def zero_entry_def)
  then show ?thesis using n' by (simp add: heard_so_far_def node_input_def)
qed

lemma remove_calm: "all_res (calm n) (nodeRemoveFromNetwork n)"
proof -
  have "calm n n'" if "nodeReset n = Inr m" "heard_so_far n' = heard_so_far m" for m n'
    using init_heard that by (auto simp: nodeReset_def calm_def)
  moreover have "heard_so_far (m\<lparr>stats := st\<rparr>) = heard_so_far m" for m st by (rule heard_cong) simp_all
  ultimately show ?thesis
    by (auto simp: nodeRemoveFromNetwork_def intro!: all_res_bind calm_refl)
qed

lemma timedOut_calm: "all_res (calm n) (nodeCheckIfTimedOut n)"
  by (simp add: nodeCheckIfTimedOut_def remove_calm calm_refl)

lemma keep_ids: "all_res (ids_kept n) (nodeKeepRxPacket p n)"
  by (auto simp: nodeKeepRxPacket_def Let_def ids_kept_def intro!: all_res_bind split: option.split)

lemma processRxData_calm: "all_res (calm n) (nodeProcessRxData n i)"
proof -
  have tail: "all_res (calm n) (if b then Inr n2 else and_then (set_rx_inUse i False (rxPacketManager n2))
      (\<lambda>rpm. Inr (n2\<lparr>rxPacketManager := rpm\<rparr>)))" if "heard_so_far n2 = heard_so_far n" for b n2
  proof -
    have "calm n (n2\<lparr>rxPacketManager := rpm\<rparr>)" if r: "set_rx_inUse i False (rxPacketManager n2) = Inr rpm" for rpm
      using in_use_packets [OF r] \<open>heard_so_far n2 = heard_so_far n\<close> by (simp add: calm_def heard_so_far_def node_input_def)
    then show ?thesis using that by (auto intro!: all_res_bind calm_refl)
  qed
  have bind: "all_res (\<lambda>(n2, _). heard_so_far n2 = heard_so_far n) r \<Longrightarrow>
      (\<And>n2 b. heard_so_far n2 = heard_so_far n \<Longrightarrow> all_res (calm n) (f (n2, b))) \<Longrightarrow> all_res (calm n) (and_then r f)"
    for r :: "(tNode \<times> bool) res" and f by (cases r) auto
  show ?thesis
    unfolding nodeProcessRxData_def Let_def
    by (rule all_res_bind, rule bind, (auto intro!: all_res_bind heard_cong simp: add_packets) [1],
      simp only: prod.case, rule tail)
qed

lemma processRx_calm: "all_res (calm n) (nodeProcessRx n)"
  unfolding nodeProcessRx_def
  by (rule calm_bind) (auto intro!: all_res_bind processRxData_calm calm_refl heard_cong)

definition same_ids :: "tNode \<Rightarrow> tNode \<Rightarrow> bool" where
  "same_ids n n' \<longleftrightarrow> heard_so_far n' = heard_so_far n \<and> nodeId n' = nodeId n"

lemma same_idsI:
  "nextTxNodeId n' = nextTxNodeId n \<Longrightarrow> nextRxPacketEntry n' = nextRxPacketEntry n \<Longrightarrow>
   rxPacketManager n' = rxPacketManager n \<Longrightarrow> nodeId n' = nodeId n \<Longrightarrow> same_ids n n'"
  by (simp add: same_ids_def heard_so_far_def node_input_def)

lemma same_ids_trans: "same_ids n n1 \<Longrightarrow> same_ids n1 n2 \<Longrightarrow> same_ids n n2"
  by (simp add: same_ids_def)

lemma same_ids_calm: "same_ids n n' \<Longrightarrow> calm n n'"
  by (simp add: same_ids_def calm_def)

lemma with_memory_same: "same_ids n (with_node_memory n mem)"
  by (cases mem) (simp add: with_node_memory_def same_idsI)

lemma processTx_calm: "all_res (calm n) (nodeProcessTx n)"
proof -
  have "same_ids n n2"
    if "(case r of None \<Rightarrow> nodeEmptyPacket (n\<lparr>txManager := m\<rparr>) | Some i \<Rightarrow> Inr (Tx_Entry i, n\<lparr>txManager := m\<rparr>)) = Inr (ptr, n2)" for r m ptr n2
    using that by (cases r) (auto simp: nodeEmptyPacket_def Let_def and_then_eq_Inr intro!: same_idsI)
  moreover have "same_ids n2 ((with_node_memory n2 mem)\<lparr>nextTxPacket := q\<rparr>)" for n2 mem q
    using with_memory_same [of n2 mem] by (simp add: same_ids_def heard_so_far_def node_input_def)
  ultimately have "calm n ((with_node_memory n2 mem)\<lparr>nextTxPacket := q\<rparr>)"
    if "(case r of None \<Rightarrow> nodeEmptyPacket (n\<lparr>txManager := m\<rparr>) | Some i \<Rightarrow> Inr (Tx_Entry i, n\<lparr>txManager := m\<rparr>)) = Inr (ptr, n2)" for r m ptr n2 mem q
    using that same_ids_trans same_ids_calm by blast
  then show ?thesis
    by (auto simp: nodeProcessTx_def Let_def intro!: all_res_bind calm_refl heard_cong split: prod.split)
qed

lemma quickUpdate_same: "all_res (same_ids n) (nodeQuickUpdateTxPacket n)"
  by (auto simp: nodeQuickUpdateTxPacket_def with_memory_same intro!: all_res_bind same_idsI split: option.split)

lemma sendTx_same: "all_res (\<lambda>(_, n'). same_ids n n') (nodeSendTxPacket n q)"
proof -
  have "same_ids n (n1\<lparr>nextTxPacket := q1, stats := st, timeToLive := t\<rparr>)" if "nodeQuickUpdateTxPacket n = Inr n1" for n1 q1 st t
    by (rule same_ids_trans [OF all_resD [OF quickUpdate_same that]]) (simp add: same_idsI)
  then show ?thesis unfolding nodeSendTxPacket_def Let_def by (intro all_res_bind) auto
qed

lemma getTx_same: "all_res (\<lambda>(_, n'). same_ids n n') (nodeGetTxPacket n)"
proof -
  have "all_res (\<lambda>(_, n'). same_ids n n') (nodeSendTxPacket n1 q)" if "same_ids n n1" for n1 q
    using sendTx_same [of n1 q] by (rule all_res_weaken) (use that same_ids_trans in auto)
  note send = this
  show ?thesis by (auto simp: nodeGetTxPacket_def intro!: send same_idsI split: option.split prod.split)
qed

text \<open>All the other calls.\<close>

fun schedule_call :: "node_call \<Rightarrow> bool" where
  "schedule_call (Node_Pre crc) = True"
| "schedule_call (Node_Single_Rx crc) = True"
| "schedule_call Node_Tx_Mode = True"
| "schedule_call c = False"

fun receives :: "node_call \<Rightarrow> bool" where
  "receives (Node_Receive p) = True"
| "receives c = False"

lemma other_calm:
  assumes "\<not> schedule_call c" and "\<not> receives c"
  shows "all_res (\<lambda>(out, b', n'). calm n n') (node_do c (b, n))"
proof -
  have post: "all_res (calm n) (nodeDualChannelPipelinedPostProcess n)"
    unfolding nodeDualChannelPipelinedPostProcess_def
    by (intro all_res_if calm_bind timedOut_calm processRx_calm processTx_calm) (simp add: calm_refl)
  have tx: "all_res (\<lambda>(_, n'). calm n n') (nodeNoDelaySingleChannelProcessTx n ptr)" for ptr
  proof -
    have "calm n n'" if "nodeProcessTx n = Inr n1" "nodeGetTxPacket n1 = Inr (q, n')" for n1 q n'
      using all_resD [OF processTx_calm that(1)] all_resD [OF getTx_same that(2)] by (auto intro: calm_trans same_ids_calm)
    moreover have "calm n n" by (simp add: calm_refl)
    ultimately show ?thesis by (auto simp: nodeNoDelaySingleChannelProcessTx_def and_then_eq_Inr intro!: all_resI)
  qed
  have tx_only: "calm n (n\<lparr>txManager := m\<rparr>)" "calm n (n\<lparr>txManager := m, stats := st\<rparr>)" "calm n (nodeUpdateTimeUs n us)" for m st us
    by (simp_all add: calm_def heard_so_far_def node_input_def nodeUpdateTimeUs_def)
  have alloc: "all_res (\<lambda>(_, n'). calm n n') (nodeAllocateTxPacket n)"
    by (auto simp: nodeAllocateTxPacket_def nodeAllocateTxPacketFull_def Let_def intro!: all_res_bind tx_only split: option.split)
  have submit: "all_res (calm n) (nodeSubmitAllocatedTxPacket n d k)" for d k
    by (auto simp: nodeSubmitAllocatedTxPacket_def intro!: all_res_bind tx_only)
  have pop: "all_res (\<lambda>(_, n'). calm n n') (nodePopNextDataPacket n)"
    by (auto simp: nodePop_copy pop_packets intro!: all_res_bind calm_refl heard_cong)
  have same: "calm n n" by (simp add: calm_refl)
  show ?thesis
    using assms all_resD [OF post] all_resD [OF tx] all_resD [OF alloc] all_resD [OF submit] all_resD [OF pop] tx_only same
    by (cases c) (fastforce intro!: all_res_bind)+
qed

lemma other_ids:
  assumes "\<not> schedule_call c"
  shows "all_res (\<lambda>(out, b', n'). ids_kept n n') (node_do c (b, n))"
proof (cases "receives c")
  case True
  then show ?thesis by (cases c) (simp_all add: node_receive_def ids_kept_def)
next
  case False
  show ?thesis by (rule all_res_weaken [OF other_calm [OF assms False]]) (auto dest: calm_ids)
qed

section \<open>The schedule a node follows\<close>

text \<open>
  The owner of each slot, and a packet of the master received just before slot \<open>t\<close>, which names
  the owners of the next four, or leaves a slot open. A slot without a readable packet moves the
  schedule on.
\<close>

definition announces :: "(nat \<Rightarrow> u8) \<Rightarrow> nat \<Rightarrow> bool \<Rightarrow> tPacket \<Rightarrow> bool" where
  "announces owner t crc p \<longleftrightarrow> (node_readable crc p \<longrightarrow> (\<forall>i<MAX_TX_NODES_SCHEDULED.
     master_nextTxNodeId p i \<in> {owner (t + i), INVALID_NODE_ID, MASTER_NODE_ID}))"

definition sched_agrees :: "(nat \<Rightarrow> u8) \<Rightarrow> nat \<Rightarrow> tNode \<Rightarrow> bool" where
  "sched_agrees owner t n \<longleftrightarrow> length (nextTxNodeId n) = 5 \<and>
     (\<forall>i<4. nextTxNodeId n ! i \<in> {owner (t + i), INVALID_NODE_ID, MASTER_NODE_ID})"

lemma agrees_kept: "sched_agrees owner t n \<Longrightarrow> ids_kept n n' \<Longrightarrow> sched_agrees owner t n'"
  by (auto simp: sched_agrees_def ids_kept_def)

lemma agrees_fresh: "nextTxNodeId n = replicate 5 0 \<Longrightarrow> sched_agrees owner t n"
  by (simp add: sched_agrees_def)

lemma record_acks_ids: "nextTxNodeId (fold (recordAcks p) is n) = nextTxNodeId n"
  using record_acks [of p "is" n] by auto

lemma quick_agrees:
  assumes "sched_agrees owner t n" and "announces owner t crc (node_input n)" and "nodeQuickProcessPrevRx n crc = Inr n'"
  shows "sched_agrees owner t n'"
proof -
  let ?p = "node_input n"
  have len: "length (nextTxNodeId n) = 5" using assms(1) by (simp add: sched_agrees_def)
  have keep: "sched_agrees owner t n1 \<Longrightarrow> nodeKeepRxPacket p n1 = Inr n2 \<Longrightarrow> sched_agrees owner t n2" for p n1 n2
    using all_resD [OF keep_ids] agrees_kept by blast
  have remove: "sched_agrees owner t n1 \<Longrightarrow> nodeRemoveFromNetwork n1 = Inr n2 \<Longrightarrow> sched_agrees owner t n2" for n1 n2
    using all_resD [OF remove_calm] calm_ids agrees_kept by blast
  have same: "sched_agrees owner t n1" if "nextTxNodeId n1 = nextTxNodeId n" for n1
    using assms(1) that by (simp add: sched_agrees_def)
  let ?ids = "[master_nextTxNodeId ?p 0, master_nextTxNodeId ?p 1, master_nextTxNodeId ?p 2,
    master_nextTxNodeId ?p 3, nextTxNodeId n ! 4]"
  have told: "sched_agrees owner t n1" if "nextTxNodeId n1 = ?ids" "node_readable crc ?p" for n1
    using that assms(2) by (auto simp: sched_agrees_def announces_def less_Suc_eq numeral_eq_Suc)
  let ?n0 = "n\<lparr>prevRxPacketEntry := Some (nextRxPacketEntry n), validRxPacket := False, savedRxAckValid := False\<rparr>"
  have ids: "for_each (\<lambda>i ids. wr ids i (master_nextTxNodeId ?p i)) [0..<4] (nextTxNodeId ?n0) = Inr ?ids"
    using store_ids [OF len, of "master_nextTxNodeId ?p"] by simp
  show ?thesis
  proof (cases "initialised n")
    case init: True
    then obtain e where e: "rd (rxPacketEntries (rxPacketManager n)) (nextRxPacketEntry n) = Inr e"
      using assms(3) by (auto simp: nodeQuickProcessPrevRx_def and_then_eq_Inr)
    then have p: "packet e = ?p" by (auto simp: node_input_def rx_packet_def rd_eq_Inr)
    note run = assms(3) [unfolded nodeQuickProcessPrevRx_def e and_then_Inr p Let_def]
    show ?thesis
    proof (cases "node_readable crc ?p")
      case False
      then show ?thesis using run init same by (auto simp: node_readable_def split: if_split_asm)
    next
      case ok: True
      show ?thesis
      proof (cases "GET_PACKET_TYPE ?p = packet_code MASTER_RESET_PACKET")
        case True
        then have "nodeRemoveFromNetwork ?n0 = Inr n'"
          using run init ok by (simp add: node_readable_def)
        from remove [OF same this] show ?thesis by simp
      next
        case False
        let ?n1 = "?n0\<lparr>nextTxNodeId := ?ids\<rparr>"
        let ?n2 = "if nodeId n \<noteq> UNALLOCATED_NODE_ID then fold (recordAcks ?p) [0..<4] ?n1 else ?n1"
        have "nodeKeepRxPacket ?p ?n2 = Inr n'" using run init ok False unfolding ids and_then_Inr by (simp add: node_readable_def)
        moreover have "nextTxNodeId ?n2 = ?ids" by (simp add: record_acks_ids)
        ultimately show ?thesis using told ok keep by blast
      qed
    qed
  next
    case False
    then show ?thesis using assms by (simp add: nodeQuickProcessPrevRx_def)
  qed
qed

text \<open>
  Reachable with the master's packets as announced: a node joins in at any slot, a slot call
  moves on to the next slot, and the other calls come at any time.
\<close>

inductive node_slots :: "(nat \<Rightarrow> u8) \<Rightarrow> nat \<Rightarrow> bool \<times> tNode \<Rightarrow> bool" for owner where
  Init: "nodeInit uid k ps maxRx = Inr n \<Longrightarrow> node_config uid k ps maxRx \<Longrightarrow> node_slots owner t (False, n)"
| Other: "node_slots owner t s \<Longrightarrow> \<not> schedule_call c \<Longrightarrow> node_allowed c s \<Longrightarrow> node_do c s = Inr (out, s') \<Longrightarrow>
    node_slots owner t s'"
| Slot: "node_slots owner t s \<Longrightarrow> node_allowed (Node_Pre crc) s \<Longrightarrow> announces owner t crc (node_input (snd s)) \<Longrightarrow>
    node_do (Node_Pre crc) s = Inr (out, s') \<Longrightarrow> node_slots owner (Suc t) s'"

lemma pre_run:
  assumes "nodeDualChannelPipelinedPreProcess n None None crc = Inr (ptr, mem, n')" and "initialised n"
  shows "\<exists>n1. nodeQuickProcessPrevRx n crc = Inr n1 \<and> (length (nextTxNodeId n1) = 5 \<longrightarrow>
    nextTxNodeId n' = [nextTxNodeId n1 ! 1, nextTxNodeId n1 ! 2, nextTxNodeId n1 ! 3, INVALID_NODE_ID, nextTxNodeId n1 ! 4] \<and>
    (ptr \<noteq> None \<longrightarrow> nextTxNodeId n1 ! 0 = nodeId n'))"
proof -
  from assms obtain n1 n2 where n1: "nodeQuickProcessPrevRx n crc = Inr n1" and n2: "nodeUpdateSchedule n1 = Inr n2"
    and c: "(if currentTxNodeId n2 = nodeId n2 \<and> nextTxPacket n2 \<noteq> None
        then and_then (nodeGetTxPacket n2) (\<lambda>(ptr, n3). Inr (ptr, Some (nextRxPacketEntry n2), n3))
        else Inr (None, Some (nextRxPacketEntry n2), n2)) = Inr (ptr, mem, n')"
    by (auto simp: nodeDualChannelPipelinedPreProcess_def and_then_eq_Inr)
  from c have "same_ids n2 n' \<and> (ptr \<noteq> None \<longrightarrow> currentTxNodeId n2 = nodeId n2)"
    using all_resD [OF getTx_same [of n2]] by (auto simp: and_then_eq_Inr same_ids_def split: if_split_asm)
  then show ?thesis using n1 n2 updateSchedule_spec [of n1] by (auto simp: same_ids_def heard_so_far_def)
qed

lemma pre_agrees:
  assumes "node_inv b n" and "sched_agrees owner t n" and "announces owner t crc (node_input n)"
    and "nodeDualChannelPipelinedPreProcess n None None crc = Inr (ptr, mem, n')"
  shows "sched_agrees owner (Suc t) n'"
    and "ptr \<noteq> None \<Longrightarrow> nodeId n' \<in> {owner t, INVALID_NODE_ID, MASTER_NODE_ID}"
proof -
  from pre_run [OF assms(4) node_invD(1) [OF assms(1)]] obtain n1 where q: "nodeQuickProcessPrevRx n crc = Inr n1"
    and r: "length (nextTxNodeId n1) = 5 \<longrightarrow>
    nextTxNodeId n' = [nextTxNodeId n1 ! 1, nextTxNodeId n1 ! 2, nextTxNodeId n1 ! 3, INVALID_NODE_ID, nextTxNodeId n1 ! 4] \<and>
    (ptr \<noteq> None \<longrightarrow> nextTxNodeId n1 ! 0 = nodeId n')" by blast
  have a: "length (nextTxNodeId n1) = 5" "\<And>i. i < 4 \<Longrightarrow> nextTxNodeId n1 ! i \<in> {owner (t + i), INVALID_NODE_ID, MASTER_NODE_ID}"
    using quick_agrees [OF assms(2,3) q] by (simp_all add: sched_agrees_def)
  show "sched_agrees owner (Suc t) n'"
    using r a(1) a(2) [of 1] a(2) [of 2] a(2) [of 3] by (simp add: sched_agrees_def less_Suc_eq numeral_eq_Suc all_conj_distrib)
  show "nodeId n' \<in> {owner t, INVALID_NODE_ID, MASTER_NODE_ID}" if "ptr \<noteq> None"
    using r a(1) a(2) [of 0] that by simp
qed

lemma slots_reach: "node_slots owner t s \<Longrightarrow> node_reach s"
  by (induction rule: node_slots.induct) (auto intro: node_reach.intros)

lemma slots_agree: "node_slots owner t s \<Longrightarrow> sched_agrees owner t (snd s)"
proof (induction rule: node_slots.induct)
  case (Init uid k ps maxRx n t)
  then show ?case using init_heard [OF Init(1)] agrees_fresh by (simp add: heard_so_far_def)
next
  case (Other t s c out s')
  obtain b n b' n' where s: "s = (b, n)" "s' = (b', n')" by (cases s, cases s')
  have "ids_kept n n'" using all_resD [OF other_ids [OF Other.hyps(2)], of b n] Other.hyps(4) s by auto
  then show ?case using Other.IH agrees_kept s by simp
next
  case (Slot t s crc out s')
  obtain b n b' n' where s: "s = (b, n)" "s' = (b', n')" by (cases s, cases s')
  have inv: "node_inv b n" using node_reach_inv [OF slots_reach [OF Slot.hyps(1)]] s by simp
  obtain ptr mem where "nodeDualChannelPipelinedPreProcess n None None crc = Inr (ptr, mem, n')"
    using Slot.hyps(4) s by (auto simp: and_then_eq_Inr)
  from pre_agrees(1) [OF inv _ _ this] show ?case using Slot.IH Slot.hyps(3) s by simp
qed

section \<open>Properties\<close>

text \<open>
  Claim C30. Whatever packets of the master are lost, and whenever the node was started, joined or
  was reset, a node transmits in a slot only if the master gave that slot to the id that the node
  has: its own one, or the id of those that have none, in a joining slot.
\<close>

theorem node_transmits_in_own_slots:
  assumes "node_slots owner t (b, n)" and "node_allowed (Node_Pre crc) (b, n)" and "announces owner t crc (node_input n)"
    and "node_do (Node_Pre crc) (b, n) = Inr (Some p, b', n')"
  shows "owner t = nodeId n'"
proof -
  have s: "node_slots owner (Suc t) (b', n')" using node_slots.Slot [OF assms(1,2) _ assms(4)] assms(3) by simp
  have inv: "node_inv b n" "node_inv b' n'" using node_reach_inv [OF slots_reach] assms(1) s by fastforce+
  obtain ptr mem where p: "nodeDualChannelPipelinedPreProcess n None None crc = Inr (ptr, mem, n')" "ptr \<noteq> None"
    using assms(4) by (auto simp: and_then_eq_Inr node_on_air_def split: option.split_asm)
  have "nodeId n' \<in> {owner t, INVALID_NODE_ID, MASTER_NODE_ID}"
    using pre_agrees(2) [OF inv(1) _ assms(3) p] slots_agree [OF assms(1)] by simp
  moreover have "nodeId n' \<notin> {INVALID_NODE_ID, MASTER_NODE_ID}"
    using node_invD(3) [OF inv(2)] by (auto simp: node_id_def)
  ultimately show ?thesis by auto
qed

text \<open>A fresh node hears that the next slot is for joining, and asks to join in it.\<close>

definition joining_heard :: tPacket where
  "joining_heard = SET_PROTOCOL_VERSION_AND_PACKET_TYPE MASTER_EMPTY_PACKET
     (set_master_nextTxNodeId 0 UNALLOCATED_NODE_ID zero_packet)"

definition joining_owner :: "nat \<Rightarrow> u8" where
  "joining_owner t = (if t = 0 then UNALLOCATED_NODE_ID else 0)"

definition joining_node :: "(bool \<times> tNode) res" where
  "joining_node = and_then (nodeInit 5 2 [zero_entry, zero_entry] 3) (\<lambda>n.
     and_then (node_do (Node_Receive joining_heard) (False, n)) (\<lambda>(_, s). Inr s))"

lemma joining_node_state:
  "\<exists>n. joining_node = Inr (False, n) \<and> protocolVersionAndPacketType (node_input n) = 0x13 \<and>
     uhdr (node_input n) = UNALLOCATED_NODE_ID # replicate 9 0"
proof -
  have "case joining_node of Inr (b, n) \<Rightarrow> \<not> b \<and> protocolVersionAndPacketType (node_input n) = 0x13 \<and>
    uhdr (node_input n) = UNALLOCATED_NODE_ID # replicate 9 0 | _ \<Rightarrow> False" by code_simp
  then show ?thesis by (auto split: sum.split_asm)
qed

lemma joining_node_quick:
  assumes "joining_node = Inr (b, n)"
  obtains n1 where "nodeQuickProcessPrevRx n False = Inr n1" "nextTxNodeId n1 = [UNALLOCATED_NODE_ID, 0, 0, 0, 0]"
    "nodeId n1 = UNALLOCATED_NODE_ID" "nextTxPacket n1 = Some Tmp_Packet" "nextNewNodeResponseCountdown n1 = 0"
    "rxSeqNum (txManager n1) = [255]"
proof -
  have "case joining_node of Inr (b, n) \<Rightarrow> (case nodeQuickProcessPrevRx n False of
      Inr n1 \<Rightarrow> nextTxNodeId n1 = [UNALLOCATED_NODE_ID, 0, 0, 0, 0] \<and> nodeId n1 = UNALLOCATED_NODE_ID \<and>
        nextTxPacket n1 = Some Tmp_Packet \<and> nextNewNodeResponseCountdown n1 = 0 \<and> rxSeqNum (txManager n1) = [255]
    | _ \<Rightarrow> False) | _ \<Rightarrow> False" by code_simp
  from this [unfolded assms] show ?thesis using that by (auto split: sum.split_asm)
qed

lemma joining_node_run:
  assumes "joining_node = Inr (b, n)" and "initialised n"
  shows "\<exists>p n'. node_do (Node_Pre False) (b, n) = Inr (Some p, True, n') \<and> nodeId n' = UNALLOCATED_NODE_ID"
proof -
  obtain n1 where q: "nodeQuickProcessPrevRx n False = Inr n1" and n1: "nextTxNodeId n1 = [UNALLOCATED_NODE_ID, 0, 0, 0, 0]"
    "nodeId n1 = UNALLOCATED_NODE_ID" "nextTxPacket n1 = Some Tmp_Packet" "nextNewNodeResponseCountdown n1 = 0"
    "rxSeqNum (txManager n1) = [255]" by (rule joining_node_quick [OF assms(1)])
  show ?thesis
    using assms(2) q n1 updateSchedule_spec [of n1]
    by (simp add: nodeDualChannelPipelinedPreProcess_def nodeGetTxPacket_def nodeSendTxPacket_def nodeQuickUpdateTxPacket_def
        node_memory_def with_node_memory_def node_on_air_def Let_def split: prod.split)
qed

theorem node_transmits_in_own_slots_witness:
  "\<exists>n p n'. joining_node = Inr (False, n) \<and> node_do (Node_Pre False) (False, n) = Inr (Some p, True, n') \<and>
     joining_owner 0 = nodeId n'"
proof -
  have c: "node_config 5 2 [zero_entry, zero_entry] 3" by (simp add: node_config_def zero_entry_def)
  obtain n where n: "joining_node = Inr (False, n)" "protocolVersionAndPacketType (node_input n) = 0x13"
    "uhdr (node_input n) = UNALLOCATED_NODE_ID # replicate 9 0" using joining_node_state by blast
  then obtain n0 where n0: "nodeInit 5 2 [zero_entry, zero_entry] 3 = Inr n0"
    "node_do (Node_Receive joining_heard) (False, n0) = Inr (None, False, n)"
    by (auto simp: joining_node_def and_then_eq_Inr)
  have "wf_packet joining_heard"
    by (simp add: joining_heard_def wf_packet_def SET_PROTOCOL_VERSION_AND_PACKET_TYPE_def set_master_nextTxNodeId_def zero_packet_def)
  then have s: "node_slots joining_owner 0 (False, n)"
    using node_slots.Other [OF node_slots.Init [OF n0(1) c] _ _ n0(2)] by simp
  have allowed: "node_allowed (Node_Pre False) (False, n)" using n(2) by (simp add: from_master_def GET_PACKET_TYPE_def)
  have announced: "announces joining_owner 0 False (node_input n)"
    using n(3) by (simp add: announces_def joining_owner_def master_nextTxNodeId_def nth_Cons split: nat.split)
  have "initialised n" using node_invD(1) [OF node_reach_inv [OF slots_reach [OF s]]] by simp
  from joining_node_run [OF n(1) this] obtain p n' where r: "node_do (Node_Pre False) (False, n) = Inr (Some p, True, n')" by blast
  from node_transmits_in_own_slots [OF s allowed announced r] n(1) r show ?thesis by blast
qed

end
