(* ===== verification/Network.thy ===== *)
theory Network
  imports MasterProps NodeSlots
begin

text \<open>
  The master and its nodes on the bus, in the pipelined dual channel mode. In each slot every
  part hands its packet to the transmitter; what arrives is one of the packets sent, silence
  (all zeros or all ones), or something whose CRC is wrong. The parts' applications and timers
  run at any time in between.
\<close>

section \<open>The network\<close>

abbreviation (input) master_ids :: "tMaster \<Rightarrow> u8 list" where "master_ids \<equiv> tMaster.nextTxNodeId"

abbreviation (input) master_slot :: "tMaster \<Rightarrow> u8" where "master_slot \<equiv> tMaster.currentTxNodeId"

text \<open>The CRC flags are those of the packets that wait in the receive entries.\<close>

record tNet =
  net_master :: tMaster
  net_nodes :: "tNode list"
  net_crc :: bool
  net_crcs :: "bool list"
  in_slot :: bool

definition heard :: "bool \<Rightarrow> tPacket \<Rightarrow> tPacket set \<Rightarrow> bool" where
  "heard crc q air \<longleftrightarrow> wf_packet q \<and> (crc \<or> protocolVersionAndPacketType q = 0 \<or> protocolVersionAndPacketType q = 255 \<or>
     (\<exists>p\<in>air. on_wire p q))"

definition net_begin :: "(nat \<Rightarrow> u8) \<Rightarrow> tNet \<Rightarrow> tPacket option \<Rightarrow> tPacket option list \<Rightarrow> tNet \<Rightarrow> bool" where
  "net_begin beyond S outm outs S' \<longleftrightarrow> \<not> in_slot S \<and> in_slot S' \<and> length outs = length (net_nodes S) \<and>
     length (net_nodes S') = length (net_nodes S) \<and> length (net_crcs S') = length (net_nodes S) \<and>
     (\<exists>m q. master_do beyond (Master_Pre (net_crc S)) (net_master S) = Inr (outm, m) \<and>
       heard (net_crc S') q {p. Some p \<in> set outs} \<and> net_master S' = master_receive q m) \<and>
     (\<forall>i<length (net_nodes S). \<exists>n q. node_do (Node_Pre (net_crcs S ! i)) (False, net_nodes S ! i) = Inr (outs ! i, True, n) \<and>
       heard (net_crcs S' ! i) q (set_option outm) \<and> net_nodes S' ! i = node_receive q n)"

definition net_end :: "(nat \<Rightarrow> u8) \<Rightarrow> tNet \<Rightarrow> tNet \<Rightarrow> bool" where
  "net_end beyond S S' \<longleftrightarrow> in_slot S \<and> \<not> in_slot S' \<and> net_crc S' = net_crc S \<and> net_crcs S' = net_crcs S \<and>
     length (net_nodes S') = length (net_nodes S) \<and>
     master_do beyond Master_Post (net_master S) = Inr (None, net_master S') \<and>
     (\<forall>i<length (net_nodes S). node_do Node_Post (True, net_nodes S ! i) = Inr (None, False, net_nodes S' ! i))"

inductive net_reach :: "(nat \<Rightarrow> u8) \<Rightarrow> tNet \<Rightarrow> bool" for beyond where
  Init: "masterInit n k ps maxRx = Inr m \<Longrightarrow> master_config n k ps maxRx \<Longrightarrow> length crcs = length ns \<Longrightarrow>
    \<forall>x\<in>set ns. \<exists>uid k ps maxRx. nodeInit uid k ps maxRx = Inr x \<and> node_config uid k ps maxRx \<Longrightarrow>
    net_reach beyond \<lparr>net_master = m, net_nodes = ns, net_crc = crc, net_crcs = crcs, in_slot = False\<rparr>"
| Master: "net_reach beyond S \<Longrightarrow> \<not> slot_call c \<Longrightarrow> c \<noteq> Master_Post \<Longrightarrow> master_allowed c (net_master S) \<Longrightarrow>
    master_do beyond c (net_master S) = Inr (out, m') \<Longrightarrow> net_reach beyond (S\<lparr>net_master := m'\<rparr>)"
| Node: "net_reach beyond S \<Longrightarrow> i < length (net_nodes S) \<Longrightarrow> \<not> schedule_call c \<Longrightarrow> \<not> receives c \<Longrightarrow> c \<notin> {Node_Post, Node_Single_Tx} \<Longrightarrow>
    node_allowed c (in_slot S, net_nodes S ! i) \<Longrightarrow> node_do c (in_slot S, net_nodes S ! i) = Inr (out, b, n') \<Longrightarrow>
    net_reach beyond (S\<lparr>net_nodes := (net_nodes S)[i := n']\<rparr>)"
| Begin: "net_reach beyond S \<Longrightarrow> net_begin beyond S outm outs S' \<Longrightarrow> net_reach beyond S'"
| End: "net_reach beyond S \<Longrightarrow> master_allowed Master_Post (net_master S) \<Longrightarrow> net_end beyond S S' \<Longrightarrow> net_reach beyond S'"

section \<open>What arrives\<close>

lemma silent_type:
  assumes "protocolVersionAndPacketType q = 0 \<or> protocolVersionAndPacketType q = 255"
  shows "from_master q" "\<not> passes crc q" "\<not> node_readable crc q"
  using assms by (auto simp: from_master_def GET_PACKET_TYPE_def passes_def node_readable_def)

lemma wire_version: "on_wire p q \<Longrightarrow> protocolVersionAndPacketType q = protocolVersionAndPacketType p"
  by (cases p, cases q) (simp add: on_wire_def)

lemma heard_node:
  assumes "heard crc q air" and "\<forall>p\<in>air. node_sends p" and "passes crc q"
  shows "from_node q"
proof -
  obtain p where p: "p \<in> air" "on_wire p q"
    using assms(1,3) silent_type(2) by (auto simp: heard_def passes_def)
  have "protocolVersionAndPacketType p \<noteq> 0" using assms(3) wire_version [OF p(2)] by (simp add: passes_def)
  then have "from_node p" "udata p = [] \<Longrightarrow> GET_PACKET_TYPE p \<noteq> packet_code NEW_NODE_REQUEST_PACKET"
    using assms(2) p(1) by (auto simp: node_sends_def)
  from wire_from_node [OF p(2) this] show ?thesis .
qed

lemma heard_master:
  assumes "heard crc q air" and "\<forall>p\<in>air. master_sends p" and "\<not> crc"
  shows "from_master q"
proof (cases "protocolVersionAndPacketType q = 0 \<or> protocolVersionAndPacketType q = 255")
  case True
  then show ?thesis by (rule silent_type(1))
next
  case False
  then obtain p where p: "p \<in> air" "on_wire p q" using assms(1,3) by (auto simp: heard_def)
  then have "from_master p" "udata p = [] \<Longrightarrow> GET_PACKET_TYPE p \<noteq> packet_code NEW_NODE_RESPONSE_PACKET"
    using assms(2) by (auto simp: master_sends_def)
  from wire_from_master [OF p(2) this] show ?thesis .
qed

lemma receive_input:
  assumes "node_inv b n" and "wf_packet q"
  shows "node_input (node_receive q n) = q" "tNode.nextTxNodeId (node_receive q n) = tNode.nextTxNodeId n"
    "nodeId (node_receive q n) = nodeId n"
proof -
  have "rx_hold (tNode.rxPacketManager n) (tNode.nextRxPacketEntry n) (node_prev b (tNode.validRxPacket n) (tNode.prevRxPacketEntry n))"
    using node_invD(6) [OF assms(1)] by (simp add: node_rx_ok_def)
  from hold_deliver(3) [OF this assms(2)] show "node_input (node_receive q n) = q"
    by (simp add: node_input_def node_receive_def)
qed (simp_all add: node_receive_def)

lemma master_receive_input:
  assumes "master_inv m" and "wf_packet q"
  shows "master_input (master_receive q m) = q"
proof -
  have "rx_hold (tMasterRx.rxPacketManager (rx m)) (tMasterRx.nextRxPacketEntry (rx m)) (rx_prev (rx m))"
    using master_invD(1) [OF assms(1)] by (simp add: rx_inv_def)
  from hold_deliver(3) [OF this assms(2)] show ?thesis by (simp add: master_input_def rx_input_def master_receive_def)
qed

lemma master_receive_fields [simp]:
  "master_ids (master_receive q m) = master_ids m" "scheduler (master_receive q m) = scheduler m"
  "master_slot (master_receive q m) = master_slot m" "tx (master_receive q m) = tx m"
  "tMasterRx.validRxPacket (rx (master_receive q m)) = tMasterRx.validRxPacket (rx m)"
  by (simp_all add: master_receive_def)

section \<open>Invariant\<close>

text \<open>The owners of the coming slots, as the master has them; beyond its schedule nobody.\<close>

definition owners :: "tMaster \<Rightarrow> nat \<Rightarrow> u8" where
  "owners m i = (if i < MAX_TX_NODES_SCHEDULED then master_ids m ! i else MASTER_NODE_ID)"

definition node_coupled :: "tMaster \<Rightarrow> bool \<Rightarrow> tNode \<Rightarrow> bool" where
  "node_coupled m crc n \<longleftrightarrow> sched_agrees (owners m) 0 n \<and> announces (owners m) 0 crc (node_input n)"

definition net_node_ok :: "tNet \<Rightarrow> bool \<Rightarrow> tNode \<Rightarrow> bool" where
  "net_node_ok S crc n \<longleftrightarrow> node_inv (in_slot S) n \<and> (\<not> crc \<longrightarrow> from_master (node_input n)) \<and>
     (unat (numTxNodesScheduled (scheduler (net_master S))) = MAX_TX_NODES_SCHEDULED \<longrightarrow> node_coupled (net_master S) crc n)"

definition net_inv :: "tNet \<Rightarrow> bool" where
  "net_inv S \<longleftrightarrow> master_inv (net_master S) \<and> (tMasterRx.validRxPacket (rx (net_master S)) \<longrightarrow> in_slot S) \<and>
     (passes (net_crc S) (master_input (net_master S)) \<longrightarrow> from_node (master_input (net_master S))) \<and>
     (masterResetCycles (tx (net_master S)) > 0 \<longrightarrow> (\<forall>i<length (master_ids (net_master S)). master_ids (net_master S) ! i = MASTER_NODE_ID)) \<and>
     length (net_crcs S) = length (net_nodes S) \<and>
     (\<forall>i<length (net_nodes S). net_node_ok S (net_crcs S ! i) (net_nodes S ! i))"

lemma net_invD:
  assumes "net_inv S"
  shows "master_inv (net_master S)" "\<not> in_slot S \<Longrightarrow> \<not> tMasterRx.validRxPacket (rx (net_master S))"
    "passes (net_crc S) (master_input (net_master S)) \<Longrightarrow> from_node (master_input (net_master S))"
    "i < length (net_nodes S) \<Longrightarrow> net_node_ok S (net_crcs S ! i) (net_nodes S ! i)"
  using assms by (auto simp: net_inv_def)

lemma coupled_fresh:
  assumes "heard_so_far n = (replicate (MAX_TX_NODES_SCHEDULED + 1) 0, zero_packet)"
  shows "node_coupled m crc n"
  using assms by (auto simp: node_coupled_def heard_so_far_def announces_def node_readable_def zero_packet_def intro!: agrees_fresh)

lemma net_node_calm:
  assumes "net_node_ok S crc n" and "calm n n'" and "node_inv (in_slot S') n'"
    and "owners (net_master S') = owners (net_master S)"
    and "numTxNodesScheduled (scheduler (net_master S')) = numTxNodesScheduled (scheduler (net_master S))"
  shows "net_node_ok S' crc n'"
proof -
  from assms(2) consider "heard_so_far n' = heard_so_far n"
    | "heard_so_far n' = (replicate (MAX_TX_NODES_SCHEDULED + 1) 0, zero_packet)" by (auto simp: calm_def)
  then show ?thesis
  proof cases
    case 1
    then have "node_input n' = node_input n" "sched_agrees o' t n' = sched_agrees o' t n" for o' t
      by (simp_all add: heard_so_far_def sched_agrees_def)
    then show ?thesis using assms(1,3-5) by (simp add: net_node_ok_def node_coupled_def)
  next
    case 2
    then have "node_input n' = zero_packet" by (simp add: heard_so_far_def)
    moreover have "from_master zero_packet" by (rule silent_type(1)) (simp add: zero_packet_def)
    ultimately show ?thesis using assms(3) coupled_fresh [OF 2] by (simp add: net_node_ok_def)
  qed
qed

lemma calm_owners: "master_calm m m' \<Longrightarrow> owners m' = owners m"
  by (simp add: master_calm_def owners_def fun_eq_iff)

section \<open>The start of a slot\<close>

lemma master_begin:
  assumes inv: "net_inv S" and idle: "\<not> in_slot S"
  shows "\<exists>out m. master_do beyond (Master_Pre (net_crc S)) (net_master S) = Inr (out, m) \<and> master_inv m \<and>
    schedule_moves (net_master S) m \<and> masterResetCycles (tx m) = masterResetCycles (tx (net_master S)) \<and>
    numTxNodesScheduled (scheduler m) = numTxNodesScheduled (scheduler (net_master S)) \<and>
    (\<forall>p. out = Some p \<longrightarrow> master_sends p \<and> map fst (schedule_of p (unat (numTxNodesScheduled (scheduler m)))) =
      take (unat (numTxNodesScheduled (scheduler m))) (master_ids m))"
proof -
  note i = net_invD [OF inv]
  from masterPre_inv [OF i(1) i(2) [OF idle] i(3), where beyond = beyond] obtain ptr mem m where
    r: "masterDualChannelPipelinedPreProcess beyond (net_master S) (net_crc S) = Inr (ptr, mem, m)" "master_inv m"
    "schedule_moves (net_master S) m" "masterResetCycles (tx m) = masterResetCycles (tx (net_master S))"
    "numTxNodesScheduled (scheduler m) = numTxNodesScheduled (scheduler (net_master S))"
    and p: "\<forall>q. ptr = Some q \<longrightarrow> (\<exists>p. tx_deref (tx_memory_of (tx m)) q = Inr p \<and> master_sends p \<and>
      map fst (schedule_of p (unat (numTxNodesScheduled (scheduler (net_master S))))) =
        take (unat (numTxNodesScheduled (scheduler (net_master S)))) (master_ids m))" by blast
  have "\<exists>out. master_on_air ptr m = Inr out \<and> (\<forall>p. out = Some p \<longrightarrow> master_sends p \<and>
      map fst (schedule_of p (unat (numTxNodesScheduled (scheduler m)))) = take (unat (numTxNodesScheduled (scheduler m))) (master_ids m))"
    using p r(5) by (cases ptr) (auto simp: master_on_air_def)
  then show ?thesis using r by auto
qed

lemma node_begin:
  assumes inv: "net_inv S" and idle: "\<not> in_slot S" and i: "i < length (net_nodes S)"
  shows "\<exists>out n. node_do (Node_Pre (net_crcs S ! i)) (False, net_nodes S ! i) = Inr (out, True, n) \<and> node_inv True n \<and>
    (\<forall>p. out = Some p \<longrightarrow> node_sends p) \<and>
    (unat (numTxNodesScheduled (scheduler (net_master S))) = MAX_TX_NODES_SCHEDULED \<longrightarrow>
      sched_agrees (owners (net_master S)) 1 n \<and>
      (out \<noteq> None \<longrightarrow> nodeId n \<in> {owners (net_master S) 0, INVALID_NODE_ID, MASTER_NODE_ID}))"
proof -
  let ?n = "net_nodes S ! i" and ?crc = "net_crcs S ! i"
  have ok: "node_inv False ?n" "\<not> ?crc \<Longrightarrow> from_master (node_input ?n)"
    and c: "unat (numTxNodesScheduled (scheduler (net_master S))) = MAX_TX_NODES_SCHEDULED \<Longrightarrow> node_coupled (net_master S) ?crc ?n"
    using net_invD(4) [OF inv i] idle by (auto simp: net_node_ok_def)
  have allowed: "node_allowed (Node_Pre ?crc) (False, ?n)" using ok(2) by auto
  from node_step [of "(False, ?n)" "Node_Pre ?crc"] ok(1) allowed obtain out b n where
    r: "node_do (Node_Pre ?crc) (False, ?n) = Inr (out, b, n)" "node_inv b n" "\<forall>p. out = Some p \<longrightarrow> node_sends p" by auto
  then obtain ptr mem where q: "nodeDualChannelPipelinedPreProcess ?n None None ?crc = Inr (ptr, mem, n)" "b = True"
    "node_on_air ptr n = Inr out" by (auto simp: and_then_eq_Inr)
  have "sched_agrees (owners (net_master S)) 1 n \<and>
      (out \<noteq> None \<longrightarrow> nodeId n \<in> {owners (net_master S) 0, INVALID_NODE_ID, MASTER_NODE_ID})"
    if "node_coupled (net_master S) ?crc ?n"
  proof -
    have a: "sched_agrees (owners (net_master S)) 0 ?n" "announces (owners (net_master S)) 0 ?crc (node_input ?n)"
      using that by (simp_all add: node_coupled_def)
    have "ptr \<noteq> None" if "out \<noteq> None" using q(3) that by (cases ptr) (auto simp: node_on_air_def)
    then show ?thesis using pre_agrees [OF ok(1) a q(1)] by auto
  qed
  then show ?thesis using r q(2) c by blast
qed

lemma owners_move:
  assumes moves: "schedule_moves m m'" and n: "unat (numTxNodesScheduled (scheduler m)) = MAX_TX_NODES_SCHEDULED"
    and len: "length (master_ids m) = 6"
    and resets: "masterResetCycles (tx m) > 0 \<Longrightarrow> \<forall>i<length (master_ids m). master_ids m ! i = MASTER_NODE_ID"
    and agree: "sched_agrees (owners m) 1 n1"
  shows "sched_agrees (owners m') 0 n1"
proof -
  have "tNode.nextTxNodeId n1 ! i \<in> {owners m' i, INVALID_NODE_ID, MASTER_NODE_ID}" if i: "i < 4" for i
  proof -
    have a: "tNode.nextTxNodeId n1 ! i \<in> {owners m (1 + i), INVALID_NODE_ID, MASTER_NODE_ID}" using agree i by (simp add: sched_agrees_def)
    have "owners m (1 + i) \<in> {owners m' i, MASTER_NODE_ID}"
    proof (cases "masterResetCycles (tx m) > 0 \<or> i = 3")
      case True
      then show ?thesis using resets len i by (auto simp: owners_def)
    next
      case False
      then have "master_ids m' ! i = master_ids m ! (i + 1)" using moves n i by (simp add: schedule_moves_def)
      then show ?thesis using i by (simp add: owners_def)
    qed
    then show ?thesis using a by auto
  qed
  then show ?thesis using agree by (simp add: sched_agrees_def)
qed

lemma owners_announced:
  assumes h: "heard crc q (set_option out)" and p: "\<forall>p. out = Some p \<longrightarrow> map fst (schedule_of p 4) = take 4 (master_ids m)"
    and len: "length (master_ids m) = 6"
  shows "announces (owners m) 0 crc q"
proof -
  have "master_nextTxNodeId q i = owners m i" if r: "node_readable crc q" and i: "i < 4" for i
  proof -
    obtain p' where p': "out = Some p'" "on_wire p' q"
      using h r silent_type(3) by (auto simp: heard_def node_readable_def)
    have "master_nextTxNodeId q i = master_nextTxNodeId p' i"
      using wire_fields(5) [OF p'(2)] by (simp add: master_nextTxNodeId_def)
    also have "\<dots> = map fst (schedule_of p' 4) ! i" using i by (simp add: schedule_of_def)
    also have "\<dots> = owners m i" using p p'(1) i len by (simp add: owners_def)
    finally show ?thesis .
  qed
  then show ?thesis by (auto simp: announces_def)
qed

text \<open>A node that transmits has the id that the master names for this slot.\<close>

definition own_slot :: "tNet \<Rightarrow> tPacket option list \<Rightarrow> tNet \<Rightarrow> bool" where
  "own_slot S outs S' \<longleftrightarrow> (\<forall>i<length (net_nodes S). outs ! i \<noteq> None \<longrightarrow>
     nodeId (net_nodes S' ! i) = master_slot (net_master S'))"

lemma begin_inv:
  assumes inv: "net_inv S" and step: "net_begin beyond S outm outs S'"
  shows "net_inv S'" and "unat (numTxNodesScheduled (scheduler (net_master S))) = MAX_TX_NODES_SCHEDULED \<Longrightarrow> own_slot S outs S'"
proof -
  let ?four = "unat (numTxNodesScheduled (scheduler (net_master S))) = 4"
  have st: "\<not> in_slot S" "in_slot S'" "length outs = length (net_nodes S)" "length (net_nodes S') = length (net_nodes S)"
    "length (net_crcs S') = length (net_nodes S)" using step by (simp_all add: net_begin_def)
  obtain m q where m: "master_do beyond (Master_Pre (net_crc S)) (net_master S) = Inr (outm, m)"
    "heard (net_crc S') q {p. Some p \<in> set outs}" "net_master S' = master_receive q m" using step by (auto simp: net_begin_def)
  from master_begin [OF inv st(1), of beyond] m(1) have mi: "master_inv m" "schedule_moves (net_master S) m"
    "masterResetCycles (tx m) = masterResetCycles (tx (net_master S))"
    "numTxNodesScheduled (scheduler m) = numTxNodesScheduled (scheduler (net_master S))"
    and sends: "\<forall>p. outm = Some p \<longrightarrow> master_sends p"
    and sched: "\<forall>p. outm = Some p \<longrightarrow> map fst (schedule_of p (unat (numTxNodesScheduled (scheduler m)))) =
      take (unat (numTxNodesScheduled (scheduler m))) (master_ids m)" by auto
  have q: "wf_packet q" using m(2) by (simp add: heard_def)
  have len: "length (master_ids (net_master S)) = 6" "length (master_ids m) = 6"
    using master_invD(8) [OF net_invD(1) [OF inv]] master_invD(8) [OF mi(1)] by simp_all
  have resets: "masterResetCycles (tx (net_master S)) > 0 \<Longrightarrow>
      \<forall>i<length (master_ids (net_master S)). master_ids (net_master S) ! i = MASTER_NODE_ID"
    using inv by (simp add: net_inv_def)
  have owners': "owners (net_master S') = owners m" using m(3) by (simp add: owners_def fun_eq_iff)
  have node: "net_node_ok S' (net_crcs S' ! i) (net_nodes S' ! i) \<and> (\<forall>p. outs ! i = Some p \<longrightarrow> node_sends p) \<and>
      (?four \<longrightarrow> outs ! i \<noteq> None \<longrightarrow> nodeId (net_nodes S' ! i) = owners (net_master S) 0 \<and> nodeId (net_nodes S' ! i) \<noteq> MASTER_NODE_ID)"
    if i: "i < length (net_nodes S)" for i
  proof -
    obtain n x where n: "node_do (Node_Pre (net_crcs S ! i)) (False, net_nodes S ! i) = Inr (outs ! i, True, n)"
      "heard (net_crcs S' ! i) x (set_option outm)" "net_nodes S' ! i = node_receive x n" using step i by (auto simp: net_begin_def)
    from node_begin [OF inv st(1) i] n(1) have ni: "node_inv True n" "\<forall>p. outs ! i = Some p \<longrightarrow> node_sends p"
      and c: "?four \<Longrightarrow> sched_agrees (owners (net_master S)) 1 n"
        "?four \<Longrightarrow> outs ! i \<noteq> None \<Longrightarrow> nodeId n \<in> {owners (net_master S) 0, INVALID_NODE_ID, MASTER_NODE_ID}" by auto
    have x: "wf_packet x" using n(2) by (simp add: heard_def)
    note r = receive_input [OF ni(1) x]
    have "node_coupled (net_master S') (net_crcs S' ! i) (node_receive x n)" if four: ?four
    proof -
      have "sched_agrees (owners m) 0 n" using owners_move [OF mi(2) _ len(1) resets c(1)] four by simp
      moreover have "announces (owners m) 0 (net_crcs S' ! i) x"
        using owners_announced [OF n(2) _ len(2)] sched four mi(4) by simp
      ultimately show ?thesis using r owners' by (simp add: node_coupled_def sched_agrees_def)
    qed
    moreover have "\<not> net_crcs S' ! i \<Longrightarrow> from_master x" using heard_master [OF n(2)] sends by auto
    moreover have "node_inv True (node_receive x n)" using receive_inv [OF ni(1) x] .
    moreover have "nodeId n \<notin> {INVALID_NODE_ID, MASTER_NODE_ID}" using node_invD(3) [OF ni(1)] by (auto simp: node_id_def)
    ultimately show ?thesis
      using n(3) r st(2) m(3) mi(4) ni(2) c(2) by (auto simp: net_node_ok_def)
  qed
  have "\<forall>p\<in>{p. Some p \<in> set outs}. node_sends p"
    using node st(3) by (auto simp: in_set_conv_nth)
  then have input: "passes (net_crc S') q \<longrightarrow> from_node q" using heard_node [OF m(2)] by blast
  have ids: "masterResetCycles (tx m) > 0 \<Longrightarrow> \<forall>i<length (master_ids m). master_ids m ! i = MASTER_NODE_ID"
    using mi(2,3) resets len by (auto simp: schedule_moves_def)
  show "net_inv S'"
    using m(3) st master_receive_inv [OF mi(1) q] master_receive_input [OF mi(1) q] input ids node
    by (simp add: net_inv_def)
  show "own_slot S outs S'" if "unat (numTxNodesScheduled (scheduler (net_master S))) = MAX_TX_NODES_SCHEDULED"
  proof -
    have "owners (net_master S) 0 = master_slot (net_master S')" if "owners (net_master S) 0 \<noteq> MASTER_NODE_ID"
      using that mi(2) resets len m(3) by (auto simp: schedule_moves_def owners_def split: if_split_asm)
    then show ?thesis using node that unfolding own_slot_def by metis
  qed
qed

section \<open>Every reachable network\<close>

lemma master_init_input:
  assumes "masterInit n k ps maxRx = Inr m"
  shows "master_input m = zero_packet"
proof -
  obtain i rpm where f: "findFreeRxPacket (rxManagerInit maxRx zero_rpm) = Inr (Some i, rpm)" "maxRx > 2"
    and m: "tMasterRx.nextRxPacketEntry (rx m) = i" "tMasterRx.rxPacketManager (rx m) = rpm"
    using assms by (auto simp: masterInit_def masterRxInit_def and_then_eq_Inr split: option.split_asm)
  have "0 < maxRx" using f(2) by (simp add: u8_less_iff)
  from findFreeRxPacket_spec [OF wf_rxManagerInit(1,3) [OF this]] f(1)
  have "rx_packet rpm = rx_packet (rxManagerInit maxRx zero_rpm)" "i < unat maxRx" by (auto simp: rxManagerInit_def)
  then have "rx_packet rpm i = zero_packet" by (simp add: rx_packet_def rxManagerInit_def zero_entry_def)
  then show ?thesis using m by (simp add: master_input_def rx_input_def)
qed

lemma zero_silent: "from_master zero_packet" "\<not> passes crc zero_packet"
  by (rule silent_type; simp add: zero_packet_def)+

lemma init_net_inv:
  assumes m: "masterInit n k ps maxRx = Inr m" "master_config n k ps maxRx" and len: "length crcs = length ns"
    and ns: "\<forall>x\<in>set ns. \<exists>uid k ps maxRx. nodeInit uid k ps maxRx = Inr x \<and> node_config uid k ps maxRx"
  shows "net_inv \<lparr>net_master = m, net_nodes = ns, net_crc = crc, net_crcs = crcs, in_slot = False\<rparr>" (is "net_inv ?S")
proof -
  have node: "net_node_ok ?S c x" if x: "x \<in> set ns" for c x
  proof -
    obtain uid k ps maxRx where u: "nodeInit uid k ps maxRx = Inr x" "node_config uid k ps maxRx" using ns x by blast
    have h: "heard_so_far x = (replicate (MAX_TX_NODES_SCHEDULED + 1) 0, zero_packet)" using init_heard [OF u(1)] by simp
    then have "node_input x = zero_packet" by (simp add: heard_so_far_def)
    then show ?thesis using config_inv [OF u(2), of False] u(1) coupled_fresh [OF h] zero_silent by (simp add: net_node_ok_def)
  qed
  from master_config_inv [OF m(2)] m(1) have "master_inv m" "\<not> tMasterRx.validRxPacket (rx m)" "master_ids m = replicate 6 0" by auto
  then show ?thesis using node len master_init_input [OF m(1)] zero_silent by (simp add: net_inv_def)
qed

lemma master_moves_net:
  assumes inv: "net_inv S" and m: "master_inv m'" "master_calm (net_master S) m'"
    and valid: "tMasterRx.validRxPacket (rx m') \<Longrightarrow> in_slot S"
  shows "net_inv (S\<lparr>net_master := m'\<rparr>)"
proof -
  have "net_node_ok (S\<lparr>net_master := m'\<rparr>) (net_crcs S ! i) (net_nodes S ! i)" if "i < length (net_nodes S)" for i
    using net_invD(4) [OF inv that] calm_owners [OF m(2)] m(2) by (simp add: net_node_ok_def node_coupled_def master_calm_def)
  then show ?thesis using inv m valid by (auto simp: net_inv_def master_calm_def)
qed

lemma node_moves_net:
  assumes inv: "net_inv S" and n: "node_inv (in_slot S) n'" "calm (net_nodes S ! i) n'"
  shows "net_inv (S\<lparr>net_nodes := (net_nodes S)[i := n']\<rparr>)"
proof -
  have "net_node_ok (S\<lparr>net_nodes := (net_nodes S)[i := n']\<rparr>) (net_crcs S ! j) ((net_nodes S)[i := n'] ! j)"
    if j: "j < length (net_nodes S)" for j
  proof (cases "j = i")
    case True
    show ?thesis using net_node_calm [OF net_invD(4) [OF inv j] _ _ refl refl] n j True by (simp add: net_node_ok_def)
  next
    case False
    then show ?thesis using net_invD(4) [OF inv j] by (simp add: net_node_ok_def)
  qed
  then show ?thesis using inv by (simp add: net_inv_def)
qed

lemma node_call_net:
  assumes ok: "net_node_ok S crc n" and c: "\<not> schedule_call c" "\<not> receives c" "node_allowed c (in_slot S, n)"
    and run: "node_do c (in_slot S, n) = Inr (out, b, n')"
  shows "node_inv b n'" and "calm n n'"
  using node_step [OF _ c(3)] ok run all_resD [OF other_calm [OF c(1,2), where b = "in_slot S" and n = n] run] by (auto simp: net_node_ok_def)

lemma node_keeps_phase:
  assumes "c \<notin> {Node_Post, Node_Single_Tx}" and "\<not> schedule_call c" and "node_do c (b, n) = Inr (out, b', n')"
  shows "b' = b"
  using assms by (cases c) (auto simp: and_then_eq_Inr split: if_split_asm)

lemma master_app_net:
  assumes inv: "net_inv S" and c: "\<not> slot_call c" "c \<noteq> Master_Post" "master_allowed c (net_master S)"
    and run: "master_do beyond c (net_master S) = Inr (out, m')"
  shows "net_inv (S\<lparr>net_master := m'\<rparr>)"
proof -
  note i = net_invD [OF inv]
  have "master_inv m'" using master_step [OF i(1) c(3), of beyond] run by auto
  moreover have "master_calm (net_master S) m'" "tMasterRx.validRxPacket (rx m') \<Longrightarrow> tMasterRx.validRxPacket (rx (net_master S))"
    using other_master_calm [OF i(1) c(3,1) run] by auto
  ultimately show ?thesis using master_moves_net [OF inv] i(2) by blast
qed

lemma node_app_net:
  assumes inv: "net_inv S" and i: "i < length (net_nodes S)" and c: "\<not> schedule_call c" "\<not> receives c" "c \<notin> {Node_Post, Node_Single_Tx}"
    and allowed: "node_allowed c (in_slot S, net_nodes S ! i)" and run: "node_do c (in_slot S, net_nodes S ! i) = Inr (out, b, n')"
  shows "net_inv (S\<lparr>net_nodes := (net_nodes S)[i := n']\<rparr>)"
proof -
  note ok = net_invD(4) [OF inv i]
  have "b = in_slot S" by (rule node_keeps_phase [OF c(3,1) run])
  then show ?thesis using node_moves_net [OF inv] node_call_net [OF ok c(1,2) allowed run] by simp
qed

lemma end_inv:
  assumes inv: "net_inv S" and ok: "master_allowed Master_Post (net_master S)" and step: "net_end beyond S S'"
  shows "net_inv S'"
proof -
  have st: "in_slot S" "\<not> in_slot S'" "net_crc S' = net_crc S" "net_crcs S' = net_crcs S" "length (net_nodes S') = length (net_nodes S)"
    and m: "master_do beyond Master_Post (net_master S) = Inr (None, net_master S')" using step by (simp_all add: net_end_def)
  from masterPost_inv [OF net_invD(1) [OF inv]] ok m have mi: "master_inv (net_master S')"
    "\<not> tMasterRx.validRxPacket (rx (net_master S'))" "master_calm (net_master S) (net_master S')" by auto
  have "net_node_ok S' (net_crcs S ! i) (net_nodes S' ! i)" if i: "i < length (net_nodes S)" for i
  proof -
    note ok = net_invD(4) [OF inv i]
    have run: "node_do Node_Post (in_slot S, net_nodes S ! i) = Inr (None, False, net_nodes S' ! i)"
      using step i by (simp add: net_end_def)
    have "node_inv (in_slot S') (net_nodes S' ! i)" "calm (net_nodes S ! i) (net_nodes S' ! i)"
      using node_call_net [OF ok _ _ _ run] st(1,2) by simp_all
    from net_node_calm [OF ok this(2,1) calm_owners [OF mi(3)]] show ?thesis using mi(3) by (simp add: master_calm_def)
  qed
  then show ?thesis using inv mi st by (simp add: net_inv_def master_calm_def)
qed

lemma net_reach_inv: "net_reach beyond S \<Longrightarrow> net_inv S"
proof (induction rule: net_reach.induct)
  case (Init n k ps maxRx m crcs ns crc)
  then show ?case by (rule init_net_inv)
next
  case (Master S c out m')
  then show ?case using master_app_net by blast
next
  case (Node S i c out b n')
  then show ?case using node_app_net by blast
next
  case (Begin S outm outs S')
  then show ?case using begin_inv(1) by blast
next
  case (End S S')
  then show ?case using end_inv by blast
qed

section \<open>Types of the state\<close>

text \<open>
  What the fields of the two structs may hold: arrays of their declared lengths, ids in range,
  whole packets in both stores and pointers to entries that exist.
\<close>

definition master_typed :: "tMaster \<Rightarrow> bool" where
  "master_typed m \<longleftrightarrow> length (master_ids m) = MAX_TX_NODES_SCHEDULED + 2 \<and> length (masterNodeTimeToLive m) = MAX_NODES \<and>
     distinct (queue_ids (activeNodes (nwManager m))) \<and>
     set (queue_ids (activeNodes (nwManager m))) = {d. node_id d \<and> masterNodeTimeToLive m ! unat d \<noteq> 0} \<and>
     length (rxSeqNum (tMasterTx.txManager (tx m))) = MAX_NODES \<and> length (tMasterTx.tmpEmptyPacketHeader (tx m)) = 2 \<and>
     tMasterRx.nextRxPacketEntry (rx m) < length (rxPacketEntries (tMasterRx.rxPacketManager (rx m))) \<and>
     (\<forall>e\<in>set (es (tMasterTx.txManager (tx m))) \<union> set (rxPacketEntries (tMasterRx.rxPacketManager (rx m))). wf_packet (packet e))"

definition node_typed :: "tNode \<Rightarrow> bool" where
  "node_typed n \<longleftrightarrow> initialised n \<and> uniqueId n \<noteq> 0 \<and> (nodeId n = UNALLOCATED_NODE_ID \<or> node_id (nodeId n)) \<and>
     length (nextTxNodeId n) = MAX_TX_NODES_SCHEDULED + 1 \<and> length (rxSeqNum (txManager n)) = 1 \<and>
     length (tmpEmptyPacketHeader n) = 2 \<and> nextRxPacketEntry n < length (rxPacketEntries (rxPacketManager n)) \<and>
     (\<forall>e\<in>set (es (txManager n)) \<union> set (rxPacketEntries (rxPacketManager n)). wf_packet (packet e)) \<and>
     (\<forall>q. nextTxPacket n = Some q \<longrightarrow> (\<exists>p. tx_deref (node_memory n) q = Inr p \<and> wf_header p))"

lemma hold_packets:
  assumes "rx_hold rpm i prev"
  shows "i < length (rxPacketEntries rpm)" "\<forall>e\<in>set (rxPacketEntries rpm). wf_packet (packet e)"
  using rx_holdD(2-4) [OF assms] by (auto simp: in_set_conv_nth rx_packet_def)

lemma master_types:
  assumes "master_inv m"
  shows "master_typed m"
proof -
  note j = master_invD [OF assms] and t = mtx_invD [OF master_invD(2) [OF assms]]
  have "rx_hold (tMasterRx.rxPacketManager (rx m)) (tMasterRx.nextRxPacketEntry (rx m)) (rx_prev (rx m))" using j(1) by (simp add: rx_inv_def)
  then show ?thesis
    using hold_packets j(3,8,9) t(1,2,5)
    by (auto simp: master_typed_def nw_inv_def nw_shape_def wf_queue_def alive_def tx_inv_def tx_core_def tx_shape_def)
qed

lemma node_types:
  assumes "node_inv b n"
  shows "node_typed n"
proof -
  note j = node_invD [OF assms]
  have "rx_hold (rxPacketManager n) (nextRxPacketEntry n) (node_prev b (validRxPacket n) (prevRxPacketEntry n))" using j(6) by (simp add: node_rx_ok_def)
  note rx = hold_packets [OF this]
  have tx: "\<forall>e\<in>set (es (txManager n)). wf_packet (packet e)" using j(7) by (simp add: node_tx_ok_def tx_inv_def tx_core_def tx_shape_def)
  have "\<exists>p. tx_deref (node_memory n) q = Inr p \<and> wf_header p" if "nextTxPacket n = Some q" for q
    using mem_okD(5) [OF j(5) that] by (auto simp: node_memory_def points_ok_def)
  then show ?thesis unfolding node_typed_def using rx tx j(1-4,9,10) by (intro conjI) (simp_all add: ball_Un)
qed

section \<open>Properties\<close>

text \<open>After a silent slot: every part returns from the start of the slot, and nothing arrives.\<close>

lemma begin_exists:
  assumes inv: "net_inv S" and idle: "\<not> in_slot S"
  shows "\<exists>outm outs S'. net_begin beyond S outm outs S' \<and> (\<forall>p. outm = Some p \<longrightarrow> master_sends p) \<and>
    (\<forall>p. Some p \<in> set outs \<longrightarrow> node_sends p)"
proof -
  let ?ns = "net_nodes S"
  let ?run = "\<lambda>i. node_do (Node_Pre (net_crcs S ! i)) (False, ?ns ! i)"
  from master_begin [OF inv idle, of beyond] obtain outm m where
    m: "master_do beyond (Master_Pre (net_crc S)) (net_master S) = Inr (outm, m)" "\<forall>p. outm = Some p \<longrightarrow> master_sends p" by blast
  have "\<forall>i\<in>{..<length ?ns}. \<exists>r. ?run i = Inr (fst r, True, snd r) \<and> (\<forall>p. fst r = Some p \<longrightarrow> node_sends p)"
  proof
    fix i assume "i \<in> {..<length ?ns}"
    with node_begin [OF inv idle] obtain out n where "?run i = Inr (out, True, n)" "\<forall>p. out = Some p \<longrightarrow> node_sends p" by blast
    then show "\<exists>r. ?run i = Inr (fst r, True, snd r) \<and> (\<forall>p. fst r = Some p \<longrightarrow> node_sends p)" by (intro exI [of _ "(out, n)"]) simp
  qed
  from bchoice [OF this] obtain f where f: "\<forall>i\<in>{..<length ?ns}. ?run i = Inr (fst (f i), True, snd (f i)) \<and> (\<forall>p. fst (f i) = Some p \<longrightarrow> node_sends p)"
    ..
  define outs where "outs = map (\<lambda>i. fst (f i)) [0..<length ?ns]"
  define S' where "S' = \<lparr>net_master = master_receive zero_packet m, net_nodes = map (\<lambda>i. node_receive zero_packet (snd (f i))) [0..<length ?ns],
    net_crc = True, net_crcs = replicate (length ?ns) True, in_slot = True\<rparr>"
  have quiet: "heard True zero_packet A" for A by (simp add: heard_def wf_packet_def zero_packet_def)
  have "\<exists>n q. ?run i = Inr (outs ! i, True, n) \<and> heard (net_crcs S' ! i) q (set_option outm) \<and> net_nodes S' ! i = node_receive q n"
    if "i < length ?ns" for i
    using f that quiet by (intro exI [of _ "snd (f i)"] exI [of _ zero_packet]) (simp add: outs_def S'_def)
  then have "net_begin beyond S outm outs S'"
    using m(1) idle quiet by (auto simp: net_begin_def outs_def S'_def)
  moreover have "\<forall>p. Some p \<in> set outs \<longrightarrow> node_sends p" using f by (auto simp: outs_def)
  ultimately show ?thesis using m(2) by blast
qed

lemma node_post_returns:
  assumes "net_node_ok S crc n" and "in_slot S"
  shows "\<exists>n'. node_do Node_Post (True, n) = Inr (None, False, n')"
  using node_step [of "(True, n)" Node_Post] assms by (auto simp: net_node_ok_def and_then_eq_Inr)


text \<open>A master with four slots scheduled ahead, and a node that has just been switched on.\<close>

lemma small_net:
  obtains S where "net_reach (\<lambda>_. 0) S" and "\<not> in_slot S" and "length (net_nodes S) = 1"
    and "unat (numTxNodesScheduled (scheduler (net_master S))) = MAX_TX_NODES_SCHEDULED"
proof -
  have c: "master_config 4 2 [zero_entry, zero_entry] 3" by (simp add: master_config_def zero_entry_def)
  from master_config_inv [OF c] obtain m where m: "masterInit 4 2 [zero_entry, zero_entry] 3 = Inr m"
    "scheduler m = schedulerInit zero_queue 4 80" by blast
  have d: "node_config 5 2 [zero_entry, zero_entry] 3" by (simp add: node_config_def zero_entry_def)
  from config_inv [OF d] obtain n where n: "nodeInit 5 2 [zero_entry, zero_entry] 3 = Inr n" by blast
  have "net_reach (\<lambda>_. 0) \<lparr>net_master = m, net_nodes = [n], net_crc = True, net_crcs = [True], in_slot = False\<rparr>"
    by (rule net_reach.Init [OF m(1) c]) (use n d in auto)
  then show ?thesis by (rule that) (simp_all add: m(2) schedulerInit_def)
qed


text \<open>
  Claim C4. In a network whose master schedules four slots ahead, a node that transmits in a slot
  has the id that the master names for this slot (its own, or the id of those that have none in a
  joining slot): two nodes with different ids never transmit in one slot, whatever packets each
  node has missed and whenever it was reset or joined.
\<close>

theorem net_own_slots:
  assumes "net_reach beyond S" and "unat (numTxNodesScheduled (scheduler (net_master S))) = MAX_TX_NODES_SCHEDULED"
    and "net_begin beyond S outm outs S'"
  shows "nodeId ` {net_nodes S' ! i |i. i < length (net_nodes S) \<and> outs ! i \<noteq> None} \<subseteq> {master_slot (net_master S')}"
  using begin_inv(2) [OF net_reach_inv [OF assms(1)] assms(3,2)] by (auto simp: own_slot_def)

theorem net_own_slots_witness:
  "\<exists>S outm outs S'. net_reach (\<lambda>_. 0) S \<and> net_begin (\<lambda>_. 0) S outm outs S' \<and> length (net_nodes S) = 1 \<and>
     nodeId ` {net_nodes S' ! i |i. i < length (net_nodes S) \<and> outs ! i \<noteq> None} \<subseteq> {master_slot (net_master S')}"
proof -
  obtain S where S: "net_reach (\<lambda>_. 0) S" "\<not> in_slot S" "length (net_nodes S) = 1"
    "unat (numTxNodesScheduled (scheduler (net_master S))) = MAX_TX_NODES_SCHEDULED" by (rule small_net)
  from begin_exists [OF net_reach_inv [OF S(1)] S(2), of "\<lambda>_. 0"] obtain outm outs S' where b: "net_begin (\<lambda>_. 0) S outm outs S'" by blast
  from net_own_slots [OF S(1,4) b] S(1,3) b show ?thesis by blast
qed

text \<open>
  Claim C5. Every state of a network is typed as the structs are declared: the arrays of the master
  and of each node keep their lengths, a node has no id or one from 1 to 63, the active queue of
  the master holds each living node once, the entries of both stores are whole packets, and the
  pointers for the next packet to receive and to send point to something that is there.
\<close>

theorem net_types:
  assumes "net_reach beyond S"
  shows "master_typed (net_master S) \<and> (\<forall>n\<in>set (net_nodes S). node_typed n) \<and> length (net_crcs S) = length (net_nodes S)"
proof -
  note i = net_reach_inv [OF assms]
  have "node_typed n" if "n \<in> set (net_nodes S)" for n
    using that net_invD(4) [OF i] node_types by (auto simp: in_set_conv_nth net_node_ok_def)
  then show ?thesis using master_types [OF net_invD(1) [OF i]] i by (simp add: net_inv_def)
qed

theorem net_types_witness:
  "\<exists>S n. net_reach (\<lambda>_. 0) S \<and> master_typed (net_master S) \<and> net_nodes S = [n] \<and> node_typed n"
proof -
  obtain S where S: "net_reach (\<lambda>_. 0) S" "length (net_nodes S) = 1" by (rule small_net)
  from S(2) obtain n where "net_nodes S = [n]" by (auto simp: length_Suc_conv)
  with net_types [OF S(1)] S(1) show ?thesis by auto
qed

end
