(* ===== verification/Link.thy ===== *)
theory Link
  imports TxProps TxPointer
begin

text \<open>
  A sender and a receiver of \<^verbatim>\<open>txManager.c\<close> joined by a wire: the packets one offers arrive at
  the other, late, repeatedly or not at all but in order, and the acknowledgements travel back in
  the same way. The protocol is stated on the abstract window first and then for the calls of the
  code, which refine it.
\<close>

section \<open>The protocol on the abstract window\<close>

text \<open>What of a packet reaches the application: all but the header bytes rewritten at each sending.\<close>

definition message :: "tPacket \<Rightarrow> tPacket" where
  "message p = p\<lparr>uhdr := []\<rparr>"

lemma same_message_iff: "same_message p q \<longleftrightarrow> message p = message q"
  by (auto simp: same_message_def message_def)

lemma message_seq: "message p = message q \<Longrightarrow> txSeqNum p = txSeqNum q"
  using same_message_fields(2) by (metis same_message_iff)

lemma same_messages: "list_all2 same_message ps qs \<longleftrightarrow> map message ps = map message qs"
proof -
  have "same_message = (\<lambda>p q. message p = message q)" by (intro ext) (rule same_message_iff)
  then show ?thesis by (simp only: list.rel_eq [symmetric] list_all2_map1 list_all2_map2)
qed

text \<open>What has been submitted and delivered is kept as history.\<close>

record tLink =
  l_window :: tWindow
  l_rx :: u8
  l_submitted :: "tPacket list"
  l_delivered :: "tPacket list"
  l_wire :: "tPacket list"
  l_acks :: "u8 list"

definition rx_next :: "u8 \<Rightarrow> u8" where
  "rx_next rx = (if rx = NULL_SEQUENCE_NUM then 0 else INCR_SEQUENCE_NUM rx)"

definition l_arrive :: "tPacket \<Rightarrow> tLink \<Rightarrow> tLink" where
  "l_arrive p L = (if txSeqNum p = rx_next (l_rx L)
     then L\<lparr>l_rx := txSeqNum p, l_delivered := l_delivered L @ [p]\<rparr> else L)"

text \<open>What arrives stays on the wire, so that it may arrive again, until it is lost.\<close>

inductive link_step :: "tLink \<Rightarrow> tLink \<Rightarrow> bool" where
  Push: "length (w_packets (l_window L)) < 254 \<Longrightarrow>
    txSeqNum p = seq_of (unat (w_first (l_window L)) + length (w_packets (l_window L))) \<Longrightarrow>
    link_step L (L\<lparr>l_window := w_push p (l_window L), l_submitted := l_submitted L @ [p]\<rparr>)"
| Offer: "w_next (l_window L) = (Some p, w) \<Longrightarrow> same_message p q \<Longrightarrow>
    link_step L (L\<lparr>l_window := w, l_wire := l_wire L @ [q]\<rparr>)"
| Idle: "w_next (l_window L) = (None, w) \<Longrightarrow> link_step L (L\<lparr>l_window := w\<rparr>)"
| Header: "list_all2 same_message (w_packets (l_window L)) ps \<Longrightarrow>
    link_step L (L\<lparr>l_window := (l_window L)\<lparr>w_packets := ps\<rparr>\<rparr>)"
| Arrive: "l_wire L = p # ps \<Longrightarrow> link_step L (l_arrive p L)"
| Lose: "l_wire L = us @ p # vs \<Longrightarrow> link_step L (L\<lparr>l_wire := us @ vs\<rparr>)"
| Report: "link_step L (L\<lparr>l_acks := l_acks L @ [l_rx L]\<rparr>)"
| Heard: "l_acks L = a # bs \<Longrightarrow> link_step L (L\<lparr>l_window := w_ack a (l_window L)\<rparr>)"
| Missed: "l_acks L = bs @ a # cs \<Longrightarrow> link_step L (L\<lparr>l_acks := bs @ cs\<rparr>)"

section \<open>Counting instead of numbering\<close>

text \<open>
  The invariant counts packets from the first one submitted. \<open>released L\<close> of them have left the
  window. A packet on the wire is \<open>k\<close>-th, so near to what the receiver expects that its 8-bit
  number identifies it, and so are two packets on the wire. An acknowledgement is the number of
  packets delivered when it was sent.
\<close>

definition released :: "tLink \<Rightarrow> nat" where
  "released L = length (l_submitted L) - length (w_packets (l_window L))"

definition ack_of :: "nat \<Rightarrow> u8" where
  "ack_of n = (if n = 0 then NULL_SEQUENCE_NUM else seq_of (n - 1))"

definition wire_packet :: "tLink \<Rightarrow> nat \<Rightarrow> tPacket \<Rightarrow> bool" where
  "wire_packet L k p \<longleftrightarrow> k < length (l_submitted L) \<and> message p = message (l_submitted L ! k) \<and>
     k < length (l_delivered L) + 254 \<and> length (l_delivered L) \<le> k + 254"

definition wire_ack :: "tLink \<Rightarrow> nat \<Rightarrow> u8 \<Rightarrow> bool" where
  "wire_ack L n a \<longleftrightarrow> a = ack_of n \<and> released L \<le> n \<and> n \<le> length (l_delivered L)"

definition wire_ok :: "tLink \<Rightarrow> bool" where
  "wire_ok L \<longleftrightarrow> (\<exists>ks. list_all2 (wire_packet L) ks (l_wire L) \<and> sorted_wrt (\<lambda>i j. i < j + 254) ks)"

definition acks_ok :: "tLink \<Rightarrow> bool" where
  "acks_ok L \<longleftrightarrow> (\<exists>ns. list_all2 (wire_ack L) ns (l_acks L) \<and> sorted ns)"

definition window_ok :: "tLink \<Rightarrow> bool" where
  "window_ok L \<longleftrightarrow> (let w = l_window L; n = length (w_packets w) in
     n \<le> 254 \<and> n \<le> length (l_submitted L) \<and> w_sent w \<le> n \<and> w_pause w \<le> 2 \<and> w_first w = seq_of (released L) \<and>
     map message (w_packets w) = map message (drop (released L) (l_submitted L)) \<and>
     (\<forall>k<length (l_submitted L). txSeqNum (l_submitted L ! k) = seq_of k))"

definition delivery_ok :: "tLink \<Rightarrow> bool" where
  "delivery_ok L \<longleftrightarrow> (let n = length (l_delivered L) in
     released L \<le> n \<and> n \<le> length (l_submitted L) \<and> l_rx L = ack_of n \<and>
     map message (l_delivered L) = map message (take n (l_submitted L)))"

definition link_inv :: "tLink \<Rightarrow> bool" where
  "link_inv L \<longleftrightarrow> window_ok L \<and> delivery_ok L \<and> wire_ok L \<and> acks_ok L"

lemmas link_parts = window_ok_def delivery_ok_def wire_ok_def acks_ok_def Let_def

lemma seq_of_near:
  assumes "i < j + 255" and "j < i + 255"
  shows "seq_of i = seq_of j \<longleftrightarrow> i = j"
proof -
  have "seq_of i = seq_of j \<longleftrightarrow> i mod 255 = j mod 255" by (simp add: u8_eq_iff unat_seq_of)
  moreover have "i mod 255 = j mod 255 \<Longrightarrow> i = j"
  proof (rule ccontr)
    assume m: "i mod 255 = j mod 255" and ne: "i \<noteq> j"
    then have "255 dvd (max i j - min i j)" by (simp add: max_def min_def mod_eq_dvd_iff_nat [symmetric])
    then have "255 \<le> max i j - min i j" by (rule dvd_imp_le) (use ne in \<open>simp add: max_def min_def\<close>)
    then show False using assms by (simp add: max_def min_def split: if_split_asm)
  qed
  ultimately show ?thesis by blast
qed

lemma rx_next_ack_of: "rx_next (ack_of n) = seq_of n"
  by (cases n) (simp_all add: rx_next_def ack_of_def INCR_seq_of)

lemma ack_of_Suc [simp]: "ack_of (Suc n) = seq_of n"
  by (simp add: ack_of_def)

section \<open>Every step keeps the invariant\<close>

lemma ack_of_inj:
  assumes "m \<le> n" and "n < m + 255"
  shows "ack_of m = ack_of n \<longleftrightarrow> m = n"
  using assms seq_of_near [of "m - 1" "n - 1"] by (cases m; cases n) (auto simp: ack_of_def)

lemma pause_le_2:
  assumes "w_pause w \<le> 2"
  shows "w_pause (w_ack a w) \<le> 2" and "w_pause (snd (w_next w)) \<le> 2"
proof -
  have "w_pause w - 1 \<le> 2" if "w_pause w > 1" using assms that by unat_arith
  then show "w_pause (w_ack a w) \<le> 2" using assms by (simp add: w_ack_def)
  show "w_pause (snd (w_next w)) \<le> 2" using assms by (simp add: w_next_def)
qed

lemma released_add: "window_ok L \<Longrightarrow> length (l_submitted L) = released L + length (w_packets (l_window L))"
  by (simp add: window_ok_def released_def Let_def)

lemma wire_ok_mono:
  assumes "wire_ok L" and "\<And>k q. wire_packet L k q \<Longrightarrow> wire_packet L' k q" and "l_wire L' = l_wire L"
  shows "wire_ok L'"
  using assms(1,3) list_all2_mono [where P = "wire_packet L" and Q = "wire_packet L'"] assms(2) unfolding wire_ok_def by metis

lemma push_inv:
  assumes inv: "link_inv L" and room: "length (w_packets (l_window L)) < 254"
    and seq: "txSeqNum p = seq_of (unat (w_first (l_window L)) + length (w_packets (l_window L)))"
  shows "link_inv (L\<lparr>l_window := w_push p (l_window L), l_submitted := l_submitted L @ [p]\<rparr>)" (is "link_inv ?L")
proof -
  have w: "window_ok L" and d: "delivery_ok L" using inv by (simp_all add: link_inv_def)
  have n: "length (w_packets (l_window L)) \<le> length (l_submitted L)" using w by (simp add: link_parts)
  have rel: "released ?L = released L" using n by (simp add: released_def w_push_def)
  have "txSeqNum p = seq_of (length (l_submitted L))"
    using seq w n by (simp add: link_parts released_def u8_eq_iff unat_seq_of mod_add_left_eq)
  then have "window_ok ?L"
    using w room rel n by (simp add: link_parts w_push_def nth_append less_Suc_eq released_def)
  moreover have "delivery_ok ?L" using d rel by (simp add: link_parts)
  moreover have "wire_ok ?L"
    by (rule wire_ok_mono [of L]) (use inv in \<open>auto simp: link_inv_def wire_packet_def nth_append\<close>)
  moreover have "wire_ack ?L = wire_ack L" using rel by (simp add: wire_ack_def fun_eq_iff)
  then have "acks_ok ?L" using inv by (simp add: link_inv_def acks_ok_def)
  ultimately show ?thesis by (simp add: link_inv_def)
qed

text \<open>Steps that leave the window's place and the history alone.\<close>

lemma link_views:
  assumes "length (w_packets (l_window L')) = length (w_packets (l_window L))" and "l_submitted L' = l_submitted L"
    and "l_delivered L' = l_delivered L"
  shows "released L' = released L" "wire_packet L' = wire_packet L" "wire_ack L' = wire_ack L"
  using assms by (simp_all add: released_def wire_packet_def wire_ack_def fun_eq_iff)

lemma window_moves_inv:
  assumes inv: "link_inv L" and w: "map message (w_packets w) = map message (w_packets (l_window L))"
    "w_first w = w_first (l_window L)" "w_sent w \<le> length (w_packets (l_window L))" "w_pause w \<le> 2"
  shows "link_inv (L\<lparr>l_window := w\<rparr>)" (is "link_inv ?L")
proof -
  have len: "length (w_packets w) = length (w_packets (l_window L))" using w(1) by (rule map_eq_imp_length_eq)
  note v = link_views [of ?L L, simplified, OF len]
  show ?thesis using inv w len v by (simp add: link_inv_def link_parts)
qed

lemma offer_inv:
  assumes inv: "link_inv L" and next': "w_next (l_window L) = (Some p, w)" and q: "same_message p q"
  shows "link_inv (L\<lparr>l_window := w, l_wire := l_wire L @ [q]\<rparr>)"
proof -
  let ?w = "l_window L" and ?k = "released L + w_sent (l_window L)"
  have i: "window_ok L" "delivery_ok L" using inv by (simp_all add: link_inv_def)
  have w: "w_packets w = w_packets ?w" "w_sent w = Suc (w_sent ?w)" "w_first w = w_first ?w" "p = w_packets ?w ! w_sent ?w"
    using w_next_Some [OF next'] by simp_all
  have s: "w_sent ?w < length (w_packets ?w)" using next' i(1) by (auto simp: w_next_def link_parts split: if_split_asm)
  have n: "length (w_packets ?w) \<le> 254" using i(1) by (simp add: link_parts)
  note sub = released_add [OF i(1)]
  have k: "?k < length (l_submitted L)" using s sub by simp
  let ?L = "L\<lparr>l_window := w\<rparr>"
  have "w_pause w \<le> 2" using pause_le_2(2) [of ?w] i(1) next' by (simp add: window_ok_def Let_def)
  then have inv': "link_inv ?L" by (intro window_moves_inv [OF inv]) (use w s in simp_all)
  have v': "wire_packet (?L\<lparr>l_wire := l_wire L @ [q]\<rparr>) = wire_packet L" by (rule link_views) (simp_all add: w)
  have "message p = map message (drop (released L) (l_submitted L)) ! w_sent ?w"
    using i(1) s w(4) by (metis nth_map window_ok_def)
  then have q': "message q = message (l_submitted L ! ?k)"
    using q s sub by (simp add: same_message_iff)
  have "wire_packet L ?k q"
    using i(2) k n q' sub by (simp add: wire_packet_def delivery_ok_def Let_def)
  moreover obtain ks where ks: "list_all2 (wire_packet L) ks (l_wire L)" "sorted_wrt (\<lambda>i j. i < j + 254) ks"
    using inv by (auto simp: link_inv_def wire_ok_def)
  moreover have "\<forall>j\<in>set ks. j < length (l_submitted L)"
    using ks(1) by (auto simp: list_all2_conv_all_nth in_set_conv_nth wire_packet_def)
  then have "\<forall>j\<in>set ks. j < ?k + 254" using n sub by auto
  ultimately have "list_all2 (wire_packet L) (ks @ [?k]) (l_wire L @ [q])" "sorted_wrt (\<lambda>i j. i < j + 254) (ks @ [?k])"
    by (simp_all add: list_all2_appendI sorted_wrt_append)
  then have "wire_ok (?L\<lparr>l_wire := l_wire L @ [q]\<rparr>)"
    unfolding wire_ok_def using v' by (intro exI [of _ "ks @ [?k]"]) simp
  moreover have "wire_ack (?L\<lparr>l_wire := l_wire L @ [q]\<rparr>) = wire_ack ?L" by (rule link_views) simp_all
  ultimately show ?thesis using inv' by (simp add: link_inv_def window_ok_def delivery_ok_def acks_ok_def released_def)
qed

lemma arrive_inv:
  assumes inv: "link_inv L" and p: "l_wire L = p # ps"
  shows "link_inv (l_arrive p L)"
proof (cases "txSeqNum p = rx_next (l_rx L)")
  case False
  then show ?thesis using inv by (simp add: l_arrive_def)
next
  case True
  let ?n = "length (l_delivered L)"
  let ?L = "L\<lparr>l_rx := txSeqNum p, l_delivered := l_delivered L @ [p]\<rparr>"
  have w: "window_ok L" and d: "delivery_ok L" using inv by (simp_all add: link_inv_def)
  obtain ks where ks: "list_all2 (wire_packet L) ks (l_wire L)" "sorted_wrt (\<lambda>i j. i < j + 254) ks"
    using inv by (auto simp: link_inv_def wire_ok_def)
  then obtain k ks' where k: "ks = k # ks'" "wire_packet L k p" "\<forall>j\<in>set ks'. k < j + 254"
    using p by (auto simp: list_all2_Cons2)
  have "txSeqNum p = seq_of k" using w k(2) message_seq [of p] by (simp add: wire_packet_def window_ok_def Let_def)
  moreover have "rx_next (l_rx L) = seq_of ?n" using d by (simp add: link_parts rx_next_ack_of)
  ultimately have eq: "k = ?n" using True k(2) seq_of_near [of k ?n] by (simp add: wire_packet_def)
  then have less: "?n < length (l_submitted L)" "message p = message (l_submitted L ! ?n)" using k(2) by (simp_all add: wire_packet_def)
  have "take (Suc ?n) (l_submitted L) = take ?n (l_submitted L) @ [l_submitted L ! ?n]" using less(1) by (simp add: take_Suc_conv_app_nth)
  then have "delivery_ok ?L"
    using d less True by (simp add: delivery_ok_def Let_def released_def rx_next_ack_of)
  moreover have "window_ok ?L" using w by (simp add: window_ok_def released_def)
  moreover have "wire_packet ?L j q" if "wire_packet L j q" "?n < j + 254" for j q
    using that by (simp add: wire_packet_def)
  then have "list_all2 (wire_packet ?L) ks (l_wire L)"
    using ks(1) k(1,3) eq by (auto simp: p intro: list.rel_mono_strong)
  then have "wire_ok ?L" using ks(2) by (auto simp: wire_ok_def)
  moreover have "acks_ok ?L"
  proof -
    obtain ns where ns: "list_all2 (wire_ack L) ns (l_acks L)" "sorted ns" using inv by (auto simp: link_inv_def acks_ok_def)
    have "wire_ack L j a \<Longrightarrow> wire_ack ?L j a" for j a by (simp add: wire_ack_def released_def)
    then show ?thesis using ns by (auto simp: acks_ok_def intro: list_all2_mono)
  qed
  ultimately show ?thesis using True by (simp add: link_inv_def l_arrive_def)
qed

lemma report_inv:
  assumes inv: "link_inv L"
  shows "link_inv (L\<lparr>l_acks := l_acks L @ [l_rx L]\<rparr>)"
proof -
  obtain ns where ns: "list_all2 (wire_ack L) ns (l_acks L)" "sorted ns" using inv by (auto simp: link_inv_def acks_ok_def)
  let ?n = "length (l_delivered L)" and ?L = "L\<lparr>l_acks := l_acks L @ [l_rx L]\<rparr>"
  have "wire_ack L ?n (l_rx L)" using inv by (simp add: link_inv_def delivery_ok_def wire_ack_def Let_def)
  moreover have "\<forall>j\<in>set ns. j \<le> ?n" using ns(1) by (auto simp: list_all2_conv_all_nth in_set_conv_nth wire_ack_def)
  ultimately have "list_all2 (wire_ack L) (ns @ [?n]) (l_acks L @ [l_rx L])" "sorted (ns @ [?n])"
    using ns by (simp_all add: list_all2_appendI sorted_append)
  moreover have "wire_ack ?L = wire_ack L" "wire_packet ?L = wire_packet L" "released ?L = released L" by (rule link_views; simp)+
  ultimately have "acks_ok ?L" unfolding acks_ok_def by (intro exI [of _ "ns @ [?n]"]) simp
  then show ?thesis
    using inv \<open>wire_packet ?L = wire_packet L\<close> \<open>released ?L = released L\<close> by (simp add: link_inv_def window_ok_def delivery_ok_def wire_ok_def)
qed

text \<open>An acknowledgement that is in the window releases exactly what was delivered when it was sent.\<close>

lemma ack_releases:
  assumes w: "window_ok L" and d: "delivery_ok L" and a: "wire_ack L n a"
  shows "w_acked a (l_window L) = n - released L" and "n - released L \<le> length (w_packets (l_window L))"
    and "n = released L \<or> INCR_SEQUENCE_NUM a = seq_of n"
proof -
  let ?r = "released L" and ?w = "l_window L"
  have n: "?r \<le> n" "n \<le> length (l_submitted L)" "a = ack_of n" using a d by (simp_all add: wire_ack_def delivery_ok_def Let_def)
  note sub = released_add [OF w]
  have len: "length (w_packets ?w) \<le> 254" "w_first ?w = seq_of ?r" using w by (simp_all add: window_ok_def Let_def)
  show "n - ?r \<le> length (w_packets ?w)" using n(2) sub by simp
  show "n = ?r \<or> INCR_SEQUENCE_NUM a = seq_of n" using n by (cases n) (auto simp: INCR_seq_of)
  show "w_acked a ?w = n - ?r"
  proof (cases "n = 0")
    case True
    then show ?thesis using n by (simp add: ack_of_def w_acked_def)
  next
    case False
    then obtain k where k: "n = Suc k" by (cases n) simp_all
    have first: "unat (seq_of ?r) = ?r mod 255" by (simp add: unat_seq_of)
    show ?thesis
    proof (cases "n = ?r")
      case True
      have "seq_dist (seq_of ?r) (seq_of k) = 254"
      proof -
        have r: "?r + 254 = k + 255" using True k by simp
        have "seq_of k = seq_of (unat (seq_of ?r) + 254)"
          by (simp add: first u8_eq_iff unat_seq_of mod_add_left_eq r)
        then show ?thesis using seq_dist_seq_of [of "seq_of ?r" 254] seq_of_less [of ?r] by simp
      qed
      moreover have "a = seq_of k" using n(3) k by simp
      ultimately show ?thesis using True len by (simp add: w_acked_def)
    next
      case False
      then have r: "?r \<le> k" "k - ?r < length (w_packets ?w)" using n k sub by auto
      have "seq_of k = seq_of (unat (seq_of ?r) + (k - ?r))"
        using mod_add_left_eq [of ?r 255 "k - ?r"] r(1) unfolding u8_eq_iff unat_seq_of by simp
      then have "seq_dist (seq_of ?r) (seq_of k) = k - ?r"
        using seq_dist_seq_of [of "seq_of ?r" "k - ?r"] seq_of_less [of ?r] r(2) len(1) by simp
      then show ?thesis using k n(3) len(2) r by (simp add: w_acked_def Suc_diff_le)
    qed
  qed
qed

lemma link_heard_inv:
  assumes inv: "link_inv L" and a: "l_acks L = a # bs"
  shows "link_inv (L\<lparr>l_window := w_ack a (l_window L)\<rparr>)" (is "link_inv ?L")
proof -
  let ?w = "l_window L"
  have w: "window_ok L" and d: "delivery_ok L" using inv by (simp_all add: link_inv_def)
  obtain ns where ns: "list_all2 (wire_ack L) ns (l_acks L)" "sorted ns" using inv by (auto simp: link_inv_def acks_ok_def)
  then obtain n ns' where n: "ns = n # ns'" "wire_ack L n a" "\<forall>j\<in>set ns'. n \<le> j"
    using a by (auto simp: list_all2_Cons2)
  note r = ack_releases [OF w d n(2)] and sub = released_add [OF w]
  show ?thesis
  proof (cases "n = released L")
    case True
    then have "w_acked a ?w = 0" using r(1) by simp
    then have "w_packets (w_ack a ?w) = w_packets ?w" "w_first (w_ack a ?w) = w_first ?w" "w_sent (w_ack a ?w) \<le> w_sent ?w"
      by (simp_all add: w_ack_def)
    moreover have "w_sent ?w \<le> length (w_packets ?w)" "w_pause (w_ack a ?w) \<le> 2"
      using w pause_le_2(1) by (simp_all add: window_ok_def Let_def)
    ultimately show ?thesis by (intro window_moves_inv [OF inv]) simp_all
  next
    case False
    let ?k = "n - released L"
    have n': "released L < n" "n \<le> length (l_delivered L)" "a \<noteq> INVALID_SEQUENCE_NUM"
      using n(2) False by (auto simp: wire_ack_def ack_of_def)
    then have w': "w_ack a ?w = ?w\<lparr>w_packets := drop ?k (w_packets ?w), w_first := seq_of n, w_sent := w_sent ?w - ?k, w_pause := 0\<rparr>"
      using r False by (simp add: w_ack_def)
    have rel: "released ?L = n" using sub r(2) n'(1) by (simp add: w' released_def)
    have "map message (drop ?k (w_packets ?w)) = map message (drop n (l_submitted L))"
      using w n'(1) by (simp add: window_ok_def Let_def drop_map [symmetric])
    then have "window_ok ?L"
      using w rel by (simp add: window_ok_def Let_def w') linarith
    moreover have "delivery_ok ?L" using d rel n'(2) by (simp add: delivery_ok_def Let_def)
    moreover have "wire_packet ?L = wire_packet L" by (simp add: wire_packet_def fun_eq_iff)
    then have "wire_ok ?L" using inv by (simp add: link_inv_def wire_ok_def)
    moreover have "wire_ack ?L j b" if "wire_ack L j b" "n \<le> j" for j b using that rel by (simp add: wire_ack_def)
    then have "list_all2 (wire_ack ?L) ns (l_acks L)"
      using ns(1) n by (auto simp: a intro: list.rel_mono_strong)
    then have "acks_ok ?L" using ns(2) by (auto simp: acks_ok_def)
    ultimately show ?thesis by (simp add: link_inv_def)
  qed
qed

lemma lose_inv:
  assumes inv: "link_inv L" and p: "l_wire L = us @ p # vs"
  shows "link_inv (L\<lparr>l_wire := us @ vs\<rparr>)" (is "link_inv ?L")
proof -
  obtain ks where ks: "list_all2 (wire_packet L) ks (us @ p # vs)" "sorted_wrt (\<lambda>i j. i < j + 254) ks"
    using inv p by (auto simp: link_inv_def wire_ok_def)
  then obtain k1 k k2 where k: "ks = k1 @ k # k2" "list_all2 (wire_packet L) k1 us" "list_all2 (wire_packet L) k2 vs"
    by (auto simp: list_all2_append2 list_all2_Cons2)
  then have "list_all2 (wire_packet L) (k1 @ k2) (us @ vs)" "sorted_wrt (\<lambda>i j. i < j + 254) (k1 @ k2)"
    using ks(2) by (simp_all add: list_all2_appendI sorted_wrt_append)
  moreover have v: "released ?L = released L" "wire_packet ?L = wire_packet L" "wire_ack ?L = wire_ack L" by (rule link_views; simp)+
  ultimately have "wire_ok ?L" unfolding wire_ok_def by (intro exI [of _ "k1 @ k2"]) simp
  then show ?thesis using inv v by (simp add: link_inv_def window_ok_def delivery_ok_def acks_ok_def)
qed

lemma missed_inv:
  assumes inv: "link_inv L" and a: "l_acks L = bs @ a # cs"
  shows "link_inv (L\<lparr>l_acks := bs @ cs\<rparr>)" (is "link_inv ?L")
proof -
  obtain ns where ns: "list_all2 (wire_ack L) ns (bs @ a # cs)" "sorted ns"
    using inv a by (auto simp: link_inv_def acks_ok_def)
  then obtain n1 n n2 where n: "ns = n1 @ n # n2" "list_all2 (wire_ack L) n1 bs" "list_all2 (wire_ack L) n2 cs"
    by (auto simp: list_all2_append2 list_all2_Cons2)
  then have "list_all2 (wire_ack L) (n1 @ n2) (bs @ cs)" "sorted (n1 @ n2)"
    using ns(2) by (simp_all add: list_all2_appendI sorted_append)
  moreover have v: "released ?L = released L" "wire_packet ?L = wire_packet L" "wire_ack ?L = wire_ack L" by (rule link_views; simp)+
  ultimately have "acks_ok ?L" unfolding acks_ok_def by (intro exI [of _ "n1 @ n2"]) simp
  then show ?thesis using inv v by (simp add: link_inv_def window_ok_def delivery_ok_def wire_ok_def)
qed

theorem link_step_inv:
  assumes "link_step L L'" and "link_inv L"
  shows "link_inv L'"
  using assms
proof (cases rule: link_step.cases)
  case (Push p)
  then show ?thesis using push_inv assms(2) by simp
next
  case (Offer p w q)
  then show ?thesis using offer_inv assms(2) by simp
next
  case (Idle w)
  have "w_packets w = w_packets (l_window L)" "w_first w = w_first (l_window L)" "w_sent w = w_sent (l_window L)"
    using w_next_None [of "l_window L"] Idle(2) by simp_all
  moreover have "w_pause w \<le> 2" using pause_le_2(2) [of "l_window L"] assms(2) Idle(2) by (simp add: link_inv_def window_ok_def Let_def)
  ultimately show ?thesis using window_moves_inv [OF assms(2), of w] assms(2) Idle(1) by (simp add: link_inv_def window_ok_def Let_def)
next
  case (Header ps)
  have "w_sent (l_window L) \<le> length (w_packets (l_window L))" "w_pause (l_window L) \<le> 2"
    using assms(2) by (simp_all add: link_inv_def window_ok_def Let_def)
  then show ?thesis
    using window_moves_inv [OF assms(2), of "(l_window L)\<lparr>w_packets := ps\<rparr>"] Header by (simp add: same_messages)
next
  case (Arrive p ps)
  then show ?thesis using arrive_inv assms(2) by simp
next
  case (Lose us p vs)
  then show ?thesis using lose_inv assms(2) by simp
next
  case Report
  then show ?thesis using report_inv assms(2) by simp
next
  case (Heard a bs)
  then show ?thesis using link_heard_inv assms(2) by simp
next
  case (Missed bs a cs)
  then show ?thesis using missed_inv assms(2) by simp
qed

section \<open>The calls of the code\<close>

text \<open>
  The manager of the sender (a master's if \<open>M\<close>) and of the receiver; the sender's destination is
  \<open>d\<close>, the receiver's source \<open>s\<close>. The wires and what was submitted and delivered are as above.
\<close>

record tPair =
  sender :: tTxManager
  receiver :: tTxManager
  submitted :: "tPacket list"
  delivered :: "tPacket list"
  data_wire :: "tPacket list"
  ack_wire :: "u8 list"

definition next_packet :: "bool \<Rightarrow> u8 \<Rightarrow> tTxManager \<Rightarrow> (nat option \<times> tTxManager) res" where
  "next_packet M burst m = (if M then masterGetNextTxDataPacket m burst else nodeGetNextTxDataPacket m)"

text \<open>The packet found at \<open>r\<close> is for \<open>d\<close>; a node's are all for the master.\<close>

definition found_for :: "bool \<Rightarrow> u8 \<Rightarrow> tTxManager \<Rightarrow> nat option \<Rightarrow> bool" where
  "found_for M d m r = (case r of None \<Rightarrow> False | Some i \<Rightarrow> \<not> M \<or> master_dstNodeId (packet (es m ! i)) = d)"

fun not_for :: "u8 \<Rightarrow> tx_call \<Rightarrow> bool" where
  "not_for d (Tx_Submit src dst t n) = (dst \<noteq> d)"
| "not_for d (Tx_Ack src ack) = (src \<noteq> d)"
| "not_for d (Tx_Remove d') = (d' \<noteq> d)"
| "not_for d (Tx_Next burst) = False"
| "not_for d c = True"

text \<open>
  The sender allocates, fills, submits, looks for the next packet, rewrites header bytes and serves
  other destinations; the receiver does anything that keeps the number it has for \<open>s\<close>.
\<close>

inductive pair_step :: "bool \<Rightarrow> u8 \<Rightarrow> u8 \<Rightarrow> tPair \<Rightarrow> tPair \<Rightarrow> bool" for M d s where
  Submit: "tx_ok M (sender P) (Tx_Submit src d t n) \<Longrightarrow> submitAllocatedTxPacket (sender P) M 1 1 src d t n = Inr m \<Longrightarrow>
    pair_step M d s P (P\<lparr>sender := m, submitted := submitted P @ [last (pending M m d)]\<rparr>)"
| Next: "next_packet M burst (sender P) = Inr (r, m) \<Longrightarrow> \<not> found_for M d m r \<Longrightarrow> pair_step M d s P (P\<lparr>sender := m\<rparr>)"
| Offer: "next_packet M burst (sender P) = Inr (Some i, m) \<Longrightarrow> found_for M d m (Some i) \<Longrightarrow>
    same_message (packet (es m ! i)) q \<Longrightarrow> pair_step M d s P (P\<lparr>sender := m, data_wire := data_wire P @ [q]\<rparr>)"
| Header: "i < length (es (sender P)) \<Longrightarrow> wf_packet p \<Longrightarrow> same_message (packet (es (sender P) ! i)) p \<Longrightarrow>
    (M \<Longrightarrow> master_dstNodeId p = master_dstNodeId (packet (es (sender P) ! i))) \<Longrightarrow>
    pair_step M d s P (P\<lparr>sender := upd_packet i (\<lambda>_. p) (sender P)\<rparr>)"
| Fill: "length bytes = MASTER_PACKET_DATA_SIZE \<Longrightarrow> pair_step M d s P (P\<lparr>sender := tx_fill bytes (sender P)\<rparr>)"
| Other: "not_for d c \<Longrightarrow> tx_ok M (sender P) c \<Longrightarrow> tx_do M c (sender P) = Inr m \<Longrightarrow> pair_step M d s P (P\<lparr>sender := m\<rparr>)"
| Receiver: "length (rxSeqNum m) = length (rxSeqNum (receiver P)) \<Longrightarrow> rxSeqNum m ! unat s = rxSeqNum (receiver P) ! unat s \<Longrightarrow>
    pair_step M d s P (P\<lparr>receiver := m\<rparr>)"
| Arrive: "data_wire P = p # ps \<Longrightarrow> rxPacketCheckAndUpdateSeqNum (receiver P) s (txSeqNum p) = Inr (ok, m) \<Longrightarrow>
    pair_step M d s P (P\<lparr>receiver := m, delivered := delivered P @ (if ok then [p] else [])\<rparr>)"
| Lose: "data_wire P = us @ p # vs \<Longrightarrow> pair_step M d s P (P\<lparr>data_wire := us @ vs\<rparr>)"
| Report: "pair_step M d s P (P\<lparr>ack_wire := ack_wire P @ [rxSeqNum (receiver P) ! unat s]\<rparr>)"
| Heard: "ack_wire P = a # as \<Longrightarrow> rxAckSeqNum (sender P) d a M st = Inr (n, st', m) \<Longrightarrow>
    pair_step M d s P (P\<lparr>sender := m\<rparr>)"
| Missed: "ack_wire P = as @ a # bs \<Longrightarrow> pair_step M d s P (P\<lparr>ack_wire := as @ bs\<rparr>)"

definition pair_ok :: "bool \<Rightarrow> u8 \<Rightarrow> u8 \<Rightarrow> tPair \<Rightarrow> bool" where
  "pair_ok M d s P \<longleftrightarrow> tx_inv M (sender P) \<and> dst_ok (sender P) d \<and> unat s < length (rxSeqNum (receiver P))"

definition link_of :: "bool \<Rightarrow> u8 \<Rightarrow> u8 \<Rightarrow> tPair \<Rightarrow> tLink" where
  "link_of M d s P = \<lparr>l_window = window_of M (sender P) d, l_rx = rxSeqNum (receiver P) ! unat s,
     l_submitted = submitted P, l_delivered = delivered P, l_wire = data_wire P, l_acks = ack_wire P\<rparr>"

lemma link_of_fields:
  "l_window (link_of M d s P) = window_of M (sender P) d" "l_rx (link_of M d s P) = rxSeqNum (receiver P) ! unat s"
  "l_submitted (link_of M d s P) = submitted P" "l_delivered (link_of M d s P) = delivered P"
  "l_wire (link_of M d s P) = data_wire P" "l_acks (link_of M d s P) = ack_wire P"
  by (simp_all add: link_of_def)

lemma other_call_keeps:
  assumes good: "tx_inv M m" and d: "dst_ok m d" and c: "not_for d c" and ok: "tx_ok M m c" and run: "tx_do M c m = Inr m'"
  shows "tx_inv M m' \<and> dst_ok m' = dst_ok m \<and> window_of M m' d = window_of M m d"
proof -
  have good': "tx_good M m" using good d by (cases "txSeqNumStart m") (simp_all add: tx_good_def dst_ok_def)
  have inv: "tx_inv M m'" "dst_ok m' = dst_ok m"
    using tx_good_step [OF good' ok] run by (auto simp: tx_good_def)
  show ?thesis
  proof (cases c)
    case Tx_Alloc
    show ?thesis
    proof (cases "\<exists>e\<in>set (es m). \<not> inUse e")
      case True
      then show ?thesis using allocate_free [OF good _ True] ok run Tx_Alloc inv d by (auto simp: tx_do_def)
    next
      case False
      then show ?thesis using allocate_full [OF good] run Tx_Alloc inv by (auto simp: tx_do_def)
    qed
  next
    case (Tx_Submit src dst t n)
    then obtain a where a: "allocatedPacket m = Some a" using ok by auto
    show ?thesis
      using submit_spec [OF good a, of dst 1 1 src t n] ok c run d inv Tx_Submit
      by (auto simp: tx_do_def only_at_def split: if_split_asm)
  next
    case (Tx_Ack src ack)
    then show ?thesis using rxAck_spec [OF good, of src ack 0] ok c run d inv by (auto simp: tx_do_def only_at_def)
  next
    case (Tx_Remove d')
    then show ?thesis using removeNode_spec [of m d' 0] good ok c run d inv by (auto simp: tx_do_def only_at_def)
  next
    case (Tx_Rx src seq)
    then have "\<exists>v. m' = m \<or> m' = m\<lparr>rxSeqNum := v\<rparr>"
      using run by (auto simp: tx_do_def rxPacketCheckAndUpdateSeqNum_def Let_def and_then_eq_Inr split: if_split_asm)
    then have "window_of M m' d = window_of M m d"
      using tx_views_cong [of m' m] by (auto simp: window_of_def pause_of_def)
    then show ?thesis using inv by simp
  qed (use c in auto)
qed

abbreviation link_steps :: "tLink \<Rightarrow> tLink \<Rightarrow> bool" where
  "link_steps \<equiv> rtranclp link_step"

lemma submit_pushes:
  assumes inv: "tx_inv M m" and d: "dst_ok m d" and ok: "tx_ok M m (Tx_Submit src d t n)"
    and run: "submitAllocatedTxPacket m M 1 1 src d t n = Inr m'"
  shows "tx_inv M m'" and "dst_ok m' d" and "rxSeqNum m' = rxSeqNum m" and "\<exists>p. window_of M m' d = w_push p (window_of M m d) \<and>
    txSeqNum p = seq_of (unat (start_of m d) + buffered m d) \<and> last (pending M m' d) = p \<and> buffered m d < 254"
proof -
  obtain a where a: "allocatedPacket m = Some a" using ok by auto
  then have la: "wf_packet (packet (es m ! a))"
    using inv by (simp add: tx_inv_def tx_core_def tx_shape_def tx_first_def)
  let ?p = "stampPacket M t n src d (end_of m d) (packet (es m ! a))"
  from submit_spec [OF inv a d, of 1 1 src t n] ok run show m': "tx_inv M m'" "dst_ok m' d" "rxSeqNum m' = rxSeqNum m"
    by (auto simp: only_at_def d split: if_split_asm)
  from submit_spec [OF inv a d, of 1 1 src t n] ok run have w: "window_of M m' d = w_push ?p (window_of M m d)"
    by (auto split: if_split_asm)
  then have pend: "pending M m' d = pending M m d @ [?p]" by (simp add: window_of_def w_push_def)
  have core: "tx_core M m" "tx_core M m'" using inv m' by (simp_all add: tx_inv_def)
  have "length (pending M m' d) = Suc (buffered m d)" by (simp add: pend)
  then have "buffered m d < 254" using tx_core_window(5) [OF core(2) m'(2)] by simp
  moreover have "txSeqNum ?p = seq_of (unat (start_of m d) + buffered m d)"
    using stamp_facts [OF la] tx_core_window(6) [OF core(1) d] by (simp add: slot_seq_def)
  ultimately show "\<exists>p. window_of M m' d = w_push p (window_of M m d) \<and>
    txSeqNum p = seq_of (unat (start_of m d) + buffered m d) \<and> last (pending M m' d) = p \<and> buffered m d < 254"
    using w pend by auto
qed

text \<open>A restamped window is the same to the protocol.\<close>

lemma restamps_step:
  assumes "restamps M same_message (sender P) m" and "dst_ok (sender P) d"
  shows "link_steps (link_of M d s P) (link_of M d s (P\<lparr>sender := m\<rparr>))"
proof -
  let ?L = "link_of M d s P"
  have "link_step ?L (?L\<lparr>l_window := (l_window ?L)\<lparr>w_packets := pending M m d\<rparr>\<rparr>)"
    by (rule link_step.Header) (use assms in \<open>simp add: restamps_def link_of_def window_of_def\<close>)
  moreover have "?L\<lparr>l_window := (l_window ?L)\<lparr>w_packets := pending M m d\<rparr>\<rparr> = link_of M d s (P\<lparr>sender := m\<rparr>)"
    using assms by (simp add: restamps_def link_of_def window_of_def)
  ultimately show ?thesis by simp
qed

text \<open>The next packet of a node, and of the master, as steps of one destination's window.\<close>

lemma next_moves:
  assumes inv: "tx_inv M m" and d: "dst_ok m d" and run: "next_packet M burst m = Inr (r, m')"
  shows "tx_inv M m' \<and> dst_ok m' d \<and> rxSeqNum m' = rxSeqNum m \<and>
    (if found_for M d m' r
     then \<exists>p w. w_next (window_of M m d) = (Some p, w) \<and> same_message p (packet (es m' ! the r)) \<and>
       list_all2 same_message (w_packets w) (pending M m' d) \<and> window_of M m' d = w\<lparr>w_packets := pending M m' d\<rparr>
     else window_of M m' d = window_of M m d \<or> w_next (window_of M m d) = (None, window_of M m' d))"
proof (cases M)
  case True
  obtain q where q: "activeTxNodes m = Some q" using inv True by (auto simp: tx_inv_def tx_queued_def split: option.splits)
  from masterGetNext_spec [of m q burst] inv True q run
  have s: "scan_ok m (queue_ids q) r m'" by (auto simp: next_packet_def)
  then have keep: "tx_inv True m'" "dst_ok m' d" "rxSeqNum m' = rxSeqNum m" using d by (simp_all add: scan_ok_def tx_frame_def)
  have same: "window_of True m' d = window_of True m d \<or>
      d \<in> set (queue_ids q) \<and> window_of True m' d = snd (w_next (window_of True m d))" using s d by (simp add: scan_ok_def)
  show ?thesis
  proof (cases "found_for M d m' r")
    case True
    then obtain i where i: "r = Some i" "master_dstNodeId (packet (es m' ! i)) = d"
      using \<open>M\<close> by (auto simp: found_for_def split: option.split_asm)
    then obtain e where e: "w_next (window_of True m e) = (Some (packet (es m' ! i)), window_of True m' e)"
        "key True (es m' ! i) = (e, slot_seq m' e (sent m e))" using s by (auto simp: scan_ok_def)
    then have "e = d" using i(2) by (simp add: key_def)
    then have "list_all2 same_message (w_packets (window_of True m' d)) (pending True m' d)"
      by (simp add: window_of_def list.rel_refl)
    then show ?thesis using e(1) True i(1) keep \<open>e = d\<close> \<open>M\<close>
      by (intro conjI) (auto simp: window_of_def)
  next
    case False
    have "w_next (window_of True m d) = (None, window_of True m' d)"
      if ne: "window_of True m' d \<noteq> window_of True m d"
    proof -
      have dq: "d \<in> set (queue_ids q)" "window_of True m' d = snd (w_next (window_of True m d))" using same ne by auto
      have "fst (w_next (window_of True m d)) = None"
      proof (cases r)
        case None
        then show ?thesis using s dq(1) by (simp add: scan_ok_def)
      next
        case (Some i)
        then obtain e where e: "key True (es m' ! i) = (e, slot_seq m' e (sent m e))"
          "\<forall>d'\<in>set (queue_ids q). d' \<noteq> e \<longrightarrow> window_of True m' d' = window_of True m d' \<or> fst (w_next (window_of True m d')) = None"
          using s by (auto simp: scan_ok_def)
        then have "e \<noteq> d" using False Some \<open>M\<close> by (auto simp: found_for_def key_def)
        then show ?thesis using e(2) dq(1) ne by auto
      qed
      then show ?thesis using dq(2) by (metis prod.collapse)
    qed
    then show ?thesis using False keep \<open>M\<close> by auto
  qed
next
  case False
  then have d0: "d = 0" using d inv by (simp add: tx_inv_def tx_core_def tx_shape_def dst_ok_def u8_eq_iff)
  from nodeGetNext_spec [of m] inv False d d0 run have keep: "tx_inv False m'" "dst_ok m' d" "rxSeqNum m' = rxSeqNum m"
    and w: "(fetched m' r, window_of False m' 0) = w_next_stamped (rxSeqNum m ! 0) (window_of False m 0)"
    by (auto simp: next_packet_def only_at_def tx_frame_def)
  let ?a = "rxSeqNum m ! 0"
  show ?thesis
  proof (cases "w_next (window_of False m 0)")
    case (Pair p w')
    have pk: "p \<noteq> None \<Longrightarrow> the p = w_packets w' ! w_sent (window_of False m 0)" using w_next_Some Pair by auto
    show ?thesis
    proof (cases p)
      case None
      then have "fetched m' r = None" "window_of False m' 0 = w'" using w Pair by (simp_all add: w_next_stamped_def)
      then show ?thesis using None Pair False keep d0 by (auto simp: found_for_def fetched_def)
    next
      case (Some x)
      let ?k = "w_sent (window_of False m 0)"
      have f: "fetched m' r = Some (set_node_ackSeqNum ?a x)"
        "window_of False m' 0 = w'\<lparr>w_packets := (w_packets w')[?k := set_node_ackSeqNum ?a x]\<rparr>"
        using w Pair Some by (simp_all add: w_next_stamped_def)
      then obtain i where i: "r = Some i" "packet (es m' ! i) = set_node_ackSeqNum ?a x" by (auto simp: fetched_def)
      have pend: "pending False m' 0 = (w_packets w')[?k := set_node_ackSeqNum ?a x]"
        using arg_cong [OF f(2), where f = w_packets] by (simp add: window_of_fields)
      have "list_all2 same_message (w_packets w') (pending False m' 0)"
        using list_all2_update_cong [where P = same_message and xs = "w_packets w'" and ys = "w_packets w'" and i = ?k,
            OF list.rel_refl [OF same_message_refl], of x "set_node_ackSeqNum ?a x"] pk Some
        by (simp add: pend)
      then show ?thesis using Pair Some i f(2) pend False keep d0 by (auto simp: found_for_def)
    qed
  qed
qed

theorem pair_refines:
  assumes step: "pair_step M d s P P'" and ok: "pair_ok M d s P"
  shows "pair_ok M d s P' \<and> link_steps (link_of M d s P) (link_of M d s P')"
  using step
proof (cases rule: pair_step.cases)
  case (Submit src t n m)
  have inv: "tx_inv M (sender P)" "dst_ok (sender P) d" using ok by (simp_all add: pair_ok_def)
  note m = submit_pushes [OF inv Submit(2,3)]
  obtain p where p: "window_of M m d = w_push p (window_of M (sender P) d)"
    "txSeqNum p = seq_of (unat (start_of (sender P) d) + buffered (sender P) d)" "last (pending M m d) = p" "buffered (sender P) d < 254"
    using m(4) by blast
  let ?L = "link_of M d s P"
  have "link_step ?L (?L\<lparr>l_window := w_push p (l_window ?L), l_submitted := l_submitted ?L @ [p]\<rparr>)"
    by (rule link_step.Push) (use p in \<open>simp_all add: link_of_def window_of_def\<close>)
  then show ?thesis using Submit(1) p ok m(1,2) by (simp add: pair_ok_def link_of_def)
next
  case (Next burst r m)
  have inv: "tx_inv M (sender P)" "dst_ok (sender P) d" using ok by (simp_all add: pair_ok_def)
  note m = next_moves [OF inv Next(2)]
  have w: "window_of M m d = window_of M (sender P) d \<or> w_next (window_of M (sender P) d) = (None, window_of M m d)"
    using m Next(3) by simp
  let ?L = "link_of M d s P"
  have "link_steps ?L (?L\<lparr>l_window := window_of M m d\<rparr>)"
    using w link_step.Idle [of ?L "window_of M m d"] by (auto simp: link_of_def)
  then show ?thesis using Next(1) ok m by (simp add: pair_ok_def link_of_def)
next
  case (Offer burst i m q)
  have inv: "tx_inv M (sender P)" "dst_ok (sender P) d" using ok by (simp_all add: pair_ok_def)
  note m = next_moves [OF inv Offer(2)]
  obtain p w where w: "w_next (window_of M (sender P) d) = (Some p, w)" "same_message p (packet (es m ! i))"
    "list_all2 same_message (w_packets w) (pending M m d)" "window_of M m d = w\<lparr>w_packets := pending M m d\<rparr>"
    using m Offer(3) by auto
  let ?L = "link_of M d s P"
  let ?L1 = "?L\<lparr>l_window := w, l_wire := l_wire ?L @ [q]\<rparr>"
  have "link_step ?L ?L1"
    by (rule link_step.Offer [of _ p]) (use w(1,2) Offer(4) in \<open>auto simp: link_of_def intro: same_message_trans\<close>)
  moreover have "link_step ?L1 (?L1\<lparr>l_window := (l_window ?L1)\<lparr>w_packets := pending M m d\<rparr>\<rparr>)"
    by (rule link_step.Header) (use w(3) in simp)
  moreover have "?L1\<lparr>l_window := (l_window ?L1)\<lparr>w_packets := pending M m d\<rparr>\<rparr> = link_of M d s P'"
    using Offer(1) w(4) by (simp add: link_of_def)
  ultimately have "link_steps ?L (link_of M d s P')" by simp
  then show ?thesis using Offer(1) ok m by (simp add: pair_ok_def)
next
  case (Header i p)
  have inv: "tx_inv M (sender P)" "dst_ok (sender P) d" using ok by (simp_all add: pair_ok_def)
  note r = rewrite_entry [OF inv(1) Header(2,3), where R = same_message, OF same_message_fields(2) [OF Header(4)] same_message_refl Header(4,5)]
  show ?thesis using Header(1) ok r restamps_step [OF r(2) inv(2)] by (simp add: pair_ok_def)
next
  case (Fill bytes)
  have inv: "tx_inv M (sender P)" "dst_ok (sender P) d" using ok by (simp_all add: pair_ok_def)
  note r = tx_fill_spec [OF inv(1) Fill(2)]
  show ?thesis
    using Fill(1) ok r(1,2) restamps_eq [OF r(2) inv(2)] by (simp add: pair_ok_def restamps_def link_of_def)
next
  case (Other c m)
  then show ?thesis using other_call_keeps [of M "sender P" d c m] ok by (simp add: pair_ok_def link_of_def)
next
  case (Receiver m)
  then show ?thesis using ok by (simp add: pair_ok_def link_of_def)
next
  case (Arrive p ps b m)
  let ?L = "link_of M d s P"
  have src: "unat s < length (rxSeqNum (receiver P))" using ok by (simp add: pair_ok_def)
  have "link_step ?L (l_arrive p ?L)" by (rule link_step.Arrive [of _ _ ps]) (simp add: link_of_def Arrive(2))
  moreover have "l_arrive p ?L = link_of M d s P' \<and> length (rxSeqNum m) = length (rxSeqNum (receiver P))"
    using Arrive(1,3) src
    by (auto simp: l_arrive_def link_of_def rx_next_def rxPacketCheckAndUpdateSeqNum_def Let_def split: if_split_asm)
  ultimately show ?thesis using Arrive(1) ok by (auto simp: pair_ok_def)
next
  case (Lose us p vs)
  then show ?thesis using ok link_step.Lose [of "link_of M d s P" us p vs] by (auto simp: pair_ok_def link_of_def)
next
  case Report
  then show ?thesis using ok link_step.Report [of "link_of M d s P"] by (auto simp: pair_ok_def link_of_def)
next
  case (Heard a as st n st' m)
  have inv: "tx_inv M (sender P)" "dst_ok (sender P) d" using ok by (simp_all add: pair_ok_def)
  from rxAck_spec [OF inv, of a st] Heard(3) have "tx_inv M m" "dst_ok m d" "window_of M m d = w_ack a (window_of M (sender P) d)"
    using inv(2) by (auto simp: only_at_def)
  then show ?thesis using Heard(1,2) ok link_step.Heard [of "link_of M d s P" a as] by (auto simp: pair_ok_def link_of_def)
next
  case (Missed as a bs)
  then show ?thesis using ok link_step.Missed [of "link_of M d s P" as a bs] by (auto simp: pair_ok_def link_of_def)
qed

section \<open>Properties\<close>

text \<open>
  A fresh link: after the start of both sides, or after the master has removed a node and given
  its id away again.
\<close>

definition pair_fresh :: "bool \<Rightarrow> u8 \<Rightarrow> u8 \<Rightarrow> tPair \<Rightarrow> bool" where
  "pair_fresh M d s P \<longleftrightarrow> pair_ok M d s P \<and> window_of M (sender P) d = no_window \<and>
     rxSeqNum (receiver P) ! unat s = NULL_SEQUENCE_NUM \<and>
     submitted P = [] \<and> delivered P = [] \<and> data_wire P = [] \<and> ack_wire P = []"

inductive pair_reach :: "bool \<Rightarrow> u8 \<Rightarrow> u8 \<Rightarrow> tPair \<Rightarrow> bool" for M d s where
  Fresh: "pair_fresh M d s P \<Longrightarrow> pair_reach M d s P"
| Step: "pair_reach M d s P \<Longrightarrow> pair_step M d s P P' \<Longrightarrow> pair_reach M d s P'"

lemma link_steps_inv: "link_steps L L' \<Longrightarrow> link_inv L \<Longrightarrow> link_inv L'"
  by (induction rule: rtranclp_induct) (auto intro: link_step_inv)

lemma pair_reach_inv: "pair_reach M d s P \<Longrightarrow> pair_ok M d s P \<and> link_inv (link_of M d s P)"
proof (induction rule: pair_reach.induct)
  case (Fresh P)
  then show ?case
    by (simp add: pair_fresh_def link_inv_def link_parts link_of_def no_window_def released_def ack_of_def)
next
  case (Step P P')
  then show ?case using pair_refines [of M d s P P'] link_steps_inv by blast
qed

text \<open>
  Claim C6. Whatever the wire loses, repeats and delays in either direction, and whatever else the
  two sides do, the receiver lets the submitted messages through once each, without a gap and in
  order, and the sender has given up the entries of delivered messages only: what it still holds is
  the rest of what was submitted.
\<close>

theorem link_exactly_once:
  assumes "pair_reach M d s P"
  shows "prefix (map message (delivered P)) (map message (submitted P)) \<and>
    (\<exists>n\<le>length (delivered P). map message (pending M (sender P) d) = map message (drop n (submitted P)))"
proof -
  let ?L = "link_of M d s P"
  have inv: "window_ok ?L" "delivery_ok ?L" using pair_reach_inv [OF assms] by (simp_all add: link_inv_def)
  have "map message (delivered P) = take (length (delivered P)) (map message (submitted P))"
    using inv(2) by (simp add: delivery_ok_def Let_def link_of_fields take_map)
  then have "prefix (map message (delivered P)) (map message (submitted P))" by (metis take_is_prefix)
  moreover have "released ?L \<le> length (delivered P)"
    "map message (pending M (sender P) d) = map message (drop (released ?L) (submitted P))"
    using inv by (simp_all add: window_ok_def delivery_ok_def Let_def link_of_fields window_of_fields)
  ultimately show ?thesis by blast
qed

text \<open>A node that submits a packet, and a master that has received it.\<close>

lemma small_pair:
  obtains P where "pair_reach False 0 0 P" "length (submitted P) = 1" "length (delivered P) = 1" "length (pending False (sender P) 0) = 1"
proof -
  let ?P = "\<lparr>sender = tx_demo, receiver = tx_demo, submitted = [], delivered = [], data_wire = [], ack_wire = []\<rparr>"
  have start: "pair_reach False 0 0 ?P"
    by (rule pair_reach.Fresh) (simp add: pair_fresh_def pair_ok_def tx_demo_window)
  obtain m a m' p where m: "allocateTxPacket tx_demo = Inr (Some a, m)"
    "submitAllocatedTxPacket m False 0 0 5 0 NODE_DATA_PACKET 3 = Inr m'" "tx_inv False m'"
    "dst_ok m' 0" "allocatedPacket m' = None" "window_of False m' 0 = w_push p no_window" by (rule tx_demo_submitted)
  let ?P1 = "?P\<lparr>sender := m\<rparr>"
  have r1: "pair_reach False 0 0 ?P1"
    using pair_reach.Step [OF start pair_step.Other [where c = Tx_Alloc and m = m]] m(1) by (simp add: tx_do_def)
  have a: "allocatedPacket m = Some a" "dst_ok m 0"
    using m(1) other_call_keeps [of False tx_demo 0 Tx_Alloc m]
    by (auto simp: tx_do_def allocateTxPacket_def and_then_eq_Inr split: option.split_asm if_split_asm)
  have live: "submitAllocatedTxPacket m False 1 1 5 0 NODE_DATA_PACKET 3 = Inr m'"
    using m(2) by (simp add: submitAllocatedTxPacket_def Let_def)
  have pend: "pending False m' 0 = [p]" using arg_cong [OF m(6), where f = w_packets] by (simp add: window_of_fields w_push_def no_window_def)
  let ?P2 = "?P1\<lparr>sender := m', submitted := [p]\<rparr>"
  have r2: "pair_reach False 0 0 ?P2"
    using pair_reach.Step [OF r1 pair_step.Submit [where src = 5 and t = NODE_DATA_PACKET and n = 3 and m = m']] a live pend by simp
  obtain r m2 where n: "nodeGetNextTxDataPacket m' = Inr (r, m2)" "tx_inv False m2"
    "(fetched m2 r, window_of False m2 0) = w_next_stamped (rxSeqNum m' ! 0) (window_of False m' 0)"
    using nodeGetNext_spec [OF m(3,4)] by blast
  then obtain i where i: "r = Some i" "packet (es m2 ! i) = set_node_ackSeqNum (rxSeqNum m' ! 0) p"
    and "window_of False m2 0 = (w_push (set_node_ackSeqNum (rxSeqNum m' ! 0) p) no_window)\<lparr>w_sent := 1\<rparr>"
    using m(6) by (auto simp: w_next_stamped_def w_next_def w_push_def no_window_def w_limit_def fetched_def)
  then have w2: "length (pending False m2 0) = 1"
    unfolding window_of_fields(1) [symmetric] by (simp add: w_push_def no_window_def)
  let ?q = "packet (es m2 ! i)"
  let ?P3 = "?P2\<lparr>sender := m2, data_wire := [?q]\<rparr>"
  have r3: "pair_reach False 0 0 ?P3"
    using pair_reach.Step [OF r2 pair_step.Offer [where i = i and m = m2 and q = ?q and burst = 0]] n(1) i(1)
    by (simp add: next_packet_def found_for_def)
  have seq: "txSeqNum ?q = 0"
    using pair_reach_inv [OF r2] i(2) by (simp add: link_inv_def window_ok_def Let_def link_of_fields)
  let ?rcv = "tx_demo\<lparr>rxSeqNum := [0]\<rparr>"
  have "rxPacketCheckAndUpdateSeqNum tx_demo 0 (txSeqNum ?q) = Inr (True, ?rcv)"
    unfolding seq by (simp add: rxPacketCheckAndUpdateSeqNum_def Let_def)
  then have "pair_reach False 0 0 (?P3\<lparr>receiver := ?rcv, delivered := [?q]\<rparr>)"
    using pair_reach.Step [OF r3 pair_step.Arrive [where p = ?q and ps = "[]" and ok = True and m = ?rcv]] by simp
  then show ?thesis by (rule that) (use w2 in simp_all)
qed

theorem link_exactly_once_witness:
  "\<exists>P. pair_reach False 0 0 P \<and> length (delivered P) = 1 \<and> prefix (map message (delivered P)) (map message (submitted P))"
proof -
  obtain P where P: "pair_reach False 0 0 P" "length (delivered P) = 1" by (rule small_pair)
  from link_exactly_once [OF P(1)] P show ?thesis by blast
qed

end
