(* ===== verification/LinkProgress.thy ===== *)
theory LinkProgress
  imports Link
begin

text \<open>
  The sender and the receiver catch up: a bound on the number of rounds without loss after which
  everything submitted has been delivered and acknowledged, from any reachable state.
\<close>

section \<open>Rounds without loss\<close>

text \<open>The sender has a turn, what it offers arrives, and the receiver's acknowledgement is heard.\<close>

definition l_offer :: "tLink \<Rightarrow> tLink" where
  "l_offer L = (case w_next (l_window L) of
     (None, w) \<Rightarrow> L\<lparr>l_window := w\<rparr>
   | (Some p, w) \<Rightarrow> l_arrive p (L\<lparr>l_window := w\<rparr>))"

definition l_round :: "tLink \<Rightarrow> tLink" where
  "l_round L = (let L1 = l_offer L in L1\<lparr>l_window := w_ack (l_rx L1) (l_window L1)\<rparr>)"

definition quiet :: "tLink \<Rightarrow> tLink" where
  "quiet L = L\<lparr>l_wire := [], l_acks := []\<rparr>"

lemma quiet_inv: "link_inv L \<Longrightarrow> link_inv (quiet L)"
  by (simp add: link_inv_def quiet_def window_ok_def delivery_ok_def wire_ok_def acks_ok_def released_def)

lemma l_arrive_fields [simp]:
  "l_window (l_arrive p L) = l_window L" "l_submitted (l_arrive p L) = l_submitted L" "l_wire (l_arrive p L) = l_wire L"
  "l_acks (l_arrive p L) = l_acks L" "released (l_arrive p L) = released L" "quiet (l_arrive p L) = l_arrive p (quiet L)"
  by (simp_all add: l_arrive_def released_def quiet_def)

lemma offer_keeps: "l_window (l_offer L) = snd (w_next (l_window L))" "l_submitted (l_offer L) = l_submitted L"
  by (simp_all add: l_offer_def split: prod.split option.split)

lemma offered_inv:
  assumes "link_inv L"
  shows "link_inv (quiet (l_offer L))"
proof -
  let ?Q = "quiet L"
  obtain r w where rw: "w_next (l_window L) = (r, w)" by (cases "w_next (l_window L)")
  have q: "link_inv ?Q" "l_window ?Q = l_window L" using quiet_inv [OF assms] by (simp_all add: quiet_def)
  show ?thesis
  proof (cases r)
    case None
    then have "link_step ?Q (?Q\<lparr>l_window := w\<rparr>)" using link_step.Idle rw by (simp add: quiet_def)
    from link_step_inv [OF this q(1)] have "link_inv (?Q\<lparr>l_window := w\<rparr>)" .
    moreover have "quiet (l_offer L) = ?Q\<lparr>l_window := w\<rparr>" using None rw by (simp add: quiet_def l_offer_def)
    ultimately show ?thesis by simp
  next
    case (Some p)
    let ?Q1 = "?Q\<lparr>l_window := w, l_wire := l_wire ?Q @ [p]\<rparr>"
    have "link_step ?Q ?Q1" by (rule link_step.Offer [of _ p]) (use rw Some in \<open>simp_all add: quiet_def\<close>)
    moreover have "link_step ?Q1 (l_arrive p ?Q1)" by (rule link_step.Arrive) (simp add: quiet_def)
    ultimately have "link_inv (quiet (l_arrive p ?Q1))" using link_step_inv q(1) quiet_inv by blast
    moreover have "quiet ?Q1 = quiet (L\<lparr>l_window := w\<rparr>)" by (simp add: quiet_def)
    ultimately show ?thesis using Some rw by (simp add: l_offer_def)
  qed
qed

lemma round_inv:
  assumes "link_inv L"
  shows "link_inv (quiet (l_round L))"
proof -
  let ?L1 = "l_offer L"
  let ?Q2 = "(quiet ?L1)\<lparr>l_acks := [l_rx ?L1]\<rparr>"
  have "link_step (quiet ?L1) ?Q2" using link_step.Report [of "quiet ?L1"] by (simp add: quiet_def)
  moreover have "link_step ?Q2 (?Q2\<lparr>l_window := w_ack (l_rx ?L1) (l_window ?Q2)\<rparr>)" by (rule link_step.Heard) simp
  ultimately have "link_inv (quiet (?Q2\<lparr>l_window := w_ack (l_rx ?L1) (l_window ?Q2)\<rparr>))"
    using link_step_inv quiet_inv offered_inv [OF assms] by blast
  moreover have "quiet (?Q2\<lparr>l_window := w_ack (l_rx ?L1) (l_window ?Q2)\<rparr>) = quiet (l_round L)"
    by (simp add: l_round_def quiet_def Let_def)
  ultimately show ?thesis by simp
qed

text \<open>
  How many rounds until everything submitted is delivered and released, at most: one for each
  packet not delivered, once the sender offers what the receiver waits for; before that the
  sender offers the rest of its window, pauses for two acknowledgements and goes back.
\<close>

definition stall :: "tLink \<Rightarrow> nat" where
  "stall L = (let w = l_window L; n = length (w_packets w) in
     if released L < length (l_delivered L) then length (l_submitted L) - length (l_delivered L) + 3
     else if 0 < w_pause w then unat (w_pause w)
     else if w_sent w = 0 then 0 else n - w_sent w + 2)"

definition rounds_left :: "tLink \<Rightarrow> nat" where
  "rounds_left L = length (l_submitted L) - length (l_delivered L) + stall L"

lemma rounds_left_bound:
  assumes "window_ok L" and "delivery_ok L"
  shows "rounds_left L \<le> 2 * (length (l_submitted L) - length (l_delivered L)) + 3"
proof -
  have "unat (w_pause (l_window L)) \<le> 2" using assms(1) by (simp add: window_ok_def Let_def word_le_nat_alt)
  then show ?thesis
    using assms released_add [OF assms(1)] by (auto simp: rounds_left_def stall_def Let_def delivery_ok_def)
qed

lemma done_iff:
  assumes "window_ok L" and "delivery_ok L" and "rounds_left L = 0"
  shows "w_packets (l_window L) = []" and "map message (l_delivered L) = map message (l_submitted L)"
proof -
  note sub = released_add [OF assms(1)]
  have e: "length (l_submitted L) \<le> length (l_delivered L)" and s: "stall L = 0" using assms(3) by (simp_all add: rounds_left_def)
  have "released L = length (l_delivered L)" using s assms(2) by (auto simp: stall_def Let_def delivery_ok_def split: if_split_asm)
  then show "w_packets (l_window L) = []" using sub e by simp
  show "map message (l_delivered L) = map message (l_submitted L)" using assms(2) e by (simp add: delivery_ok_def Let_def)
qed

text \<open>One round brings the end nearer, or there is nothing left to do.\<close>

lemma w_ack_none: "w_acked a w = 0 \<Longrightarrow> a \<noteq> INVALID_SEQUENCE_NUM \<Longrightarrow>
    w_ack a w = (if w_pause w = 1 then w\<lparr>w_pause := 0, w_sent := 0\<rparr> else if w_pause w > 1 then w\<lparr>w_pause := w_pause w - 1\<rparr> else w)"
  by (simp add: w_ack_def)

lemma w_ack_some: "0 < w_acked a w \<Longrightarrow> w_pause (w_ack a w) = 0 \<and> w_sent (w_ack a w) = w_sent w - w_acked a w \<and>
    w_packets (w_ack a w) = drop (w_acked a w) (w_packets w)"
  by (auto simp: w_ack_def w_acked_def split: if_split_asm)

lemma offer_effect:
  assumes w: "window_ok L" and d: "delivery_ok L"
  shows "(case w_next (l_window L) of
      (None, w1) \<Rightarrow> l_delivered (l_offer L) = l_delivered L
    | (Some p, w1) \<Rightarrow> length (l_delivered (l_offer L)) =
        length (l_delivered L) + (if released L + w_sent (l_window L) = length (l_delivered L) then 1 else 0))"
proof (cases "w_next (l_window L)")
  case (Pair r w1)
  show ?thesis
  proof (cases r)
    case None
    then show ?thesis using Pair by (simp add: l_offer_def)
  next
    case (Some p)
    let ?k = "w_sent (l_window L)" and ?E = "length (l_delivered L)"
    have p: "p = w_packets (l_window L) ! ?k" using w_next_Some Pair Some by blast
    have k: "?k < length (w_packets (l_window L))" using Pair Some w by (auto simp: w_next_def window_ok_def Let_def split: if_split_asm)
    note sub = released_add [OF w]
    have "message p = map message (drop (released L) (l_submitted L)) ! ?k"
      using w k p by (metis nth_map window_ok_def)
    then have "message p = message (l_submitted L ! (released L + ?k))" using k sub by simp
    then have "txSeqNum p = txSeqNum (l_submitted L ! (released L + ?k))" by (rule message_seq)
    then have "txSeqNum p = seq_of (released L + ?k)"
      using w k sub by (simp add: window_ok_def Let_def)
    moreover have "rx_next (l_rx L) = seq_of ?E" using d by (simp add: delivery_ok_def Let_def rx_next_ack_of)
    moreover have "released L + ?k < ?E + 255" "?E < released L + ?k + 255"
      using w d k sub by (auto simp: window_ok_def delivery_ok_def Let_def)
    ultimately have "txSeqNum p = rx_next (l_rx L) \<longleftrightarrow> released L + ?k = ?E" using seq_of_near by simp
    then show ?thesis using Pair Some by (simp add: l_offer_def l_arrive_def)
  qed
qed

text \<open>What the acknowledgement of everything delivered does to the window.\<close>

lemma ack_effect:
  assumes inv: "link_inv (quiet L)" and n: "0 < length (l_delivered L)"
  shows "let w = l_window L; w' = w_ack (l_rx L) w; n = length (l_delivered L) in
    if released L < n
    then w_pause w' = 0 \<and> w_sent w' = w_sent w - (n - released L) \<and> released (L\<lparr>l_window := w'\<rparr>) = n
    else w' = (if w_pause w = 1 then w\<lparr>w_pause := 0, w_sent := 0\<rparr> else if w_pause w > 1 then w\<lparr>w_pause := w_pause w - 1\<rparr> else w)"
proof -
  have i: "window_ok (quiet L)" "delivery_ok (quiet L)" using inv by (simp_all add: link_inv_def)
  have same: "released (quiet L) = released L" "l_window (quiet L) = l_window L" "l_delivered (quiet L) = l_delivered L"
    "l_submitted (quiet L) = l_submitted L" by (simp_all add: quiet_def released_def)
  have rx: "l_rx L = ack_of (length (l_delivered L))" using i(2) by (simp add: delivery_ok_def Let_def quiet_def)
  have "wire_ack (quiet L) (length (l_delivered L)) (l_rx L)"
    using i(2) rx by (simp add: wire_ack_def delivery_ok_def Let_def same)
  note a = ack_releases [OF i this, unfolded same]
  have r: "released L \<le> length (l_delivered L)" using i(2) by (simp add: delivery_ok_def Let_def same)
  note sub = released_add [OF i(1), unfolded same]
  have "l_rx L \<noteq> INVALID_SEQUENCE_NUM" using rx n by (simp add: ack_of_def)
  show ?thesis
  proof (cases "released L < length (l_delivered L)")
    case True
    then have "0 < w_acked (l_rx L) (l_window L)" using a(1) by simp
    note e = w_ack_some [OF this]
    let ?L = "L\<lparr>l_window := w_ack (l_rx L) (l_window L)\<rparr>"
    have "length (w_packets (l_window ?L)) = length (w_packets (l_window L)) - (length (l_delivered L) - released L)"
      using e a(1) by simp
    then have "released ?L = length (l_delivered L)"
      using a(2) sub True by (simp add: released_def [of ?L])
    then show ?thesis using True e a(1) by (simp add: Let_def)
  next
    case False
    then have z: "w_acked (l_rx L) (l_window L) = 0" using a(1) by simp
    show ?thesis unfolding Let_def w_ack_none [OF z \<open>l_rx L \<noteq> INVALID_SEQUENCE_NUM\<close>] using False by simp
  qed
qed

text \<open>Why a window offers nothing: a pause, no packet, or a full window, which starts a pause.\<close>

lemma w_next_stops:
  assumes rw: "w_next w = (None, w1)"
  shows "0 < w_pause w \<and> w1 = w \<or> w_pause w = 0 \<and> w_packets w = [] \<and> w1 = w \<or>
    w_pause w = 0 \<and> w1 = w\<lparr>w_pause := 2\<rparr> \<and> 0 < w_sent w"
proof (cases "0 < w_pause w \<or> w_packets w = []")
  case True
  then have "w1 = w" using rw by (auto simp: w_next_def)
  moreover have "\<not> 0 < w_pause w \<Longrightarrow> w_pause w = 0" by (simp add: word_gt_0)
  ultimately show ?thesis using True by blast
next
  case False
  then have go: "w_pause w = 0" "w_packets w \<noteq> []" by (simp_all add: word_gt_0)
  then have stop: "w_sent w = length (w_packets w) \<or> Some (w_sent w) = w_limit (w_first w)" "w1 = w\<lparr>w_pause := 2\<rparr>"
    using rw by (simp_all add: w_next_def split: if_split_asm)
  have "0 < w_sent w"
  proof (rule ccontr)
    assume "\<not> 0 < w_sent w"
    then have "Some 0 = w_limit (w_first w)" using stop(1) go(2) by simp
    then show False by (simp add: w_limit_def split: if_split_asm)
  qed
  then show ?thesis using go(1) stop(2) by blast
qed

lemma round_progress:
  assumes inv: "link_inv L" and heard: "l_delivered L \<noteq> []"
  shows "l_delivered (l_round L) \<noteq> []" and "rounds_left (l_round L) \<le> rounds_left L - 1"
proof -
  let ?w = "l_window L" and ?E = "length (l_delivered L)" and ?S = "length (l_submitted L)" and ?r = "released L"
  let ?n = "length (w_packets (l_window L))"
  have w: "window_ok L" and d: "delivery_ok L" using inv by (simp_all add: link_inv_def)
  note sub = released_add [OF w]
  have e: "?r \<le> ?E" "?E \<le> ?S" "0 < ?E" using d heard by (simp_all add: delivery_ok_def Let_def)
  obtain r w1 where rw: "w_next ?w = (r, w1)" by (cases "w_next ?w")
  let ?L1 = "l_offer L"
  have L1: "l_window ?L1 = w1" "l_submitted ?L1 = l_submitted L" using rw by (simp_all add: offer_keeps)
  have w1: "w_packets w1 = w_packets ?w"
    using w_next_Some w_next_None [of ?w] rw by (cases r) auto
  have rel: "released ?L1 = ?r" by (simp add: released_def L1 w1)
  note E1 = offer_effect [OF w d, unfolded rw]
  have n1: "0 < length (l_delivered ?L1)" using E1 e(3) by (cases r) auto
  then show "l_delivered (l_round L) \<noteq> []" by (simp add: l_round_def Let_def)
  note a = ack_effect [OF offered_inv [OF inv] n1, unfolded L1(1) rel Let_def]
  let ?w2 = "w_ack (l_rx ?L1) w1" and ?E1 = "length (l_delivered ?L1)"
  have left: "rounds_left (l_round L) = ?S - ?E1 + stall (?L1\<lparr>l_window := ?w2\<rparr>)"
    by (simp add: rounds_left_def l_round_def Let_def L1)
  have E1_le: "?E1 \<le> ?S"
    using offered_inv [OF inv] by (simp add: link_inv_def delivery_ok_def Let_def quiet_def L1)
  show "rounds_left (l_round L) \<le> rounds_left L - 1"
  proof (cases "?r < ?E1")
    case True
    note w2 = a [unfolded if_P [OF True]]
    have n2: "length (w_packets ?w2) = ?S - ?E1"
      using w2 E1_le released_add [of "quiet (l_round L)"] round_inv [OF inv]
      by (simp add: link_inv_def quiet_def released_def l_round_def Let_def L1)
    have stall: "stall (?L1\<lparr>l_window := ?w2\<rparr>) = (if w_sent w1 \<le> ?E1 - ?r then 0 else ?S - ?E1 - (w_sent w1 - (?E1 - ?r)) + 2)"
      using w2 n2 by (simp add: stall_def Let_def L1)
    have E1': "?E1 = ?E + (if r \<noteq> None \<and> ?r + w_sent ?w = ?E then 1 else 0)"
      using E1 by (cases r) auto
    have s1: "w_sent w1 = w_sent ?w + (if r = None then 0 else 1)"
      using w_next_Some w_next_None [of ?w] rw by (cases r) auto
    have "rounds_left L = (if ?r < ?E then 2 * (?S - ?E) + 3 else ?S - ?E + stall L)"
      by (simp add: rounds_left_def stall_def Let_def)
    then show ?thesis
      unfolding left stall using E1' s1 True E1_le e by (auto split: if_split_asm)
  next
    case False
    then have eq: "?E1 = ?E" "?r = ?E" using E1 e(1) by (cases r; simp)+
    note w2 = a [unfolded if_not_P [OF False]]
    have p2: "w_packets ?w2 = w_packets ?w" using w2 w1 by simp
    then have rel2: "released (?L1\<lparr>l_window := ?w2\<rparr>) = ?r" by (simp add: released_def L1)
    have n: "?n = ?S - ?E" using sub eq(2) by simp
    have t: "rounds_left L = ?S - ?E + (if 0 < w_pause ?w then unat (w_pause ?w) else if w_sent ?w = 0 then 0 else ?n - w_sent ?w + 2)"
      using eq(2) by (simp add: rounds_left_def stall_def Let_def)
    have t': "rounds_left (l_round L) = ?S - ?E + (if 0 < w_pause ?w2 then unat (w_pause ?w2) else if w_sent ?w2 = 0 then 0 else ?n - w_sent ?w2 + 2)"
      unfolding left using rel2 eq p2 by (simp add: stall_def Let_def L1)
    show ?thesis
    proof (cases r)
      case (Some p)
      have "w_pause ?w = 0" "w_sent w1 = Suc (w_sent ?w)" "w_pause w1 = 0" "w_sent ?w < ?n"
        using rw Some w by (auto simp: w_next_def window_ok_def Let_def word_gt_0 split: if_split_asm)
      moreover have "w_sent ?w \<noteq> 0" using E1 Some eq by (auto split: if_split_asm)
      ultimately show ?thesis unfolding t t' using w2 by simp
    next
      case None
      consider (paused) "0 < w_pause ?w" "w1 = ?w" | (empty) "w_pause ?w = 0" "?n = 0" "w1 = ?w"
        | (full) "w_pause ?w = 0" "w1 = ?w\<lparr>w_pause := 2\<rparr>" "0 < w_sent ?w"
        using w_next_stops [OF rw [unfolded None]] by auto
      then show ?thesis
      proof cases
        case paused
        have "unat (w_pause ?w - 1) = unat (w_pause ?w) - 1" "0 < unat (w_pause ?w)"
          using paused(1) by (simp_all add: unat_minus_one word_gt_0 unat_gt_0)
        moreover have "1 < w_pause ?w" if "w_pause ?w \<noteq> 1" using that calculation(2) by (simp add: u8_less_iff u8_eq_iff)
        ultimately show ?thesis unfolding t t' using w2 paused by (auto simp: word_gt_0 split: if_split_asm)
      next
        case empty
        then show ?thesis unfolding t t' using w2 w eq sub by (simp add: window_ok_def Let_def)
      next
        case full
        then show ?thesis unfolding t t' using w2 by simp
      qed
    qed
  qed
qed

lemma quiet_views:
  "l_delivered (quiet L) = l_delivered L" "l_submitted (quiet L) = l_submitted L" "rounds_left (quiet L) = rounds_left L"
  "quiet (quiet L) = quiet L"
  by (simp_all add: quiet_def rounds_left_def stall_def released_def Let_def)

lemma round_views: "l_submitted (l_round L) = l_submitted L" "l_round (quiet L) = quiet (l_round L)"
  by (simp_all add: l_round_def offer_keeps Let_def)
    (simp add: l_offer_def quiet_def l_arrive_def split: prod.split option.split)

lemma rounds_quiet: "(l_round ^^ k) (quiet L) = quiet ((l_round ^^ k) L)"
  by (induction k) (simp_all add: round_views)

lemma rounds_done:
  assumes "link_inv L" and "l_delivered L \<noteq> []" and "rounds_left L \<le> k"
  shows "link_inv (quiet ((l_round ^^ k) L)) \<and> rounds_left ((l_round ^^ k) L) = 0 \<and>
    l_submitted ((l_round ^^ k) L) = l_submitted L"
  using assms
proof (induction k arbitrary: L)
  case 0
  then show ?case using quiet_inv by simp
next
  case (Suc k)
  have "l_delivered (l_round L) \<noteq> []" "rounds_left (l_round L) \<le> k"
    using round_progress [OF Suc.prems(1,2)] Suc.prems(3) by simp_all
  then have "l_delivered (quiet (l_round L)) \<noteq> []" "rounds_left (quiet (l_round L)) \<le> k" by (simp_all add: quiet_views)
  from Suc.IH [OF round_inv [OF Suc.prems(1)] this] show ?case
    by (simp add: rounds_quiet quiet_views round_views funpow_swap1)
qed

text \<open>The same round with the calls of the code.\<close>

definition pair_round :: "bool \<Rightarrow> u8 \<Rightarrow> u8 \<Rightarrow> tPair \<Rightarrow> tPair res" where
  "pair_round M d s P =
     and_then (getNextTxPacketForNode (sender P) M d) (\<lambda>(r, m).
     and_then (case r of None \<Rightarrow> Inr (False, receiver P)
       | Some i \<Rightarrow> rxPacketCheckAndUpdateSeqNum (receiver P) s (txSeqNum (packet (es m ! i)))) (\<lambda>(ok, rcv).
     and_then (rxAckSeqNum m d (rxSeqNum rcv ! unat s) M 0) (\<lambda>(n, st, m').
     Inr (P\<lparr>sender := m', receiver := rcv,
       delivered := delivered P @ (if ok then [packet (es m ! the r)] else [])\<rparr>))))"

fun pair_rounds :: "nat \<Rightarrow> bool \<Rightarrow> u8 \<Rightarrow> u8 \<Rightarrow> tPair \<Rightarrow> tPair res" where
  "pair_rounds 0 M d s P = Inr P"
| "pair_rounds (Suc k) M d s P = and_then (pair_round M d s P) (pair_rounds k M d s)"

lemma pair_round_refines:
  assumes ok: "pair_ok M d s P"
  shows "\<exists>P'. pair_round M d s P = Inr P' \<and> pair_ok M d s P' \<and> link_of M d s P' = l_round (link_of M d s P)"
proof -
  have inv: "tx_inv M (sender P)" "dst_ok (sender P) d" and src: "unat s < length (rxSeqNum (receiver P))"
    using ok by (simp_all add: pair_ok_def)
  obtain r m where g: "getNextTxPacketForNode (sender P) M d = Inr (r, m)" "tx_inv M m" "only_at M (sender P) m d"
    "(fetched m r, window_of M m d) = w_next (window_of M (sender P) d)" using getNext_spec [OF inv] by blast
  have d: "dst_ok m d" using g(3) inv(2) by (simp add: only_at_def)
  let ?L = "link_of M d s P"
  obtain b rcv where rc: "(case r of None \<Rightarrow> Inr (False, receiver P)
      | Some i \<Rightarrow> rxPacketCheckAndUpdateSeqNum (receiver P) s (txSeqNum (packet (es m ! i)))) = Inr (b, rcv)"
    "length (rxSeqNum rcv) = length (rxSeqNum (receiver P))"
    "l_offer ?L = link_of M d s (P\<lparr>sender := m, receiver := rcv, delivered := delivered P @ (if b then [packet (es m ! the r)] else [])\<rparr>)"
  proof (cases r)
    case None
    then show ?thesis using g(4) by (intro that [of False "receiver P"]) (simp_all add: l_offer_def link_of_def fetched_def flip: g(4))
  next
    case (Some i)
    let ?p = "packet (es m ! i)" and ?rx = "rxSeqNum (receiver P)"
    let ?b = "txSeqNum ?p = rx_next (?rx ! unat s)"
    let ?rcv = "if ?b then (receiver P)\<lparr>rxSeqNum := ?rx[unat s := txSeqNum ?p]\<rparr> else receiver P"
    have "rxPacketCheckAndUpdateSeqNum (receiver P) s (txSeqNum ?p) = Inr (?b, ?rcv)"
      using src by (simp add: rxPacketCheckAndUpdateSeqNum_def rx_next_def Let_def)
    moreover have "l_offer ?L = link_of M d s (P\<lparr>sender := m, receiver := ?rcv, delivered := delivered P @ (if ?b then [?p] else [])\<rparr>)"
      using g(4) Some src by (simp add: l_offer_def link_of_def fetched_def l_arrive_def flip: g(4))
    ultimately show ?thesis using Some by (intro that [of ?b ?rcv]) simp_all
  qed
  obtain n st m' where a: "rxAckSeqNum m d (rxSeqNum rcv ! unat s) M 0 = Inr (n, st, m')" "tx_inv M m'" "only_at M m m' d"
    "window_of M m' d = w_ack (rxSeqNum rcv ! unat s) (window_of M m d)" using rxAck_spec [OF g(2) d] by blast
  show ?thesis
    using g(1) rc a d src by (simp add: pair_round_def pair_ok_def only_at_def l_round_def Let_def) (simp add: link_of_def)
qed

lemma pair_rounds_refine:
  assumes "pair_ok M d s P"
  shows "\<exists>P'. pair_rounds k M d s P = Inr P' \<and> pair_ok M d s P' \<and> link_of M d s P' = (l_round ^^ k) (link_of M d s P)"
  using assms
proof (induction k arbitrary: P)
  case 0
  then show ?case by simp
next
  case (Suc k)
  from pair_round_refines [OF Suc.prems] obtain P1 where P1: "pair_round M d s P = Inr P1" "pair_ok M d s P1"
    "link_of M d s P1 = l_round (link_of M d s P)" by blast
  from Suc.IH [OF P1(2)] P1 show ?case by (simp add: funpow_swap1)
qed

section \<open>Properties\<close>

text \<open>
  Claim C7. Once the receiver has something of a stream, the link catches up: in any reachable
  state, after twice the number of undelivered messages and three more rounds without loss, every
  submitted message has been delivered and every entry released, and no call of them fails.
\<close>

theorem link_catches_up:
  assumes "pair_reach M d s P" and "delivered P \<noteq> []"
  shows "\<exists>P'. pair_rounds (2 * (length (submitted P) - length (delivered P)) + 3) M d s P = Inr P' \<and>
    map message (delivered P') = map message (submitted P) \<and> pending M (sender P') d = []"
proof -
  let ?L = "link_of M d s P" and ?k = "2 * (length (submitted P) - length (delivered P)) + 3"
  have inv: "pair_ok M d s P" "link_inv ?L" using pair_reach_inv [OF assms(1)] by simp_all
  from pair_rounds_refine [OF inv(1)] obtain P' where P': "pair_rounds ?k M d s P = Inr P'"
    "link_of M d s P' = (l_round ^^ ?k) ?L" by blast
  have "rounds_left ?L \<le> ?k"
    using rounds_left_bound [of ?L] inv(2) by (simp add: link_inv_def link_of_fields)
  moreover have "l_delivered ?L \<noteq> []" using assms(2) by (simp add: link_of_fields)
  ultimately have r: "link_inv (quiet (link_of M d s P'))" "rounds_left (quiet (link_of M d s P')) = 0"
    "l_submitted (link_of M d s P') = submitted P"
    using rounds_done [OF inv(2)] P'(2) by (simp_all add: quiet_views link_of_fields)
  from done_iff [OF _ _ r(2)] r(1,3) have "w_packets (l_window (quiet (link_of M d s P'))) = []"
    "map message (l_delivered (quiet (link_of M d s P'))) = map message (l_submitted (quiet (link_of M d s P')))"
    by (simp_all add: link_inv_def)
  then show ?thesis using P'(1) r(3) by (simp add: quiet_def link_of_fields window_of_fields)
qed

theorem link_catches_up_witness:
  "\<exists>P P'. pair_reach False 0 0 P \<and> length (pending False (sender P) 0) = 1 \<and> pair_rounds 3 False 0 0 P = Inr P' \<and>
     pending False (sender P') 0 = []"
proof -
  obtain P where P: "pair_reach False 0 0 P" "length (submitted P) = 1" "length (delivered P) = 1" "length (pending False (sender P) 0) = 1"
    by (rule small_pair)
  then have "delivered P \<noteq> []" by auto
  from link_catches_up [OF P(1) this] P show ?thesis by auto
qed

end
