(* ===== verification/Outbox.thy ===== *)
theory Outbox
  imports NodeSlots Link
begin

text \<open>
  The sending half of a node as one end of a link: its window, and the packet it has queued for its
  next slot. The node keeps a queued data packet until it is sent, also when the packet has been
  acknowledged meanwhile and the application has got its entry again, so the queued packet is
  followed by its position in the stream.
\<close>

section \<open>The window of a node\<close>

definition outbox :: "tTxManager \<Rightarrow> tPacket list \<Rightarrow> tPacket list \<Rightarrow> u8 \<Rightarrow> u8 list \<Rightarrow> tLink" where
  "outbox m sub got r acks = \<lparr>l_window = window_of False m 0, l_rx = r, l_submitted = sub, l_delivered = got,
     l_wire = [], l_acks = acks\<rparr>"

lemma outbox_fields [simp]:
  "l_window (outbox m sub got r acks) = window_of False m 0" "l_rx (outbox m sub got r acks) = r"
  "l_submitted (outbox m sub got r acks) = sub" "l_delivered (outbox m sub got r acks) = got"
  "l_wire (outbox m sub got r acks) = []" "l_acks (outbox m sub got r acks) = acks"
  by (simp_all add: outbox_def)

lemma outbox_update:
  "(outbox m sub got r acks)\<lparr>l_window := window_of False m' 0\<rparr> = outbox m' sub got r acks"
  "(outbox m sub got r acks)\<lparr>l_acks := acks'\<rparr> = outbox m sub got r acks'"
  "(outbox m sub got r acks)\<lparr>l_submitted := sub'\<rparr> = outbox m sub' got r acks"
  by (simp_all add: outbox_def)

definition released_by :: "tPacket list \<Rightarrow> tTxManager \<Rightarrow> nat" where
  "released_by sub m = length sub - buffered m 0"

lemma released_outbox [simp]: "released (outbox m sub got r acks) = released_by sub m"
  by (simp add: released_def released_by_def window_of_def)

lemma outbox_facts:
  assumes "link_inv (outbox m sub got r acks)"
  shows "buffered m 0 \<le> 254" "buffered m 0 \<le> length sub" "start_of m 0 = seq_of (released_by sub m)"
    "map message (pending False m 0) = map message (drop (released_by sub m) sub)"
    "\<forall>k<length sub. txSeqNum (sub ! k) = seq_of k" "released_by sub m \<le> length got" "length got \<le> length sub"
    "r = ack_of (length got)" "map message got = map message (take (length got) sub)"
    "length sub = released_by sub m + buffered m 0"
proof -
  have w: "window_ok (outbox m sub got r acks)" "delivery_ok (outbox m sub got r acks)" using assms by (simp_all add: link_inv_def)
  show "buffered m 0 \<le> 254" "buffered m 0 \<le> length sub" "start_of m 0 = seq_of (released_by sub m)"
    "map message (pending False m 0) = map message (drop (released_by sub m) sub)"
    "\<forall>k<length sub. txSeqNum (sub ! k) = seq_of k" "released_by sub m \<le> length got" "length got \<le> length sub"
    "r = ack_of (length got)" "map message got = map message (take (length got) sub)"
    using w by (simp_all add: window_ok_def delivery_ok_def Let_def window_of_def)
  then show "length sub = released_by sub m + buffered m 0" by (simp add: released_by_def)
qed

section \<open>The queued entry\<close>

text \<open>
  Entry \<open>i\<close> holds the \<open>j\<close>-th submission, or did until it was released; in either case no number
  that the receiver can expect is mistaken for its own. \<open>g\<close> is how many have arrived.
\<close>

definition entry_at :: "tPacket list \<Rightarrow> nat \<Rightarrow> tTxManager \<Rightarrow> nat \<Rightarrow> nat \<Rightarrow> bool" where
  "entry_at sub g m i j \<longleftrightarrow> i < length (es m) \<and> txSeqNum (packet (es m ! i)) = seq_of j \<and> j < length sub \<and> g \<le> j + 254 \<and>
     (released_by sub m \<le> j \<longrightarrow> owned m i)"

text \<open>What of a packet the receiver can rely on.\<close>

definition arrives_as :: "tPacket list \<Rightarrow> nat \<Rightarrow> nat \<Rightarrow> tPacket \<Rightarrow> bool" where
  "arrives_as sub g j p \<longleftrightarrow> txSeqNum p = seq_of j \<and> j < length sub \<and> g \<le> j + 254 \<and> (g \<le> j \<longrightarrow> message p = message (sub ! j))"

lemma key_node: "key False e = (0, txSeqNum (packet e))"
  by (simp add: key_def)

lemma seq_of_base: "seq_of (unat (seq_of r) + k) = seq_of (r + k)"
  by (simp add: u8_eq_iff unat_seq_of mod_add_left_eq)

lemma slot_of_seq: "start_of m 0 = seq_of r \<Longrightarrow> r \<le> j \<Longrightarrow> slot_seq m 0 (j - r) = seq_of j"
  using seq_of_base [of r "j - r"] by (simp add: slot_seq_def)

lemma entry_message:
  assumes link: "link_inv (outbox m sub got r acks)" and inv: "tx_inv False m" and d: "dst_ok m 0"
    and e: "entry_at sub g m i j" and rel: "released_by sub m \<le> j"
  shows "message (packet (es m ! i)) = message (sub ! j)"
proof -
  note f = outbox_facts [OF link]
  have core: "tx_core False m" using inv by (simp add: tx_inv_def)
  let ?k = "j - released_by sub m"
  have o: "owned m i" and j: "j < length sub" and s: "txSeqNum (packet (es m ! i)) = seq_of j" using e rel by (auto simp: entry_at_def)
  have k: "?k < buffered m 0" using f(10) j rel by linarith
  obtain i' where i': "owned m i'" "key False (es m ! i') = (0, slot_seq m 0 ?k)" "pending False m 0 ! ?k = packet (es m ! i')"
    using pending_entry [OF core d k] by metis
  have "slot_seq m 0 ?k = seq_of j" by (rule slot_of_seq [OF f(3) rel])
  then have "i' = i" using owned_key_inj [OF core i'(1) o] i'(2) s by (simp add: key_node)
  moreover have "?k < length (drop (released_by sub m) sub)" using j rel by (simp add: diff_less_mono)
  then have "message (pending False m 0 ! ?k) = message (drop (released_by sub m) sub ! ?k)"
    using arg_cong [OF f(4), of "\<lambda>xs. xs ! ?k"] k by (simp only: nth_map length_pending)
  ultimately show ?thesis using i'(3) rel j by simp
qed

lemma entry_arrives:
  assumes "link_inv (outbox m sub got r acks)" and "tx_inv False m" and "dst_ok m 0" and "entry_at sub (length got) m i j"
  shows "arrives_as sub (length got) j (packet (es m ! i))"
  using assms(4) entry_message [OF assms] outbox_facts(6) [OF assms(1)] by (auto simp: arrives_as_def entry_at_def)

lemma entry_keep:
  assumes "entry_at sub g m i j" and "length (es m') = length (es m)" and "txSeqNum (packet (es m' ! i)) = txSeqNum (packet (es m ! i))"
    and "released_by sub m \<le> released_by sub' m'" and "length sub \<le> length sub'" and "released_by sub' m' \<le> j \<Longrightarrow> owned m i \<Longrightarrow> owned m' i"
  shows "entry_at sub' g m' i j"
  using assms by (auto simp: entry_at_def)

text \<open>The packet stays in place while entries are released.\<close>

definition only_frees :: "tTxManager \<Rightarrow> tTxManager \<Rightarrow> bool" where
  "only_frees m m' \<longleftrightarrow> (\<forall>k<length (es m). inUse (es m' ! k) \<longrightarrow> inUse (es m ! k))"

lemma free_inUse: "k < length xs \<Longrightarrow> inUse (xs[x := (xs ! x)\<lparr>inUse := False\<rparr>] ! k) \<Longrightarrow> inUse (xs ! k)"
  by (cases "x = k") auto

lemma rxAckLoop_frees: "all_res (\<lambda>(n', m'). only_frees m m' \<and> length (es m') = length (es m)) (rxAckLoop src ack M seq n m)"
proof (induction src ack M seq n m rule: rxAckLoop.induct)
  case (1 src ack M seq n m)
  let ?new = "INCR_SEQUENCE_NUM ack"
  show ?case
  proof (cases "seq = ?new")
    case True
    then show ?thesis by (subst rxAckLoop.simps) (simp add: only_frees_def)
  next
    case False
    show ?thesis
      unfolding rxAckLoop.simps [of src ack M seq] Let_def if_not_P [OF False]
    proof (intro all_res_bind, clarify, intro all_res_bind)
      fix v st u nx
      assume f: "freePacket (packetStore m) src seq M = Inr (v, st)" and v: "microbusAssert v = Inr u"
        and nx: "rd (txSeqNumNext m) (unat src) = Inr nx"
      have "length (entries st) = length (es m) \<and> (\<forall>k<length (es m). inUse (entries st ! k) \<longrightarrow> inUse (es m ! k))"
        using f by (auto simp: freePacket_def and_then_eq_Inr dest: free_inUse)
      then show "all_res (\<lambda>(n', m'). only_frees m m' \<and> length (es m') = length (es m)) (rxAckLoop src ack M (INCR_SEQUENCE_NUM seq) (n + 1)
          (m\<lparr>packetStore := st, txSeqNumNext := (if seq = nx then (txSeqNumNext m)[unat src := ?new] else txSeqNumNext m)\<rparr>))"
        using 1 [OF refl False f refl v nx refl] by (auto simp: only_frees_def elim!: all_res_weaken)
    qed
  qed
qed

lemma rxAckLoop_freesD [dest!]:
  "rxAckLoop src ack M seq n m = Inr (n', m') \<Longrightarrow> only_frees m m' \<and> length (es m') = length (es m)"
  using all_resD [OF rxAckLoop_frees, of src ack M seq n m "(n', m')"] by simp

lemma rxAck_frees: "all_res (\<lambda>(n, w, m'). only_frees m m' \<and> length (es m') = length (es m)) (rxAckSeqNum m src a M st)"
  unfolding rxAckSeqNum_def Let_def
  by (intro all_res_if all_res_bind; clarsimp simp: only_frees_def; intro all_res_if all_res_bind conjI impI;
    clarsimp simp: only_frees_def; intro all_res_bind; clarsimp)

lemma ack_keeps_entry:
  assumes link: "link_inv (outbox m' sub got r acks)" and inv: "tx_inv False m" "tx_inv False m'" and d: "dst_ok m 0" "dst_ok m' 0"
    and run: "rxAckSeqNum m 0 a False st = Inr (n, w, m')" and frame: "tx_frame m m'"
    and rel: "released_by sub m \<le> released_by sub m'" and e: "entry_at sub g m i j"
  shows "entry_at sub g m' i j"
proof -
  have p: "packets m' = packets m" using all_resD [OF rxAck_packets run] by (simp add: same_packets_def)
  have fr: "only_frees m m'" "length (es m') = length (es m)" using all_resD [OF rxAck_frees run] by simp_all
  have pk: "packet (es m' ! k) = packet (es m ! k)" if "k < length (es m)" for k
    using arg_cong [OF p, of "\<lambda>xs. xs ! k"] that fr(2) by simp
  have i: "i < length (es m)" using e by (simp add: entry_at_def)
  show ?thesis
  proof (rule entry_keep [OF e fr(2) _ rel])
    show "txSeqNum (packet (es m' ! i)) = txSeqNum (packet (es m ! i))" using pk [OF i] by simp
    assume rel': "released_by sub m' \<le> j" and o: "owned m i"
    note f = outbox_facts [OF link]
    have core: "tx_core False m" "tx_core False m'" using inv by (simp_all add: tx_inv_def)
    have k: "j - released_by sub m' < buffered m' 0" using f(10) rel' e unfolding entry_at_def by linarith
    obtain i' where i': "owned m' i'" "key False (es m' ! i') = (0, slot_seq m' 0 (j - released_by sub m'))"
      using pending_entry [OF core(2) d(2) k] by metis
    have "slot_seq m' 0 (j - released_by sub m') = seq_of j" by (rule slot_of_seq [OF f(3) rel'])
    moreover have "owned m i'" using i'(1) fr frame by (auto simp: owned_def only_frees_def tx_frame_def)
    moreover have "i' < length (es m)" using i'(1) fr(2) by (simp add: owned_def)
    ultimately have "i' = i" using owned_key_inj [OF core(1) _ o] i'(2) pk e by (simp add: key_node entry_at_def)
    then show "owned m' i" using i'(1) by simp
  qed simp
qed

lemma put_packet:
  assumes "i < length xs"
  shows "inUse (xs[k := (xs ! k)\<lparr>packet := p\<rparr>] ! i) = inUse (xs ! i)"
    and "txSeqNum p = txSeqNum (packet (xs ! k)) \<Longrightarrow> txSeqNum (packet (xs[k := (xs ! k)\<lparr>packet := p\<rparr>] ! i)) = txSeqNum (packet (xs ! i))"
  using assms by (cases "k = i"; simp)+

lemma put_inUse: "inUse (xs ! k) \<Longrightarrow> k < length xs \<Longrightarrow> inUse (xs[y := (xs ! y)\<lparr>inUse := True\<rparr>] ! k)"
  by (cases "y = k") auto

lemma allocate_entries:
  assumes "allocateTxPacket m = Inr (r, m')" and k: "k < length (es m)" "inUse (es m ! k)"
  shows "inUse (es m' ! k)"
proof -
  obtain x store where x: "allocatePacketEntry (packetStore m) = Inr (x, store)" using assms by (auto simp: allocateTxPacket_def and_then_eq_Inr)
  then have "inUse (entries store ! k)"
    using k by (auto simp: allocatePacketEntry_def and_then_eq_Inr put_inUse split: option.split_asm)
  moreover have "es m' = entries store"
    using assms(1) x by (cases x) (auto simp: allocateTxPacket_def split: if_split_asm)
  ultimately show ?thesis by simp
qed

lemma alloc_views:
  assumes inv: "tx_inv False m" and none: "allocatedPacket m = None" and run: "allocateTxPacket m = Inr (r, m')" and d: "dst_ok m 0"
  shows "window_of False m' 0 = window_of False m 0"
    and "allocatedPacket m' = Some a \<Longrightarrow> \<not> inUse (es m ! a)"
proof -
  have both: "window_of False m' 0 = window_of False m 0 \<and> (\<forall>a. allocatedPacket m' = Some a \<longrightarrow> \<not> inUse (es m ! a))"
  proof (cases "\<exists>e\<in>set (es m). \<not> inUse e")
    case True
    then show ?thesis using allocate_free [OF inv none True] run d by auto
  next
    case False
    then show ?thesis using allocate_full [OF inv] run none by auto
  qed
  then show "window_of False m' 0 = window_of False m 0" "allocatedPacket m' = Some a \<Longrightarrow> \<not> inUse (es m ! a)" by auto
qed

lemma alloc_keeps_entry:
  assumes inv: "tx_inv False m" and none: "allocatedPacket m = None" and run: "allocateTxPacket m = Inr (r, m')"
    and e: "entry_at sub g m i j" and d: "dst_ok m 0"
  shows "entry_at sub g m' i j"
proof -
  have w: "window_of False m' 0 = window_of False m 0" by (rule alloc_views(1) [OF inv none run d])
  have a: "allocatedPacket m' = Some a \<Longrightarrow> \<not> inUse (es m ! a)" for a by (rule alloc_views(2) [OF inv none run d])
  have p: "packets m' = packets m" using all_resD [OF allocate_packets run] by (simp add: same_packets_def)
  have len: "length (es m') = length (es m)" using arg_cong [OF p, of length] by simp
  note u = allocate_entries [OF run]
  have "released_by sub m' = released_by sub m" using arg_cong [OF w, of "length \<circ> w_packets"] by (simp add: released_by_def window_of_def)
  moreover have "i < length (es m)" using e by (simp add: entry_at_def)
  ultimately show "entry_at sub g m' i j"
    using a u arg_cong [OF p, of "\<lambda>xs. xs ! i"] len by (intro entry_keep [OF e len]) (auto simp: owned_def)
qed

lemma fill_window:
  assumes "tx_inv False m" and "length bytes = MASTER_PACKET_DATA_SIZE" and "dst_ok m 0"
  shows "window_of False (tx_fill bytes m) 0 = window_of False m 0"
  by (rule restamps_eq [OF tx_fill_spec(2) [OF assms(1,2)] assms(3)])

lemma fill_keeps_entry:
  assumes inv: "tx_inv False m" and len: "length bytes = MASTER_PACKET_DATA_SIZE" and e: "entry_at sub g m i j" and d: "dst_ok m 0"
  shows "entry_at sub g (tx_fill bytes m) i j"
proof -
  have w: "window_of False (tx_fill bytes m) 0 = window_of False m 0" by (rule fill_window [OF inv len d])
  have "released_by sub (tx_fill bytes m) = released_by sub m"
    using arg_cong [OF w, of "length \<circ> w_packets"] by (simp add: released_by_def window_of_def)
  then show "entry_at sub g (tx_fill bytes m) i j"
    using e by (intro entry_keep [OF e]) (auto simp: tx_fill_def upd_packet_def owned_def entry_at_def put_packet split: option.split)
qed

lemma header_keeps_entry:
  assumes "entry_at sub g m i j" and "txSeqNum p = txSeqNum (packet (es m ! k))"
    and "window_of False (upd_packet k (\<lambda>_. p) m) 0 = w" "length (w_packets w) = buffered m 0"
  shows "entry_at sub g (upd_packet k (\<lambda>_. p) m) i j"
proof -
  have "released_by sub (upd_packet k (\<lambda>_. p) m) = released_by sub m"
    using arg_cong [OF assms(3), of "length \<circ> w_packets"] assms(4) by (simp add: released_by_def window_of_def)
  then show ?thesis using assms(1,2)
    by (intro entry_keep [OF assms(1)]) (auto simp: upd_packet_def owned_def entry_at_def put_packet)
qed

text \<open>A submission into the entry that is queued gives the queued packet a new place at the end.\<close>

lemma submit_keeps_entry:
  assumes link: "link_inv (outbox m sub got rx acks)" and inv: "tx_inv False m" and a: "allocatedPacket m = Some a" and d: "dst_ok m 0"
    and s: "unat s < MAX_NODES" and run: "submitAllocatedTxPacket m False 0 0 s 0 NODE_DATA_PACKET n = Inr m'"
  shows "link_inv (outbox m' (sub @ [last (pending False m' 0)]) got rx acks)"
    and "entry_at sub (length got) m i j \<Longrightarrow> \<exists>j'\<ge>j. entry_at (sub @ [last (pending False m' 0)]) (length got) m' i j'"
proof -
  let ?p = "stampPacket False NODE_DATA_PACKET n s 0 (end_of m 0) (packet (es m ! a))"
  have sub: "tx_inv False m'" "allocatedPacket m' = None" "window_of False m' 0 = w_push ?p (window_of False m 0)"
    using submit_spec [OF inv a d _ s, of 0 0 NODE_DATA_PACKET n] run by auto
  then have pend: "pending False m' 0 = pending False m 0 @ [?p]" "start_of m' 0 = start_of m 0"
    by (simp_all add: w_push_def window_of_def)
  have core: "tx_core False m" using inv by (simp add: tx_inv_def)
  have wf: "wf_packet (packet (es m ! a))" using core a by (auto simp: tx_core_def tx_shape_def tx_first_def)
  note f = outbox_facts [OF link]
  have seq: "txSeqNum ?p = seq_of (unat (start_of m 0) + buffered m 0)"
    using stamp_facts(2) [OF wf] tx_core_window(6) [OF core d] by (simp add: slot_seq_def)
  have b: "buffered m 0 < 254" using buffered_bound [OF core d] core a by (simp add: tx_core_def tx_shape_def)
  have l: "last (pending False m' 0) = ?p" using pend(1) by simp
  have "link_inv ((outbox m sub got rx acks)\<lparr>l_window := w_push ?p (window_of False m 0), l_submitted := sub @ [?p]\<rparr>)"
    using push_inv [OF link, of ?p] b seq by (simp add: window_of_def)
  then show "link_inv (outbox m' (sub @ [last (pending False m' 0)]) got rx acks)"
    unfolding l sub(3) [symmetric] by (simp add: outbox_update)
  assume e: "entry_at sub (length got) m i j"
  have "released_by (sub @ [?p]) m' = released_by sub m"
    using arg_cong [OF pend(1), of length] by (simp add: released_by_def)
  moreover have es: "es m' = (es m)[a := (es m ! a)\<lparr>packet := ?p\<rparr>]"
    using run a by (auto simp: submitAllocatedTxPacket_def and_then_eq_Inr Let_def upd_packet_def end_of_def rd_eq_Inr)
  moreover have i: "i < length (es m)" using e by (simp add: entry_at_def)
  ultimately show "\<exists>j'\<ge>j. entry_at (sub @ [last (pending False m' 0)]) (length got) m' i j'"
  proof (cases "i = a")
    case True
    have "txSeqNum ?p = seq_of (length sub)" using seq f(3,10) by (simp add: seq_of_base)
    moreover have "owned m' a" using es i sub(2) True core a by (simp add: owned_def tx_core_def tx_first_def)
    ultimately have "entry_at (sub @ [?p]) (length got) m' i (length sub)"
      using True i es f(7) by (simp add: entry_at_def)
    then show ?thesis using e unfolding l by (intro exI [of _ "length sub"]) (simp add: entry_at_def)
  next
    case False
    have "entry_at (sub @ [?p]) (length got) m' i j"
      using False es i sub(2) \<open>released_by (sub @ [?p]) m' = released_by sub m\<close> by (intro entry_keep [OF e]) (auto simp: owned_def)
    then show ?thesis unfolding l by blast
  qed
qed

section \<open>The calls of the transmit manager in a slot\<close>

lemma fetch_outbox:
  assumes link: "link_inv (outbox m sub got rx acks)" and inv: "tx_inv False m" and d: "dst_ok m 0"
    and run: "nodeGetNextTxDataPacket m = Inr (r, m')"
  shows "link_inv (outbox m' sub got rx acks)"
    and "r = Some i \<Longrightarrow> \<exists>j. entry_at sub (length got) m' i j \<and> length sub \<le> j + 254"
proof -
  note f = outbox_facts [OF link]
  have g: "(fetched m' r, window_of False m' 0) = w_next_stamped (rxSeqNum m ! 0) (window_of False m 0)"
    "\<And>i. r = Some i \<Longrightarrow> owned m' i \<and> sent m 0 < buffered m' 0 \<and> key False (es m' ! i) = (0, slot_seq m' 0 (sent m 0))"
    using nodeGetNext_spec [OF inv d] run by auto
  let ?w = "window_of False m 0" and ?w' = "window_of False m' 0"
  have core: "tx_core False m" using inv by (simp add: tx_inv_def)
  have len: "w_sent ?w \<le> length (w_packets ?w)" "w_pause ?w \<le> 2"
    using link by (simp_all add: link_inv_def window_ok_def Let_def)
  have w: "map message (w_packets ?w') = map message (w_packets ?w) \<and> w_first ?w' = w_first ?w \<and>
      w_sent ?w' \<le> length (w_packets ?w) \<and> w_pause ?w' \<le> 2"
  proof (cases "w_next ?w")
    case (Pair x w1)
    have p: "w_pause w1 \<le> 2" using pause_le_2(2) [OF len(2)] Pair by simp
    show ?thesis
    proof (cases x)
      case None
      then show ?thesis using g(1) Pair p len w_next_None [of ?w] by (simp add: w_next_stamped_def)
    next
      case (Some q)
      have n: "w_packets w1 = w_packets ?w" "w_sent w1 = Suc (w_sent ?w)" "w_first w1 = w_first ?w" "q = w_packets ?w ! w_sent ?w"
        using w_next_Some [of ?w q w1] Pair Some by auto
      have lt: "w_sent ?w < length (w_packets ?w)"
        using Pair Some len(1) by (auto simp: w_next_def split: if_split_asm)
      have "map message ((w_packets ?w)[w_sent ?w := set_node_ackSeqNum a q]) = map message (w_packets ?w)" for a
        unfolding map_update n(4) using lt by (simp add: message_def set_node_ackSeqNum_def list_update_same_conv)
      then show ?thesis using g(1) Pair Some n lt p by (simp add: w_next_stamped_def)
    qed
  qed
  then show "link_inv (outbox m' sub got rx acks)"
    using window_moves_inv [OF link, of ?w'] by (simp add: outbox_update)
  have same: "buffered m' 0 = buffered m 0" "start_of m' 0 = start_of m 0"
    using w arg_cong [OF conjunct1 [OF w], of length, unfolded length_map] by (simp_all add: window_of_def)
  assume i: "r = Some i"
  let ?j = "released_by sub m + sent m 0"
  have o: "owned m' i" "sent m 0 < buffered m 0" "key False (es m' ! i) = (0, slot_seq m' 0 (sent m 0))" using g(2) [OF i] same by auto
  have "slot_seq m' 0 (sent m 0) = seq_of ?j" using f(3) same(2) by (simp add: slot_seq_def seq_of_base)
  then have "entry_at sub (length got) m' i ?j"
    using o f(1,7,10) by (simp add: entry_at_def key_node owned_def)
  then show "\<exists>j. entry_at sub (length got) m' i j \<and> length sub \<le> j + 254" using f(1,10) by (intro exI [of _ ?j]) simp
qed

lemma ack_outbox:
  assumes link: "link_inv (outbox m sub got rx (a # acks))" and inv: "tx_inv False m" and d: "dst_ok m 0"
    and run: "rxAckSeqNum m 0 a False st = Inr (n, w, m')"
  shows "link_inv (outbox m' sub got rx acks)" and "entry_at sub g m i j \<Longrightarrow> entry_at sub g m' i j"
proof -
  have r: "tx_inv False m'" "tx_frame m m'" "dst_ok m' = dst_ok m" "window_of False m' 0 = w_ack a (window_of False m 0)"
    using rxAck_spec [OF inv d, of a st] run by (auto simp: only_at_def)
  have "link_inv (outbox m' sub got rx (a # acks))"
    using link_heard_inv [OF link, of a acks] by (simp add: outbox_update flip: r(4))
  from missed_inv [OF this, of "[]" a acks] show l: "link_inv (outbox m' sub got rx acks)" by (simp add: outbox_update)
  have "length (w_packets (w_ack a (window_of False m 0))) \<le> length (w_packets (window_of False m 0))" by (simp add: w_ack_def)
  then have "buffered m' 0 \<le> buffered m 0" unfolding r(4) [symmetric] by (simp add: window_of_def)
  then have "released_by sub m \<le> released_by sub m'" by (simp add: released_by_def)
  then show "entry_at sub g m i j \<Longrightarrow> entry_at sub g m' i j"
    using ack_keeps_entry [OF l inv r(1) d _ run r(2)] r(3) d by simp
qed

lemma header_outbox:
  assumes link: "link_inv (outbox m sub got rx acks)" and inv: "tx_inv False m" and d: "dst_ok m 0"
    and k: "k < length (es m)" "wf_packet p" "same_message (packet (es m ! k)) p"
  shows "link_inv (outbox (upd_packet k (\<lambda>_. p) m) sub got rx acks)"
    and "entry_at sub g m i j \<Longrightarrow> entry_at sub g (upd_packet k (\<lambda>_. p) m) i j"
proof -
  let ?m = "upd_packet k (\<lambda>_. p) m"
  have seq: "txSeqNum p = txSeqNum (packet (es m ! k))" by (rule same_message_fields(2) [OF k(3)])
  have "restamps False same_message m ?m" by (rule rewrite_entry(2) [OF inv k(1,2) seq]) (use k(3) in simp_all)
  then have r: "list_all2 same_message (pending False m 0) (pending False ?m 0)" "start_of ?m 0 = start_of m 0"
    "sent ?m 0 = sent m 0" "pause_of ?m 0 = pause_of m 0" using d by (simp_all add: restamps_def)
  have "w_sent (window_of False m 0) \<le> length (w_packets (window_of False m 0))" "w_pause (window_of False m 0) \<le> 2"
    using link by (simp_all add: link_inv_def window_ok_def Let_def)
  then have "link_inv ((outbox m sub got rx acks)\<lparr>l_window := window_of False ?m 0\<rparr>)"
    by (intro window_moves_inv [OF link]) (use r in \<open>simp_all add: window_of_def flip: same_messages\<close>, simp add: same_messages)
  then show "link_inv (outbox ?m sub got rx acks)" by (simp add: outbox_update)
  assume e: "entry_at sub g m i j"
  show "entry_at sub g ?m i j"
    using list_all2_lengthD [OF r(1)] by (intro header_keeps_entry [OF e seq refl]) (simp add: window_of_def)
qed

section \<open>The queued packet of a node\<close>

definition queued :: "tPacket list \<Rightarrow> nat \<Rightarrow> tNode \<Rightarrow> nat option \<Rightarrow> bool" where
  "queued sub g n jo \<longleftrightarrow> (case nextTxPacket n of
     None \<Rightarrow> jo = None
   | Some (Tx_Entry i) \<Rightarrow> (\<exists>j. jo = Some j \<and> entry_at sub g (txManager n) i j)
   | Some q \<Rightarrow> jo = None \<and> (\<forall>p. tx_deref (node_memory n) q = Inr p \<longrightarrow> GET_PACKET_TYPE p \<noteq> packet_code NODE_DATA_PACKET))"

definition sender_ok :: "tPacket list \<Rightarrow> tPacket list \<Rightarrow> u8 \<Rightarrow> u8 list \<Rightarrow> tNode \<Rightarrow> nat option \<Rightarrow> bool" where
  "sender_ok sub got rx acks n jo \<longleftrightarrow> link_inv (outbox (txManager n) sub got rx acks) \<and> queued sub (length got) n jo"

text \<open>A step that at most notes a number of the master.\<close>

definition tx_kept :: "tNode \<Rightarrow> tNode \<Rightarrow> bool" where
  "tx_kept n n' \<longleftrightarrow> (\<exists>v. txManager n' = (txManager n)\<lparr>rxSeqNum := v\<rparr>) \<and> tmpEmptyPacketHeader n' = tmpEmptyPacketHeader n \<and>
     tmpPacket n' = tmpPacket n \<and> nextTxPacket n' = nextTxPacket n"

lemma tx_keptI:
  "txManager n' = txManager n \<Longrightarrow> tmpEmptyPacketHeader n' = tmpEmptyPacketHeader n \<Longrightarrow> tmpPacket n' = tmpPacket n \<Longrightarrow>
   nextTxPacket n' = nextTxPacket n \<Longrightarrow> tx_kept n n'"
  by (auto simp: tx_kept_def intro: exI [of _ "rxSeqNum (txManager n)"])

lemma tx_kept_trans: "tx_kept n n1 \<Longrightarrow> tx_kept n1 n2 \<Longrightarrow> tx_kept n n2"
  by (auto simp: tx_kept_def)

lemma rxSeqNum_views:
  "window_of M (m\<lparr>rxSeqNum := v\<rparr>) d = window_of M m d" "released_by sub (m\<lparr>rxSeqNum := v\<rparr>) = released_by sub m"
  "owned (m\<lparr>rxSeqNum := v\<rparr>) = owned m"
  by (simp_all add: window_of_def released_by_def tx_views_cong [of "m\<lparr>rxSeqNum := v\<rparr>" m] pause_of_def)

lemma kept_sender:
  assumes "tx_kept n n'"
  shows "sender_ok sub got rx acks n' jo = sender_ok sub got rx acks n jo"
proof -
  obtain v where v: "txManager n' = (txManager n)\<lparr>rxSeqNum := v\<rparr>" and s: "tmpEmptyPacketHeader n' = tmpEmptyPacketHeader n"
    "tmpPacket n' = tmpPacket n" "nextTxPacket n' = nextTxPacket n" using assms by (auto simp: tx_kept_def)
  show ?thesis
    by (simp add: sender_ok_def queued_def outbox_def v s rxSeqNum_views entry_at_def node_memory_def split: option.split tTxPtr.split)
qed

section \<open>The first half of a slot\<close>

lemma check_kept:
  assumes "rxPacketCheckAndUpdateSeqNum m s q = Inr (ok, m')"
  shows "\<exists>v. m' = m\<lparr>rxSeqNum := v\<rparr>"
proof (cases "m' = m")
  case True
  then show ?thesis by (intro exI [of _ "rxSeqNum m"]) simp
next
  case False
  then show ?thesis using assms by (auto simp: rxPacketCheckAndUpdateSeqNum_def and_then_eq_Inr Let_def split: if_split_asm)
qed

lemma keep_kept:
  "all_res (\<lambda>n'. tx_kept n n' \<and> nodeId n' = nodeId n \<and> savedRxAckValid n' = savedRxAckValid n \<and> savedRxAck n' = savedRxAck n)
     (nodeKeepRxPacket p n)"
proof (intro all_resI)
  fix n' assume run: "nodeKeepRxPacket p n = Inr n'"
  show "tx_kept n n' \<and> nodeId n' = nodeId n \<and> savedRxAckValid n' = savedRxAckValid n \<and> savedRxAck n' = savedRxAck n"
  proof (cases "master_dstNodeId p = nodeId n")
    case False
    then show ?thesis using run by (simp add: nodeKeepRxPacket_def tx_keptI)
  next
    case True
    then obtain fe rpm where f: "findFreeRxPacket (rxPacketManager n) = Inr (fe, rpm)"
      using run by (auto simp: nodeKeepRxPacket_def Let_def and_then_eq_Inr)
    show ?thesis
    proof (cases "fe \<noteq> None \<and> nodeId n \<noteq> UNALLOCATED_NODE_ID \<and> GET_PACKET_TYPE p = packet_code MASTER_DATA_PACKET")
      case c: True
      then obtain ok m where m: "rxPacketCheckAndUpdateSeqNum (txManager n) 0 (txSeqNum p) = Inr (ok, m)"
        using run True f by (auto simp: nodeKeepRxPacket_def Let_def and_then_eq_Inr)
      obtain v where "m = (txManager n)\<lparr>rxSeqNum := v\<rparr>" using check_kept [OF m] by blast
      then show ?thesis using run True f c m by (auto simp: nodeKeepRxPacket_def Let_def tx_kept_def intro!: exI [of _ v])
    next
      case False
      then show ?thesis using run True f
        by (auto simp: nodeKeepRxPacket_def Let_def intro!: tx_keptI split: option.split_asm)
    qed
  qed
qed

lemma record_acks_from:
  "savedRxAckValid (fold (recordAcks p) is n) \<Longrightarrow> \<not> savedRxAckValid n \<Longrightarrow>
     \<exists>k\<in>set is. master_nextTxNodeId p k = nodeId n \<and> savedRxAck (fold (recordAcks p) is n) = master_nextTxNodeAckSeqNum p k"
proof (induction "is" rule: rev_induct)
  case (snoc k ks)
  obtain v a where f: "fold (recordAcks p) ks n = n\<lparr>savedRxAckValid := v, savedRxAck := a\<rparr>" using record_acks by blast
  have "recordAcks p k (n\<lparr>savedRxAckValid := v, savedRxAck := a\<rparr>) =
      (if master_nextTxNodeId p k = nodeId n then n\<lparr>savedRxAckValid := True, savedRxAck := master_nextTxNodeAckSeqNum p k\<rparr>
       else n\<lparr>savedRxAckValid := v, savedRxAck := a\<rparr>)" by (simp add: recordAcks_def)
  then show ?case using snoc f by (auto split: if_split_asm)
qed simp

lemma init_unallocated: "nodeInit uid k ps maxRx = Inr n \<Longrightarrow> nodeId n = UNALLOCATED_NODE_ID"
  by (auto simp: nodeInit_def and_then_eq_Inr split: option.split_asm)

lemma remove_unallocated: "nodeRemoveFromNetwork n = Inr n' \<Longrightarrow> nodeId n' = UNALLOCATED_NODE_ID"
  by (auto simp: nodeRemoveFromNetwork_def nodeReset_def and_then_eq_Inr dest: init_unallocated split: if_split_asm)

lemma quick_kept:
  assumes run: "nodeQuickProcessPrevRx n crc = Inr n'" and init: "initialised n"
    and id: "nodeId n' = nodeId n" "nodeId n \<noteq> UNALLOCATED_NODE_ID"
  shows "tx_kept n n'"
    and "savedRxAckValid n' \<Longrightarrow> node_readable crc (node_input n) \<and> (\<exists>k<MAX_TX_NODES_SCHEDULED.
      master_nextTxNodeId (node_input n) k = nodeId n \<and> savedRxAck n' = master_nextTxNodeAckSeqNum (node_input n) k)"
proof -
  let ?n1 = "n\<lparr>prevRxPacketEntry := Some (nextRxPacketEntry n), validRxPacket := False, savedRxAckValid := False\<rparr>"
  obtain e where e: "rd (rxPacketEntries (rxPacketManager n)) (nextRxPacketEntry n) = Inr e"
    using run init by (auto simp: nodeQuickProcessPrevRx_def and_then_eq_Inr)
  then have p: "packet e = node_input n" by (auto simp: rd_eq_Inr node_input_def rx_packet_def)
  have removed: "nodeRemoveFromNetwork ?n1 \<noteq> Inr n'"
    using remove_unallocated id by metis
  have "tx_kept n n' \<and> (savedRxAckValid n' \<longrightarrow> node_readable crc (node_input n) \<and> (\<exists>k<MAX_TX_NODES_SCHEDULED.
      master_nextTxNodeId (node_input n) k = nodeId n \<and> savedRxAck n' = master_nextTxNodeAckSeqNum (node_input n) k))"
  proof (cases "node_readable crc (node_input n)")
    case False
    then show ?thesis using run init e p removed
      by (auto simp: nodeQuickProcessPrevRx_def node_readable_def Let_def intro!: tx_keptI split: if_split_asm)
  next
    case r: True
    let ?p = "node_input n"
    obtain ids where "nodeKeepRxPacket ?p (fold (recordAcks ?p) [0..<4] (?n1\<lparr>nextTxNodeId := ids\<rparr>)) = Inr n'"
      using run init e p removed r id(2)
      by (auto simp: nodeQuickProcessPrevRx_def node_readable_def Let_def and_then_eq_Inr split: if_split_asm)
    moreover obtain v a where f: "fold (recordAcks ?p) [0..<4] (?n1\<lparr>nextTxNodeId := ids\<rparr>) = ?n1\<lparr>nextTxNodeId := ids, savedRxAckValid := v, savedRxAck := a\<rparr>"
      using record_acks by blast
    moreover have "v \<Longrightarrow> \<exists>k<4. master_nextTxNodeId ?p k = nodeId n \<and> a = master_nextTxNodeAckSeqNum ?p k"
      using record_acks_from [of ?p "[0..<4]" "?n1\<lparr>nextTxNodeId := ids\<rparr>"] unfolding f by auto
    ultimately have k: "tx_kept (?n1\<lparr>nextTxNodeId := ids, savedRxAckValid := v, savedRxAck := a\<rparr>) n'" "savedRxAckValid n' = v" "savedRxAck n' = a"
        and v: "v \<Longrightarrow> \<exists>k<4. master_nextTxNodeId ?p k = nodeId n \<and> a = master_nextTxNodeAckSeqNum ?p k"
      using all_resD [OF keep_kept, of ?p "?n1\<lparr>nextTxNodeId := ids, savedRxAckValid := v, savedRxAck := a\<rparr>" n'] by simp_all
    have "tx_kept n (?n1\<lparr>nextTxNodeId := ids, savedRxAckValid := v, savedRxAck := a\<rparr>)" by (simp add: tx_keptI)
    then show ?thesis using r k v tx_kept_trans by simp
  qed
  then show "tx_kept n n'"
    "savedRxAckValid n' \<Longrightarrow> node_readable crc (node_input n) \<and> (\<exists>k<MAX_TX_NODES_SCHEDULED.
      master_nextTxNodeId (node_input n) k = nodeId n \<and> savedRxAck n' = master_nextTxNodeAckSeqNum (node_input n) k)" by blast+
qed

text \<open>Header bytes of the packet that is queued are written.\<close>

lemma write_sender:
  assumes ok: "sender_ok sub got rx acks n jo" and inv: "tx_inv False (txManager n)" "dst_ok (txManager n) 0" and ptr: "nextTxPacket n = Some q"
    and f: "\<And>p. same_message p (f p)" "\<And>p. wf_packet p \<Longrightarrow> wf_packet (f p)"
    and run: "tx_write (node_memory n) q (\<lambda>p. Inr (f p)) = Inr mem"
  shows "sender_ok sub got rx acks (with_node_memory n mem) jo"
proof (cases q)
  case (Tx_Entry i)
  let ?m = "txManager n"
  let ?p = "f (packet (es ?m ! i))"
  from run Tx_Entry have i: "i < length (es ?m)" and mem: "mem = (upd_packet i (\<lambda>_. ?p) ?m, tmpEmptyPacketHeader n, tmpPacket n)"
    by (auto simp: node_memory_def and_then_eq_Inr rd_eq_Inr)
  have "wf_packet ?p" using inv(1) i by (intro f(2)) (simp add: tx_inv_def tx_core_def tx_shape_def)
  note h = header_outbox [OF _ inv i this f(1)]
  show ?thesis using ok ptr Tx_Entry mem h by (auto simp: sender_ok_def queued_def with_node_memory_def)
next
  case Tmp_Packet
  then show ?thesis using ok ptr run same_message_fields(6) [OF f(1)]
    by (auto simp: sender_ok_def queued_def with_node_memory_def node_memory_def and_then_eq_Inr)
next
  case (Tmp_Empty k)
  then show ?thesis using ok ptr run same_message_fields(6) [OF f(1)]
    by (auto simp: sender_ok_def queued_def with_node_memory_def node_memory_def and_then_eq_Inr rd_eq_Inr)
qed

lemma node_set_wf: "wf_packet p \<Longrightarrow> wf_packet (set_node_ackSeqNum a p)" "wf_packet p \<Longrightarrow> wf_packet (set_node_bufferLevel a p)"
  by (simp_all add: wf_packet_def set_node_ackSeqNum_def set_node_bufferLevel_def)

lemma send_sender:
  assumes ok: "sender_ok sub got rx acks n jo" and inv: "node_inv b n" and ptr: "nextTxPacket n = Some q"
    and run: "nodeSendTxPacket n q = Inr (r, n')"
  shows "r = Some q" and "sender_ok sub got rx acks n' None"
    and "tx_deref (node_memory n') q = Inr p \<Longrightarrow> GET_PACKET_TYPE p = packet_code NODE_DATA_PACKET \<Longrightarrow>
      \<exists>j. jo = Some j \<and> arrives_as sub (length got) j p \<and> wf_packet p"
proof -
  have m: "tx_inv False (txManager n)" "dst_ok (txManager n) 0" using node_invD(7,8) [OF inv] by (simp_all add: node_tx_ok_def)
  obtain ack where ack: "rd (rxSeqNum (txManager n)) 0 = Inr ack"
    using run ptr by (auto simp: nodeSendTxPacket_def nodeQuickUpdateTxPacket_def and_then_eq_Inr)
  obtain mem where w: "tx_write (node_memory n) q (\<lambda>p. Inr (set_node_ackSeqNum ack p)) = Inr mem"
    using run ptr ack by (auto simp: nodeSendTxPacket_def nodeQuickUpdateTxPacket_def and_then_eq_Inr)
  obtain p' where "tx_deref (node_memory (with_node_memory n mem)) q = Inr p'"
    using run ptr ack w by (auto simp: nodeSendTxPacket_def nodeQuickUpdateTxPacket_def and_then_eq_Inr)
  then have n': "r = Some q" "n' = (with_node_memory n mem)\<lparr>nextTxPacket := None, stats := stats n', timeToLive := timeToLive n'\<rparr>"
    using run ptr ack w by (auto simp: nodeSendTxPacket_def nodeQuickUpdateTxPacket_def Let_def)
  show "r = Some q" by (rule n'(1))
  have s: "sender_ok sub got rx acks (with_node_memory n mem) jo"
    by (rule write_sender [OF ok m ptr _ _ w]) (simp_all add: node_set_wf)
  have same: "txManager n' = txManager (with_node_memory n mem)" "nextTxPacket n' = None"
    "node_memory n' = node_memory (with_node_memory n mem)" by (subst n'(2), simp add: node_memory_def)+
  then show "sender_ok sub got rx acks n' None" using s by (simp add: sender_ok_def queued_def)
  have "node_inv b n'" using sendTx_inv [OF inv ptr] run by auto
  then have inv': "tx_inv False (txManager (with_node_memory n mem))" "dst_ok (txManager (with_node_memory n mem)) 0"
    using node_invD(7,8) [of b n'] same(1) by (simp_all add: node_tx_ok_def)
  assume p: "tx_deref (node_memory n') q = Inr p" "GET_PACKET_TYPE p = packet_code NODE_DATA_PACKET"
  then have d: "tx_deref (node_memory (with_node_memory n mem)) q = Inr p" using same(3) by simp
  have q: "nextTxPacket (with_node_memory n mem) = Some q" using ptr by (simp add: with_node_memory_def split: prod.split)
  show "\<exists>j. jo = Some j \<and> arrives_as sub (length got) j p \<and> wf_packet p"
  proof (cases q)
    case (Tx_Entry i)
    then obtain j where "jo = Some j" "entry_at sub (length got) (txManager (with_node_memory n mem)) i j"
      using s q by (auto simp: sender_ok_def queued_def)
    moreover have "\<forall>e\<in>set (es (txManager (with_node_memory n mem))). wf_packet (packet e)"
      using inv'(1) by (simp add: tx_inv_def tx_core_def tx_shape_def)
    ultimately show ?thesis using entry_arrives [OF _ inv'] s d Tx_Entry
      by (auto simp: sender_ok_def node_memory_def and_then_eq_Inr rd_eq_Inr)
  qed (use s q d p(2) in \<open>auto simp: sender_ok_def queued_def\<close>)
qed

lemma pre_sender:
  assumes ok: "sender_ok sub got rx acks n jo" and inv: "node_inv False n" and hm: "\<not> crc \<Longrightarrow> from_master (node_input n)"
    and d: "nodeId n \<noteq> UNALLOCATED_NODE_ID" and run: "node_do (Node_Pre crc) (False, n) = Inr (out, b, n')" and id: "nodeId n' = nodeId n"
  shows "\<exists>jo'. sender_ok sub got rx acks n' jo' \<and> (jo' = jo \<or> jo' = None)"
    and "out = Some p \<Longrightarrow> GET_PACKET_TYPE p = packet_code NODE_DATA_PACKET \<Longrightarrow> \<exists>j. jo = Some j \<and> arrives_as sub (length got) j p \<and> wf_packet p"
    and "savedRxAckValid n' \<Longrightarrow> node_readable crc (node_input n) \<and> (\<exists>k<MAX_TX_NODES_SCHEDULED.
      master_nextTxNodeId (node_input n) k = nodeId n \<and> savedRxAck n' = master_nextTxNodeAckSeqNum (node_input n) k)"
proof -
  obtain ptr mem where pre: "nodeDualChannelPipelinedPreProcess n None None crc = Inr (ptr, mem, n')" "node_on_air ptr n' = Inr out"
    using run by (auto simp: and_then_eq_Inr)
  have init: "initialised n" by (rule node_invD(1) [OF inv])
  obtain n1 where n1: "nodeQuickProcessPrevRx n crc = Inr n1" "node_inv True n1" using quick_inv [OF inv hm] by blast
  let ?n2 = "n1\<lparr>currentTxNodeId := nextTxNodeId n1 ! 0,
    nextTxNodeId := [nextTxNodeId n1 ! 1, nextTxNodeId n1 ! 2, nextTxNodeId n1 ! 3, INVALID_NODE_ID, nextTxNodeId n1 ! 4]\<rparr>"
  have n2: "nodeUpdateSchedule n1 = Inr ?n2" "node_inv True ?n2"
    using updateSchedule_spec [OF node_invD(4) [OF n1(2)]] updateSchedule_inv [OF n1(2)] by auto
  have go: "n' = ?n2 \<and> ptr = None \<or> (\<exists>q. nextTxPacket ?n2 = Some q \<and> nodeGetTxPacket ?n2 = Inr (ptr, n'))"
    using pre(1) init n1(1) n2(1) by (auto simp: nodeDualChannelPipelinedPreProcess_def and_then_eq_Inr split: if_split_asm)
  then have id1: "nodeId n1 = nodeId n" using id all_resD [OF getTx_same [of ?n2]] by (auto simp: same_ids_def)
  note k = quick_kept [OF n1(1) init id1 d]
  have "tx_kept n ?n2" using tx_kept_trans [OF k(1), of ?n2] by (simp add: tx_keptI)
  then have ok2: "sender_ok sub got rx acks ?n2 jo" using ok kept_sender by blast
  have "(\<exists>jo'. sender_ok sub got rx acks n' jo' \<and> (jo' = jo \<or> jo' = None)) \<and>
    (\<forall>p. out = Some p \<longrightarrow> GET_PACKET_TYPE p = packet_code NODE_DATA_PACKET \<longrightarrow> (\<exists>j. jo = Some j \<and> arrives_as sub (length got) j p \<and> wf_packet p)) \<and>
    savedRxAckValid n' = savedRxAckValid n1 \<and> savedRxAck n' = savedRxAck n1"
  proof (cases "n' = ?n2 \<and> ptr = None")
    case True
    then show ?thesis using ok2 pre(2) by (auto simp: node_on_air_def)
  next
    case False
    then obtain q where q: "nextTxPacket ?n2 = Some q" "nodeSendTxPacket ?n2 q = Inr (ptr, n')"
      using go id1 d by (auto simp: nodeGetTxPacket_def)
    note s = send_sender [OF ok2 n2(2) q]
    have "savedRxAckValid n' = savedRxAckValid n1" "savedRxAck n' = savedRxAck n1"
      using q by (auto simp: nodeSendTxPacket_def nodeQuickUpdateTxPacket_def and_then_eq_Inr Let_def with_node_memory_def split: prod.split_asm)
    then show ?thesis using s pre(2) by (auto simp: node_on_air_def and_then_eq_Inr)
  qed
  then show "\<exists>jo'. sender_ok sub got rx acks n' jo' \<and> (jo' = jo \<or> jo' = None)"
    "out = Some p \<Longrightarrow> GET_PACKET_TYPE p = packet_code NODE_DATA_PACKET \<Longrightarrow> \<exists>j. jo = Some j \<and> arrives_as sub (length got) j p \<and> wf_packet p"
    "savedRxAckValid n' \<Longrightarrow> node_readable crc (node_input n) \<and> (\<exists>k<MAX_TX_NODES_SCHEDULED.
      master_nextTxNodeId (node_input n) k = nodeId n \<and> savedRxAck n' = master_nextTxNodeAckSeqNum (node_input n) k)"
    using k(2) by auto
qed

section \<open>The second half of a slot\<close>

lemma rxData_kept:
  assumes d: "nodeId n \<noteq> UNALLOCATED_NODE_ID"
  shows "all_res (\<lambda>n'. tx_kept n n' \<and> nodeId n' = nodeId n) (nodeProcessRxData n i)"
proof -
  let ?K = "\<lambda>n'. tx_kept n n' \<and> nodeId n' = nodeId n"
  have set: "?K (n2\<lparr>rxPacketManager := rpm\<rparr>)" if "?K n2" for n2 rpm
    using that tx_kept_trans [of n n2] by (simp add: tx_keptI)
  have tail: "all_res ?K (if b then Inr n2 else and_then (set_rx_inUse i False (rxPacketManager n2))
      (\<lambda>rpm. Inr (n2\<lparr>rxPacketManager := rpm\<rparr>)))" if "?K n2" for b n2
    using that set by (auto intro!: all_res_bind)
  have bind: "all_res (\<lambda>(n2, _). ?K n2) r \<Longrightarrow> (\<And>n2 b. ?K n2 \<Longrightarrow> all_res ?K (f (n2, b))) \<Longrightarrow> all_res ?K (and_then r f)"
    for r :: "(tNode \<times> bool) res" and f by (cases r) auto
  show ?thesis
    unfolding nodeProcessRxData_def Let_def
    by (rule all_res_bind, rule bind, (use d in \<open>auto intro!: all_res_bind tx_keptI\<close>) [1], simp only: prod.case, rule tail)
qed

lemma processRx_sender:
  assumes ok: "sender_ok sub got rx ((if savedRxAckValid n then [savedRxAck n] else []) @ acks) n jo" and inv: "node_inv b n"
    and d: "nodeId n \<noteq> UNALLOCATED_NODE_ID" and run: "nodeProcessRx n = Inr n'"
  shows "sender_ok sub got rx acks n' jo" and "nodeId n' = nodeId n"
proof -
  have m: "tx_inv False (txManager n)" "dst_ok (txManager n) 0" using node_invD(7,8) [OF inv] by (simp_all add: node_tx_ok_def)
  obtain n1 where n1: "sender_ok sub got rx acks n1 jo" "nodeId n1 = nodeId n"
    and rest: "(if validRxPacket n1 then and_then (case prevRxPacketEntry n1 of None \<Rightarrow> Inl Null_Pointer | Some i \<Rightarrow> Inr i) (nodeProcessRxData n1)
      else Inr n1) = Inr n'"
  proof (cases "savedRxAckValid n")
    case True
    then obtain k w m' where a: "rxAckSeqNum (txManager n) 0 (savedRxAck n) False (st_txWindowRestarts (stats n)) = Inr (k, w, m')"
      using run by (auto simp: nodeProcessRx_def and_then_eq_Inr)
    let ?n = "n\<lparr>txManager := m', stats := (stats n)\<lparr>st_txWindowRestarts := w\<rparr>\<rparr>"
    have link: "link_inv (outbox (txManager n) sub got rx (savedRxAck n # acks))" and q: "queued sub (length got) n jo"
      using ok True by (simp_all add: sender_ok_def)
    note o = ack_outbox [OF link m a]
    have "sender_ok sub got rx acks ?n jo"
      using o q by (auto simp: sender_ok_def queued_def node_memory_def split: option.split_asm tTxPtr.split_asm)
    then show ?thesis using that [of ?n] run True a by (simp add: nodeProcessRx_def)
  next
    case False
    then show ?thesis using that [of n] ok run by (simp add: nodeProcessRx_def)
  qed
  have "tx_kept n1 n' \<and> nodeId n' = nodeId n1"
  proof (cases "validRxPacket n1")
    case True
    then show ?thesis using rest all_resD [OF rxData_kept [of n1]] d n1(2) by (auto simp: and_then_eq_Inr split: option.split_asm)
  next
    case False
    then show ?thesis using rest by (simp add: tx_keptI)
  qed
  then show "sender_ok sub got rx acks n' jo" "nodeId n' = nodeId n" using n1 kept_sender by auto
qed

lemma with_memory_ptr: "(with_node_memory n mem)\<lparr>nextTxPacket := p\<rparr> = with_node_memory (n\<lparr>nextTxPacket := p\<rparr>) mem"
  by (simp add: with_node_memory_def split: prod.split)

lemma processTx_sender:
  assumes ok: "sender_ok sub got rx acks n jo" and inv: "node_inv b n"
    and d: "nodeId n \<noteq> UNALLOCATED_NODE_ID" and run: "nodeProcessTx n = Inr n'"
  shows "\<exists>jo'. sender_ok sub got rx acks n' jo' \<and> (jo' = jo \<or> (\<forall>j. jo' = Some j \<longrightarrow> length sub \<le> j + 254))" and "nodeId n' = nodeId n"
proof -
  have m: "tx_inv False (txManager n)" "dst_ok (txManager n) 0" using node_invD(7,8) [OF inv] by (simp_all add: node_tx_ok_def)
  have "(\<exists>jo'. sender_ok sub got rx acks n' jo' \<and> (jo' = jo \<or> (\<forall>j. jo' = Some j \<longrightarrow> length sub \<le> j + 254))) \<and> nodeId n' = nodeId n"
  proof (cases "keepsTxPacket n = Inr True")
    case True
    then show ?thesis using run ok by (auto simp: nodeProcessTx_def)
  next
    case False
    then have k: "keepsTxPacket n = Inr False" using keeps_total [OF inv] by auto
    then obtain r m1 where f: "nodeGetNextTxDataPacket (txManager n) = Inr (r, m1)" using run d by (auto simp: nodeProcessTx_def and_then_eq_Inr)
    let ?n1 = "n\<lparr>txManager := m1\<rparr>"
    obtain ptr n2 where n2: "(case r of None \<Rightarrow> nodeEmptyPacket ?n1 | Some i \<Rightarrow> Inr (Tx_Entry i, ?n1)) = Inr (ptr, n2)"
      using run d k f by (auto simp: nodeProcessTx_def and_then_eq_Inr Let_def)
    obtain level mem where w: "tx_write (node_memory n2) ptr (\<lambda>p. Inr (set_node_bufferLevel level p)) = Inr mem"
      "n' = (with_node_memory n2 mem)\<lparr>nextTxPacket := Some ptr\<rparr>"
      using run d k f n2 by (auto simp: nodeProcessTx_def and_then_eq_Inr Let_def)
    have link: "link_inv (outbox (txManager n) sub got rx acks)" using ok by (simp add: sender_ok_def)
    note o = fetch_outbox [OF link m f]
    have m1: "tx_inv False m1" "dst_ok m1 0" using nodeGetNext_spec [OF m] f m(2) by (auto simp: only_at_def)
    have "\<exists>jo'. sender_ok sub got rx acks (n2\<lparr>nextTxPacket := Some ptr\<rparr>) jo' \<and> (\<forall>j. jo' = Some j \<longrightarrow> length sub \<le> j + 254) \<and>
      txManager n2 = m1 \<and> nodeId n2 = nodeId n"
    proof (cases r)
      case (Some i)
      then obtain j where "entry_at sub (length got) m1 i j" "length sub \<le> j + 254" using o(2) by blast
      then show ?thesis using Some n2 o(1) by (intro exI [of _ "Some j"]) (auto simp: sender_ok_def queued_def)
    next
      case None
      have "sender_ok sub got rx acks (n2\<lparr>nextTxPacket := Some ptr\<rparr>) None \<and> txManager n2 = m1 \<and> nodeId n2 = nodeId n"
        using None n2 o(1)
        by (auto simp: nodeEmptyPacket_def and_then_eq_Inr Let_def sender_ok_def queued_def node_memory_def rd_eq_Inr
            set_node_ackSeqNum_def set_node_srcNodeId_def GET_PACKET_TYPE_def SET_PACKET_DATA_SIZE_def SET_PROTOCOL_VERSION_AND_PACKET_TYPE_def)
      then show ?thesis by (intro exI [of _ None]) simp
    qed
    then obtain jo' where j: "sender_ok sub got rx acks (n2\<lparr>nextTxPacket := Some ptr\<rparr>) jo'" "\<forall>j. jo' = Some j \<longrightarrow> length sub \<le> j + 254"
      "txManager n2 = m1" "nodeId n2 = nodeId n" by blast
    have w': "tx_write (node_memory (n2\<lparr>nextTxPacket := Some ptr\<rparr>)) ptr (\<lambda>p. Inr (set_node_bufferLevel level p)) = Inr mem"
      using w(1) by (simp add: node_memory_def)
    have "sender_ok sub got rx acks n' jo'"
      unfolding w(2) with_memory_ptr
      by (rule write_sender [OF j(1) _ _ _ _ _ w']) (use j(3) m1 in \<open>simp_all add: node_set_wf\<close>)
    moreover have "nodeId n' = nodeId n" using w(2) j(4) by (simp add: with_node_memory_def split: prod.split)
    ultimately show ?thesis using j(2) by blast
  qed
  then show "\<exists>jo'. sender_ok sub got rx acks n' jo' \<and> (jo' = jo \<or> (\<forall>j. jo' = Some j \<longrightarrow> length sub \<le> j + 254))" "nodeId n' = nodeId n"
    by blast+
qed

lemma post_sender:
  assumes ok: "sender_ok sub got rx ((if savedRxAckValid n then [savedRxAck n] else []) @ acks) n jo" and inv: "node_inv True n"
    and d: "nodeId n \<noteq> UNALLOCATED_NODE_ID" and live: "\<not> nodeNwHasNodeTimedOut (timeToLive n)"
    and run: "node_do Node_Post (True, n) = Inr (out, b, n')"
  shows "\<exists>jo'. sender_ok sub got rx acks n' jo' \<and> (jo' = jo \<or> (\<forall>j. jo' = Some j \<longrightarrow> length sub \<le> j + 254))" and "nodeId n' = nodeId n"
proof -
  obtain n1 where n1: "nodeProcessRx n = Inr n1" "nodeProcessTx n1 = Inr n'"
    using run live node_invD(1) [OF inv] by (auto simp: nodeDualChannelPipelinedPostProcess_def nodeCheckIfTimedOut_def and_then_eq_Inr)
  have i1: "node_inv False n1" using processRx_inv [OF inv] n1(1) by auto
  note r = processRx_sender [OF ok inv d n1(1)]
  then have d1: "nodeId n1 \<noteq> UNALLOCATED_NODE_ID" using d by simp
  show "\<exists>jo'. sender_ok sub got rx acks n' jo' \<and> (jo' = jo \<or> (\<forall>j. jo' = Some j \<longrightarrow> length sub \<le> j + 254))" "nodeId n' = nodeId n"
    using processTx_sender [OF r(1) i1 d1 n1(2)] r(2) by simp_all
qed

section \<open>The application\<close>

lemma submit_sender:
  assumes ok: "sender_ok sub got rx acks n jo" and inv: "node_inv b n" and allowed: "node_allowed (Node_Submit k) (b, n)"
    and run: "node_do (Node_Submit k) (b, n) = Inr (out, b', n')"
  shows "\<exists>jo'. sender_ok (sub @ [last (pending False (txManager n') 0)]) got rx acks n' jo' \<and>
    (\<forall>j'. jo' = Some j' \<longrightarrow> (\<exists>j\<le>j'. jo = Some j))" and "nodeId n' = nodeId n"
proof -
  have m: "tx_inv False (txManager n)" "dst_ok (txManager n) 0" using node_invD(7,8) [OF inv] by (simp_all add: node_tx_ok_def)
  obtain a where a: "allocatedPacket (txManager n) = Some a" using allowed by auto
  have id: "unat (nodeId n) < MAX_NODES" using node_invD(3) [OF inv] allowed by (auto simp: node_id_def)
  obtain m' where s: "submitAllocatedTxPacket (txManager n) False 0 0 (nodeId n) 0 NODE_DATA_PACKET k = Inr m'" and n': "n' = n\<lparr>txManager := m'\<rparr>"
    using run by (auto simp: nodeSubmitAllocatedTxPacket_def and_then_eq_Inr)
  have link: "link_inv (outbox (txManager n) sub got rx acks)" and q: "queued sub (length got) n jo" using ok by (simp_all add: sender_ok_def)
  note o = submit_keeps_entry [OF link m(1) a m(2) id s]
  show "nodeId n' = nodeId n" using n' by simp
  show "\<exists>jo'. sender_ok (sub @ [last (pending False (txManager n') 0)]) got rx acks n' jo' \<and>
    (\<forall>j'. jo' = Some j' \<longrightarrow> (\<exists>j\<le>j'. jo = Some j))"
  proof (cases "\<exists>i. nextTxPacket n = Some (Tx_Entry i)")
    case True
    then obtain i j where i: "nextTxPacket n = Some (Tx_Entry i)" "jo = Some j" "entry_at sub (length got) (txManager n) i j"
      using q by (auto simp: queued_def)
    obtain j' where "j \<le> j'" "entry_at (sub @ [last (pending False m' 0)]) (length got) m' i j'" using o(2) [OF i(3)] by blast
    then show ?thesis using i o(1) n' by (intro exI [of _ "Some j'"]) (auto simp: sender_ok_def queued_def)
  next
    case False
    then show ?thesis using q o(1) n'
      by (intro exI [of _ jo]) (auto simp: sender_ok_def queued_def node_memory_def split: option.split_asm tTxPtr.split_asm)
  qed
qed

lemma app_sender:
  assumes ok: "sender_ok sub got rx acks n jo" and inv: "node_inv b n" and c: "\<not> schedule_call c" "\<not> receives c"
      "c \<notin> {Node_Post, Node_Single_Tx} \<union> range Node_Submit"
    and allowed: "node_allowed c (b, n)" and run: "node_do c (b, n) = Inr (out, b', n')"
  shows "sender_ok sub got rx acks n' jo" and "nodeId n' = nodeId n"
    and "savedRxAckValid n' = savedRxAckValid n" "savedRxAck n' = savedRxAck n" "b' = b"
proof -
  have m: "tx_inv False (txManager n)" "dst_ok (txManager n) 0" using node_invD(7,8) [OF inv] by (simp_all add: node_tx_ok_def)
  have link: "link_inv (outbox (txManager n) sub got rx acks)" and q: "queued sub (length got) n jo" using ok by (simp_all add: sender_ok_def)
  have move: "sender_ok sub got rx acks (n\<lparr>txManager := m', stats := st\<rparr>) jo"
    if "window_of False m' 0 = window_of False (txManager n) 0"
      "\<And>i j. entry_at sub (length got) (txManager n) i j \<Longrightarrow> entry_at sub (length got) m' i j" for m' st
    using link q that by (auto simp: sender_ok_def queued_def outbox_def node_memory_def split: option.split_asm tTxPtr.split_asm)
  have "sender_ok sub got rx acks n' jo \<and> nodeId n' = nodeId n \<and> savedRxAckValid n' = savedRxAckValid n \<and> savedRxAck n' = savedRxAck n \<and> b' = b"
  proof (cases c)
    case (Node_Time us)
    then show ?thesis using run ok kept_sender [of n n'] by (auto simp: nodeUpdateTimeUs_def tx_keptI)
  next
    case Node_Alloc
    then obtain r m' where a: "allocateTxPacket (txManager n) = Inr (r, m')" "allocatedPacket (txManager n) = None"
      using run allowed by (auto simp: nodeAllocateTxPacket_def nodeAllocateTxPacketFull_def and_then_eq_Inr)
    have n': "n' = n\<lparr>txManager := m', stats := stats n'\<rparr>" "b' = b"
      using run a(1) Node_Alloc
      by (auto simp: nodeAllocateTxPacket_def nodeAllocateTxPacketFull_def and_then_eq_Inr Let_def split: option.split_asm)
    have w: "window_of False m' 0 = window_of False (txManager n) 0" by (rule alloc_views(1) [OF m(1) a(2,1) m(2)])
    have "sender_ok sub got rx acks (n\<lparr>txManager := m', stats := stats n'\<rparr>) jo"
      by (rule move [OF w]) (rule alloc_keeps_entry [OF m(1) a(2,1) _ m(2)])
    moreover have "nodeId n' = nodeId n" "savedRxAckValid n' = savedRxAckValid n" "savedRxAck n' = savedRxAck n"
      by (subst n'(1), simp)+
    ultimately show ?thesis using n' by simp
  next
    case (Node_Fill bytes)
    then have "n' = n\<lparr>txManager := tx_fill bytes (txManager n), stats := stats n\<rparr>" "b' = b" "length bytes = MASTER_PACKET_DATA_SIZE"
      using run allowed by auto
    moreover from this(3) have "sender_ok sub got rx acks (n\<lparr>txManager := tx_fill bytes (txManager n), stats := stats n\<rparr>) jo"
      by (intro move fill_window [OF m(1) _ m(2)] fill_keeps_entry [OF m(1) _ _ m(2)])
    ultimately show ?thesis by simp
  next
    case Node_Read
    then show ?thesis using run ok kept_sender [of n n']
      by (auto simp: nodePopNextDataPacket_def and_then_eq_Inr Let_def tx_keptI split: if_split_asm option.split_asm)
  qed (use c in auto)
  then show "sender_ok sub got rx acks n' jo" "nodeId n' = nodeId n"
    "savedRxAckValid n' = savedRxAckValid n" "savedRxAck n' = savedRxAck n" "b' = b" by blast+
qed

end
