(* ===== verification/Stream.thy ===== *)
theory Stream
  imports Outbox Network
begin

text \<open>
  One node and the master, with all the handlers of both and the rest of the bus as it comes: what
  the node's application submits, and what the master puts into the queue of its own application.
\<close>

section \<open>The master's side\<close>

text \<open>The sequence number that the master has last taken from a node.\<close>

definition taken_seq :: "u8 \<Rightarrow> tMaster \<Rightarrow> u8" where
  "taken_seq d m = rxSeqNum (txManager (tx m)) ! unat d"

text \<open>The packets of a node that wait for the second half of the slot.\<close>

definition waiting :: "u8 \<Rightarrow> tMaster \<Rightarrow> tPacket list" where
  "waiting d m = filter (\<lambda>p. node_srcNodeId p = d) (will_store (rx m))"

definition data_from :: "u8 \<Rightarrow> tPacket \<Rightarrow> bool" where
  "data_from d p \<longleftrightarrow> GET_PACKET_TYPE p = packet_code NODE_DATA_PACKET \<and> node_srcNodeId p = d"

lemma waiting_idle: "\<not> tMasterRx.validRxPacket (rx m) \<Longrightarrow> waiting d m = []"
  by (simp add: waiting_def will_store_def split: option.split)

lemma waiting_after_receive:
  assumes inv: "master_inv m" and q: "wf_packet q"
  shows "waiting d (master_receive q m) = waiting d m"
proof -
  let ?r = "rx m"
  have h: "rx_hold (tMasterRx.rxPacketManager ?r) (tMasterRx.nextRxPacketEntry ?r) (rx_prev ?r)"
    using master_invD(1) [OF inv] by (simp add: rx_inv_def)
  note del = hold_deliver(3) [OF h q]
  show ?thesis
  proof (cases "tMasterRx.validRxPacket ?r")
    case False
    then show ?thesis by (simp add: waiting_idle)
  next
    case True
    then obtain i where i: "tMasterRx.prevRxPacketEntry ?r = Some i" "rx_prev ?r = Some i"
      using master_invD(1) [OF inv] by (auto simp: rx_inv_def rx_prev_def split: if_split_asm)
    have "i \<noteq> tMasterRx.nextRxPacketEntry ?r" using h i(2) by (simp add: rx_hold_def)
    then show ?thesis using del i(1) by (simp add: waiting_def will_store_def master_receive_def)
  qed
qed

text \<open>
  The first half of a slot: the packet heard in the slot before is taken, or nothing changes, and
  the master reports in each slot that it announces what it has taken by then from the slot's owner.
\<close>

definition master_hears :: "bool \<Rightarrow> tMaster \<Rightarrow> tMaster \<Rightarrow> bool" where
  "master_hears crc m m' \<longleftrightarrow> (let q = master_input m; d = node_srcNodeId q in
     passes crc q \<and> data_from d q \<and> will_store (rx m') = [q] \<and> txSeqNum q = rx_next (taken_seq d m) \<and>
       rxSeqNum (txManager (tx m')) = (rxSeqNum (txManager (tx m)))[unat d := txSeqNum q] \<or>
     will_store (rx m') = [] \<and> rxSeqNum (txManager (tx m')) = rxSeqNum (txManager (tx m)))"

lemma check_takes:
  assumes "rxPacketCheckAndUpdateSeqNum m d s = Inr (ok, m')"
  shows "ok \<and> s = rx_next (rxSeqNum m ! unat d) \<and> rxSeqNum m' = (rxSeqNum m)[unat d := s] \<or> \<not> ok \<and> m' = m"
  using assms by (auto simp: rxPacketCheckAndUpdateSeqNum_def rx_next_def and_then_eq_Inr Let_def rd_eq_Inr split: if_split_asm)

lemma quick_hears:
  assumes eff: "quick_effect (rx m) (txManager (tx m)) crc (rx m') (txManager (tx m'))"
  shows "master_hears crc m m'"
proof (cases "tMasterRx.validRxPacket (rx m') \<and> GET_PACKET_TYPE (master_input m) = packet_code NODE_DATA_PACKET")
  case False
  then show ?thesis using eff
    by (auto simp: quick_effect_def master_hears_def will_store_def master_input_def Let_def split: option.split)
next
  case True
  let ?q = "master_input m"
  have c: "rxPacketCheckAndUpdateSeqNum (txManager (tx m)) (node_srcNodeId ?q) (txSeqNum ?q)
      = Inr (tMasterRx.validRxSeqNum (rx m'), txManager (tx m'))" "passes crc ?q"
    using True eff by (simp_all add: quick_effect_def master_input_def)
  obtain i where i: "tMasterRx.prevRxPacketEntry (rx m') = Some i" "rx_packet (tMasterRx.rxPacketManager (rx m')) i = ?q"
    using True eff by (auto simp: quick_effect_def master_input_def)
  from check_takes [OF c(1)] show ?thesis
    using True c(2) i by (auto simp: master_hears_def will_store_def taken_seq_def data_from_def Let_def)
qed

lemma write_seq: "all_res (\<lambda>(m', hs', tmp'). rxSeqNum m' = rxSeqNum m) (tx_write (m, hs, tmp) q f)"
  by (cases q) (auto simp: upd_packet_def intro!: all_res_bind)

lemma quick_tx_seq: "quickUpdateTx beyond m = Inr m' \<Longrightarrow> rxSeqNum (txManager (tx m')) = rxSeqNum (txManager (tx m))"
  by (auto simp: quickUpdateTx_def masterQuickUpdateTxPacket_def and_then_eq_Inr tx_memory_of_def with_tx_memory_def
      dest!: all_resD [OF write_seq] split: option.split_asm prod.splits)

lemma pre_hears:
  assumes inv: "master_inv m" and idle: "\<not> tMasterRx.validRxPacket (rx m)"
    and ok: "passes crc (master_input m) \<Longrightarrow> from_node (master_input m)"
    and run: "master_do beyond (Master_Pre crc) m = Inr (out, m')"
    and four: "unat (numTxNodesScheduled (scheduler m)) = MAX_TX_NODES_SCHEDULED"
  shows "master_inv m'" and "master_hears crc m m'" and "numTxNodesScheduled (scheduler m') = numTxNodesScheduled (scheduler m)"
    and "\<forall>p. out = Some p \<longrightarrow> master_sends p \<and>
      schedule_of p 4 = map (\<lambda>d. (d, rxSeqNum_at beyond (rxSeqNum (txManager (tx m'))) d)) (take 4 (master_ids m'))"
proof -
  from masterSchedule_inv [OF inv] obtain m1 where m1: "masterUpdateSchedule m = Inr m1" "master_inv m1" "rx m1 = rx m"
    "numTxNodesScheduled (scheduler m1) = numTxNodesScheduled (scheduler m)"
    "rxSeqNum (txManager (tx m1)) = rxSeqNum (txManager (tx m))" by blast
  have "passes crc (master_input m1) \<Longrightarrow> from_node (master_input m1)" "\<not> tMasterRx.validRxPacket (rx m1)"
    using ok idle m1(3) by (simp_all add: master_input_def)
  from quickRx_inv [OF m1(2) this(2,1)] obtain m2 where m2: "quickProcessPrevRx crc m1 = Inr m2" "master_inv m2"
    "quick_effect (rx m1) (txManager (tx m1)) crc (rx m2) (txManager (tx m2))"
    "numTxNodesScheduled (scheduler m2) = numTxNodesScheduled (scheduler m1)" by blast
  obtain m3 where m3: "quickUpdateTx beyond m2 = Inr m3" and out: "master_on_air (nextTxPacket (tx m3)) m3 = Inr out" and m': "m' = m3"
    using run m1(1) m2(1) by (auto simp: masterDualChannelPipelinedPreProcess_def masterTxGetNextTxPacket_def and_then_eq_Inr)
  from quickTx_inv [OF m2(2), of beyond] m3 have i: "master_inv m3" "rx m3 = rx m2" "nextTxPacket (tx m3) = nextTxPacket (tx m2)"
      "nextTxNodeId m3 = nextTxNodeId m2" "scheduler m3 = scheduler m2"
    and sent: "\<forall>q. nextTxPacket (tx m2) = Some q \<longrightarrow> (\<exists>p. tx_deref (tx_memory_of (tx m3)) q = Inr p \<and> master_sends p \<and>
      schedule_of p 4 = map (\<lambda>d. (d, rxSeqNum_at beyond (rxSeqNum (txManager (tx m2))) d)) (take 4 (master_ids m2)))"
    using m1(4) m2(4) four by auto
  have seq: "rxSeqNum (txManager (tx m3)) = rxSeqNum (txManager (tx m2))" by (rule quick_tx_seq [OF m3])
  show "master_inv m'" "numTxNodesScheduled (scheduler m') = numTxNodesScheduled (scheduler m)" using i m1(4) m2(4) m' by simp_all
  show "master_hears crc m m'"
    using quick_hears [OF m2(3)] m1(3,5) i(2) seq m' by (simp add: master_hears_def master_input_def taken_seq_def)
  show "\<forall>p. out = Some p \<longrightarrow> master_sends p \<and>
      schedule_of p 4 = map (\<lambda>d. (d, rxSeqNum_at beyond (rxSeqNum (txManager (tx m'))) d)) (take 4 (master_ids m'))"
    using out sent i m' seq by (auto simp: master_on_air_def and_then_eq_Inr split: option.split_asm)
qed

text \<open>The second half of a slot, when no node is given up, puts what waits into the queue.\<close>

lemma post_runs:
  assumes inv: "master_inv m" and live: "no_node_gone m" and run: "master_do beyond Master_Post m = Inr (out, m')"
  obtains k m1 where "processRx m = Inr (k, m1)" "master_inv m1" "rxSeqNum (txManager (tx m1)) = rxSeqNum (txManager (tx m))"
    and "processTx m1 = Inr m'" "rxSeqNum (txManager (tx m')) = rxSeqNum (txManager (tx m1))"
proof -
  from processRx_master [OF inv] obtain k m1 where m1: "processRx m = Inr (k, m1)" "master_inv m1" "\<not> tMasterRx.validRxPacket (rx m1)"
    "rxSeqNum (txManager (tx m1)) = rxSeqNum (txManager (tx m))" by blast
  from processTx_master [OF m1(2)] obtain m2 where m2: "processTx m1 = Inr m2" "master_inv m2" "rx m2 = rx m1"
    "masterNodeTimeToLive m2 = masterNodeTimeToLive m1" "rxSeqNum (txManager (tx m2)) = rxSeqNum (txManager (tx m1))" by blast
  have "no_node_gone m2" using processRx_gone [OF m1(1) live] m2(4) by (simp add: no_node_gone_def)
  then have "removal_ok m2" using m1(3) m2(2,3) by (simp add: removal_ok_def)
  from removeTimedOut_inv [OF this] \<open>no_node_gone m2\<close> obtain k2 where "masterRemoveAnyTimeoutNodes m2 = Inr (k2, m2)"
    by (auto simp: removal_effect_def)
  then have "m' = m2" using run m1(1) m2(1) by (auto simp: masterDualChannelPipelinedPostProcess_def and_then_eq_Inr)
  then show ?thesis using that m1(1,2,4) m2(1,5) by blast
qed

lemma post_stores:
  assumes inv: "master_inv m" and live: "no_node_gone m" and run: "master_do beyond Master_Post m = Inr (out, m')"
  shows "master_inv m'" and "\<not> tMasterRx.validRxPacket (rx m')" and "master_queue m' = master_queue m @ will_store (rx m)"
    and "rxSeqNum (txManager (tx m')) = rxSeqNum (txManager (tx m))" and "master_calm m m'"
proof -
  from masterPost_inv [OF inv] live run show "master_inv m'" "\<not> tMasterRx.validRxPacket (rx m')"
    "master_queue m' = master_queue m @ will_store (rx m)" "master_calm m m'" by (auto simp: and_then_eq_Inr)
  show "rxSeqNum (txManager (tx m')) = rxSeqNum (txManager (tx m))" using post_runs [OF assms] by metis
qed

text \<open>The calls of the master's application take nothing from the bus.\<close>

lemma app_master:
  assumes inv: "master_inv m" and ok: "master_allowed c m" and c: "\<not> slot_call c" "c \<noteq> Master_Post"
    and run: "master_do beyond c m = Inr (out, m')"
  shows "rxSeqNum (txManager (tx m')) = rxSeqNum (txManager (tx m))" and "will_store (rx m') = will_store (rx m)"
proof -
  have "rxSeqNum (txManager (tx m')) = rxSeqNum (txManager (tx m)) \<and> will_store (rx m') = will_store (rx m)"
  proof (cases c)
    case Master_Read
    from run obtain r rpm where p: "peekNextRxDataPacket (rxPacketManager (rx m)) = Inr (r, rpm)"
      by (auto simp: Master_Read masterPeekNextRxDataPacket_def and_then_eq_Inr)
    have "rx_packet rpm = rx_packet (rxPacketManager (rx m))" using peek_packets p by (simp add: peekNextRxDataPacket_def)
    then show ?thesis using run p
      by (auto simp: Master_Read masterPeekNextRxDataPacket_def masterPopNextDataPacket_def and_then_eq_Inr Let_def will_store_def pop_packets
          split: option.split_asm option.split if_split_asm)
  next
    case (Master_Submit d k)
    have tx: "tx_inv True (txManager (tx m))" "dst_ok (txManager (tx m)) d" and u: "unat (MASTER_NODE_ID :: u8) < MAX_NODES"
      using master_invD(2) [OF inv] ok Master_Submit by (auto simp: mtx_inv_def dst_ok_def node_id_def)
    obtain a where a: "allocatedPacket (txManager (tx m)) = Some a" using ok Master_Submit by auto
    obtain t txm where "submitAllocatedTxPacket (txManager (tx m)) True t t MASTER_NODE_ID d MASTER_DATA_PACKET k = Inr txm"
      "m' = m\<lparr>tx := (tx m)\<lparr>txManager := txm\<rparr>\<rparr>" "0 < t"
      using run ok Master_Submit by (auto simp: masterSubmitAllocatedTxPacket_def and_then_eq_Inr rd_eq_Inr word_gt_0)
    then show ?thesis using submit_spec [where t = MASTER_DATA_PACKET and ttl = t and ttl' = t and n = k, OF tx(1) a tx(2) _ u] ok Master_Submit by auto
  next
    case Master_Alloc
    then show ?thesis using run
      by (auto simp: masterAllocateTxPacket_def allocateTxPacket_def and_then_eq_Inr Let_def split: option.split_asm if_split_asm)
  qed (use c run in \<open>auto simp: masterUpdateTimeUs_def getConnectedNodesBitField_def and_then_eq_Inr tx_fill_def upd_packet_def split: option.split\<close>)
  then show "rxSeqNum (txManager (tx m')) = rxSeqNum (txManager (tx m))" "will_store (rx m') = will_store (rx m)" by simp_all
qed

section \<open>The node's side\<close>

lemma queued_grows:
  assumes "queued sub g n jo" and "\<forall>j. jo = Some j \<longrightarrow> Suc g \<le> j + 254"
  shows "queued sub (Suc g) n jo"
  using assms by (auto simp: queued_def entry_at_def split: option.split_asm tTxPtr.split_asm)

text \<open>The master takes a packet on its way: it is the next one of the stream.\<close>

lemma take_sender:
  assumes ok: "sender_ok sub acc rcv acks n jo" and q: "arrives_as sub (length acc) i q" and seq: "txSeqNum q = rx_next rcv"
    and room: "\<forall>j. jo = Some j \<longrightarrow> i \<le> j + 253"
  shows "sender_ok sub (acc @ [q]) (txSeqNum q) acks n jo" and "i = length acc"
proof -
  let ?L = "outbox (tNode.txManager n) sub acc rcv acks"
  have link: "link_inv ?L" using ok by (simp add: sender_ok_def)
  note f = outbox_facts [OF link]
  have "seq_of i = seq_of (length acc)" using q seq f(8) by (simp add: arrives_as_def rx_next_ack_of)
  moreover have "i < length acc + 255" "length acc < i + 255" using q f(1,6,10) by (auto simp: arrives_as_def)
  ultimately show i: "i = length acc" using seq_of_near by blast
  have "wire_packet ?L i q" using q i by (simp add: wire_packet_def arrives_as_def)
  then have "link_inv (?L\<lparr>l_wire := [q]\<rparr>)" using link
    by (auto simp: link_inv_def link_parts released_def wire_ack_def[abs_def] wire_packet_def intro!: exI [of _ "[i]"])
  from lose_inv [OF arrive_inv [OF this, of q "[]"], of "[]" q "[]"] have "link_inv (outbox (tNode.txManager n) sub (acc @ [q]) (txSeqNum q) acks)"
    using seq by (simp add: l_arrive_def outbox_def)
  then show "sender_ok sub (acc @ [q]) (txSeqNum q) acks n jo"
    using queued_grows [of sub "length acc" n jo] ok room i by (fastforce simp: sender_ok_def)
qed

lemma drop_acks:
  assumes "sender_ok sub acc rcv (us @ vs) n jo"
  shows "sender_ok sub acc rcv us n jo"
  using assms
proof (induction vs rule: rev_induct)
  case (snoc v vs)
  have "sender_ok sub acc rcv (us @ vs) n jo"
    using missed_inv [of _ "us @ vs" v "[]"] snoc.prems by (fastforce simp: sender_ok_def outbox_def)
  then show ?case by (rule snoc.IH)
qed simp

lemma report_sender: "sender_ok sub acc rcv acks n jo \<Longrightarrow> sender_ok sub acc rcv (acks @ [rcv]) n jo"
  using report_inv [of "outbox (tNode.txManager n) sub acc rcv acks"] by (simp add: sender_ok_def outbox_def)

lemma receive_kept: "tx_kept n (node_receive q n)" "savedRxAckValid (node_receive q n) = savedRxAckValid n"
  "savedRxAck (node_receive q n) = savedRxAck n" "nodeId (node_receive q n) = nodeId n"
  by (auto simp: node_receive_def intro!: tx_keptI)

section \<open>The stream of one node\<close>

text \<open>
  A network, the packets that the application of one node has submitted, each as it stands in the
  window then, and the packets of this node that have entered the queue of the master's application.
\<close>

record tStream =
  s_net :: tNet
  s_submitted :: "tPacket list"
  s_stored :: "tPacket list"

text \<open>
  The node has its id, has nothing queued and has not been heard yet under it; nothing of an earlier
  conversation waits in the two receive entries.
\<close>

definition stream_start :: "u8 \<Rightarrow> nat \<Rightarrow> tNet \<Rightarrow> bool" where
  "stream_start d i S \<longleftrightarrow> (let n = net_nodes S ! i; m = net_master S in
     net_inv S \<and> \<not> in_slot S \<and> i < length (net_nodes S) \<and> nodeId n = d \<and> node_id d \<and>
     unat (numTxNodesScheduled (scheduler m)) = MAX_TX_NODES_SCHEDULED \<and>
     window_of False (tNode.txManager n) 0 = no_window \<and> queued [] 0 n None \<and> taken_seq d m = NULL_SEQUENCE_NUM \<and>
     \<not> node_readable (net_crcs S ! i) (node_input n) \<and> \<not> passes (net_crc S) (master_input m))"

text \<open>
  The node keeps its id, no other node transmits data under it, and the master gives up no node.
\<close>

inductive stream_reach :: "(nat \<Rightarrow> u8) \<Rightarrow> u8 \<Rightarrow> nat \<Rightarrow> tStream \<Rightarrow> bool" for beyond d i where
  Start: "stream_start d i S \<Longrightarrow> stream_reach beyond d i \<lparr>s_net = S, s_submitted = [], s_stored = []\<rparr>"
| Master: "stream_reach beyond d i T \<Longrightarrow> \<not> slot_call c \<Longrightarrow> c \<noteq> Master_Post \<Longrightarrow> master_allowed c (net_master (s_net T)) \<Longrightarrow>
    master_do beyond c (net_master (s_net T)) = Inr (out, m') \<Longrightarrow> stream_reach beyond d i (T\<lparr>s_net := (s_net T)\<lparr>net_master := m'\<rparr>\<rparr>)"
| Node: "stream_reach beyond d i T \<Longrightarrow> j < length (net_nodes (s_net T)) \<Longrightarrow> \<not> schedule_call c \<Longrightarrow> \<not> receives c \<Longrightarrow>
    c \<notin> {Node_Post, Node_Single_Tx} \<Longrightarrow> (j = i \<longrightarrow> c \<notin> range Node_Submit) \<Longrightarrow>
    node_allowed c (in_slot (s_net T), net_nodes (s_net T) ! j) \<Longrightarrow>
    node_do c (in_slot (s_net T), net_nodes (s_net T) ! j) = Inr (out, b, n') \<Longrightarrow>
    stream_reach beyond d i (T\<lparr>s_net := (s_net T)\<lparr>net_nodes := (net_nodes (s_net T))[j := n']\<rparr>\<rparr>)"
| Submit: "stream_reach beyond d i T \<Longrightarrow> node_allowed (Node_Submit k) (in_slot (s_net T), net_nodes (s_net T) ! i) \<Longrightarrow>
    node_do (Node_Submit k) (in_slot (s_net T), net_nodes (s_net T) ! i) = Inr (out, b, n') \<Longrightarrow>
    stream_reach beyond d i (T\<lparr>s_net := (s_net T)\<lparr>net_nodes := (net_nodes (s_net T))[i := n']\<rparr>,
      s_submitted := s_submitted T @ [last (pending False (tNode.txManager n') 0)]\<rparr>)"
| Begin: "stream_reach beyond d i T \<Longrightarrow> net_begin beyond (s_net T) outm outs S' \<Longrightarrow> nodeId (net_nodes S' ! i) = d \<Longrightarrow>
    (\<And>j p. j < length outs \<Longrightarrow> j \<noteq> i \<Longrightarrow> outs ! j = Some p \<Longrightarrow> \<not> data_from d p) \<Longrightarrow> stream_reach beyond d i (T\<lparr>s_net := S'\<rparr>)"
| End: "stream_reach beyond d i T \<Longrightarrow> net_end beyond (s_net T) S' \<Longrightarrow> no_node_gone (net_master (s_net T)) \<Longrightarrow>
    \<not> nodeNwHasNodeTimedOut (timeToLive (net_nodes (s_net T) ! i)) \<Longrightarrow>
    stream_reach beyond d i (T\<lparr>s_net := S', s_stored := s_stored T @
      filter (\<lambda>p. node_srcNodeId p = d) (drop (length (master_queue (net_master (s_net T)))) (master_queue (net_master S')))\<rparr>)"

section \<open>Invariant\<close>

text \<open>A packet on its way to the master, and an acknowledgement on its way to the node.\<close>

definition flight_ok :: "u8 \<Rightarrow> tPacket list \<Rightarrow> nat \<Rightarrow> nat option \<Rightarrow> bool \<Rightarrow> tPacket \<Rightarrow> bool" where
  "flight_ok d sub g jo crc q \<longleftrightarrow> (passes crc q \<and> data_from d q \<longrightarrow>
     (\<exists>f. arrives_as sub g f q \<and> (\<forall>j. jo = Some j \<longrightarrow> f \<le> j + 253)))"

definition acks_heard :: "u8 \<Rightarrow> u8 list \<Rightarrow> bool \<Rightarrow> tPacket \<Rightarrow> bool" where
  "acks_heard d acks crc p \<longleftrightarrow> (\<forall>k<MAX_TX_NODES_SCHEDULED. node_readable crc p \<and> master_nextTxNodeId p k = d \<longrightarrow>
     acks = [master_nextTxNodeAckSeqNum p k])"

definition saved_acks :: "bool \<Rightarrow> tNode \<Rightarrow> u8 list" where
  "saved_acks b n = (if b \<and> savedRxAckValid n then [savedRxAck n] else [])"

text \<open>What the master has taken from the node: what it has stored, and what waits.\<close>

definition taken :: "u8 \<Rightarrow> tStream \<Rightarrow> tPacket list" where
  "taken d T = s_stored T @ waiting d (net_master (s_net T))"

definition ends_ok :: "u8 \<Rightarrow> bool \<Rightarrow> tMaster \<Rightarrow> bool \<Rightarrow> tNode \<Rightarrow> bool \<Rightarrow> tPacket list \<Rightarrow> tPacket list \<Rightarrow> bool" where
  "ends_ok d b m crc n crcn sub acc \<longleftrightarrow> nodeId n = d \<and> node_id d \<and> unat (numTxNodesScheduled (scheduler m)) = MAX_TX_NODES_SCHEDULED \<and>
     (\<exists>jo acks. sender_ok sub acc (taken_seq d m) (saved_acks b n @ acks) n jo \<and>
        flight_ok d sub (length acc) jo crc (master_input m) \<and> acks_heard d acks crcn (node_input n))"

lemma ends_okI:
  assumes "nodeId n = d" and "node_id d" and "unat (numTxNodesScheduled (scheduler m)) = MAX_TX_NODES_SCHEDULED"
    and "sender_ok sub acc (taken_seq d m) (saved_acks b n @ acks) n jo" and "flight_ok d sub (length acc) jo crc (master_input m)"
    and "acks_heard d acks crcn (node_input n)"
  shows "ends_ok d b m crc n crcn sub acc"
  using assms by (auto simp: ends_ok_def)

lemma ends_okE:
  assumes "ends_ok d b m crc n crcn sub acc"
  obtains jo acks where "sender_ok sub acc (taken_seq d m) (saved_acks b n @ acks) n jo"
    "flight_ok d sub (length acc) jo crc (master_input m)" "acks_heard d acks crcn (node_input n)"
    "nodeId n = d" "node_id d" "unat (numTxNodesScheduled (scheduler m)) = MAX_TX_NODES_SCHEDULED"
  using assms by (auto simp: ends_ok_def)

definition stream_ok :: "u8 \<Rightarrow> nat \<Rightarrow> tStream \<Rightarrow> bool" where
  "stream_ok d i T \<longleftrightarrow> (let S = s_net T in net_inv S \<and> i < length (net_nodes S) \<and>
     ends_ok d (in_slot S) (net_master S) (net_crc S) (net_nodes S ! i) (net_crcs S ! i) (s_submitted T) (taken d T))"

lemma stream_start_ok:
  assumes "stream_start d i S"
  shows "stream_ok d i \<lparr>s_net = S, s_submitted = [], s_stored = []\<rparr>"
proof -
  let ?n = "net_nodes S ! i" and ?m = "net_master S"
  have s: "net_inv S" "\<not> in_slot S" "i < length (net_nodes S)" "window_of False (tNode.txManager ?n) 0 = no_window"
    "queued [] 0 ?n None" "taken_seq d ?m = NULL_SEQUENCE_NUM" using assms by (simp_all add: stream_start_def Let_def)
  have "link_inv (outbox (tNode.txManager ?n) [] [] NULL_SEQUENCE_NUM [])"
    using s(4) by (simp add: outbox_def link_inv_def link_parts no_window_def released_def ack_of_def)
  then have "sender_ok [] [] (taken_seq d ?m) [] ?n None" using s(5,6) by (simp add: sender_ok_def)
  moreover have "waiting d ?m = []" using net_invD(2) [OF s(1,2)] by (rule waiting_idle)
  moreover have "flight_ok d [] 0 None (net_crc S) (master_input ?m)" "acks_heard d [] (net_crcs S ! i) (node_input ?n)"
    using assms by (simp_all add: stream_start_def Let_def flight_ok_def acks_heard_def)
  ultimately show ?thesis using assms
    by (auto simp: stream_ok_def ends_ok_def stream_start_def taken_def saved_acks_def Let_def)
qed

lemma calm_master_ends:
  assumes "ends_ok d b m crc n crcn sub acc" and "master_calm m m'" and "rxSeqNum (txManager (tx m')) = rxSeqNum (txManager (tx m))"
  shows "ends_ok d b m' crc n crcn sub acc"
  using assms by (simp add: ends_ok_def taken_seq_def master_calm_def)

lemma calm_heard:
  assumes "calm n n'" and "acks_heard d acks crc (node_input n)"
  shows "acks_heard d acks crc (node_input n')"
proof -
  have "node_input n' = node_input n \<or> node_input n' = zero_packet" using assms(1) by (auto simp: calm_def heard_so_far_def)
  then show ?thesis using assms(2) silent_type(3) [of zero_packet crc] by (auto simp: acks_heard_def zero_packet_def)
qed

lemma app_node_ends:
  assumes ok: "ends_ok d b m crc n crcn sub acc" and inv: "node_inv b n" and c: "\<not> schedule_call c" "\<not> receives c"
      "c \<notin> {Node_Post, Node_Single_Tx}" "c \<notin> range Node_Submit"
    and allowed: "node_allowed c (b, n)" and run: "node_do c (b, n) = Inr (out, b', n')"
  shows "ends_ok d b m crc n' crcn sub acc"
proof -
  obtain jo acks where e: "sender_ok sub acc (taken_seq d m) (saved_acks b n @ acks) n jo"
    "flight_ok d sub (length acc) jo crc (master_input m)" "acks_heard d acks crcn (node_input n)"
    and id: "nodeId n = d" "node_id d" "unat (numTxNodesScheduled (scheduler m)) = MAX_TX_NODES_SCHEDULED"
    by (rule ends_okE [OF ok])
  have c': "c \<notin> {Node_Post, Node_Single_Tx} \<union> range Node_Submit" using c(3,4) by blast
  note a = app_sender [OF e(1) inv c(1,2) c' allowed run]
  have saved: "saved_acks b n' = saved_acks b n" using a(3,4) by (simp add: saved_acks_def)
  have "calm n n'" using all_resD [OF other_calm [OF c(1,2), where b = b and n = n] run] by simp
  from calm_heard [OF this e(3)] show ?thesis
    by (rule ends_okI [rotated -1]) (use id e(2) a saved in simp_all)
qed

lemma submit_ends:
  assumes ok: "ends_ok d b m crc n crcn sub acc" and inv: "node_inv b n"
    and allowed: "node_allowed (Node_Submit k) (b, n)" and run: "node_do (Node_Submit k) (b, n) = Inr (out, b', n')"
  shows "ends_ok d b m crc n' crcn (sub @ [last (pending False (tNode.txManager n') 0)]) acc" (is "ends_ok d b m crc n' crcn ?sub acc")
proof -
  obtain jo acks where e: "sender_ok sub acc (taken_seq d m) (saved_acks b n @ acks) n jo"
    "flight_ok d sub (length acc) jo crc (master_input m)" "acks_heard d acks crcn (node_input n)"
    and id: "nodeId n = d" "node_id d" "unat (numTxNodesScheduled (scheduler m)) = MAX_TX_NODES_SCHEDULED"
    by (rule ends_okE [OF ok])
  from submit_sender [OF e(1) inv allowed run] obtain jo' where s: "sender_ok ?sub acc (taken_seq d m) (saved_acks b n @ acks) n' jo'"
    "\<forall>j'. jo' = Some j' \<longrightarrow> (\<exists>j\<le>j'. jo = Some j)" and id': "nodeId n' = nodeId n" by blast
  have saved: "saved_acks b n' = saved_acks b n" and calm: "calm n n'"
    using run all_resD [OF other_calm [of "Node_Submit k", where b = b and n = n] run]
    by (auto simp: nodeSubmitAllocatedTxPacket_def and_then_eq_Inr saved_acks_def)
  have "arrives_as ?sub g f q" if "arrives_as sub g f q" for g f q using that by (auto simp: arrives_as_def nth_append)
  then have "flight_ok d ?sub (length acc) jo' crc (master_input m)"
    using e(2) s(2) by (fastforce simp: flight_ok_def)
  then show ?thesis
    by (rule ends_okI [rotated 4]) (use id id' s(1) saved calm_heard [OF calm e(3)] in simp_all)
qed

section \<open>The start of a slot\<close>

lemma flight_moves:
  assumes "flight_ok d sub g jo crc q" and "\<forall>j. jo' = Some j \<longrightarrow> jo = Some j \<or> length sub \<le> j + 254"
  shows "flight_ok d sub g jo' crc q"
proof -
  have "f \<le> j + 253" if "jo' = Some j" "arrives_as sub g f q" "\<forall>j. jo = Some j \<longrightarrow> f \<le> j + 253" for f j
    using assms(2) that by (auto simp: arrives_as_def)
  then show ?thesis using assms(1) unfolding flight_ok_def by blast
qed

lemma sender_room: "sender_ok sub acc rcv acks n (Some j) \<Longrightarrow> length acc \<le> j + 254"
  by (auto simp: sender_ok_def queued_def entry_at_def split: option.split_asm tTxPtr.split_asm)

text \<open>What the master has taken, after the first half of a slot, from the packet that had arrived.\<close>

lemma hears_sender:
  assumes ok: "sender_ok sub acc (taken_seq d m) acks n jo" and fl: "flight_ok d sub (length acc) jo crc (master_input m)"
    and hears: "master_hears crc m m'" and len: "length (rxSeqNum (txManager (tx m))) = MAX_NODES" and d: "node_id d"
  shows "sender_ok sub (acc @ waiting d m') (taken_seq d m') acks n jo"
proof -
  let ?q = "master_input m" and ?s = "node_srcNodeId (master_input m)"
  have d64: "unat d < 64" using d by (simp add: node_id_def)
  from hears consider (take) "passes crc ?q" "data_from ?s ?q" "will_store (rx m') = [?q]" "txSeqNum ?q = rx_next (taken_seq ?s m)"
      "rxSeqNum (txManager (tx m')) = (rxSeqNum (txManager (tx m)))[unat ?s := txSeqNum ?q]"
    | (none) "will_store (rx m') = []" "rxSeqNum (txManager (tx m')) = rxSeqNum (txManager (tx m))"
    by (auto simp: master_hears_def Let_def)
  then show ?thesis
  proof cases
    case none
    then show ?thesis using ok by (simp add: waiting_def taken_seq_def)
  next
    case take
    show ?thesis
    proof (cases "?s = d")
      case False
      then have "unat ?s \<noteq> unat d" using unsigned_word_eqI by blast
      then have "waiting d m' = []" "taken_seq d m' = taken_seq d m" using False take(3,5) by (simp_all add: waiting_def taken_seq_def)
      then show ?thesis using ok by simp
    next
      case True
      then obtain f where f: "arrives_as sub (length acc) f ?q" "\<forall>j. jo = Some j \<longrightarrow> f \<le> j + 253"
        using fl take(1,2) by (auto simp: flight_ok_def)
      have "waiting d m' = [?q]" "taken_seq d m' = txSeqNum ?q" using take(3,5) True len d64 by (simp_all add: waiting_def taken_seq_def)
      then show ?thesis using take_sender(1) [OF ok f(1) _ f(2)] take(4) True by simp
    qed
  qed
qed

lemma taken_length:
  assumes "master_inv m"
  shows "length (rxSeqNum (txManager (tx m))) = MAX_NODES"
  using master_invD(2) [OF assms] by (auto simp: mtx_inv_def tx_inv_def tx_core_def tx_shape_def)

text \<open>What the node hears of it.\<close>

lemma ack_heard:
  assumes h: "heard crc x (set_option outm)" and four: "\<forall>p. outm = Some p \<longrightarrow>
      schedule_of p 4 = map (\<lambda>d. (d, rxSeqNum_at beyond (rxSeqNum (txManager (tx m))) d)) (take 4 (master_ids m))"
    and len: "length (rxSeqNum (txManager (tx m))) = MAX_NODES" "length (master_ids m) = 6" and d: "node_id d"
    and k: "k < MAX_TX_NODES_SCHEDULED" "node_readable crc x" "master_nextTxNodeId x k = d"
  shows "master_nextTxNodeAckSeqNum x k = taken_seq d m"
proof -
  obtain p where p: "outm = Some p" "on_wire p x" using h k(2) silent_type(3) by (auto simp: heard_def node_readable_def)
  have "schedule_of x 4 = schedule_of p 4"
    using wire_fields(5) [OF p(2)] by (simp add: schedule_of_def master_nextTxNodeId_def master_nextTxNodeAckSeqNum_def)
  then have "schedule_of x 4 ! k = (master_ids m ! k, rxSeqNum_at beyond (rxSeqNum (txManager (tx m))) (master_ids m ! k))"
    using four p(1) k(1) len(2) by simp
  then show ?thesis using k(1,3) len(1) d by (simp add: schedule_of_def rxSeqNum_at_def taken_seq_def node_id_def)
qed

lemma begin_ends:
  assumes ok: "ends_ok d False m crc n crcn sub acc" and inv: "net_inv S" "\<not> in_slot S" "m = net_master S" "crc = net_crc S"
    and n: "node_inv False n" "\<not> crcn \<Longrightarrow> from_master (node_input n)"
    and m1: "master_do beyond (Master_Pre crc) m = Inr (outm, m1)" "heard crc' q air" "m' = master_receive q m1"
    and n1: "node_do (Node_Pre crcn) (False, n) = Inr (outn, True, n1)" "heard crcn' x (set_option outm)" "n' = node_receive x n1"
    and id: "nodeId n' = d" and air: "\<forall>p\<in>air. data_from d p \<longrightarrow> outn = Some p"
  shows "ends_ok d True m' crc' n' crcn' sub (acc @ waiting d m')"
proof -
  obtain jo acks where e: "sender_ok sub acc (taken_seq d m) (saved_acks False n @ acks) n jo"
    "flight_ok d sub (length acc) jo crc (master_input m)" "acks_heard d acks crcn (node_input n)"
    and d: "nodeId n = d" "node_id d" "unat (numTxNodesScheduled (scheduler m)) = MAX_TX_NODES_SCHEDULED"
    by (rule ends_okE [OF ok])
  note i = net_invD [OF inv(1), folded inv(3,4)]
  note M = pre_hears [OF i(1) i(2) [OF inv(2)] i(3) m1(1) d(3)]
  have wf: "wf_packet q" "wf_packet x" using m1(2) n1(2) by (simp_all add: heard_def)
  have lens: "length (rxSeqNum (txManager (tx m))) = MAX_NODES" "length (rxSeqNum (txManager (tx m1))) = MAX_NODES" "length (master_ids m1) = 6"
    using taken_length i(1) M(1) master_invD(8) [OF M(1)] by auto
  have e1: "sender_ok sub acc (taken_seq d m) acks n jo" using e(1) by (simp add: saved_acks_def)
  have un: "nodeId n \<noteq> UNALLOCATED_NODE_ID" "nodeId n1 = nodeId n" using d id n1(3) receive_kept(4) by (auto simp: node_id_def)
  note P = pre_sender [OF e1 n un(1) n1(1) un(2)]
  let ?acc = "acc @ waiting d m'" and ?acks = "if \<exists>k<4. node_readable crcn' x \<and> master_nextTxNodeId x k = d then [taken_seq d m1] else []"
  have m': "waiting d m' = waiting d m1" "taken_seq d m' = taken_seq d m1" "numTxNodesScheduled (scheduler m') = numTxNodesScheduled (scheduler m)"
    "master_input m' = q"
    using waiting_after_receive [OF M(1) wf(1)] master_receive_input [OF M(1) wf(1)] M(3) m1(3) by (simp_all add: taken_seq_def)
  have saved: "saved_acks True (node_receive x n1) = saved_acks True n1" by (simp add: saved_acks_def receive_kept)
  obtain jo' where s1: "sender_ok sub acc (taken_seq d m) acks n1 jo'" "jo' = jo \<or> jo' = None" using P(1) by blast
  have "acks = saved_acks True n1 @ drop (length (saved_acks True n1)) acks"
    using P(3) e(3) d(1) by (auto simp: saved_acks_def acks_heard_def)
  then have s2: "sender_ok sub acc (taken_seq d m) (saved_acks True n1) n1 jo'" using drop_acks s1(1) by metis
  have "flight_ok d sub (length acc) jo' crc (master_input m)" by (rule flight_moves [OF e(2)]) (use s1(2) in auto)
  from hears_sender [OF s2 this M(2) lens(1) d(2)] have "sender_ok sub ?acc (taken_seq d m1) (saved_acks True n1) n1 jo'" using m'(1) by simp
  then have "sender_ok sub ?acc (taken_seq d m1) (saved_acks True n1 @ ?acks) n1 jo'" using report_sender by simp
  then have S: "sender_ok sub ?acc (taken_seq d m') (saved_acks True n' @ ?acks) n' jo'"
    unfolding m'(2) n1(3) saved kept_sender [OF receive_kept(1)] .
  have A: "acks_heard d ?acks crcn' (node_input n')"
  proof -
    have "node_allowed (Node_Pre crcn) (False, n)" using n(2) by auto
    then have "node_inv True n1" using node_step [of "(False, n)" "Node_Pre crcn"] n(1) n1(1) by auto
    then have "node_input n' = x" using receive_input(1) wf(2) n1(3) by simp
    then show ?thesis using ack_heard [OF n1(2) _ lens(2,3) d(2), of beyond] M(4) by (auto simp: acks_heard_def)
  qed
  have F: "flight_ok d sub (length ?acc) jo' crc' (master_input m')"
  proof -
    have "\<exists>f. arrives_as sub (length ?acc) f q \<and> (\<forall>j. jo' = Some j \<longrightarrow> f \<le> j + 253)" if q: "passes crc' q" "data_from d q"
    proof -
      obtain p where p: "p \<in> air" "on_wire p q" using m1(2) q(1) silent_type(2) by (auto simp: heard_def passes_def)
      then have data: "data_from d p" using q(2) wire_fields(1,5) [OF p(2)] by (simp add: data_from_def node_srcNodeId_def)
      then obtain j where j: "jo = Some j" "arrives_as sub (length acc) j p" "wf_packet p"
        using P(2) air p(1) by (auto simp: data_from_def)
      have "udata p \<noteq> []" using j(3) by (auto simp: wf_packet_def)
      then have "q = p" using p(2) by (cases p, cases q) (simp add: on_wire_def)
      moreover have "length ?acc \<le> j + 254"
        using sender_room hears_sender [OF e1 e(2) M(2) lens(1) d(2)] j(1) m'(1) by metis
      moreover have "length acc \<le> length ?acc" by simp
      ultimately have "arrives_as sub (length ?acc) j q" using j(2) by (auto simp: arrives_as_def)
      then show ?thesis using s1(2) j(1) by auto
    qed
    then show ?thesis using m'(4) by (simp add: flight_ok_def)
  qed
  show ?thesis by (rule ends_okI [OF id d(2) _ S F A]) (use m'(3) d(3) in simp)
qed

section \<open>The end of a slot\<close>

lemma end_ends:
  assumes ok: "ends_ok d True m crc n crcn sub (stored @ waiting d m)" and inv: "master_inv m" "node_inv True n"
    and live: "no_node_gone m" "\<not> nodeNwHasNodeTimedOut (timeToLive n)"
    and m1: "master_do beyond Master_Post m = Inr (None, m')" and n1: "node_do Node_Post (True, n) = Inr (None, False, n')"
  shows "ends_ok d False m' crc n' crcn sub (stored @ filter (\<lambda>p. node_srcNodeId p = d) (drop (length (master_queue m)) (master_queue m')))"
    and "waiting d m' = []"
proof -
  let ?acc = "stored @ waiting d m"
  obtain jo acks where e: "sender_ok sub ?acc (taken_seq d m) (saved_acks True n @ acks) n jo"
    "flight_ok d sub (length ?acc) jo crc (master_input m)" "acks_heard d acks crcn (node_input n)"
    and d: "nodeId n = d" "node_id d" "unat (numTxNodesScheduled (scheduler m)) = MAX_TX_NODES_SCHEDULED"
    by (rule ends_okE [OF ok])
  note M = post_stores [OF inv(1) live(1) m1]
  show "waiting d m' = []" by (rule waiting_idle [OF M(2)])
  have un: "nodeId n \<noteq> UNALLOCATED_NODE_ID" using d by (auto simp: node_id_def)
  have "sender_ok sub ?acc (taken_seq d m) ((if savedRxAckValid n then [savedRxAck n] else []) @ acks) n jo"
    using e(1) by (simp add: saved_acks_def split del: if_split)
  note P = post_sender [OF this inv(2) un live(2) n1]
  obtain jo' where s: "sender_ok sub ?acc (taken_seq d m) acks n' jo'" "jo' = jo \<or> (\<forall>j. jo' = Some j \<longrightarrow> length sub \<le> j + 254)"
    using P(1) by blast
  have "flight_ok d sub (length ?acc) jo' crc (master_input m)" by (rule flight_moves [OF e(2)]) (use s(2) in auto)
  moreover have "calm n n'" using all_resD [OF other_calm [of Node_Post, where b = True and n = n] n1] by simp
  ultimately have "ends_ok d False m crc n' crcn sub ?acc"
    by (intro ends_okI [OF _ d(2,3)]) (use P(2) d(1) s(1) calm_heard e(3) in \<open>simp_all add: saved_acks_def\<close>)
  from calm_master_ends [OF this M(5,4)]
  show "ends_ok d False m' crc n' crcn sub (stored @ filter (\<lambda>p. node_srcNodeId p = d) (drop (length (master_queue m)) (master_queue m')))"
    using M(3) by (simp add: waiting_def)
qed

lemma stream_okD:
  assumes "stream_ok d i T"
  shows "net_inv (s_net T)" "i < length (net_nodes (s_net T))"
    "ends_ok d (in_slot (s_net T)) (net_master (s_net T)) (net_crc (s_net T)) (net_nodes (s_net T) ! i) (net_crcs (s_net T) ! i)
      (s_submitted T) (taken d T)"
    "node_inv (in_slot (s_net T)) (net_nodes (s_net T) ! i)"
    "\<not> net_crcs (s_net T) ! i \<Longrightarrow> from_master (node_input (net_nodes (s_net T) ! i))"
  using assms net_invD(4) [of "s_net T" i] by (simp_all add: stream_ok_def net_node_ok_def Let_def)

lemma begin_parts:
  assumes step: "net_begin beyond S outm outs S'" and i: "i < length (net_nodes S)"
  obtains m1 q n1 x where "\<not> in_slot S" "in_slot S'" "length outs = length (net_nodes S)" "length (net_nodes S') = length (net_nodes S)"
    and "master_do beyond (Master_Pre (net_crc S)) (net_master S) = Inr (outm, m1)"
      "heard (net_crc S') q {p. Some p \<in> set outs}" "net_master S' = master_receive q m1"
    and "node_do (Node_Pre (net_crcs S ! i)) (False, net_nodes S ! i) = Inr (outs ! i, True, n1)"
      "heard (net_crcs S' ! i) x (set_option outm)" "net_nodes S' ! i = node_receive x n1"
  using assms by (auto simp: net_begin_def)

lemma stream_begin_ok:
  assumes ok: "stream_ok d i T" and step: "net_begin beyond (s_net T) outm outs S'" and id: "nodeId (net_nodes S' ! i) = d"
    and others: "\<And>j p. j < length outs \<Longrightarrow> j \<noteq> i \<Longrightarrow> outs ! j = Some p \<Longrightarrow> \<not> data_from d p"
  shows "stream_ok d i (T\<lparr>s_net := S'\<rparr>)"
proof -
  let ?S = "s_net T"
  note s = stream_okD [OF ok]
  obtain m1 q n1 x where st: "\<not> in_slot ?S" "in_slot S'" "length outs = length (net_nodes ?S)" "length (net_nodes S') = length (net_nodes ?S)"
    and m1: "master_do beyond (Master_Pre (net_crc ?S)) (net_master ?S) = Inr (outm, m1)"
      "heard (net_crc S') q {p. Some p \<in> set outs}" "net_master S' = master_receive q m1"
    and n1: "node_do (Node_Pre (net_crcs ?S ! i)) (False, net_nodes ?S ! i) = Inr (outs ! i, True, n1)"
      "heard (net_crcs S' ! i) x (set_option outm)" "net_nodes S' ! i = node_receive x n1"
    by (rule begin_parts [OF step s(2)])
  have n: "node_inv False (net_nodes ?S ! i)" "\<not> net_crcs ?S ! i \<Longrightarrow> from_master (node_input (net_nodes ?S ! i))"
    using s(4,5) st(1) by simp_all
  have air: "\<forall>p\<in>{p. Some p \<in> set outs}. data_from d p \<longrightarrow> outs ! i = Some p"
    using others by (auto simp: in_set_conv_nth)
  have "ends_ok d False (net_master ?S) (net_crc ?S) (net_nodes ?S ! i) (net_crcs ?S ! i) (s_submitted T) (taken d T)" using s(3) st(1) by simp
  from begin_ends [OF this s(1) st(1) refl refl n m1 n1 id air]
  have "ends_ok d True (net_master S') (net_crc S') (net_nodes S' ! i) (net_crcs S' ! i) (s_submitted T) (taken d (T\<lparr>s_net := S'\<rparr>))"
    using waiting_idle net_invD(2) [OF s(1) st(1)] by (simp add: taken_def)
  then show ?thesis using begin_inv(1) [OF s(1) step] st(2,4) s(2) by (simp add: stream_ok_def)
qed

lemma stream_end_ok:
  assumes ok: "stream_ok d i T" and step: "net_end beyond (s_net T) S'" and gone: "no_node_gone (net_master (s_net T))"
    and live: "\<not> nodeNwHasNodeTimedOut (timeToLive (net_nodes (s_net T) ! i))"
  shows "stream_ok d i (T\<lparr>s_net := S', s_stored := s_stored T @
    filter (\<lambda>p. node_srcNodeId p = d) (drop (length (master_queue (net_master (s_net T)))) (master_queue (net_master S')))\<rparr>)"
proof -
  let ?S = "s_net T"
  note s = stream_okD [OF ok]
  have st: "in_slot ?S" "\<not> in_slot S'" "net_crc S' = net_crc ?S" "net_crcs S' = net_crcs ?S" "length (net_nodes S') = length (net_nodes ?S)"
    "master_do beyond Master_Post (net_master ?S) = Inr (None, net_master S')"
    "node_do Node_Post (True, net_nodes ?S ! i) = Inr (None, False, net_nodes S' ! i)"
    using step s(2) by (simp_all add: net_end_def)
  have "node_inv True (net_nodes ?S ! i)" using s(4) st(1) by simp
  from end_ends [OF _ net_invD(1) [OF s(1)] this gone live st(6,7)] s(3) st
  have "ends_ok d (in_slot S') (net_master S') (net_crc S') (net_nodes S' ! i) (net_crcs S' ! i) (s_submitted T)
      (taken d (T\<lparr>s_net := S', s_stored := s_stored T @
        filter (\<lambda>p. node_srcNodeId p = d) (drop (length (master_queue (net_master ?S))) (master_queue (net_master S')))\<rparr>))"
    by (simp add: taken_def)
  then show ?thesis using end_inv [OF s(1) _ step] gone st(5) s(2) by (simp add: stream_ok_def)
qed

lemma stream_reach_ok: "stream_reach beyond d i T \<Longrightarrow> stream_ok d i T"
proof (induction rule: stream_reach.induct)
  case (Start S)
  then show ?case by (rule stream_start_ok)
next
  case (Master T c out m')
  let ?S = "s_net T"
  note ok = stream_okD [OF Master.IH]
  note m = net_invD(1) [OF ok(1)]
  note same = app_master [OF m Master.hyps(4,2,3,5)]
  have "net_inv (?S\<lparr>net_master := m'\<rparr>)" by (rule master_app_net [OF ok(1) Master.hyps(2,3,4,5)])
  moreover have "master_calm (net_master ?S) m'" using other_master_calm [OF m Master.hyps(4,2,5)] by simp
  ultimately show ?case using calm_master_ends [OF ok(3) _ same(1)] ok(2) same(2)
    by (simp add: stream_ok_def taken_def waiting_def)
next
  case (Node T j c out b n')
  let ?S = "s_net T"
  note ok = stream_okD [OF Node.IH]
  have "node_inv (in_slot ?S) (net_nodes ?S ! j)" using net_invD(4) [OF ok(1) Node.hyps(2)] by (simp add: net_node_ok_def)
  then have "ends_ok d (in_slot ?S) (net_master ?S) (net_crc ?S) (((net_nodes ?S)[j := n']) ! i) (net_crcs ?S ! i) (s_submitted T) (taken d T)"
    using app_node_ends [OF ok(3) _ Node.hyps(3,4,5)] Node.hyps(6,7,8) ok(3) by (cases "j = i") (use ok(2) in auto)
  then show ?case using node_app_net [OF ok(1) Node.hyps(2,3,4,5,7,8)] ok(2) by (simp add: stream_ok_def taken_def)
next
  case (Submit T k out b n')
  let ?S = "s_net T"
  note ok = stream_okD [OF Submit.IH]
  from submit_ends [OF ok(3,4) Submit.hyps(2,3)] node_app_net [OF ok(1,2) _ _ _ Submit.hyps(2,3)]
  show ?case using ok(2) by (simp add: stream_ok_def taken_def)
next
  case (Begin T outm outs S')
  then show ?case using stream_begin_ok by blast
next
  case (End T S')
  then show ?case using stream_end_ok by blast
qed

section \<open>Properties\<close>

text \<open>
  Claim C1. In a network of any size, whatever the wire loses or corrupts in either direction and
  however the calls of all applications fall between and within the slots, what the master puts into
  the queue of its application from a node are the messages that the node's application has submitted,
  each once, without a gap and in order, for as long as the node keeps its id, nobody else transmits
  data under it and no node times out at the master; and the node's buffer has given up nothing
  that the master has not taken.
\<close>

theorem stream_exactly_once:
  assumes "stream_reach beyond d i T"
  shows "prefix (map message (s_stored T)) (map message (s_submitted T)) \<and>
    (\<exists>k\<le>length (s_stored T) + length (waiting d (net_master (s_net T))).
      map message (pending False (tNode.txManager (net_nodes (s_net T) ! i)) 0) = map message (drop k (s_submitted T)))"
proof -
  let ?n = "net_nodes (s_net T) ! i"
  obtain rcv acks where "link_inv (outbox (tNode.txManager ?n) (s_submitted T) (taken d T) rcv acks)"
    using stream_okD(3) [OF stream_reach_ok [OF assms]] by (auto simp: ends_ok_def sender_ok_def)
  note f = outbox_facts [OF this]
  have "map message (s_stored T) @ map message (waiting d (net_master (s_net T))) = take (length (taken d T)) (map message (s_submitted T))"
    using f(9) by (simp add: taken_def take_map)
  then have "prefix (map message (s_stored T)) (map message (s_submitted T))" by (metis prefixI append_assoc append_take_drop_id)
  then show ?thesis using f(4,6) by (auto simp: taken_def)
qed

text \<open>
  A master and a node as they are set up, the node with its id from the start, as the STM32 driver
  gives it.
\<close>

lemma init_fields:
  assumes "nodeInit uid k ps r = Inr n"
  shows "tNode.txManager n = initTxManager 1 None k ps" "tNode.nextTxPacket n = Some Tmp_Packet" "tNode.tmpPacket n = zero_packet"
proof -
  from assms obtain x where "n = x" "tNode.txManager x = initTxManager 1 None k ps" "tNode.nextTxPacket x = Some Tmp_Packet" "tNode.tmpPacket x = zero_packet"
    unfolding nodeInit_def and_then_eq_Inr by (force split: option.split_asm)
  then show "tNode.txManager n = initTxManager 1 None k ps" "tNode.nextTxPacket n = Some Tmp_Packet" "tNode.tmpPacket n = zero_packet" by simp_all
qed

lemma rxSeqNum_init: "rxSeqNum (initTxManager k q c ps) = replicate (unat k) NULL_SEQUENCE_NUM"
  by (simp add: initTxManager_def)

lemma init_window: "window_of False (initTxManager 1 None k ps) 0 = no_window"
  by (simp add: initTxManager_def window_of_def no_window_def pending_def buffered_def start_of_def end_of_def sent_def next_of_def pause_of_def)

lemma init_stream:
  assumes m: "masterInit 4 k ps maxRx = Inr m" "master_config 4 k ps maxRx"
    and n: "nodeInit uid k' ps' maxRx' = Inr n" "node_config uid k' ps' maxRx'" and d: "node_id d"
  shows "stream_start d 0 \<lparr>net_master = m, net_nodes = [n\<lparr>nodeId := d\<rparr>], net_crc = True, net_crcs = [True], in_slot = False\<rparr>"
proof -
  let ?n = "n\<lparr>nodeId := d\<rparr>"
  let ?S = "\<lparr>net_master = m, net_nodes = [n], net_crc = True, net_crcs = [True], in_slot = False\<rparr>"
  have S: "net_inv ?S" by (rule init_net_inv [OF m]) (use n in auto)
  have "node_inv False ?n" using config_inv [OF n(2), of False] n(1) d by (auto simp: node_inv_def node_ok_def)
  moreover have "calm n ?n" by (rule calm_refl) (simp add: heard_so_far_def node_input_def)
  ultimately have "net_inv (?S\<lparr>net_nodes := (net_nodes ?S)[0 := ?n]\<rparr>)" by (intro node_moves_net [OF S]) simp_all
  moreover note init_fields [OF n(1)]
  moreover have "txManager (tx m) = initTxManager (of_nat MAX_NODES) (Some zero_queue) k ps" "unat (numTxNodesScheduled (scheduler m)) = 4"
    using m(1) by (auto simp: masterInit_def and_then_eq_Inr masterTxInit_def schedulerInit_def)
  moreover have "\<not> passes True p" "\<not> node_readable True p" for p by (simp_all add: passes_def node_readable_def)
  ultimately show ?thesis using d
    by (auto simp: stream_start_def queued_def node_memory_def taken_seq_def init_window node_id_def rxSeqNum_init
        GET_PACKET_TYPE_def zero_packet_def)
qed

lemma submitted_stream:
  obtains T where "stream_reach (\<lambda>_. 0) 1 0 T" and "length (s_submitted T) = 1" and "length (net_nodes (s_net T)) = 1"
    and "\<not> in_slot (s_net T)"
proof -
  have c: "master_config 4 2 [zero_entry, zero_entry] 3" by (simp add: master_config_def zero_entry_def)
  from master_config_inv [OF c] obtain m where m: "masterInit 4 2 [zero_entry, zero_entry] 3 = Inr m" by blast
  have e: "node_config 5 2 [zero_entry, zero_entry] 3" by (simp add: node_config_def zero_entry_def)
  from config_inv [OF e] obtain n0 where n0: "nodeInit 5 2 [zero_entry, zero_entry] 3 = Inr n0" by blast
  define n where "n = n0\<lparr>nodeId := 1\<rparr>"
  let ?S = "\<lparr>net_master = m, net_nodes = [n], net_crc = True, net_crcs = [True], in_slot = False\<rparr>"
  let ?T = "\<lparr>s_net = ?S, s_submitted = [], s_stored = []\<rparr>"
  have start: "stream_reach (\<lambda>_. 0) 1 0 ?T"
    unfolding n_def by (rule stream_reach.Start [OF init_stream [OF m c n0 e]]) (simp add: node_id_def)
  have inv: "node_inv False n" using stream_okD(4) [OF stream_reach_ok [OF start]] by simp
  have tx: "tx_inv False (tNode.txManager n)" "dst_ok (tNode.txManager n) 0" using node_invD(7,8) [OF inv] by (simp_all add: node_tx_ok_def)
  have f: "tNode.txManager n = initTxManager 1 None 2 [zero_entry, zero_entry]" using init_fields(1) [OF n0] by (simp add: n_def)
  obtain a mt where al: "allocateTxPacket (tNode.txManager n) = Inr (Some a, mt)" "allocatedPacket mt = Some a"
    using allocate_free [OF tx(1)] f by (auto simp: initTxManager_def zero_entry_def)
  let ?n1 = "n\<lparr>tNode.txManager := mt\<rparr>"
  have run: "node_do Node_Alloc (False, n) = Inr (None, False, ?n1)"
    using al(1) by (simp add: nodeAllocateTxPacket_def nodeAllocateTxPacketFull_def Let_def)
  have ok: "node_allowed Node_Alloc (False, n)" using f by (simp add: initTxManager_def)
  let ?T1 = "?T\<lparr>s_net := ?S\<lparr>net_nodes := [?n1]\<rparr>\<rparr>"
  have r1: "stream_reach (\<lambda>_. 0) 1 0 ?T1"
    using stream_reach.Node [OF start, of 0 Node_Alloc None False ?n1] ok run by (auto simp del: node_do.simps)
  have ok1: "node_allowed (Node_Submit 3) (False, ?n1)" using al(2) by (simp add: n_def)
  have "node_inv False ?n1" using stream_okD(4) [OF stream_reach_ok [OF r1]] by simp
  from node_step [of "(False, ?n1)" "Node_Submit 3"] this ok1 obtain out b n2 where
    "node_do (Node_Submit 3) (False, ?n1) = Inr (out, b, n2)" by auto
  with stream_reach.Submit [OF r1, of 3 out b n2] ok1 that show ?thesis by simp
qed

theorem stream_exactly_once_witness:
  "\<exists>T. stream_reach (\<lambda>_. 0) 1 0 T \<and> length (s_submitted T) = 1 \<and> prefix (map message (s_stored T)) (map message (s_submitted T))"
proof -
  obtain T where T: "stream_reach (\<lambda>_. 0) 1 0 T" "length (s_submitted T) = 1" by (rule submitted_stream)
  from stream_exactly_once [OF T(1)] T show ?thesis by blast
qed

end
