(* ===== verification/Inbox.thy ===== *)
theory Inbox
  imports Outbox
begin

text \<open>
  The receiving half of a node as the other end of a link: what its handlers do to the sequence
  number it expects from the master and to the packet that waits for its queue, and the
  acknowledgement that it sends back.
\<close>

section \<open>What leaves it alone\<close>

definition rx_same :: "tNode \<Rightarrow> tNode \<Rightarrow> bool" where
  "rx_same n n' \<longleftrightarrow> rxSeqNum (txManager n') = rxSeqNum (txManager n) \<and> node_will_store n' = node_will_store n \<and> nodeId n' = nodeId n"

lemma rx_sameI:
  "rxSeqNum (txManager n') = rxSeqNum (txManager n) \<Longrightarrow> rx_packet (rxPacketManager n') = rx_packet (rxPacketManager n) \<Longrightarrow>
   prevRxPacketEntry n' = prevRxPacketEntry n \<Longrightarrow> validRxPacket n' = validRxPacket n \<Longrightarrow> validRxSeqNum n' = validRxSeqNum n \<Longrightarrow>
   nodeId n' = nodeId n \<Longrightarrow> rx_same n n'"
  by (simp add: rx_same_def node_will_store_def split: option.split)

lemma rx_same_trans: "rx_same n n1 \<Longrightarrow> rx_same n1 n2 \<Longrightarrow> rx_same n n2"
  by (simp add: rx_same_def)

lemma write_rxSeqNum: "all_res (\<lambda>(m', hs', tmp'). rxSeqNum m' = rxSeqNum m) (tx_write (m, hs, tmp) q f)"
  by (cases q) (auto simp: upd_packet_def intro!: all_res_bind)

lemma write_same:
  assumes "tx_write (node_memory n) q f = Inr mem"
  shows "rx_same n (with_node_memory n mem)"
  using all_resD [OF write_rxSeqNum [of "txManager n" "tmpEmptyPacketHeader n" "tmpPacket n" q f]] assms
  by (auto simp: node_memory_def with_node_memory_def intro!: rx_sameI split: prod.split)

lemma quickTx_same: "all_res (rx_same n) (nodeQuickUpdateTxPacket n)"
  by (auto simp: nodeQuickUpdateTxPacket_def write_same intro!: all_res_bind rx_sameI split: option.split)

lemma sendTx_rx: "all_res (\<lambda>(_, n'). rx_same n n') (nodeSendTxPacket n q)"
proof -
  have "rx_same n (n1\<lparr>nextTxPacket := q1, stats := st, timeToLive := t\<rparr>)" if "nodeQuickUpdateTxPacket n = Inr n1" for n1 q1 st t
    by (rule rx_same_trans [OF all_resD [OF quickTx_same that]]) (simp add: rx_sameI)
  then show ?thesis unfolding nodeSendTxPacket_def Let_def by (intro all_res_bind) auto
qed

lemma getTx_rx:
  assumes "nodeId n \<noteq> UNALLOCATED_NODE_ID"
  shows "all_res (\<lambda>(_, n'). rx_same n n') (nodeGetTxPacket n)"
  using assms sendTx_rx [of n] by (auto simp: nodeGetTxPacket_def intro!: rx_sameI split: option.split)

lemma processTx_rx:
  assumes inv: "node_inv b n" and d: "nodeId n \<noteq> UNALLOCATED_NODE_ID" and run: "nodeProcessTx n = Inr n'"
  shows "rx_same n n'" and "node_queue n' = node_queue n"
proof -
  have m: "tx_inv False (txManager n)" "dst_ok (txManager n) 0" using node_invD(7,8) [OF inv] by (simp_all add: node_tx_ok_def)
  have "rx_same n n' \<and> node_queue n' = node_queue n"
  proof (cases "keepsTxPacket n = Inr True")
    case True
    then show ?thesis using run by (auto simp: nodeProcessTx_def rx_sameI)
  next
    case False
    then have k: "keepsTxPacket n = Inr False" using keeps_total [OF inv] by auto
    then obtain r m1 where f: "nodeGetNextTxDataPacket (txManager n) = Inr (r, m1)" using run d by (auto simp: nodeProcessTx_def and_then_eq_Inr)
    let ?n1 = "n\<lparr>txManager := m1\<rparr>"
    obtain ptr n2 where n2: "(case r of None \<Rightarrow> nodeEmptyPacket ?n1 | Some i \<Rightarrow> Inr (Tx_Entry i, ?n1)) = Inr (ptr, n2)"
      using run d k f by (auto simp: nodeProcessTx_def and_then_eq_Inr Let_def)
    obtain level mem where w: "tx_write (node_memory n2) ptr (\<lambda>p. Inr (set_node_bufferLevel level p)) = Inr mem"
      "n' = (with_node_memory n2 mem)\<lparr>nextTxPacket := Some ptr\<rparr>"
      using run d k f n2 by (auto simp: nodeProcessTx_def and_then_eq_Inr Let_def)
    have "rxSeqNum m1 = rxSeqNum (txManager n)" using nodeGetNext_spec [OF m] f by (auto simp: tx_frame_def)
    then have "rx_same n n2" "node_queue n2 = node_queue n"
      using n2 by (auto simp: nodeEmptyPacket_def and_then_eq_Inr Let_def node_queue_def intro!: rx_sameI split: option.split_asm)
    moreover have "rx_same n2 n'"
      unfolding w(2) by (rule rx_same_trans [OF write_same [OF w(1)]]) (simp add: rx_sameI)
    moreover have "node_queue n' = node_queue n2" using w(2) by (simp add: node_queue_def with_node_memory_def split: prod.split)
    ultimately show ?thesis using rx_same_trans by auto
  qed
  then show "rx_same n n'" "node_queue n' = node_queue n" by simp_all
qed

lemma app_rx:
  assumes inv: "node_inv b n" and c: "\<not> schedule_call c" "\<not> receives c" "c \<notin> {Node_Post, Node_Single_Tx}"
    and allowed: "node_allowed c (b, n)" and run: "node_do c (b, n) = Inr (out, b', n')"
  shows "rx_same n n'"
proof (cases c)
  case (Node_Submit k)
  have m: "tx_inv False (txManager n)" "dst_ok (txManager n) 0" using node_invD(7,8) [OF inv] by (simp_all add: node_tx_ok_def)
  have s: "unat (nodeId n) < MAX_NODES" using node_invD(3) [OF inv] allowed Node_Submit by (auto simp: node_id_def)
  obtain a where a: "allocatedPacket (txManager n) = Some a" using allowed Node_Submit by auto
  obtain m' where "submitAllocatedTxPacket (txManager n) False 0 0 (nodeId n) 0 NODE_DATA_PACKET k = Inr m'" "n' = n\<lparr>txManager := m'\<rparr>"
    using run Node_Submit by (auto simp: nodeSubmitAllocatedTxPacket_def and_then_eq_Inr)
  then show ?thesis using submit_spec [where ttl = 0 and ttl' = 0 and t = NODE_DATA_PACKET and n = k, OF m(1) a m(2) _ s]
    by (auto intro!: rx_sameI)
next
  case Node_Alloc
  then show ?thesis using run
    by (auto simp: nodeAllocateTxPacket_def nodeAllocateTxPacketFull_def allocateTxPacket_def and_then_eq_Inr Let_def
        intro!: rx_sameI split: option.split_asm if_split_asm)
next
  case Node_Read
  then show ?thesis using run
    by (auto simp: nodePop_copy and_then_eq_Inr pop_packets intro!: rx_sameI split: if_split_asm)
qed (use c run in \<open>auto simp: nodeUpdateTimeUs_def tx_fill_def upd_packet_def intro!: rx_sameI split: option.split\<close>)

section \<open>The two halves of a slot\<close>

text \<open>
  In the first half the packet heard is taken, if it is the next one for the node and another entry
  is free; what the node then sends acknowledges it.
\<close>

definition node_takes :: "bool \<Rightarrow> tNode \<Rightarrow> bool" where
  "node_takes crc n \<longleftrightarrow> node_readable crc (node_input n) \<and> node_wants n (node_input n)"

lemma ackSeqNum_set: "length (uhdr p) = 10 \<Longrightarrow> node_ackSeqNum (set_node_ackSeqNum a p) = a"
  by (simp add: node_ackSeqNum_def set_node_ackSeqNum_def)

lemma write_deref: "tx_write mem q f = Inr mem' \<Longrightarrow> \<exists>p p'. tx_deref mem q = Inr p \<and> f p = Inr p' \<and> tx_deref mem' q = Inr p'"
  by (cases mem; cases q) (auto simp: and_then_eq_Inr rd_eq_Inr upd_packet_def)

lemma sendTx_ack:
  assumes inv: "node_inv b n" and ptr: "nextTxPacket n = Some q" and run: "nodeSendTxPacket n q = Inr (r, n')"
    and p: "tx_deref (node_memory n') q = Inr p"
  shows "node_ackSeqNum p = rxSeqNum (txManager n) ! 0"
proof -
  obtain ack mem where w: "rd (rxSeqNum (txManager n)) 0 = Inr ack" "tx_write (node_memory n) q (\<lambda>p. Inr (set_node_ackSeqNum ack p)) = Inr mem"
    "node_memory n' = node_memory (with_node_memory n mem)"
    using run ptr by (auto simp: nodeSendTxPacket_def nodeQuickUpdateTxPacket_def and_then_eq_Inr Let_def node_memory_def)
  obtain p0 where p0: "tx_deref (node_memory n) q = Inr p0" "tx_deref mem q = Inr (set_node_ackSeqNum ack p0)"
    using write_deref [OF w(2)] by auto
  have "length (uhdr p0) = 10"
    using p0(1) node_invD(5,10-12) [OF inv] node_invD(7) [OF inv]
    by (cases q) (auto simp: node_memory_def and_then_eq_Inr rd_eq_Inr wf_packet_def wf_header_def node_tx_ok_def tx_inv_def tx_core_def tx_shape_def)
  moreover have "p = set_node_ackSeqNum ack p0" using p p0(2) w(3) by (simp add: node_memory_def with_node_memory_def split: prod.split_asm)
  ultimately show ?thesis using w(1) by (simp add: ackSeqNum_set rd_eq_Inr)
qed

lemma pre_takes:
  assumes inv: "node_inv False n" and hm: "\<not> crc \<Longrightarrow> from_master (node_input n)"
    and d: "nodeId n \<noteq> UNALLOCATED_NODE_ID" and run: "node_do (Node_Pre crc) (False, n) = Inr (out, b, n')" and id: "nodeId n' = nodeId n"
  shows "node_will_store n' = (if node_takes crc n then [node_input n] else [])"
    and "rxSeqNum (txManager n') ! 0 = (if node_takes crc n then txSeqNum (node_input n) else rxSeqNum (txManager n) ! 0)"
    and "out = Some p \<Longrightarrow> node_ackSeqNum p = rxSeqNum (txManager n') ! 0"
proof -
  obtain ptr mem where pre: "nodeDualChannelPipelinedPreProcess n None None crc = Inr (ptr, mem, n')" "node_on_air ptr n' = Inr out"
    using run by (auto simp: and_then_eq_Inr)
  have init: "initialised n" by (rule node_invD(1) [OF inv])
  obtain n1 where n1: "nodeQuickProcessPrevRx n crc = Inr n1" "node_inv True n1" using quick_inv [OF inv hm] by blast
  let ?n2 = "n1\<lparr>currentTxNodeId := nextTxNodeId n1 ! 0,
    nextTxNodeId := [nextTxNodeId n1 ! 1, nextTxNodeId n1 ! 2, nextTxNodeId n1 ! 3, INVALID_NODE_ID, nextTxNodeId n1 ! 4]\<rparr>"
  have n2: "nodeUpdateSchedule n1 = Inr ?n2" "node_inv True ?n2"
    using updateSchedule_spec [OF node_invD(4) [OF n1(2)]] updateSchedule_inv [OF n1(2)] by auto
  have go: "n' = ?n2 \<and> ptr = None \<or> (\<exists>q. nextTxPacket ?n2 = Some q \<and> nodeGetTxPacket ?n2 = Inr (ptr, n'))"
    using pre(1) init n1(1) n2(1) by (auto simp: nodeDualChannelPipelinedPreProcess_def and_then_eq_Inr split: if_split_asm)
  then have id1: "nodeId n1 = nodeId n" using id all_resD [OF getTx_same [of ?n2]] by (auto simp: same_ids_def)
  have "if node_readable crc (node_input n) \<and> GET_PACKET_TYPE (node_input n) = packet_code MASTER_RESET_PACKET
      then nodeId n1 = UNALLOCATED_NODE_ID else node_rx_effect (node_takes crc n) n n1"
    using quick_inv [OF inv, of crc] hm n1(1) unfolding node_takes_def by (auto split: if_split_asm)
  then have eff: "node_rx_effect (node_takes crc n) n n1" using id1 d by (simp split: if_split_asm)
  have same: "rx_same n1 n'"
    using go rx_same_trans [of n1 ?n2 n'] all_resD [OF getTx_rx [of ?n2]] id1 d by (auto simp: rx_sameI)
  show "node_will_store n' = (if node_takes crc n then [node_input n] else [])"
    "rxSeqNum (txManager n') ! 0 = (if node_takes crc n then txSeqNum (node_input n) else rxSeqNum (txManager n) ! 0)"
    using eff same by (auto simp: node_rx_effect_def rx_same_def)
  assume p: "out = Some p"
  then obtain q where q: "nextTxPacket ?n2 = Some q" "nodeSendTxPacket ?n2 q = Inr (ptr, n')"
    using go id1 d pre(2) by (auto simp: nodeGetTxPacket_def node_on_air_def)
  have "ptr = Some q" using sendTx_inv [OF n2(2) q(1)] q(2) by auto
  then have "tx_deref (node_memory n') q = Inr p" using pre(2) p by (auto simp: node_on_air_def and_then_eq_Inr)
  from sendTx_ack [OF n2(2) q this] show "node_ackSeqNum p = rxSeqNum (txManager n') ! 0" using same by (simp add: rx_same_def)
qed

lemma post_takes:
  assumes inv: "node_inv True n" and d: "nodeId n \<noteq> UNALLOCATED_NODE_ID" and live: "\<not> nodeNwHasNodeTimedOut (timeToLive n)"
    and run: "node_do Node_Post (True, n) = Inr (out, b, n')"
  shows "node_queue n' = node_queue n @ node_will_store n" and "rxSeqNum (txManager n') = rxSeqNum (txManager n)" and "nodeId n' = nodeId n"
proof -
  obtain n1 where n1: "nodeProcessRx n = Inr n1" "nodeProcessTx n1 = Inr n'"
    using run live node_invD(1) [OF inv] by (auto simp: nodeDualChannelPipelinedPostProcess_def nodeCheckIfTimedOut_def and_then_eq_Inr split: if_split_asm)
  from processRx_inv [OF inv] n1(1) have i: "node_inv False n1" "node_queue n1 = node_queue n @ node_will_store n"
    "rxSeqNum (txManager n1) = rxSeqNum (txManager n)" by auto
  have data: "nodeProcessRxData x k = Inr y \<Longrightarrow> nodeId x = nodeId n \<Longrightarrow> nodeId y = nodeId n" for x k y
    using all_resD [OF rxData_kept [of x k]] d by simp
  have id: "nodeId n1 = nodeId n"
    using n1(1) d by (auto simp: nodeProcessRx_def and_then_eq_Inr split: if_split_asm dest: data)
  from processTx_rx [OF i(1) _ n1(2)] show "node_queue n' = node_queue n @ node_will_store n"
    "rxSeqNum (txManager n') = rxSeqNum (txManager n)" "nodeId n' = nodeId n"
    using i id d by (simp_all add: rx_same_def)
qed

end
