(* ===== verification/Feed.thy ===== *)
theory Feed
  imports Stream Inbox
begin

text \<open>
  The stream in the other direction: what the master's application submits to one node, and what
  the node puts into the queue of its own application. The master fetches a packet at the end of
  each slot and sends it at the start of the next, before it hears another acknowledgement, so a
  fetched packet counts as being on its way.
\<close>

section \<open>The window of one node at the master\<close>

definition feed :: "u8 \<Rightarrow> tTxManager \<Rightarrow> u8 \<Rightarrow> tPacket list \<Rightarrow> tPacket list \<Rightarrow> tPacket list \<Rightarrow> u8 list \<Rightarrow> tLink" where
  "feed d m r sub acc wire acks = \<lparr>l_window = window_of True m d, l_rx = r, l_submitted = sub, l_delivered = acc,
     l_wire = wire, l_acks = acks\<rparr>"

lemma feed_window: "window_of True m' d = window_of True m d \<Longrightarrow> feed d m' = feed d m"
  by (simp add: feed_def fun_eq_iff)

lemma feed_drop:
  assumes "link_inv (feed d m r sub acc (us @ ps @ vs) acks)"
  shows "link_inv (feed d m r sub acc (us @ vs) acks)"
  using assms
proof (induction ps)
  case (Cons p ps)
  then show ?case using lose_inv [of "feed d m r sub acc (us @ (p # ps) @ vs) acks" us p "ps @ vs"] by (simp add: feed_def)
qed simp

lemma feed_drop_acks:
  assumes "link_inv (feed d m r sub acc wire (us @ as @ vs))"
  shows "link_inv (feed d m r sub acc wire (us @ vs))"
  using assms
proof (induction as)
  case (Cons a as)
  then show ?case using missed_inv [of "feed d m r sub acc wire (us @ (a # as) @ vs)" us a "as @ vs"] by (simp add: feed_def)
qed simp

lemma feed_take:
  assumes inv: "link_inv (feed d m r sub acc (p # ps) acks)" and p: "txSeqNum p = rx_next r"
  shows "link_inv (feed d m (txSeqNum p) sub (acc @ [p]) ps acks)"
proof -
  have "link_inv (feed d m (txSeqNum p) sub (acc @ [p]) (p # ps) acks)"
    using arrive_inv [OF inv, of p ps] p by (simp add: feed_def l_arrive_def)
  from feed_drop [of _ _ _ _ _ "[]" "[p]" ps] this show ?thesis by simp
qed

lemma feed_report: "link_inv (feed d m r sub acc wire acks) \<Longrightarrow> link_inv (feed d m r sub acc wire (acks @ [r]))"
  using report_inv [of "feed d m r sub acc wire acks"] by (simp add: feed_def)

text \<open>On the wire only the message of a packet counts.\<close>

lemma feed_message:
  assumes inv: "link_inv (feed d m r sub acc wire acks)" and same: "map message wire' = map message wire"
  shows "link_inv (feed d m r sub acc wire' acks)"
proof -
  have eq: "wire_packet (feed d m r sub acc wire' acks) k p' \<longleftrightarrow> wire_packet (feed d m r sub acc wire acks) k p" if "message p' = message p" for k p p'
    using that by (simp add: wire_packet_def feed_def)
  have len: "length wire' = length wire" using same map_eq_imp_length_eq by blast
  have nth: "message (wire' ! i) = message (wire ! i)" if "i < length wire" for i
    using that len arg_cong [OF same, of "\<lambda>xs. xs ! i"] by simp
  have "list_all2 (wire_packet (feed d m r sub acc wire' acks)) ks wire'"
    if "list_all2 (wire_packet (feed d m r sub acc wire acks)) ks wire" for ks
    using that len nth eq by (simp add: list_all2_conv_all_nth)
  then show ?thesis using inv
    by (auto simp: link_inv_def link_parts feed_def released_def wire_ack_def [abs_def])
qed

lemma feed_restamps:
  assumes inv: "link_inv (feed d m r sub acc wire acks)" and r: "restamps True same_message m m'" and d: "dst_ok m d"
  shows "link_inv (feed d m' r sub acc wire acks)"
proof -
  let ?L = "feed d m r sub acc wire acks"
  have "link_inv (?L\<lparr>l_window := window_of True m' d\<rparr>)"
    using r d inv by (intro window_moves_inv)
      (auto simp: restamps_def feed_def window_of_def link_inv_def window_ok_def Let_def same_messages buffered_def dest: map_eq_imp_length_eq)
  then show ?thesis by (simp add: feed_def)
qed

lemma feed_offer:
  assumes inv: "link_inv (feed d m r sub acc wire acks)" and tx: "tx_inv True m" "dst_ok m d"
    and run: "masterGetNextTxDataPacket m burst = Inr (p, m')"
  shows "link_inv (feed d m' r sub acc (wire @ (if found_for True d m' p then [packet (es m' ! the p)] else [])) acks)"
proof -
  let ?L = "feed d m r sub acc wire acks"
  have n: "next_packet True burst m = Inr (p, m')" using run by (simp add: next_packet_def)
  note mv = next_moves [OF tx n]
  show ?thesis
  proof (cases "found_for True d m' p")
    case False
    then consider "window_of True m' d = window_of True m d" | "w_next (window_of True m d) = (None, window_of True m' d)" using mv by auto
    then show ?thesis
    proof cases
      case 1
      then show ?thesis using inv False feed_window [OF 1] by simp
    next
      case 2
      then have "link_step ?L (?L\<lparr>l_window := window_of True m' d\<rparr>)" by (intro link_step.Idle) (simp add: feed_def)
      from link_step_inv [OF this inv] show ?thesis using False by (simp add: feed_def)
    qed
  next
    case True
    then obtain q w where w: "w_next (window_of True m d) = (Some q, w)" "same_message q (packet (es m' ! the p))"
      "list_all2 same_message (w_packets w) (pending True m' d)" "window_of True m' d = w\<lparr>w_packets := pending True m' d\<rparr>" using mv by auto
    let ?L1 = "?L\<lparr>l_window := w, l_wire := wire @ [packet (es m' ! the p)]\<rparr>"
    have "link_inv ?L1" using offer_inv [OF inv _ w(2), of w] w(1) by (simp add: feed_def)
    moreover have "link_step ?L1 (?L1\<lparr>l_window := w\<lparr>w_packets := pending True m' d\<rparr>\<rparr>)"
      using link_step.Header [of ?L1 "pending True m' d"] w(3) by simp
    ultimately have "link_inv (?L1\<lparr>l_window := window_of True m' d\<rparr>)" using link_step_inv w(4) by metis
    then show ?thesis using True by (simp add: feed_def)
  qed
qed

lemma feed_ack:
  assumes inv: "link_inv (feed d m r sub acc wire (a # acks))" and tx: "tx_inv True m" "dst_ok m d"
    and run: "rxAckSeqNum m d a True st = Inr (n, st', m')"
  shows "link_inv (feed d m' r sub acc wire acks)"
proof -
  let ?L = "feed d m r sub acc wire (a # acks)"
  have "link_inv (?L\<lparr>l_window := w_ack a (window_of True m d)\<rparr>)" using link_heard_inv [OF inv, of a acks] by (simp add: feed_def)
  moreover have "window_of True m' d = w_ack a (window_of True m d)" using rxAck_spec [OF tx, of a st] run by auto
  ultimately have "link_inv (feed d m' r sub acc wire (a # acks))" by (simp add: feed_def)
  from feed_drop_acks [of _ _ _ _ _ _ "[]" "[a]" acks] this show ?thesis by simp
qed

section \<open>The master\<close>

text \<open>The packet that is fetched for the node, and what is known of whatever is fetched.\<close>

definition next_for :: "u8 \<Rightarrow> tMasterTx \<Rightarrow> tPacket list" where
  "next_for d t = (case nextTxPacket t of
     Some (Tx_Entry i) \<Rightarrow> (let p = packet (es (txManager t) ! i) in if master_dstNodeId p = d then [p] else [])
   | _ \<Rightarrow> [])"

definition next_ok :: "tMasterTx \<Rightarrow> bool" where
  "next_ok t \<longleftrightarrow> (case nextTxPacket t of
     None \<Rightarrow> True
   | Some (Tx_Entry i) \<Rightarrow> owned (txManager t) i
   | Some q \<Rightarrow> \<forall>p. tx_deref (tx_memory_of t) q = Inr p \<longrightarrow> GET_PACKET_TYPE p \<noteq> packet_code MASTER_DATA_PACKET)"

definition ack_from :: "u8 \<Rightarrow> tPacket \<Rightarrow> u8 list" where
  "ack_from d p = (if GET_PACKET_TYPE p \<in> {packet_code NODE_DATA_PACKET, packet_code NODE_EMPTY_PACKET} \<and> node_srcNodeId p = d
     then [node_ackSeqNum p] else [])"

text \<open>An acknowledgement that waits for the second half of the slot, and one in the receive entry.\<close>

definition waiting_ack :: "u8 \<Rightarrow> tMasterRx \<Rightarrow> u8 list" where
  "waiting_ack d r = (case tMasterRx.prevRxPacketEntry r of None \<Rightarrow> [] | Some i \<Rightarrow>
     if tMasterRx.validRxPacket r then ack_from d (rx_packet (tMasterRx.rxPacketManager r) i) else [])"

definition heard_ack :: "u8 \<Rightarrow> bool \<Rightarrow> tPacket \<Rightarrow> u8 list" where
  "heard_ack d crc q = (if passes crc q then ack_from d q else [])"

lemma fill_deref:
  assumes inv: "master_inv m" and ptr: "nextTxPacket (tx m) = Some q" and run: "quickUpdateTx beyond m = Inr m'"
    and p: "tx_deref (tx_memory_of (tx m')) q = Inr p"
  shows "\<exists>p0. tx_deref (tx_memory_of (tx m)) q = Inr p0 \<and> same_message p0 p \<and> master_dstNodeId p = master_dstNodeId p0"
proof -
  let ?n = "unat (numTxNodesScheduled (scheduler m))" and ?f = "for_each (fillSchedule beyond (rxSeqNum (txManager (tx m))) (master_ids m))"
  note i = master_invD [OF inv]
  note t = mtx_invD [OF i(2)]
  obtain mem where w: "tx_write (tx_memory_of (tx m)) q (?f [0..<?n]) = Inr mem" "tx m' = with_tx_memory (tx m) mem"
    using run ptr by (auto simp: quickUpdateTx_def masterQuickUpdateTxPacket_def and_then_eq_Inr)
  obtain p0 p1 where p0: "tx_deref (tx_memory_of (tx m)) q = Inr p0" "?f [0..<?n] p0 = Inr p1" "tx_deref mem q = Inr p1"
    using write_deref [OF w(1)] by blast
  have "length (uhdr p0) = 10"
    using p0(1) t by (cases q) (auto simp: tx_memory_of_def and_then_eq_Inr rd_eq_Inr wf_packet_def wf_header_def tx_inv_def tx_core_def tx_shape_def)
  moreover have "p = p1" using p p0(3) w(2) by (simp add: tx_memory_of_def with_tx_memory_def split: prod.split_asm)
  ultimately show ?thesis using fill_spec [of ?n "master_ids m" p0 beyond "rxSeqNum (txManager (tx m))"] i(7,8) p0(1,2) by auto
qed

lemma quick_restamps: "quickUpdateTx beyond m = Inr m' \<Longrightarrow> master_inv m \<Longrightarrow> restamps True same_message (txManager (tx m)) (txManager (tx m'))"
proof (cases "nextTxPacket (tx m)")
  case None
  then show "quickUpdateTx beyond m = Inr m' \<Longrightarrow> ?thesis" by (simp add: quickUpdateTx_def masterQuickUpdateTxPacket_def)
next
  case (Some q)
  assume run: "quickUpdateTx beyond m = Inr m'" and inv: "master_inv m"
  note i = master_invD [OF inv]
  have n: "unat (numTxNodesScheduled (scheduler m)) \<le> 4" "unat (numTxNodesScheduled (scheduler m)) \<le> length (master_ids m)" using i(7,8) by simp_all
  from quickUpdate_spec [OF i(2) refl n Some, of beyond "stats m"] run show ?thesis by (auto simp: quickUpdateTx_def)
qed

lemma schedule_store:
  assumes "masterUpdateSchedule m = Inr m'"
  shows "\<exists>q. txManager (tx m') = txManager (tx m) \<or> txManager (tx m') = (txManager (tx m))\<lparr>activeTxNodes := q\<rparr>"
    and "nextTxPacket (tx m') = nextTxPacket (tx m)" and "tx_memory_of (tx m') = (txManager (tx m'), tmpEmptyPacketHeader (tx m), tmpPacket (tx m))"
  using assms by (auto simp: masterUpdateSchedule_def and_then_eq_Inr tx_memory_of_def split: if_split_asm)

lemma queue_views: "window_of M (m\<lparr>activeTxNodes := q\<rparr>) = window_of M m" "dst_ok (m\<lparr>activeTxNodes := q\<rparr>) = dst_ok m"
  by (simp_all add: window_of_def fun_eq_iff pending_def buffered_def start_of_def end_of_def sent_def next_of_def pause_of_def dst_ok_def slot_seq_def split: option.split)

lemma quick_store:
  assumes "quick_effect r m crc r' m'"
  shows "\<exists>v. m' = m\<lparr>rxSeqNum := v\<rparr>"
proof -
  have "\<exists>v. m = m\<lparr>rxSeqNum := v\<rparr>" by (rule exI [of _ "rxSeqNum m"]) simp
  then show ?thesis using assms check_kept unfolding quick_effect_def by metis
qed

lemma quick_ack:
  assumes "quick_effect (rx m) mt crc r' mt'"
  shows "waiting_ack d r' = [] \<or> waiting_ack d r' = heard_ack d crc (master_input m)"
  using assms by (auto simp: quick_effect_def waiting_ack_def heard_ack_def master_input_def split: option.split)

lemma pre_feeds:
  assumes inv: "master_inv m" and idle: "\<not> tMasterRx.validRxPacket (rx m)"
    and ok: "passes crc (master_input m) \<Longrightarrow> from_node (master_input m)" and next': "next_ok (tx m)" and d: "node_id d"
    and run: "master_do beyond (Master_Pre crc) m = Inr (out, m')"
  shows "link_inv (feed d (txManager (tx m)) r sub acc wire acks) \<Longrightarrow> link_inv (feed d (txManager (tx m')) r sub acc wire acks)"
    and "waiting_ack d (rx m') = [] \<or> waiting_ack d (rx m') = heard_ack d crc (master_input m)"
    and "out = Some p \<Longrightarrow> GET_PACKET_TYPE p = packet_code MASTER_DATA_PACKET \<Longrightarrow> master_dstNodeId p = d \<Longrightarrow>
      \<exists>q. next_for d (tx m) = [q] \<and> message q = message p \<and> wf_packet q"
proof -
  from masterSchedule_inv [OF inv] obtain m1 where m1: "masterUpdateSchedule m = Inr m1" "master_inv m1" "rx m1 = rx m" by blast
  have "passes crc (master_input m1) \<Longrightarrow> from_node (master_input m1)" "\<not> tMasterRx.validRxPacket (rx m1)"
    using ok idle m1(3) by (simp_all add: master_input_def)
  from quickRx_inv [OF m1(2) this(2,1)] obtain m2 where m2: "quickProcessPrevRx crc m1 = Inr m2" "master_inv m2"
    "quick_effect (rx m1) (txManager (tx m1)) crc (rx m2) (txManager (tx m2))" "nextTxPacket (tx m2) = nextTxPacket (tx m1)" by blast
  have mem2: "tmpEmptyPacketHeader (tx m2) = tmpEmptyPacketHeader (tx m1)" "tmpPacket (tx m2) = tmpPacket (tx m1)"
    using m2(1) by (auto simp: quickProcessPrevRx_def and_then_eq_Inr)
  obtain m3 where m3: "quickUpdateTx beyond m2 = Inr m3" and out: "master_on_air (nextTxPacket (tx m3)) m3 = Inr out" and m': "m' = m3"
    using run m1(1) m2(1) by (auto simp: masterDualChannelPipelinedPreProcess_def masterTxGetNextTxPacket_def and_then_eq_Inr)
  from quickTx_inv [OF m2(2), of beyond] m3 have i: "rx m3 = rx m2" "nextTxPacket (tx m3) = nextTxPacket (tx m2)" by auto
  note st = schedule_store [OF m1(1)]
  have w: "window_of True (txManager (tx m2)) d = window_of True (txManager (tx m)) d" "es (txManager (tx m2)) = es (txManager (tx m))"
    using st(1) quick_store [OF m2(3)] by (auto simp: queue_views rxSeqNum_views)
  have "dst_ok (txManager (tx m2)) d" using master_invD(2) [OF m2(2)] d by (auto simp: mtx_inv_def dst_ok_def node_id_def)
  then show "link_inv (feed d (txManager (tx m)) r sub acc wire acks) \<Longrightarrow> link_inv (feed d (txManager (tx m')) r sub acc wire acks)"
    using feed_restamps [OF _ quick_restamps [OF m3 m2(2)]] feed_window [OF w(1)] m' by simp
  show "waiting_ack d (rx m') = [] \<or> waiting_ack d (rx m') = heard_ack d crc (master_input m)"
    using quick_ack [OF m2(3)] m1(3) i(1) m' by (simp add: master_input_def)
  assume p: "out = Some p" "GET_PACKET_TYPE p = packet_code MASTER_DATA_PACKET" "master_dstNodeId p = d"
  then obtain q where q: "nextTxPacket (tx m2) = Some q" "tx_deref (tx_memory_of (tx m3)) q = Inr p"
    using out i(2) by (auto simp: master_on_air_def and_then_eq_Inr split: option.split_asm)
  from fill_deref [OF m2(2) q(1) m3 q(2)] obtain p0 where p0: "tx_deref (tx_memory_of (tx m2)) q = Inr p0" "same_message p0 p"
    "master_dstNodeId p = master_dstNodeId p0" by blast
  have deref: "tx_deref (tx_memory_of (tx m)) q = Inr p0" using p0(1) mem2 st(3) w(2) by (cases q) (auto simp: tx_memory_of_def)
  have type: "GET_PACKET_TYPE p0 = packet_code MASTER_DATA_PACKET" using same_message_fields(6) [OF p0(2)] p(2) by simp
  have ptr: "nextTxPacket (tx m) = Some q" using q(1) m2(4) st(2) by simp
  then obtain k where k: "q = Tx_Entry k" using next' deref type by (cases q) (auto simp: next_ok_def)
  then have "k < length (es (txManager (tx m)))" "p0 = packet (es (txManager (tx m)) ! k)"
    using deref by (auto simp: tx_memory_of_def and_then_eq_Inr rd_eq_Inr)
  moreover from this have "wf_packet p0" using mtx_invD(1) [OF master_invD(2) [OF inv]] by (simp add: tx_inv_def tx_core_def tx_shape_def)
  ultimately show "\<exists>q. next_for d (tx m) = [q] \<and> message q = message p \<and> wf_packet q"
    using ptr k p0(2,3) p(3) by (simp add: next_for_def same_message_iff)
qed

text \<open>The second half of a slot: the acknowledgement is processed, then the next packet is fetched.\<close>

lemma process_acks:
  assumes "masterProcessRx r nw s m ttl st = Inr (k, r', nw', s', m', ttl', st')" and "tMasterRx.validRxPacket r"
    and "tMasterRx.prevRxPacketEntry r = Some i" and "p = rx_packet (tMasterRx.rxPacketManager r) i"
  shows "if GET_PACKET_TYPE p \<in> {packet_code NODE_DATA_PACKET, packet_code NODE_EMPTY_PACKET}
    then \<exists>n w w'. rxAckSeqNum m (node_srcNodeId p) (node_ackSeqNum p) True w = Inr (n, w', m') else m' = m"
  using assms
  by (auto simp: masterProcessRx_def Let_def and_then_eq_Inr rx_packet_def rd_eq_Inr split: if_split_asm prod.split_asm)

lemma process_idle: "masterProcessRx r nw s m ttl st = Inr (k, r', nw', s', m', ttl', st') \<Longrightarrow> \<not> tMasterRx.validRxPacket r \<Longrightarrow> m' = m"
  by (simp add: masterProcessRx_def)

lemma process_feeds:
  assumes inv: "master_inv m" and d: "node_id d" and run: "processRx m = Inr (k, m')"
    and link: "link_inv (feed d (txManager (tx m)) r sub acc wire (waiting_ack d (rx m) @ acks))"
  shows "link_inv (feed d (txManager (tx m')) r sub acc wire acks)"
proof -
  let ?m = "txManager (tx m)"
  have tx: "tx_inv True ?m" "dst_ok ?m d" "\<And>x. node_id x \<Longrightarrow> dst_ok ?m x"
    using master_invD(2) [OF inv] d by (auto simp: mtx_inv_def dst_ok_def node_id_def)
  obtain r' nw' s' m1 ttl' st' where p: "masterProcessRx (rx m) (nwManager m) (scheduler m) ?m (masterNodeTimeToLive m) (stats m)
      = Inr (k, r', nw', s', m1, ttl', st')" "txManager (tx m') = m1"
    using run by (auto simp: processRx_def and_then_eq_Inr)
  show ?thesis
  proof (cases "tMasterRx.validRxPacket (rx m)")
    case False
    then have "waiting_ack d (rx m) = []" by (simp add: waiting_ack_def split: option.split)
    then show ?thesis using link process_idle [OF p(1) False] p(2) by simp
  next
    case True
    then obtain i where i: "tMasterRx.prevRxPacketEntry (rx m) = Some i" "from_node (rx_packet (tMasterRx.rxPacketManager (rx m)) i)"
      using master_invD(1) [OF inv] by (auto simp: rx_inv_def rx_prev_def split: if_split_asm)
    let ?p = "rx_packet (tMasterRx.rxPacketManager (rx m)) i"
    have w: "waiting_ack d (rx m) = ack_from d ?p" using True i(1) by (simp add: waiting_ack_def)
    note pr = process_acks [OF p(1) True i(1) refl]
    show ?thesis
    proof (cases "GET_PACKET_TYPE ?p \<in> {packet_code NODE_DATA_PACKET, packet_code NODE_EMPTY_PACKET}")
      case False
      then show ?thesis using link pr p(2) w by (simp add: ack_from_def)
    next
      case type: True
      then obtain n v v' where ack: "rxAckSeqNum ?m (node_srcNodeId ?p) (node_ackSeqNum ?p) True v = Inr (n, v', m1)" using pr by auto
      have src: "node_id (node_srcNodeId ?p)" using i(2) type by (auto simp: from_node_def)
      show ?thesis
      proof (cases "node_srcNodeId ?p = d")
        case True
        then show ?thesis using feed_ack [OF _ tx(1,2)] ack link w type p(2) by (simp add: ack_from_def)
      next
        case False
        have "window_of True m1 d = window_of True ?m d"
          using rxAck_spec [OF tx(1) tx(3) [OF src], of "node_ackSeqNum ?p" v] ack False tx(2) by (auto simp: only_at_def)
        from feed_window [OF this] show ?thesis using link w False p(2) by (simp add: ack_from_def)
      qed
    qed
  qed
qed

lemma response_type: "txNewNodeResponse nw p = Inr p' \<Longrightarrow> GET_PACKET_TYPE p' = packet_code NEW_NODE_RESPONSE_PACKET"
  by (auto simp: txNewNodeResponse_def Let_def and_then_eq_Inr SET_PACKET_DATA_SIZE_def set_master_dstNodeId_def
      GET_PACKET_TYPE_def SET_PROTOCOL_VERSION_AND_PACKET_TYPE_def)

lemma fetch_cases:
  assumes inv: "mtx_inv t" and run: "masterProcessTx t nw st = Inr (t', st')"
  shows "nextTxPacket t' = Some Tmp_Packet \<and> txManager t' = txManager t \<and> GET_PACKET_TYPE (tmpPacket t') \<noteq> packet_code MASTER_DATA_PACKET \<or>
    (\<exists>k. masterGetNextTxDataPacket (txManager t) 1 = Inr (None, txManager t') \<and> nextTxPacket t' = Some (Tmp_Empty k) \<and>
      k < length (tmpEmptyPacketHeader t') \<and> GET_PACKET_TYPE (tmpEmptyPacketHeader t' ! k) \<noteq> packet_code MASTER_DATA_PACKET) \<or>
    (\<exists>i. masterGetNextTxDataPacket (txManager t) 1 = Inr (Some i, txManager t') \<and> nextTxPacket t' = Some (Tx_Entry i))"
proof (cases "masterResetCycles t > 0")
  case True
  then show ?thesis using run
    by (auto simp: masterProcessTx_def GET_PACKET_TYPE_def SET_PROTOCOL_VERSION_AND_PACKET_TYPE_def)
next
  case False
  define cycle where "cycle = (if tmpPacketCycle t + 1 \<ge> 4 then 0 else tmpPacketCycle t + 1)"
  show ?thesis
  proof (cases "numNewNodes nw > 0 \<and> cycle = 1")
    case new: True
    then show ?thesis using run False response_type
      by (auto simp: masterProcessTx_def Let_def cycle_def [symmetric] and_then_eq_Inr)
  next
    case old: False
    obtain r m where g: "masterGetNextTxDataPacket (txManager t) 1 = Inr (r, m)"
      using run False old by (auto simp: masterProcessTx_def Let_def cycle_def [symmetric] and_then_eq_Inr)
    show ?thesis
    proof (cases r)
      case None
      then show ?thesis using run False old g
        by (auto simp: masterProcessTx_def Let_def cycle_def [symmetric] and_then_eq_Inr rd_eq_Inr set_master_dstNodeId_def
            GET_PACKET_TYPE_def SET_PROTOCOL_VERSION_AND_PACKET_TYPE_def)
    next
      case (Some i)
      then show ?thesis using run False old g
        by (auto simp: masterProcessTx_def Let_def cycle_def [symmetric] and_then_eq_Inr)
    qed
  qed
qed

lemma fetch_feeds:
  assumes inv: "mtx_inv t" and d: "node_id d" and run: "masterProcessTx t nw st = Inr (t', st')"
  shows "link_inv (feed d (txManager t) r sub acc wire acks) \<Longrightarrow> link_inv (feed d (txManager t') r sub acc (wire @ next_for d t') acks)"
    and "next_ok t'"
proof -
  have tx: "tx_inv True (txManager t)" "dst_ok (txManager t) d" using inv d by (auto simp: mtx_inv_def dst_ok_def node_id_def)
  from fetch_cases [OF inv run] consider
      (tmp) "nextTxPacket t' = Some Tmp_Packet" "txManager t' = txManager t" "GET_PACKET_TYPE (tmpPacket t') \<noteq> packet_code MASTER_DATA_PACKET"
    | (empty) k where "masterGetNextTxDataPacket (txManager t) 1 = Inr (None, txManager t')" "nextTxPacket t' = Some (Tmp_Empty k)"
      "k < length (tmpEmptyPacketHeader t')" "GET_PACKET_TYPE (tmpEmptyPacketHeader t' ! k) \<noteq> packet_code MASTER_DATA_PACKET"
    | (entry) i where "masterGetNextTxDataPacket (txManager t) 1 = Inr (Some i, txManager t')" "nextTxPacket t' = Some (Tx_Entry i)"
    by blast
  then have "(link_inv (feed d (txManager t) r sub acc wire acks) \<longrightarrow> link_inv (feed d (txManager t') r sub acc (wire @ next_for d t') acks)) \<and> next_ok t'"
  proof cases
    case tmp
    then show ?thesis by (simp add: next_for_def next_ok_def tx_memory_of_def)
  next
    case empty
    then show ?thesis using feed_offer [OF _ tx empty(1)]
      by (auto simp: next_for_def next_ok_def tx_memory_of_def found_for_def rd_eq_Inr)
  next
    case entry
    obtain q where q: "activeTxNodes (txManager t) = Some q" using tx(1) by (auto simp: tx_inv_def tx_queued_def split: option.splits)
    have "owned (txManager t') i" using masterGetNext_spec [OF tx(1) q, of 1] entry(1) by (auto simp: scan_ok_def)
    then show ?thesis using feed_offer [OF _ tx entry(1)] entry(2)
      by (auto simp: next_for_def next_ok_def found_for_def Let_def)
  qed
  then show "link_inv (feed d (txManager t) r sub acc wire acks) \<Longrightarrow> link_inv (feed d (txManager t') r sub acc (wire @ next_for d t') acks)"
    "next_ok t'" by simp_all
qed

lemma post_feeds:
  assumes inv: "master_inv m" and live: "no_node_gone m" and d: "node_id d" and run: "master_do beyond Master_Post m = Inr (out, m')"
    and link: "link_inv (feed d (txManager (tx m)) r sub acc wire (waiting_ack d (rx m) @ acks))"
  shows "link_inv (feed d (txManager (tx m')) r sub acc (wire @ next_for d (tx m')) acks)" and "next_ok (tx m')"
proof -
  obtain k m1 where m1: "processRx m = Inr (k, m1)" "master_inv m1" "processTx m1 = Inr m'" by (rule post_runs [OF inv live run])
  obtain t st where t: "masterProcessTx (tx m1) (nwManager m1) (stats m1) = Inr (t, st)" "tx m' = t"
    using m1(3) by (auto simp: processTx_def and_then_eq_Inr)
  note F = fetch_feeds [OF master_invD(2) [OF m1(2)] d t(1)]
  show "link_inv (feed d (txManager (tx m')) r sub acc (wire @ next_for d (tx m')) acks)"
    using F(1) [OF process_feeds [OF inv d m1(1) link]] t(2) by simp
  show "next_ok (tx m')" using F(2) t(2) by simp
qed

text \<open>The calls of the application do not touch a packet that has been submitted.\<close>

definition owned_kept :: "tTxManager \<Rightarrow> tTxManager \<Rightarrow> bool" where
  "owned_kept m m' \<longleftrightarrow> (\<forall>i. owned m i \<longrightarrow> owned m' i \<and> packet (es m' ! i) = packet (es m ! i))"

lemma alloc_owned:
  assumes inv: "tx_inv M m" and none: "allocatedPacket m = None" and run: "allocateTxPacket m = Inr (r, m')"
  shows "owned_kept m m'"
proof (cases "\<exists>e\<in>set (es m). \<not> inUse e")
  case False
  then have "m' = m" using allocate_full [OF inv] run by auto
  then show ?thesis by (simp add: owned_kept_def)
next
  case True
  from allocate_free [OF inv none True] run obtain a where a: "allocatedPacket m' = Some a" "\<not> inUse (es m ! a)" by auto
  have flag: "packet (xs[k := (xs ! k)\<lparr>inUse := True\<rparr>] ! i) = packet (xs ! i)" for xs :: "tPacketEntry list" and k i
    by (cases "k = i"; cases "k < length xs") (simp_all add: list_update_beyond)
  have "packet (es m' ! i) = packet (es m ! i) \<and> length (es m') = length (es m)" for i
    using run by (auto simp: allocateTxPacket_def allocatePacketEntry_def and_then_eq_Inr flag split: option.split_asm if_split_asm)
  then show ?thesis using a allocate_entries [OF run] by (auto simp: owned_kept_def owned_def)
qed

lemma fill_owned: "owned_kept m (tx_fill bytes m)"
  by (auto simp: tx_fill_def upd_packet_def owned_kept_def owned_def split: option.split)

lemma submit_owned:
  assumes "submitAllocatedTxPacket m M t t src d ty n = Inr m'" and "0 < t"
  shows "owned_kept m m'"
  using assms
  by (auto simp: submitAllocatedTxPacket_def Let_def and_then_eq_Inr upd_packet_def owned_kept_def owned_def
      split: if_split_asm option.split_asm)

lemma next_kept:
  assumes keep: "owned_kept (txManager t) m'" and ok: "next_ok t"
  shows "next_ok (t\<lparr>txManager := m'\<rparr>)" and "next_for d (t\<lparr>txManager := m'\<rparr>) = next_for d t"
  using assms by (auto simp: next_ok_def next_for_def owned_kept_def tx_memory_of_def split: option.splits tTxPtr.splits)

definition sends_to :: "u8 \<Rightarrow> master_call \<Rightarrow> bool" where
  "sends_to d c \<longleftrightarrow> (\<exists>k. c = Master_Submit d k)"

lemma submit_live: "0 < t \<Longrightarrow> submitAllocatedTxPacket m M t t src d ty n = submitAllocatedTxPacket m M 1 1 src d ty n"
  by (simp add: submitAllocatedTxPacket_def Let_def word_gt_0)

lemma app_feeds:
  assumes inv: "master_inv m" and ok: "master_allowed c m" and c: "\<not> slot_call c" "c \<noteq> Master_Post" and d: "node_id d"
    and run: "master_do beyond c m = Inr (out, m')"
  shows "\<not> sends_to d c \<Longrightarrow> window_of True (txManager (tx m')) d = window_of True (txManager (tx m)) d"
    and "next_ok (tx m) \<Longrightarrow> next_ok (tx m') \<and> next_for d (tx m') = next_for d (tx m)"
    and "waiting_ack d (rx m') = waiting_ack d (rx m)"
    and "sends_to d c \<Longrightarrow> link_inv (feed d (txManager (tx m)) r sub acc wire acks) \<Longrightarrow>
      link_inv (feed d (txManager (tx m')) r (sub @ [last (pending True (txManager (tx m')) d)]) acc wire acks)"
proof -
  let ?m = "txManager (tx m)"
  have tx: "tx_inv True ?m" "dst_ok ?m d" using master_invD(2) [OF inv] d by (auto simp: mtx_inv_def dst_ok_def node_id_def)
  have "(\<not> sends_to d c \<longrightarrow> window_of True (txManager (tx m')) d = window_of True ?m d) \<and>
    (next_ok (tx m) \<longrightarrow> next_ok (tx m') \<and> next_for d (tx m') = next_for d (tx m)) \<and> waiting_ack d (rx m') = waiting_ack d (rx m) \<and>
    (sends_to d c \<longrightarrow> link_inv (feed d ?m r sub acc wire acks) \<longrightarrow>
      link_inv (feed d (txManager (tx m')) r (sub @ [last (pending True (txManager (tx m')) d)]) acc wire acks))"
  proof (cases c)
    case Master_Read
    from run obtain r rpm where p: "peekNextRxDataPacket (rxPacketManager (rx m)) = Inr (r, rpm)"
      by (auto simp: Master_Read masterPeekNextRxDataPacket_def and_then_eq_Inr)
    have "rx_packet rpm = rx_packet (rxPacketManager (rx m))" using peek_packets p by (simp add: peekNextRxDataPacket_def)
    then show ?thesis using run p
      by (auto simp: Master_Read sends_to_def masterPeekNextRxDataPacket_def masterPopNextDataPacket_def and_then_eq_Inr Let_def waiting_ack_def
          pop_packets split: option.split_asm option.split if_split_asm)
  next
    case (Master_Submit x k)
    obtain t txm where s: "submitAllocatedTxPacket ?m True t t MASTER_NODE_ID x MASTER_DATA_PACKET k = Inr txm"
      "m' = m\<lparr>tx := (tx m)\<lparr>txManager := txm\<rparr>\<rparr>" "0 < t"
      using run ok Master_Submit by (auto simp: masterSubmitAllocatedTxPacket_def and_then_eq_Inr rd_eq_Inr word_gt_0)
    have s1: "submitAllocatedTxPacket ?m True 1 1 MASTER_NODE_ID x MASTER_DATA_PACKET k = Inr txm" using s(1) submit_live [OF s(3)] by simp
    have x: "node_id x" "dst_ok ?m x" using ok Master_Submit master_invD(2) [OF inv] by (auto simp: mtx_inv_def dst_ok_def node_id_def)
    have tok: "tx_ok True ?m (Tx_Submit MASTER_NODE_ID x MASTER_DATA_PACKET k)" using ok Master_Submit x by simp
    have "window_of True txm d = window_of True ?m d" if "x \<noteq> d"
      using other_call_keeps [where m' = txm, OF tx _ tok] s1 that by (simp add: tx_do_def)
    moreover have "link_inv (feed d txm r (sub @ [last (pending True txm d)]) acc wire acks)"
      if xd: "x = d" and l: "link_inv (feed d ?m r sub acc wire acks)"
    proof -
      obtain p where p: "window_of True txm d = w_push p (window_of True ?m d)" "txSeqNum p = seq_of (unat (start_of ?m d) + buffered ?m d)"
        "last (pending True txm d) = p" "buffered ?m d < 254" using submit_pushes(4) [OF tx, of MASTER_NODE_ID MASTER_DATA_PACKET k txm] tok s1 xd by blast
      let ?L = "feed d ?m r sub acc wire acks"
      have "link_inv (?L\<lparr>l_window := w_push p (l_window ?L), l_submitted := l_submitted ?L @ [p]\<rparr>)"
        by (rule push_inv [OF l]) (use p(2,4) in \<open>simp_all add: feed_def window_of_def\<close>)
      then show ?thesis using p(1,3) by (simp add: feed_def)
    qed
    ultimately show ?thesis using s(2) next_kept [OF submit_owned [OF s(1,3)]] Master_Submit by (auto simp: sends_to_def)
  next
    case Master_Alloc
    then obtain a txm where a: "allocateTxPacket ?m = Inr (a, txm)" "tx m' = (tx m)\<lparr>txManager := txm\<rparr>" "rx m' = rx m"
      using run by (auto simp: masterAllocateTxPacket_def and_then_eq_Inr Let_def split: option.split_asm)
    have "window_of True txm d = window_of True ?m d"
      using other_call_keeps [where c = Tx_Alloc and m' = txm, OF tx] a(1) ok Master_Alloc by (simp add: tx_do_def)
    then show ?thesis using a(2,3) next_kept [OF alloc_owned [OF tx(1) _ a(1)]] ok Master_Alloc by (auto simp: sends_to_def)
  next
    case (Master_Fill bytes)
    then have f: "restamps True (=) ?m (tx_fill bytes ?m)" using tx_fill_spec(2) [OF tx(1)] ok by simp
    have "window_of True (tx_fill bytes ?m) d = window_of True ?m d"
      using f tx(2) by (simp add: restamps_def window_of_def list.rel_eq)
    then show ?thesis using run Master_Fill next_kept [OF fill_owned] by (auto simp: sends_to_def)
  qed (use c run in \<open>auto simp: sends_to_def masterUpdateTimeUs_def getConnectedNodesBitField_def and_then_eq_Inr\<close>)
  then show "\<not> sends_to d c \<Longrightarrow> window_of True (txManager (tx m')) d = window_of True ?m d"
    "next_ok (tx m) \<Longrightarrow> next_ok (tx m') \<and> next_for d (tx m') = next_for d (tx m)" "waiting_ack d (rx m') = waiting_ack d (rx m)"
    "sends_to d c \<Longrightarrow> link_inv (feed d ?m r sub acc wire acks) \<Longrightarrow>
      link_inv (feed d (txManager (tx m')) r (sub @ [last (pending True (txManager (tx m')) d)]) acc wire acks)" by blast+
qed

section \<open>The stream to one node\<close>

record tFeed =
  f_net :: tNet
  f_submitted :: "tPacket list"
  f_stored :: "tPacket list"

definition feed_start :: "u8 \<Rightarrow> nat \<Rightarrow> tNet \<Rightarrow> bool" where
  "feed_start d i S \<longleftrightarrow> (let n = net_nodes S ! i; m = net_master S in
     net_inv S \<and> \<not> in_slot S \<and> i < length (net_nodes S) \<and> nodeId n = d \<and> node_id d \<and>
     window_of True (txManager (tx m)) d = no_window \<and> next_ok (tx m) \<and> next_for d (tx m) = [] \<and>
     rxSeqNum (tNode.txManager n) ! 0 = NULL_SEQUENCE_NUM \<and>
     \<not> node_readable (net_crcs S ! i) (node_input n) \<and> \<not> passes (net_crc S) (master_input m))"

text \<open>
  The node keeps its id, no other node sends data or empty packets under it, and the master gives
  up no node.
\<close>

inductive feed_reach :: "(nat \<Rightarrow> u8) \<Rightarrow> u8 \<Rightarrow> nat \<Rightarrow> tFeed \<Rightarrow> bool" for beyond d i where
  Start: "feed_start d i S \<Longrightarrow> feed_reach beyond d i \<lparr>f_net = S, f_submitted = [], f_stored = []\<rparr>"
| Master: "feed_reach beyond d i T \<Longrightarrow> \<not> slot_call c \<Longrightarrow> c \<noteq> Master_Post \<Longrightarrow> \<not> sends_to d c \<Longrightarrow>
    master_allowed c (net_master (f_net T)) \<Longrightarrow> master_do beyond c (net_master (f_net T)) = Inr (out, m') \<Longrightarrow>
    feed_reach beyond d i (T\<lparr>f_net := (f_net T)\<lparr>net_master := m'\<rparr>\<rparr>)"
| Submit: "feed_reach beyond d i T \<Longrightarrow> master_allowed (Master_Submit d k) (net_master (f_net T)) \<Longrightarrow>
    master_do beyond (Master_Submit d k) (net_master (f_net T)) = Inr (out, m') \<Longrightarrow>
    feed_reach beyond d i (T\<lparr>f_net := (f_net T)\<lparr>net_master := m'\<rparr>,
      f_submitted := f_submitted T @ [last (pending True (txManager (tx m')) d)]\<rparr>)"
| Node: "feed_reach beyond d i T \<Longrightarrow> j < length (net_nodes (f_net T)) \<Longrightarrow> \<not> schedule_call c \<Longrightarrow> \<not> receives c \<Longrightarrow>
    c \<notin> {Node_Post, Node_Single_Tx} \<Longrightarrow> node_allowed c (in_slot (f_net T), net_nodes (f_net T) ! j) \<Longrightarrow>
    node_do c (in_slot (f_net T), net_nodes (f_net T) ! j) = Inr (out, b, n') \<Longrightarrow>
    feed_reach beyond d i (T\<lparr>f_net := (f_net T)\<lparr>net_nodes := (net_nodes (f_net T))[j := n']\<rparr>\<rparr>)"
| Begin: "feed_reach beyond d i T \<Longrightarrow> net_begin beyond (f_net T) outm outs S' \<Longrightarrow> nodeId (net_nodes S' ! i) = d \<Longrightarrow>
    (\<And>j p. j < length outs \<Longrightarrow> j \<noteq> i \<Longrightarrow> outs ! j = Some p \<Longrightarrow> ack_from d p = []) \<Longrightarrow> feed_reach beyond d i (T\<lparr>f_net := S'\<rparr>)"
| End: "feed_reach beyond d i T \<Longrightarrow> net_end beyond (f_net T) S' \<Longrightarrow> no_node_gone (net_master (f_net T)) \<Longrightarrow>
    \<not> nodeNwHasNodeTimedOut (timeToLive (net_nodes (f_net T) ! i)) \<Longrightarrow>
    feed_reach beyond d i (T\<lparr>f_net := S', f_stored := f_stored T @
      drop (length (node_queue (net_nodes (f_net T) ! i))) (node_queue (net_nodes S' ! i))\<rparr>)"

section \<open>Invariant\<close>

definition heard_data :: "u8 \<Rightarrow> bool \<Rightarrow> tPacket \<Rightarrow> tPacket list" where
  "heard_data d crc x = (if node_readable crc x \<and> GET_PACKET_TYPE x = packet_code MASTER_DATA_PACKET \<and> master_dstNodeId x = d
     then [x] else [])"

text \<open>What the node has taken and not yet stored, and what the master has fetched and not yet sent.\<close>

definition node_waiting :: "bool \<Rightarrow> tNode \<Rightarrow> tPacket list" where
  "node_waiting b n = (if b then node_will_store n else [])"

definition fetched_for :: "bool \<Rightarrow> u8 \<Rightarrow> tMaster \<Rightarrow> tPacket list" where
  "fetched_for b d m = (if b then [] else next_for d (tx m))"

definition feed_ends :: "u8 \<Rightarrow> bool \<Rightarrow> tMaster \<Rightarrow> bool \<Rightarrow> tNode \<Rightarrow> bool \<Rightarrow> tPacket list \<Rightarrow> tPacket list \<Rightarrow> bool" where
  "feed_ends d b m crc n crcn sub stored \<longleftrightarrow> nodeId n = d \<and> node_id d \<and> (\<not> b \<longrightarrow> next_ok (tx m)) \<and>
     link_inv (feed d (txManager (tx m)) (rxSeqNum (tNode.txManager n) ! 0) sub (stored @ node_waiting b n)
       (heard_data d crcn (node_input n) @ fetched_for b d m) (waiting_ack d (rx m) @ heard_ack d crc (master_input m)))"

definition feed_ok :: "u8 \<Rightarrow> nat \<Rightarrow> tFeed \<Rightarrow> bool" where
  "feed_ok d i T \<longleftrightarrow> (let S = f_net T in net_inv S \<and> i < length (net_nodes S) \<and>
     feed_ends d (in_slot S) (net_master S) (net_crc S) (net_nodes S ! i) (net_crcs S ! i) (f_submitted T) (f_stored T))"

lemma feed_okD:
  assumes "feed_ok d i T"
  shows "net_inv (f_net T)" "i < length (net_nodes (f_net T))"
    "feed_ends d (in_slot (f_net T)) (net_master (f_net T)) (net_crc (f_net T)) (net_nodes (f_net T) ! i) (net_crcs (f_net T) ! i)
      (f_submitted T) (f_stored T)"
    "node_inv (in_slot (f_net T)) (net_nodes (f_net T) ! i)"
    "\<not> net_crcs (f_net T) ! i \<Longrightarrow> from_master (node_input (net_nodes (f_net T) ! i))"
  using assms net_invD(4) [of "f_net T" i] by (simp_all add: feed_ok_def net_node_ok_def Let_def)

lemma waiting_ack_idle: "\<not> tMasterRx.validRxPacket r \<Longrightarrow> waiting_ack d r = []"
  by (simp add: waiting_ack_def split: option.split)

lemma feed_start_ok:
  assumes "feed_start d i S"
  shows "feed_ok d i \<lparr>f_net = S, f_submitted = [], f_stored = []\<rparr>"
proof -
  have s: "net_inv S" "\<not> in_slot S" "window_of True (txManager (tx (net_master S))) d = no_window" using assms by (simp_all add: feed_start_def Let_def)
  have "link_inv (feed d (txManager (tx (net_master S))) NULL_SEQUENCE_NUM [] [] [] [])"
    using s(3) by (simp add: feed_def link_inv_def link_parts no_window_def released_def ack_of_def)
  moreover have "waiting_ack d (rx (net_master S)) = []" by (rule waiting_ack_idle [OF net_invD(2) [OF s(1,2)]])
  ultimately show ?thesis using assms
    by (simp add: feed_ok_def feed_ends_def feed_start_def Let_def heard_data_def heard_ack_def node_waiting_def fetched_for_def)
qed

lemma node_app_ends:
  assumes ok: "feed_ends d b m crc n crcn sub stored" and inv: "node_inv b n" and c: "\<not> schedule_call c" "\<not> receives c"
      "c \<notin> {Node_Post, Node_Single_Tx}"
    and allowed: "node_allowed c (b, n)" and run: "node_do c (b, n) = Inr (out, b', n')"
  shows "feed_ends d b m crc n' crcn sub stored"
proof -
  have same: "rx_same n n'" by (rule app_rx [OF inv c allowed run])
  have "calm n n'" using all_resD [OF other_calm [OF c(1,2), where b = b and n = n] run] by simp
  then have "node_input n' = node_input n \<or> node_input n' = zero_packet" by (auto simp: calm_def heard_so_far_def)
  then have h: "heard_data d crcn (node_input n') = heard_data d crcn (node_input n) \<or> heard_data d crcn (node_input n') = []"
    using silent_type(3) [of zero_packet crcn] by (auto simp: heard_data_def zero_packet_def)
  have "link_inv (feed d (txManager (tx m)) (rxSeqNum (tNode.txManager n) ! 0) sub (stored @ node_waiting b n)
      (heard_data d crcn (node_input n') @ fetched_for b d m) (waiting_ack d (rx m) @ heard_ack d crc (master_input m)))"
    using h ok feed_drop [of _ _ _ _ _ "[]" "heard_data d crcn (node_input n)" "fetched_for b d m"] by (auto simp: feed_ends_def)
  moreover have "node_waiting b n' = node_waiting b n" using same by (simp add: rx_same_def node_waiting_def)
  ultimately show ?thesis using ok same by (simp add: feed_ends_def rx_same_def)
qed

lemma master_app_ends:
  assumes ok: "feed_ends d b m crc n crcn sub stored" and inv: "master_inv m" and allowed: "master_allowed c m"
    and c: "\<not> slot_call c" "c \<noteq> Master_Post" and run: "master_do beyond c m = Inr (out, m')"
  shows "feed_ends d b m' crc n crcn (sub @ (if sends_to d c then [last (pending True (txManager (tx m')) d)] else [])) stored"
proof -
  have d: "node_id d" using ok by (simp add: feed_ends_def)
  note A = app_feeds [OF inv allowed c d run]
  have "master_input m' = master_input m" using other_master_calm [OF inv allowed c(1) run] by (simp add: master_calm_def)
  moreover have "fetched_for b d m' = fetched_for b d m" "\<not> b \<longrightarrow> next_ok (tx m')"
    using A(2) ok by (auto simp: fetched_for_def feed_ends_def)
  ultimately show ?thesis using ok A(3,4) feed_window [OF A(1)] by (simp add: feed_ends_def)
qed

section \<open>Slots\<close>

lemma store_after_receive:
  assumes inv: "node_inv True n" and x: "wf_packet x"
  shows "node_will_store (node_receive x n) = node_will_store n" and "rxSeqNum (tNode.txManager (node_receive x n)) = rxSeqNum (tNode.txManager n)"
proof -
  let ?rpm = "tNode.rxPacketManager n" and ?i = "tNode.nextRxPacketEntry n"
  have h: "rx_hold ?rpm ?i (node_prev True (tNode.validRxPacket n) (tNode.prevRxPacketEntry n))"
    using node_invD(6) [OF inv] by (simp add: node_rx_ok_def)
  note del = hold_deliver(3) [OF h x]
  show "node_will_store (node_receive x n) = node_will_store n"
  proof (cases "tNode.validRxPacket n")
    case False
    then show ?thesis by (simp add: node_will_store_def node_receive_def split: option.split)
  next
    case True
    have "k \<noteq> ?i" if "tNode.prevRxPacketEntry n = Some k" for k
      using h True that by (simp add: rx_hold_def node_prev_def)
    then show ?thesis using del by (simp add: node_will_store_def node_receive_def split: option.split)
  qed
qed (simp add: node_receive_def)

lemma ack_after_receive:
  assumes inv: "master_inv m" and q: "wf_packet q"
  shows "waiting_ack d (rx (master_receive q m)) = waiting_ack d (rx m)"
proof -
  let ?r = "rx m"
  have h: "rx_hold (tMasterRx.rxPacketManager ?r) (tMasterRx.nextRxPacketEntry ?r) (rx_prev ?r)"
    using master_invD(1) [OF inv] by (simp add: rx_inv_def)
  note del = hold_deliver(3) [OF h q]
  show ?thesis
  proof (cases "tMasterRx.validRxPacket ?r")
    case False
    then show ?thesis by (simp add: waiting_ack_idle)
  next
    case True
    have "k \<noteq> tMasterRx.nextRxPacketEntry ?r" if "tMasterRx.prevRxPacketEntry ?r = Some k" for k
      using h True that by (simp add: rx_hold_def rx_prev_def)
    then show ?thesis using del by (simp add: waiting_ack_def master_receive_def split: option.split)
  qed
qed

lemma begin_feed:
  assumes ok: "feed_ends d False m crc n crcn sub stored" and inv: "net_inv S" "\<not> in_slot S" "m = net_master S" "crc = net_crc S"
    and n: "node_inv False n" "\<not> crcn \<Longrightarrow> from_master (node_input n)"
    and m1: "master_do beyond (Master_Pre crc) m = Inr (outm, m1)" "heard crc' q air" "m' = master_receive q m1" "master_inv m1"
    and n1: "node_do (Node_Pre crcn) (False, n) = Inr (outn, True, n1)" "heard crcn' x (set_option outm)" "n' = node_receive x n1"
    and id: "nodeId n' = d" and air: "\<forall>p\<in>air. ack_from d p \<noteq> [] \<longrightarrow> outn = Some p"
  shows "feed_ends d True m' crc' n' crcn' sub stored"
proof -
  let ?r = "rxSeqNum (tNode.txManager n) ! 0" and ?r1 = "rxSeqNum (tNode.txManager n1) ! 0" and ?hd = "heard_data d crcn (node_input n)"
    and ?ha = "heard_ack d crc (master_input m)" and ?txm = "txManager (tx m)" and ?txm1 = "txManager (tx m1)"
  note i = net_invD [OF inv(1), folded inv(3,4)]
  note idle = i(2) [OF inv(2)]
  have d: "nodeId n = d" "node_id d" "next_ok (tx m)" using ok by (simp_all add: feed_ends_def)
  have L0: "link_inv (feed d ?txm ?r sub stored (?hd @ next_for d (tx m)) ?ha)"
    using ok idle by (simp add: feed_ends_def node_waiting_def fetched_for_def waiting_ack_idle)
  have wf: "wf_packet q" "wf_packet x" using m1(2) n1(2) by (simp_all add: heard_def)
  have un: "nodeId n \<noteq> UNALLOCATED_NODE_ID" "nodeId n1 = nodeId n" using d id n1(3) receive_kept(4) by (auto simp: node_id_def)
  note N = pre_takes [OF n un(1) n1(1) un(2)]
  note M = pre_feeds [OF i(1) idle i(3) d(3,2) m1(1)]
  have "node_allowed (Node_Pre crcn) (False, n)" using n(2) by auto
  then have inv1: "node_inv True n1" using node_step [of "(False, n)" "Node_Pre crcn"] n(1) n1(1) by auto
  have L1: "link_inv (feed d ?txm ?r1 sub (stored @ node_will_store n1) (next_for d (tx m)) ?ha)"
  proof (cases "node_takes crcn n")
    case True
    then have "?hd = [node_input n]" "txSeqNum (node_input n) = rx_next ?r"
      using d(1) by (simp_all add: node_takes_def node_wants_def heard_data_def node_next_seq_def rx_next_def Let_def)
    then show ?thesis using feed_take L0 N(1,2) True by simp
  next
    case False
    then show ?thesis using feed_drop [of d ?txm ?r sub stored "[]" ?hd] L0 N(1,2) by simp
  qed
  then have L2: "link_inv (feed d ?txm1 ?r1 sub (stored @ node_will_store n1) (next_for d (tx m)) (waiting_ack d (rx m1)))"
    using M(2) feed_drop_acks [of _ _ _ _ _ _ "[]" ?ha "[]"] by (auto intro: M(1))
  have L3: "link_inv (feed d ?txm1 ?r1 sub (stored @ node_will_store n1) (heard_data d crcn' x) (waiting_ack d (rx m1)))"
  proof (cases "heard_data d crcn' x = []")
    case True
    then show ?thesis using feed_drop [of _ _ _ _ _ "[]" "next_for d (tx m)" "[]"] L2 by simp
  next
    case False
    then have h: "node_readable crcn' x" "GET_PACKET_TYPE x = packet_code MASTER_DATA_PACKET" "master_dstNodeId x = d"
      by (auto simp: heard_data_def split: if_split_asm)
    obtain p where p: "outm = Some p" "on_wire p x" using n1(2) h(1) silent_type(3) by (auto simp: heard_def node_readable_def)
    obtain y where y: "next_for d (tx m) = [y]" "message y = message p" "wf_packet y"
      using M(3) [OF _ p(1)] h(2,3) wire_fields(1,5) [OF p(2)] by (auto simp: master_dstNodeId_def)
    have "udata p = udata y" using y(2) by (cases p, cases y) (simp add: message_def)
    then have "udata p \<noteq> []" using y(3) by (auto simp: wf_packet_def)
    then have "x = p" using p(2) by (cases p, cases x) (simp add: on_wire_def)
    then show ?thesis using feed_message [OF L2, of "heard_data d crcn' x"] y h by (simp add: heard_data_def)
  qed
  have "link_inv (feed d ?txm1 ?r1 sub (stored @ node_will_store n1) (heard_data d crcn' x) (waiting_ack d (rx m1) @ heard_ack d crc' q))"
  proof (cases "heard_ack d crc' q = []")
    case True
    then show ?thesis using L3 by simp
  next
    case False
    then have h: "passes crc' q" "ack_from d q \<noteq> []" by (auto simp: heard_ack_def split: if_split_asm)
    obtain p where p: "p \<in> air" "on_wire p q" using m1(2) h(1) silent_type(2) by (auto simp: heard_def passes_def)
    have "ack_from d p = ack_from d q"
      using wire_fields(1,5) [OF p(2)] by (simp add: ack_from_def node_srcNodeId_def node_ackSeqNum_def)
    then have "outn = Some p" "ack_from d q = [node_ackSeqNum p]" using air p(1) h(2) by (auto simp: ack_from_def split: if_split_asm)
    then show ?thesis using feed_report [OF L3] N(3) h(1) by (simp add: heard_ack_def)
  qed
  then show ?thesis
    using id d(2) store_after_receive [OF inv1 wf(2)] ack_after_receive [OF m1(4) wf(1)] receive_input(1) [OF inv1 wf(2)]
      master_receive_input [OF m1(4) wf(1)] m1(3) n1(3) by (simp add: feed_ends_def node_waiting_def fetched_for_def)
qed

lemma end_feed:
  assumes ok: "feed_ends d True m crc n crcn sub stored" and inv: "master_inv m" "node_inv True n"
    and live: "no_node_gone m" "\<not> nodeNwHasNodeTimedOut (timeToLive n)"
    and m1: "master_do beyond Master_Post m = Inr (None, m')" and n1: "node_do Node_Post (True, n) = Inr (None, False, n')"
  shows "feed_ends d False m' crc n' crcn sub (stored @ drop (length (node_queue n)) (node_queue n'))"
proof -
  have d: "nodeId n = d" "node_id d" using ok by (simp_all add: feed_ends_def)
  note P = post_takes [OF inv(2) _ live(2) n1]
  have un: "nodeId n \<noteq> UNALLOCATED_NODE_ID" using d by (auto simp: node_id_def)
  note S = post_stores [OF inv(1) live(1) m1]
  have L: "link_inv (feed d (txManager (tx m)) (rxSeqNum (tNode.txManager n) ! 0) sub (stored @ node_will_store n)
      (heard_data d crcn (node_input n)) (waiting_ack d (rx m) @ heard_ack d crc (master_input m)))"
    using ok by (simp add: feed_ends_def node_waiting_def fetched_for_def)
  note F = post_feeds [OF inv(1) live(1) d(2) m1 L]
  have "calm n n'" using all_resD [OF other_calm [of Node_Post, where b = True and n = n] n1] by simp
  then have "node_input n' = node_input n \<or> node_input n' = zero_packet" by (auto simp: calm_def heard_so_far_def)
  then have "heard_data d crcn (node_input n') = heard_data d crcn (node_input n) \<or> heard_data d crcn (node_input n') = []"
    using silent_type(3) [of zero_packet crcn] by (auto simp: heard_data_def zero_packet_def)
  then have "link_inv (feed d (txManager (tx m')) (rxSeqNum (tNode.txManager n) ! 0) sub (stored @ node_will_store n)
      (heard_data d crcn (node_input n') @ next_for d (tx m')) (heard_ack d crc (master_input m)))"
    using F(1) feed_drop [of _ _ _ _ _ "[]" "heard_data d crcn (node_input n)" "next_for d (tx m')"] by auto
  moreover have "master_input m' = master_input m" using S(5) by (simp add: master_calm_def)
  ultimately show ?thesis
    using P [OF un] d F(2) waiting_ack_idle [OF S(2)] by (simp add: feed_ends_def node_waiting_def fetched_for_def)
qed

lemma feed_begin_ok:
  assumes ok: "feed_ok d i T" and step: "net_begin beyond (f_net T) outm outs S'" and id: "nodeId (net_nodes S' ! i) = d"
    and others: "\<And>j p. j < length outs \<Longrightarrow> j \<noteq> i \<Longrightarrow> outs ! j = Some p \<Longrightarrow> ack_from d p = []"
  shows "feed_ok d i (T\<lparr>f_net := S'\<rparr>)"
proof -
  let ?S = "f_net T"
  note s = feed_okD [OF ok]
  obtain m1 q n1 x where p: "\<not> in_slot ?S" "in_slot S'" "length outs = length (net_nodes ?S)" "length (net_nodes S') = length (net_nodes ?S)"
    and m1: "master_do beyond (Master_Pre (net_crc ?S)) (net_master ?S) = Inr (outm, m1)"
      "heard (net_crc S') q {p. Some p \<in> set outs}" "net_master S' = master_receive q m1"
    and n1: "node_do (Node_Pre (net_crcs ?S ! i)) (False, net_nodes ?S ! i) = Inr (outs ! i, True, n1)"
      "heard (net_crcs S' ! i) x (set_option outm)" "net_nodes S' ! i = node_receive x n1"
    by (rule begin_parts [OF step s(2)])
  have n: "node_inv False (net_nodes ?S ! i)" "\<not> net_crcs ?S ! i \<Longrightarrow> from_master (node_input (net_nodes ?S ! i))"
    using s(4,5) p(1) by simp_all
  have air: "\<forall>p\<in>{p. Some p \<in> set outs}. ack_from d p \<noteq> [] \<longrightarrow> outs ! i = Some p"
    using others by (auto simp: in_set_conv_nth)
  have "master_inv m1" using master_begin [OF s(1) p(1), of beyond] m1(1) by auto
  moreover have "feed_ends d False (net_master ?S) (net_crc ?S) (net_nodes ?S ! i) (net_crcs ?S ! i) (f_submitted T) (f_stored T)"
    using s(3) p(1) by simp
  ultimately have "feed_ends d True (net_master S') (net_crc S') (net_nodes S' ! i) (net_crcs S' ! i) (f_submitted T) (f_stored T)"
    using begin_feed [OF _ s(1) p(1) refl refl n m1 _ n1 id air] by blast
  then show ?thesis using begin_inv(1) [OF s(1) step] p(2,4) s(2) by (simp add: feed_ok_def)
qed

lemma feed_end_ok:
  assumes ok: "feed_ok d i T" and step: "net_end beyond (f_net T) S'" and gone: "no_node_gone (net_master (f_net T))"
    and live: "\<not> nodeNwHasNodeTimedOut (timeToLive (net_nodes (f_net T) ! i))"
  shows "feed_ok d i (T\<lparr>f_net := S', f_stored := f_stored T @
    drop (length (node_queue (net_nodes (f_net T) ! i))) (node_queue (net_nodes S' ! i))\<rparr>)"
proof -
  let ?S = "f_net T"
  note s = feed_okD [OF ok]
  have st: "in_slot ?S" "\<not> in_slot S'" "net_crc S' = net_crc ?S" "net_crcs S' = net_crcs ?S" "length (net_nodes S') = length (net_nodes ?S)"
    "master_do beyond Master_Post (net_master ?S) = Inr (None, net_master S')"
    "node_do Node_Post (True, net_nodes ?S ! i) = Inr (None, False, net_nodes S' ! i)"
    using step s(2) by (simp_all add: net_end_def)
  have "node_inv True (net_nodes ?S ! i)" using s(4) st(1) by simp
  from end_feed [OF _ net_invD(1) [OF s(1)] this gone live st(6,7)] s(3) st
  have "feed_ends d (in_slot S') (net_master S') (net_crc S') (net_nodes S' ! i) (net_crcs S' ! i) (f_submitted T)
      (f_stored T @ drop (length (node_queue (net_nodes ?S ! i))) (node_queue (net_nodes S' ! i)))" by simp
  then show ?thesis using end_inv [OF s(1) _ step] gone st(5) s(2) by (simp add: feed_ok_def)
qed

lemma feed_reach_ok: "feed_reach beyond d i T \<Longrightarrow> feed_ok d i T"
proof (induction rule: feed_reach.induct)
  case (Start S)
  then show ?case by (rule feed_start_ok)
next
  case (Master T c out m')
  note ok = feed_okD [OF Master.IH]
  from master_app_ends [OF ok(3) net_invD(1) [OF ok(1)] Master.hyps(5,2,3,6)] master_app_net [OF ok(1) Master.hyps(2,3,5,6)]
  show ?case using ok(2) Master.hyps(4) by (simp add: feed_ok_def)
next
  case (Submit T k out m')
  note ok = feed_okD [OF Submit.IH]
  from master_app_ends [OF ok(3) net_invD(1) [OF ok(1)] Submit.hyps(2) _ _ Submit.hyps(3)] master_app_net [OF ok(1) _ _ Submit.hyps(2,3)]
  show ?case using ok(2) by (simp add: feed_ok_def sends_to_def)
next
  case (Node T j c out b n')
  let ?S = "f_net T"
  note ok = feed_okD [OF Node.IH]
  have "node_inv (in_slot ?S) (net_nodes ?S ! j)" using net_invD(4) [OF ok(1) Node.hyps(2)] by (simp add: net_node_ok_def)
  then have "feed_ends d (in_slot ?S) (net_master ?S) (net_crc ?S) (((net_nodes ?S)[j := n']) ! i) (net_crcs ?S ! i) (f_submitted T) (f_stored T)"
    using node_app_ends [OF ok(3) _ Node.hyps(3,4,5)] Node.hyps(6,7) ok(3) by (cases "j = i") (use ok(2) in auto)
  then show ?case using node_app_net [OF ok(1) Node.hyps(2,3,4,5,6,7)] ok(2) by (simp add: feed_ok_def)
next
  case (Begin T outm outs S')
  then show ?case using feed_begin_ok by blast
next
  case (End T S')
  then show ?case using feed_end_ok by blast
qed

section \<open>Properties\<close>

text \<open>
  Claim C2. In the other direction too, whatever the wire loses or corrupts and however the calls
  of all applications fall, what a node puts into the queue of its application are the messages that
  the master's application has submitted to it, each once, without a gap and in order, for as long as
  the node keeps its id, nobody else answers under it and no node times out at the master; and
  the master's buffer for the node has given up nothing that the node has not taken.
\<close>

theorem feed_exactly_once:
  assumes "feed_reach beyond d i T"
  shows "prefix (map message (f_stored T)) (map message (f_submitted T)) \<and>
    (\<exists>k\<le>length (f_stored T) + length (node_waiting (in_slot (f_net T)) (net_nodes (f_net T) ! i)).
      map message (pending True (txManager (tx (net_master (f_net T)))) d) = map message (drop k (f_submitted T)))"
proof -
  let ?acc = "f_stored T @ node_waiting (in_slot (f_net T)) (net_nodes (f_net T) ! i)" and ?m = "txManager (tx (net_master (f_net T)))"
  obtain r wire acks where "link_inv (feed d ?m r (f_submitted T) ?acc wire acks)"
    using feed_okD(3) [OF feed_reach_ok [OF assms]] by (auto simp: feed_ends_def)
  then have f: "map message ?acc = map message (take (length ?acc) (f_submitted T))"
    "\<exists>k\<le>length ?acc. map message (pending True ?m d) = map message (drop k (f_submitted T))"
    by (auto simp: link_inv_def window_ok_def delivery_ok_def feed_def window_of_def Let_def)
  then have "map message (f_stored T) @ map message (drop (length (f_stored T)) ?acc) = take (length ?acc) (map message (f_submitted T))"
    by (simp add: take_map)
  then have "prefix (map message (f_stored T)) (map message (f_submitted T))" by (metis prefixI append_assoc append_take_drop_id)
  then show ?thesis using f(2) by simp
qed

text \<open>A master that has just given the node its id.\<close>

lemma init_feed:
  assumes m: "masterInit 4 k ps maxRx = Inr m" "master_config 4 k ps maxRx" and n: "nodeInit uid k' ps' maxRx' = Inr n" "node_config uid k' ps' maxRx'"
    and d: "node_id d" and reg: "nw_inv nw ttl"
  shows "feed_start d 0 \<lparr>net_master = m\<lparr>nwManager := nw, masterNodeTimeToLive := ttl\<rparr>, net_nodes = [n\<lparr>nodeId := d\<rparr>],
    net_crc = True, net_crcs = [True], in_slot = False\<rparr>"
proof -
  let ?m = "m\<lparr>nwManager := nw, masterNodeTimeToLive := ttl\<rparr>"
  let ?S = "\<lparr>net_master = m, net_nodes = [n\<lparr>nodeId := d\<rparr>], net_crc = True, net_crcs = [True], in_slot = False\<rparr>"
  have S: "net_inv ?S" using init_stream [OF m n d] by (simp add: stream_start_def Let_def)
  have "master_inv m" "\<not> tMasterRx.validRxPacket (rx m)" using net_invD(1,2) [OF S] by simp_all
  then have "net_inv (?S\<lparr>net_master := ?m\<rparr>)"
    using reg by (intro master_moves_net [OF S]) (simp_all add: master_inv_def master_ok_def master_calm_def master_input_def)
  moreover have "tx m = (masterTxInit zero_queue k ps)\<lparr>masterResetCycles := 20\<rparr>" using m(1) by (auto simp: masterInit_def and_then_eq_Inr)
  moreover have "window_of True (initTxManager 64 q k ps) d = no_window" for q
    using d by (simp add: initTxManager_def window_of_def no_window_def pending_def buffered_def start_of_def end_of_def sent_def next_of_def
        pause_of_def node_id_def)
  moreover note init_fields(1) [OF n(1)]
  ultimately show ?thesis using d
    by (simp add: feed_start_def Let_def masterTxInit_def next_ok_def next_for_def tx_memory_of_def rxSeqNum_init passes_def node_readable_def
        set_master_dstNodeId_def GET_PACKET_TYPE_def SET_PROTOCOL_VERSION_AND_PACKET_TYPE_def)
qed

lemma submitted_feed:
  obtains d T where "feed_reach (\<lambda>_. 0) d 0 T" and "length (f_submitted T) = 1"
proof -
  have c: "master_config 4 2 [zero_entry, zero_entry] 3" by (simp add: master_config_def zero_entry_def)
  from master_config_inv [OF c] obtain m0 where m0: "masterInit 4 2 [zero_entry, zero_entry] 3 = Inr m0" by blast
  have e: "node_config 5 2 [zero_entry, zero_entry] 3" by (simp add: node_config_def zero_entry_def)
  from config_inv [OF e] obtain n where n: "nodeInit 5 2 [zero_entry, zero_entry] 3 = Inr n" by blast
  obtain nw ttl c d where reg: "nw_inv nw ttl" "joining nw = [(77, d)]" "node_id d"
    using nw_register_lowest_free_witness register_spec [OF init_nw_inv, of 77 5] by auto
  then have live: "ttl ! unat d \<noteq> 0" by (auto simp: nw_inv_def alive_def)
  define m where "m = m0\<lparr>nwManager := nw, masterNodeTimeToLive := ttl\<rparr>"
  let ?S = "\<lparr>net_master = m, net_nodes = [n\<lparr>nodeId := d\<rparr>], net_crc = True, net_crcs = [True], in_slot = False\<rparr>"
  let ?T = "\<lparr>f_net = ?S, f_submitted = [], f_stored = []\<rparr>"
  have start: "feed_reach (\<lambda>_. 0) d 0 ?T"
    unfolding m_def by (rule feed_reach.Start [OF init_feed [OF m0 c n e reg(3,1)]])
  have inv: "master_inv m" using net_invD(1) [OF feed_okD(1) [OF feed_reach_ok [OF start]]] by simp
  have f: "txManager (tx m) = initTxManager 64 (Some zero_queue) 2 [zero_entry, zero_entry]"
    using m0 by (auto simp: m_def masterInit_def masterTxInit_def and_then_eq_Inr)
  obtain a mt where al: "allocateTxPacket (txManager (tx m)) = Inr (Some a, mt)" "allocatedPacket mt = Some a"
    using allocate_free [OF mtx_invD(1) [OF master_invD(2) [OF inv]]] f by (auto simp: initTxManager_def zero_entry_def)
  let ?m1 = "m\<lparr>tx := (tx m)\<lparr>txManager := mt\<rparr>\<rparr>"
  have run: "master_do (\<lambda>_. 0) Master_Alloc m = Inr (None, ?m1)" using al(1) by (simp add: masterAllocateTxPacket_def Let_def)
  have ok: "master_allowed Master_Alloc m" using f by (simp add: initTxManager_def)
  let ?T1 = "?T\<lparr>f_net := ?S\<lparr>net_master := ?m1\<rparr>\<rparr>"
  have r1: "feed_reach (\<lambda>_. 0) d 0 ?T1"
    using feed_reach.Master [OF start, of Master_Alloc None ?m1] ok run by (simp add: sends_to_def del: master_do.simps)
  have ok1: "master_allowed (Master_Submit d 3) ?m1" using al(2) reg(3) live by (simp add: m_def)
  have "master_inv ?m1" using net_invD(1) [OF feed_okD(1) [OF feed_reach_ok [OF r1]]] by simp
  from master_step [OF this ok1, of "\<lambda>_. 0"] obtain out m2 where "master_do (\<lambda>_. 0) (Master_Submit d 3) ?m1 = Inr (out, m2)" by auto
  with feed_reach.Submit [OF r1, of 3 out m2] ok1 that show ?thesis by simp
qed

theorem feed_exactly_once_witness:
  "\<exists>d T. feed_reach (\<lambda>_. 0) d 0 T \<and> length (f_submitted T) = 1 \<and> prefix (map message (f_stored T)) (map message (f_submitted T))"
proof -
  obtain d T where T: "feed_reach (\<lambda>_. 0) d 0 T" "length (f_submitted T) = 1" by (rule submitted_feed)
  from feed_exactly_once [OF T(1)] T show ?thesis by blast
qed

end
