(* ===== verification/LostId.thy ===== *)
theory LostId
  imports MasterProps NodeSlots
begin

text \<open>
  A node restarts its timeout when it sends, the master when it hears. Here a node goes on sending
  and the master hears none of it: the node never gives up its id, while the master takes the id
  back and gives it to the next node that asks.
\<close>

section \<open>Slots in which the master does not hear one node\<close>

text \<open>
  One slot: \<open>us\<close> microseconds pass at both ends, the master hears the nodes \<open>ids\<close>, and the node
  checks its timeout and sends.
\<close>

definition lost_slot :: "u32 \<times> u8 list \<Rightarrow> (tNetworkManager \<times> u8 list) \<times> tNode \<times> tTxPtr option list
    \<Rightarrow> ((tNetworkManager \<times> u8 list) \<times> tNode \<times> tTxPtr option list) res" where
  "lost_slot = (\<lambda>(us, ids) ((nw, ttl), n, outs).
     and_then (networkManagerUpdateTimeUs nw ttl us) (\<lambda>s.
     and_then (for_each nw_do (map Nw_Heard ids) s) (\<lambda>s'.
     and_then (nodeCheckIfTimedOut (nodeUpdateTimeUs n us)) (\<lambda>n1.
     and_then (nodeNoDelaySingleChannelProcessTx n1 None) (\<lambda>(ptr, n2).
       Inr (s', n2, outs @ [ptr]))))))"

definition loss_ok :: "u8 \<Rightarrow> (u32 \<times> u8 list) list \<Rightarrow> bool" where
  "loss_ok d slots \<longleftrightarrow> (\<forall>(us, ids)\<in>set slots. unat us \<le> TIME_TO_LIVE_UPDATE_TIME_US \<and> set ids \<inter> {d, MASTER_NODE_ID} = {})"

subsection \<open>The master\<close>

text \<open>What does not change while a node is not heard, and what can only shrink.\<close>

definition keeps_id :: "u8 \<Rightarrow> tNetworkManager \<times> u8 list \<Rightarrow> tNetworkManager \<times> u8 list \<Rightarrow> bool" where
  "keeps_id d = (\<lambda>(nw, ttl) (nw', ttl'). nw_inv nw' ttl' \<and> alive ttl' = alive ttl \<and>
     length (joining nw') \<le> length (joining nw) \<and> set (joining nw') \<subseteq> set (joining nw))"

lemma keeps_id_trans: "keeps_id d s s1 \<Longrightarrow> keeps_id d s1 s2 \<Longrightarrow> keeps_id d s s2"
  by (auto simp: keeps_id_def)

lemma record_clock:
  assumes inv: "nw_inv nw ttl" and run: "networkManagerRecordRxPacket nw ttl d = Inr (nw', ttl')"
  shows "timeToLiveTimeUs nw' = timeToLiveTimeUs nw"
  using run remove_request_spec [of nw ttl d] inv
  by (auto simp: networkManagerRecordRxPacket_def and_then_eq_Inr nw_inv_def split: if_splits)

lemma heard_other:
  assumes inv: "nw_inv nw ttl" and c: "c \<noteq> d" "c \<noteq> 0" and d: "unat d < MAX_NODES" and at: "ttl_at t0 S d nw ttl"
  shows "\<exists>nw' ttl'. nw_do (Nw_Heard c) (nw, ttl) = Inr (nw', ttl') \<and> keeps_id d (nw, ttl) (nw', ttl') \<and> ttl_at t0 S d nw' ttl'"
proof (cases "unat c < MAX_NODES \<and> ttl ! unat c > 0")
  case False
  then show ?thesis using inv at by (auto simp: nw_do_def keeps_id_def)
next
  case True
  have len: "length ttl = 64" using at by (simp add: ttl_at_def)
  have "unat c \<noteq> 0" using c(2) by (simp add: u8_eq_iff)
  then have id: "node_id c" "c \<in> alive ttl" using True by (simp_all add: alive_def node_id_def word_gt_0)
  from record_spec [OF inv id(2)] obtain nw' where r:
    "networkManagerRecordRxPacket nw ttl c = Inr (nw', ttl[unat c := 128])" "nw_inv nw' (ttl[unat c := 128])"
    "joining nw' = filter (\<lambda>p. snd p \<noteq> c) (joining nw)" by auto
  have "alive (ttl[unat c := 128]) = alive ttl" using alive_upd [of c ttl 128] True len id by auto
  moreover have "unat c \<noteq> unat d" using c(1) by (simp add: u8_eq_iff)
  ultimately show ?thesis
    using r True record_clock [OF inv r(1)] at by (auto simp: nw_do_def keeps_id_def ttl_at_def)
qed

lemma heard_others:
  assumes "nw_inv nw ttl" and "set ids \<inter> {d, 0} = {}" and "unat d < MAX_NODES" and "ttl_at t0 S d nw ttl"
  shows "\<exists>nw' ttl'. for_each nw_do (map Nw_Heard ids) (nw, ttl) = Inr (nw', ttl') \<and>
    keeps_id d (nw, ttl) (nw', ttl') \<and> ttl_at t0 S d nw' ttl'"
  using assms
proof (induction ids arbitrary: nw ttl)
  case Nil
  then show ?case by (simp add: keeps_id_def)
next
  case (Cons c ids)
  from heard_other [OF Cons.prems(1) _ _ Cons.prems(3,4), of c] Cons.prems(2) obtain nw1 ttl1 where
    1: "nw_do (Nw_Heard c) (nw, ttl) = Inr (nw1, ttl1)" "keeps_id d (nw, ttl) (nw1, ttl1)" "ttl_at t0 S d nw1 ttl1" by auto
  have "nw_inv nw1 ttl1" using 1(2) by (simp add: keeps_id_def)
  from Cons.IH [OF this _ Cons.prems(3) 1(3)] Cons.prems(2) show ?case
    using 1(1) keeps_id_trans [OF 1(2)] by fastforce
qed

lemma time_keeps:
  assumes inv: "nw_inv nw ttl" and at: "ttl_at t0 S d nw ttl" and d: "d \<noteq> 0" "unat d < MAX_NODES" and us: "unat us \<le> 4358"
  shows "\<exists>nw' ttl'. networkManagerUpdateTimeUs nw ttl us = Inr (nw', ttl') \<and> keeps_id d (nw, ttl) (nw', ttl') \<and>
    ttl_at t0 (S + unat us) d nw' ttl'"
  using update_time_inv [OF inv, of us] ttl_step [OF at d us] by (auto simp: keeps_id_def)

subsection \<open>The node\<close>

lemma processTx_offers:
  assumes inv: "node_inv b n" and d: "nodeId n \<noteq> UNALLOCATED_NODE_ID"
  shows "\<exists>n'. nodeProcessTx n = Inr n' \<and> node_inv b n' \<and> nodeId n' = nodeId n \<and> nextTxPacket n' \<noteq> None"
proof -
  obtain n' where n': "nodeProcessTx n = Inr n'" "node_inv b n'" using processTx_inv [OF inv] by blast
  have "nodeId n' = nodeId n" using n'(1) d by (auto simp: nodeProcessTx_def nodeEmptyPacket_def with_node_memory_def and_then_eq_Inr Let_def
      split: if_splits option.splits prod.splits)
  moreover have "nextTxPacket n' \<noteq> None"
    using n'(1) d by (auto simp: nodeProcessTx_def keepsTxPacket_def and_then_eq_Inr Let_def split: if_splits option.splits)
  ultimately show ?thesis using n' by blast
qed

lemma sends_and_restarts:
  assumes inv: "node_inv b n" and d: "nodeId n \<noteq> UNALLOCATED_NODE_ID"
  shows "\<exists>q n'. nodeNoDelaySingleChannelProcessTx n None = Inr (Some q, n') \<and> node_inv b n' \<and> nodeId n' = nodeId n \<and>
    timeToLive n' = of_nat NODE_TIMEOUT_US"
proof -
  obtain n1 q where n1: "nodeProcessTx n = Inr n1" "node_inv b n1" "nodeId n1 = nodeId n" "nextTxPacket n1 = Some q"
    using processTx_offers [OF assms] by blast
  from sendTx_inv [OF n1(2,4)] obtain n2 where n2: "nodeSendTxPacket n1 q = Inr (Some q, n2)" "node_inv b n2" by blast
  then have "timeToLive n2 = of_nat NODE_TIMEOUT_US" "nodeId n2 = nodeId n1"
    using n1(4) by (auto simp: nodeSendTxPacket_def nodeQuickUpdateTxPacket_def with_node_memory_def nodeNwRecordTxPacketSent_def
      and_then_eq_Inr Let_def)
  then show ?thesis
    using n1 n2 d node_invD(1) [OF inv] by (simp add: nodeNoDelaySingleChannelProcessTx_def nodeGetTxPacket_def)
qed

lemma node_slot:
  assumes inv: "node_inv b n" and d: "nodeId n \<noteq> UNALLOCATED_NODE_ID" and t: "timeToLive n = of_nat NODE_TIMEOUT_US"
    and us: "unat us \<le> 4358"
  shows "\<exists>q n'. nodeCheckIfTimedOut (nodeUpdateTimeUs n us) = Inr (nodeUpdateTimeUs n us) \<and>
    nodeNoDelaySingleChannelProcessTx (nodeUpdateTimeUs n us) None = Inr (Some q, n') \<and> node_inv b n' \<and>
    nodeId n' = nodeId n \<and> timeToLive n' = of_nat NODE_TIMEOUT_US"
proof -
  have "int (unat us) \<le> 4358" using us by (metis of_nat_le_iff of_nat_numeral)
  then have "sint (nodeNwUpdateTimeUs (timeToLive n) us) > 0" using node_clock_run [of "timeToLive n" us] t us by simp
  then have "nodeCheckIfTimedOut (nodeUpdateTimeUs n us) = Inr (nodeUpdateTimeUs n us)"
    by (simp add: nodeCheckIfTimedOut_def nodeUpdateTimeUs_def nodeNwHasNodeTimedOut_def)
  moreover have "node_inv b (nodeUpdateTimeUs n us)" "nodeId (nodeUpdateTimeUs n us) = nodeId n"
    using inv by (simp_all add: nodeUpdateTimeUs_def node_inv_def)
  ultimately show ?thesis using sends_and_restarts [of b "nodeUpdateTimeUs n us"] d by auto
qed

subsection \<open>Many slots\<close>

lemma lost_slots:
  assumes "loss_ok d slots" and "node_id d" and "nw_inv nw ttl" and "ttl_at t0 S d nw ttl"
    and "node_inv b n" and "nodeId n = d" and "timeToLive n = of_nat NODE_TIMEOUT_US" and "None \<notin> set outs"
  shows "\<exists>nw' ttl' n' outs'. for_each lost_slot slots ((nw, ttl), n, outs) = Inr ((nw', ttl'), n', outs') \<and>
    keeps_id d (nw, ttl) (nw', ttl') \<and> ttl_at t0 (S + sum_list (map (unat \<circ> fst) slots)) d nw' ttl' \<and>
    node_inv b n' \<and> nodeId n' = d \<and> length outs' = length outs + length slots \<and> None \<notin> set outs'"
  using assms
proof (induction slots arbitrary: S nw ttl n outs)
  case Nil
  then show ?case by (simp add: keeps_id_def)
next
  case (Cons s slots)
  obtain us ids where s: "s = (us, ids)" by (cases s)
  have us: "unat us \<le> 4358" and ids: "set ids \<inter> {d, 0} = {}" and ok: "loss_ok d slots"
    using Cons.prems(1) by (auto simp: loss_ok_def s)
  have d: "d \<noteq> 0" "unat d < 64" "nodeId n \<noteq> 0xFE" using Cons.prems(2,6) by (auto simp: node_id_def)
  obtain nw1 ttl1 where 1: "networkManagerUpdateTimeUs nw ttl us = Inr (nw1, ttl1)" "keeps_id d (nw, ttl) (nw1, ttl1)"
    "ttl_at t0 (S + unat us) d nw1 ttl1" using time_keeps [OF Cons.prems(3,4) d(1,2) us] by auto
  have "nw_inv nw1 ttl1" using 1(2) by (simp add: keeps_id_def)
  from heard_others [OF this ids _ 1(3)] d(2) obtain nw2 ttl2 where 2: "for_each nw_do (map Nw_Heard ids) (nw1, ttl1) = Inr (nw2, ttl2)"
    "keeps_id d (nw1, ttl1) (nw2, ttl2)" "ttl_at t0 (S + unat us) d nw2 ttl2" by auto
  have inv2: "nw_inv nw2 ttl2" using 2(2) by (simp add: keeps_id_def)
  from node_slot [OF Cons.prems(5) d(3) Cons.prems(7) us] obtain q n1 where
    n1: "nodeCheckIfTimedOut (nodeUpdateTimeUs n us) = Inr (nodeUpdateTimeUs n us)"
      "nodeNoDelaySingleChannelProcessTx (nodeUpdateTimeUs n us) None = Inr (Some q, n1)" "node_inv b n1" "nodeId n1 = d"
      "timeToLive n1 = of_nat NODE_TIMEOUT_US" using Cons.prems(6) by auto
  have step: "lost_slot s ((nw, ttl), n, outs) = Inr ((nw2, ttl2), n1, outs @ [Some q])"
    using 1(1) 2(1) n1(1,2) by (simp add: lost_slot_def s)
  have "None \<notin> set (outs @ [Some q])" using Cons.prems(8) by simp
  from Cons.IH [OF ok Cons.prems(2) inv2 2(3) n1(3-5) this] obtain nw' ttl' n' outs' where r: "for_each lost_slot slots ((nw2, ttl2), n1, outs @ [Some q]) = Inr ((nw', ttl'), n', outs')"
    "keeps_id d (nw2, ttl2) (nw', ttl')" "ttl_at t0 (S + unat us + sum_list (map (unat \<circ> fst) slots)) d nw' ttl'"
    "node_inv b n'" "nodeId n' = d" "length outs' = length (outs @ [Some q]) + length slots" "None \<notin> set outs'" by blast
  have k: "keeps_id d (nw, ttl) (nw', ttl')" using keeps_id_trans [OF keeps_id_trans [OF 1(2) 2(2)] r(2)] .
  have sum: "S + sum_list (map (unat \<circ> fst) (s # slots)) = S + unat us + sum_list (map (unat \<circ> fst) slots)" by (simp add: s)
  have run: "for_each lost_slot (s # slots) ((nw, ttl), n, outs) = Inr ((nw', ttl'), n', outs')" using step r(1) by simp
  have len: "length outs' = length outs + length (s # slots)" using r(6) by simp
  show ?case unfolding sum using run k r(3-5,7) len by blast
qed

section \<open>One id for two nodes\<close>

text \<open>After 129 periods of silence the id is marked for removal.\<close>

lemma ttl_expires:
  assumes "ttl_at t0 S d nw ttl" and "129 * 4358 \<le> S"
  shows "ttl ! unat d = REMOVE_NODE_TTL"
proof (rule ccontr)
  assume "ttl ! unat d \<noteq> REMOVE_NODE_TTL"
  then have "1 \<le> unat (ttl ! unat d)" "(128 - unat (ttl ! unat d)) * 4358 + unat (timeToLiveTimeUs nw) = t0 + S"
    "unat (timeToLiveTimeUs nw) < 4358" using assms(1) by (auto simp: ttl_at_def)
  then show False using assms(2) by linarith
qed

lemma given_again:
  assumes inv: "nw_inv nw ttl" and d: "node_id d" and lower: "\<forall>x. node_id x \<longrightarrow> x < d \<longrightarrow> x \<in> alive ttl"
    and u: "u \<noteq> 0" "u \<notin> fst ` set (joining nw)" and room: "length (joining nw) < MAX_NODES_ALLOCATED_AT_ONCE"
    and rm: "networkManagerRemoveNewNodeRequest nw d = Inr (f, nw1)" "nodeQueueRemoveIfExists (activeNodes nw1) d = Inr a"
  shows "\<exists>nw2 ttl2. networkManagerRegisterNewNode (nw1\<lparr>activeNodes := a\<rparr>) (ttl[unat d := 0]) u c = Inr (nw2, ttl2, c) \<and>
    nw_inv nw2 ttl2 \<and> map_of (joining nw2) u = Some d"
proof -
  let ?nw = "nw1\<lparr>activeNodes := a\<rparr>" and ?ttl = "ttl[unat d := 0]"
  have inv': "nw_inv ?nw ?ttl" using gone_nw [OF inv d] rm by auto
  have j: "joining ?nw = filter (\<lambda>p. snd p \<noteq> d) (joining nw)"
    using remove_request_inv [OF inv, of d] rm(1) by (auto simp: joining_def)
  have len: "length ttl = 64" using inv by (simp add: nw_inv_def nw_shape_def)
  have free: "alive ?ttl = alive ttl - {d}"
    using len d by (auto simp: alive_def node_id_def nth_list_update u8_eq_iff)
  have some: "\<not> (\<forall>x. node_id x \<longrightarrow> x \<in> alive ?ttl)" using d free by blast
  have new: "u \<notin> fst ` set (joining ?nw)" using u(2) by (auto simp: j)
  have "length (joining ?nw) < 10" unfolding j using room by (rule le_less_trans [OF length_filter_le])
  then have "length (joining ?nw) \<noteq> 10" by simp
  with register_spec [OF inv' u(1), of c] some new obtain nw2 ttl2 x where
    r: "networkManagerRegisterNewNode ?nw ?ttl u c = Inr (nw2, ttl2, c)" "nw_inv nw2 ttl2" "node_id x" "x \<notin> alive ?ttl"
      "\<forall>y. node_id y \<longrightarrow> y < x \<longrightarrow> y \<in> alive ?ttl" "joining nw2 = joining ?nw @ [(u, x)]" by auto
  have "\<not> d < x" using r(5) d free by blast
  moreover have "\<not> x < d" using r(3,4) lower free by auto
  ultimately have "x = d" by simp
  moreover have "map_of (joining nw2) u = Some x" using r(6) new by (simp add: map_add_def map_of_eq_None_iff [THEN iffD2])
  ultimately show ?thesis using r(1,2) by blast
qed

text \<open>
  Claim C23. Two nodes can hold one id. A node that sends in every slot while nothing of it reaches
  the master never times out, since sending restarts its timer; the master marks the id for removal
  after 129 of its timer periods, and when it is removed and the smaller ids are in use the next
  node that asks is given the same id and takes it from the response.
\<close>

theorem lost_node_shares_id:
  assumes "nw_inv nw ttl" and "node_id d" and "1 \<le> unat (ttl ! unat d)" and "unat (ttl ! unat d) \<le> 128"
    and "unat (timeToLiveTimeUs nw) < TIME_TO_LIVE_UPDATE_TIME_US"
    and "node_inv False n" and "nodeId n = d" and "timeToLive n = of_nat NODE_TIMEOUT_US"
    and "loss_ok d slots" and "129 * TIME_TO_LIVE_UPDATE_TIME_US \<le> sum_list (map (unat \<circ> fst) slots)"
    and "\<forall>x. node_id x \<longrightarrow> x < d \<longrightarrow> x \<in> alive ttl" and "u \<noteq> 0" and "u \<notin> fst ` set (joining nw)"
    and "length (joining nw) < MAX_NODES_ALLOCATED_AT_ONCE"
  shows "\<exists>nw1 ttl1 n1 outs f nw2 a nw3 ttl3 p.
    for_each lost_slot slots ((nw, ttl), n, []) = Inr ((nw1, ttl1), n1, outs) \<and>
    length outs = length slots \<and> None \<notin> set outs \<and> nodeId n1 = d \<and> ttl1 ! unat d = REMOVE_NODE_TTL \<and>
    networkManagerRemoveNewNodeRequest nw1 d = Inr (f, nw2) \<and> nodeQueueRemoveIfExists (activeNodes nw2) d = Inr a \<and>
    networkManagerRegisterNewNode (nw2\<lparr>activeNodes := a\<rparr>) (ttl1[unat d := 0]) u 0 = Inr (nw3, ttl3, 0) \<and>
    txNewNodeResponse nw3 zero_packet = Inr p \<and>
    rxNewNodePacketResponse p u UNALLOCATED_NODE_ID 0 0 = Inr (d, of_nat NODE_TIMEOUT_US, 1)"
proof -
  have len: "length ttl = 64" using assms(1) by (simp add: nw_inv_def nw_shape_def)
  have "ttl_at ((128 - unat (ttl ! unat d)) * 4358 + unat (timeToLiveTimeUs nw)) 0 d nw ttl"
    using assms(3-5) len by (simp add: ttl_at_def)
  from lost_slots [OF assms(9,2,1) this assms(6-8), of "[]"] obtain nw1 ttl1 n1 outs where
    1: "for_each lost_slot slots ((nw, ttl), n, []) = Inr ((nw1, ttl1), n1, outs)" "keeps_id d (nw, ttl) (nw1, ttl1)"
      "ttl_at ((128 - unat (ttl ! unat d)) * 4358 + unat (timeToLiveTimeUs nw)) (sum_list (map (unat \<circ> fst) slots)) d nw1 ttl1"
      "nodeId n1 = d" "length outs = length slots" "None \<notin> set outs" by auto
  have k: "nw_inv nw1 ttl1" "alive ttl1 = alive ttl" "length (joining nw1) < 10" "u \<notin> fst ` set (joining nw1)"
    using 1(2) assms(13,14) by (auto simp: keeps_id_def)
  have gone: "ttl1 ! unat d = 255" using ttl_expires [OF 1(3)] assms(10) by simp
  obtain nw2 a where rm: "networkManagerRemoveNewNodeRequest nw1 d = Inr (d \<in> snd ` set (joining nw1), nw2)"
    "nodeQueueRemoveIfExists (activeNodes nw2) d = Inr a" using gone_nw [OF k(1) assms(2)] by blast
  obtain nw3 ttl3 where 3: "networkManagerRegisterNewNode (nw2\<lparr>activeNodes := a\<rparr>) (ttl1[unat d := 0]) u 0 = Inr (nw3, ttl3, 0)"
    "nw_inv nw3 ttl3" "map_of (joining nw3) u = Some d"
    using given_again [where c = 0, OF k(1) assms(2) _ assms(12) k(4) k(3) rm] assms(11) k(2) by blast
  have "joining nw3 \<noteq> []" using 3(3) by auto
  then have "0 < unat (numNewNodes nw3)" using 3(2) joining_simps(1) [of nw3 ttl3] by (auto simp: nw_inv_def)
  from response_read_back [OF 3(2) this, of zero_packet] obtain p where
    "txNewNodeResponse nw3 zero_packet = Inr p" "rxNewNodePacketResponse p u UNALLOCATED_NODE_ID 0 0 = Inr (d, of_nat NODE_TIMEOUT_US, 1)"
    using 3(3) by fastforce
  then show ?thesis using 1(1,4-6) gone rm 3(1) by blast
qed

text \<open>The first node of a network falls silent for 150 slots, then the node 99 asks.\<close>

theorem lost_node_shares_id_witness:
  "\<exists>nw ttl n nw1 ttl1 n1 outs nw2 ttl2 p.
     networkManagerRegisterNewNode (networkManagerInit zero_queue) (replicate MAX_NODES 0) 77 0 = Inr (nw, ttl, 0) \<and>
     for_each lost_slot (replicate 150 (4358, [2])) ((nw, ttl), n, []) = Inr ((nw1, ttl1), n1, outs) \<and>
     nodeId n1 = 1 \<and> None \<notin> set outs \<and> txNewNodeResponse nw2 zero_packet = Inr p \<and>
     rxNewNodePacketResponse p 99 UNALLOCATED_NODE_ID 0 0 = Inr (1, ttl2, 1)"
proof -
  have j: "joining (networkManagerInit zero_queue) = []" by (simp add: joining_def networkManagerInit_def)
  have dead: "alive (replicate 64 0) = {}" by (auto simp: alive_def node_id_def)
  have one: "node_id 1" by (simp add: node_id_def)
  then have some: "(\<forall>x. \<not> node_id x) = False" by blast
  from register_spec [OF init_nw_inv, of 77 0] obtain nw ttl d where nw: "nw_inv nw ttl" "joining nw = [(77, d)]" "node_id d"
    "ttl = (replicate 64 0)[unat d := 128]" "\<forall>x. node_id x \<longrightarrow> x < d \<longrightarrow> x \<in> {}"
    "networkManagerRegisterNewNode (networkManagerInit zero_queue) (replicate 64 0) 77 0 = Inr (nw, ttl, 0)"
    by (auto simp: j dead some simp del: not_less)
  have "\<not> 1 < d" using nw(5) one by blast
  then have d: "d = 1" using nw(3) by (simp add: node_id_def word_less_nat_alt u8_eq_iff)
  have t: "timeToLiveTimeUs nw = 0"
    using nw(6) by (auto simp: networkManagerRegisterNewNode_def networkManagerInit_def and_then_eq_Inr Let_def split: if_splits)
  have c: "node_config 5 2 [zero_entry, zero_entry] 3" by (simp add: node_config_def zero_entry_def)
  from config_inv [OF c] obtain n0 where "nodeInit 5 2 [zero_entry, zero_entry] 3 = Inr n0" "node_inv False n0" by blast
  then have n: "node_inv False (n0\<lparr>nodeId := 1, timeToLive := of_nat NODE_TIMEOUT_US\<rparr>)" using one by (simp add: node_inv_def node_ok_def)
  have slots: "loss_ok 1 (replicate 150 (4358, [2]))" by (simp add: loss_ok_def)
  from lost_node_shares_id [OF nw(1) one _ _ _ n _ _ slots, of 99] obtain nw1 ttl1 n1 outs nw3 p where
    "for_each lost_slot (replicate 150 (4358, [2])) ((nw, ttl), n0\<lparr>nodeId := 1, timeToLive := of_nat NODE_TIMEOUT_US\<rparr>, []) =
       Inr ((nw1, ttl1), n1, outs)" "nodeId n1 = 1" "None \<notin> set outs" "txNewNodeResponse nw3 zero_packet = Inr p"
    "rxNewNodePacketResponse p 99 UNALLOCATED_NODE_ID 0 0 = Inr (1, of_nat NODE_TIMEOUT_US, 1)"
    using nw(2,4) d t by (auto simp: map_replicate sum_list_replicate node_id_def)
  then show ?thesis using nw(6) by blast
qed

end
