(* ===== verification/PrintPacket.thy ===== *)
theory PrintPacket
  imports Wire
begin

text \<open>
  \<^verbatim>\<open>microbusPrintPacket\<close> of \<^verbatim>\<open>common.c\<close>, which a build with logging calls for every packet. What
  it hands to \<^verbatim>\<open>MB_PRINTF\<close> is a list of format strings with their arguments; the strings that
  \<^verbatim>\<open>tx\<close> selects are in the format. It changes no state, but it asserts and reads arrays.
\<close>

type_synonym tLog = "(string \<times> nat list) list"

text \<open>A loop that prints the first \<open>n\<close> elements of an array, one call each.\<close>

fun print_each :: "string \<Rightarrow> u8 list \<Rightarrow> nat \<Rightarrow> nat \<Rightarrow> tLog res" where
  "print_each fmt xs i 0 = Inr []"
| "print_each fmt xs i (Suc n) = and_then (rd xs i) (\<lambda>x.
     and_then (print_each fmt xs (Suc i) n) (\<lambda>l. Inr ((fmt, [unat x]) # l)))"

definition print_prefix :: "bool \<Rightarrow> u32 \<Rightarrow> bool \<Rightarrow> u16 \<Rightarrow> tPacket \<Rightarrow> string \<times> nat list" where
  "print_prefix isMaster nodeId tx dataSize p =
     (let args = [unat (GET_PACKET_TYPE p), unat dataSize, unat (txSeqNum p)] in
      if isMaster then
        (if tx then (''Master, Tx packet:%u, size:%u, txSeqNum:%u'', args)
         else (''Master, Rx packet:%u, size:%u, txSeqNum:%u'', args))
      else
        (if tx then (''Node:%u,            Tx packet:%u, size:%u, txSeqNum:%u'', unat nodeId # args)
         else (''Node:%u,            Rx packet:%u, size:%u, txSeqNum:%u'', unat nodeId # args)))"

definition print_header :: "bool \<Rightarrow> bool \<Rightarrow> u8 \<Rightarrow> tPacket \<Rightarrow> tLog res" where
  "print_header isMaster tx numScheduled p =
     (if isMaster then
        (if tx then
           and_then (print_each ''%u,'' (take MAX_TX_NODES_SCHEDULED (uhdr p)) 0 (unat numScheduled)) (\<lambda>ids.
           and_then (print_each ''%u,'' (take MAX_TX_NODES_SCHEDULED (drop MAX_TX_NODES_SCHEDULED (uhdr p))) 0 (unat numScheduled)) (\<lambda>acks.
           Inr ([('', dstNode:%3u, nextTxNode:'', [unat (master_dstNodeId p)])] @ ids @ [('' nextTxNodeAckSeqNum:'', [])] @ acks)))
         else Inr [('', srcNode:%3u, ackSeqNum:%u, bufferLevel:%u'',
             [unat (node_srcNodeId p), unat (node_ackSeqNum p), unat (node_bufferLevel p)])])
      else if tx then Inr [('', ackSeqNum:%u, bufferLevel:%u'', [unat (node_ackSeqNum p), unat (node_bufferLevel p)])]
      else Inr [('', ackSeqNum:%u'', [unat (master_nextTxNodeAckSeqNum p 0)])])"

text \<open>\<open>logEmpty\<close> is \<^verbatim>\<open>MICROBUS_LOG_EMPTY_PACKETS\<close>. Ten bytes are printed, whatever the size.\<close>

definition microbusPrintPacket :: "bool \<Rightarrow> tPacket option \<Rightarrow> bool \<Rightarrow> u32 \<Rightarrow> bool \<Rightarrow> u8 \<Rightarrow> tLog res" where
  "microbusPrintPacket logEmpty packetPtr isMaster nodeId tx numScheduled =
     (case packetPtr of None \<Rightarrow> Inr []
      | Some p \<Rightarrow>
          let dataSize = GET_PACKET_DATA_SIZE p in
          if logEmpty \<or> dataSize > 0 then
            and_then (microbusAssert (unat dataSize < MAX_PACKET_DATA_SIZE)) (\<lambda>_.
            and_then (print_header isMaster tx numScheduled p) (\<lambda>hdr.
            and_then (if dataSize > 0 then and_then (print_each ''%02x'' (udata p) 0 10) (\<lambda>l. Inr (('', data:'', []) # l)) else Inr []) (\<lambda>body.
            Inr ([print_prefix isMaster nodeId tx dataSize p] @ hdr @ body @ [(''\<newline>'', [])]))))
          else Inr [])"

lemma print_each_runs:
  "i + n \<le> length xs \<Longrightarrow> print_each fmt xs i n = Inr (map (\<lambda>j. (fmt, [unat (xs ! j)])) [i..<i + n])"
proof (induction n arbitrary: i)
  case (Suc n)
  have "[i..<i + Suc n] = i # [Suc i..<Suc i + n]" by (simp add: upt_conv_Cons)
  then show ?case using Suc.IH [of "Suc i"] Suc.prems by (simp add: rd_def)
qed simp

text \<open>
  Printing fails in no other way than by its assertion on the size, and nothing is printed for an
  empty packet unless that is asked for. A packet that carries data has its payload.
\<close>

lemma print_outcome:
  assumes "wf_header p" and "GET_PACKET_DATA_SIZE p > 0 \<longrightarrow> wf_packet p" and "unat numScheduled \<le> MAX_TX_NODES_SCHEDULED"
  shows "(if \<not> logEmpty \<and> GET_PACKET_DATA_SIZE p = 0 then microbusPrintPacket logEmpty (Some p) isMaster nodeId tx numScheduled = Inr []
    else if unat (GET_PACKET_DATA_SIZE p) \<ge> MAX_PACKET_DATA_SIZE
    then microbusPrintPacket logEmpty (Some p) isMaster nodeId tx numScheduled = Inl Assert_Failed
    else \<exists>l. microbusPrintPacket logEmpty (Some p) isMaster nodeId tx numScheduled = Inr l \<and>
      hd l = print_prefix isMaster nodeId tx (GET_PACKET_DATA_SIZE p) p \<and>
      (GET_PACKET_DATA_SIZE p > 0 \<longrightarrow> (\<exists>pre. l = pre @ [('', data:'', [])] @ map (\<lambda>b. (''%02x'', [unat b])) (take 10 (udata p)) @ [(''\<newline>'', [])])))"
proof -
  have u: "length (uhdr p) = 10" using assms(1) by (simp add: wf_header_def)
  have "\<exists>hdr. print_header isMaster tx numScheduled p = Inr hdr"
    using assms(3) u by (cases isMaster; cases tx) (simp_all add: print_header_def print_each_runs)
  then obtain hdr where h: "print_header isMaster tx numScheduled p = Inr hdr" by blast
  have body: "print_each ''%02x'' (udata p) 0 10 = Inr (map (\<lambda>b. (''%02x'', [unat b])) (take 10 (udata p)))"
    if "GET_PACKET_DATA_SIZE p > 0"
  proof -
    have len: "10 \<le> length (udata p)" using assms(2) that by (simp add: wf_packet_def MASTER_PACKET_DATA_SIZE_def)
    then have "map (\<lambda>j. (''%02x'', [unat (udata p ! j)])) [0..<10] = map (\<lambda>b. (''%02x'', [unat b])) (take 10 (udata p))"
      by (intro nth_equalityI) simp_all
    then show ?thesis using print_each_runs [of 0 10 "udata p"] len by (simp only: add_0)
  qed
  show ?thesis
    using h body by (cases "GET_PACKET_DATA_SIZE p = 0") (simp_all add: microbusPrintPacket_def microbusAssert_def Let_def word_gt_0)
qed

end
