(* ===== verification/Stm32Node.thy ===== *)
theory Stm32Node
  imports Network
begin

text \<open>
  The node's driver for STM32 microcontrollers, \<^verbatim>\<open>example_usage/stm32_node.c\<close>. The vendor's
  HAL is not part of the repository: what its calls report when the interrupt runs is an input
  (\<open>tSpiStatus\<close>), what they are told to do is a list of actions in order, and how
  \<^verbatim>\<open>HAL_GPIO_Init\<close> changes the registers of a port is a parameter. Peripheral handles are
  numbers that are compared only. \<open>f1\<close> is the build for STM32F1, which has another register layout.
\<close>

section \<open>Registers and pins\<close>

record tGpio =
  CRL :: u32
  CRH :: u32
  AFR :: "u32 list"

datatype tGpioMode = GPIO_MODE_INPUT | GPIO_MODE_AF_PP

text \<open>\<^verbatim>\<open>GPIO_InitTypeDef\<close>; \<^verbatim>\<open>Pull\<close> and \<^verbatim>\<open>Speed\<close> are the same in every call.\<close>

record tGpioInit =
  Pin :: u16
  Mode :: tGpioMode
  Alternate :: u32

text \<open>
  The loop \<^verbatim>\<open>while ((gpioPin >> pinIndex) != 1U) pinIndex++\<close>: it stops at the highest bit set.
  A pin has 16 bits, so without a bit set it has not stopped after 16 steps and never does.
\<close>

fun pinIndexLoop :: "nat \<Rightarrow> u16 \<Rightarrow> nat \<Rightarrow> nat res" where
  "pinIndexLoop 0 gpioPin pinIndex = Inl No_Return"
| "pinIndexLoop (Suc k) gpioPin pinIndex =
     (if drop_bit pinIndex gpioPin \<noteq> 1 then pinIndexLoop k gpioPin (Suc pinIndex) else Inr pinIndex)"

definition pinIndexOf :: "u16 \<Rightarrow> nat res" where
  "pinIndexOf gpioPin = pinIndexLoop 16 gpioPin 0"

definition getGPIOAlternateFunction :: "bool \<Rightarrow> tGpio \<Rightarrow> u16 \<Rightarrow> u8 res" where
  "getGPIOAlternateFunction f1 GPIOx gpioPin =
     and_then (pinIndexOf gpioPin) (\<lambda>pinIndex.
     and_then
       (if f1 then
          (if pinIndex < 8 then Inr (CRL GPIOx, pinIndex * 4) else Inr (CRH GPIOx, (pinIndex - 8) * 4))
        else and_then (rd (AFR GPIOx) (pinIndex div 8)) (\<lambda>reg. Inr (reg, pinIndex mod 8 * 4)))
       (\<lambda>(reg, bitShift). Inr (ucast (drop_bit bitShift reg AND 0x0F))))"

definition restoreGPIOConfigSTM32F103 :: "tGpio \<Rightarrow> u16 \<Rightarrow> u8 \<Rightarrow> tGpio res" where
  "restoreGPIOConfigSTM32F103 GPIOx gpioPin savedConfig =
     and_then (pinIndexOf gpioPin) (\<lambda>pinIndex.
     let bitShift = (if pinIndex < 8 then pinIndex * 4 else (pinIndex - 8) * 4);
         update = (\<lambda>reg. (reg AND NOT (push_bit bitShift 0x0F)) OR push_bit bitShift (ucast savedConfig)) in
     Inr (if pinIndex < 8 then GPIOx\<lparr>CRL := update (CRL GPIOx)\<rparr> else GPIOx\<lparr>CRH := update (CRH GPIOx)\<rparr>))"

section \<open>The state of the driver\<close>

text \<open>\<open>miso_port\<close> is the port \<^verbatim>\<open>misoGpioX\<close> points to, \<open>node\<close> the file's node.\<close>

record tSpiNode =
  spiStarted :: bool
  hspi :: nat
  spiIndex :: u32
  misoGpioPin :: u16
  htim :: nat
  psGpioPin :: u16
  savedSpiGpioAlternate :: u32
  numSpiResets :: u64
  goodCycles :: u64
  totalCycles :: u64
  waitCycles :: u32
  miso_port :: tGpio
  node :: tNode

datatype tSpiError = HAL_SPI_ERROR_NONE | HAL_SPI_ERROR_CRC | HAL_SPI_ERROR_OTHER

record tSpiStatus =
  spi_error :: tSpiError
  spi_ready :: bool
  dmatx_ready :: bool
  dmarx_ready :: bool
  init_ok :: bool
  dma_ok :: bool

datatype tSpiAction =
    Clear_Error_Code
  | Spi_Abort
  | Force_Reset nat
  | Release_Reset nat
  | Spi_Init
  | Clear_Crc_Flag
  | Gpio_Init tGpioInit
  | TransmitReceive_DMA tTxPtr "nat option" nat
  | Receive_DMA "nat option" nat
  | Tim_Start

type_synonym gpio_hal = "tGpioInit \<Rightarrow> tGpio \<Rightarrow> tGpio"

section \<open>The code\<close>

definition misoConfig :: "bool \<Rightarrow> tSpiNode \<Rightarrow> bool \<Rightarrow> tGpioInit" where
  "misoConfig f1 S highImpedance =
     \<lparr>Pin = misoGpioPin S, Mode = (if highImpedance then GPIO_MODE_INPUT else GPIO_MODE_AF_PP),
      Alternate = (if f1 then 0 else savedSpiGpioAlternate S)\<rparr>"

definition setMisoPinMode :: "bool \<Rightarrow> gpio_hal \<Rightarrow> bool \<Rightarrow> tSpiNode \<Rightarrow> (tSpiAction list \<times> tSpiNode) res" where
  "setMisoPinMode f1 gpio_init highImpedance S =
     (let c = misoConfig f1 S highImpedance; S1 = S\<lparr>miso_port := gpio_init c (miso_port S)\<rparr> in
      if f1 then
        and_then (restoreGPIOConfigSTM32F103 (miso_port S1) (misoGpioPin S1) (ucast (savedSpiGpioAlternate S1))) (\<lambda>port.
          Inr ([Gpio_Init c], S1\<lparr>miso_port := port\<rparr>))
      else Inr ([Gpio_Init c], S1))"

text \<open>The peripheral is reset by its number, 1 or 2.\<close>

definition resetSpi :: "u32 \<Rightarrow> bool \<Rightarrow> tSpiAction list res" where
  "resetSpi index ok =
     and_then (if index = 1 then Inr [Force_Reset 1, Release_Reset 1]
               else and_then (microbusAssert (index = 2)) (\<lambda>_. Inr [Force_Reset 2, Release_Reset 2])) (\<lambda>acts.
     and_then (microbusAssert ok) (\<lambda>_. Inr (acts @ [Spi_Init])))"

definition abortTransaction :: "bool \<Rightarrow> gpio_hal \<Rightarrow> tSpiStatus \<Rightarrow> tSpiNode \<Rightarrow> (tSpiAction list \<times> tSpiNode) res" where
  "abortTransaction f1 gpio_init st S =
     and_then (resetSpi (spiIndex S) (init_ok st)) (\<lambda>acts.
     and_then (setMisoPinMode f1 gpio_init True S) (\<lambda>(pin, S1).
     Inr ([Clear_Error_Code, Spi_Abort] @ acts @ pin,
       S1\<lparr>numSpiResets := numSpiResets S1 + 1, waitCycles := 10\<rparr>)))"

definition nextTransaction :: "bool \<Rightarrow> gpio_hal \<Rightarrow> tSpiStatus \<Rightarrow> tSpiNode \<Rightarrow> (tSpiAction list \<times> tSpiNode) res" where
  "nextTransaction f1 gpio_init st S =
     and_then (nodeDualChannelPipelinedPreProcess (node S) None None (spi_error st = HAL_SPI_ERROR_CRC)) (\<lambda>(txPtr, rxMem, n).
     and_then (setMisoPinMode f1 gpio_init (txPtr = None) (S\<lparr>node := n\<rparr>)) (\<lambda>(pin, S1).
     and_then (microbusAssert (dma_ok st)) (\<lambda>_.
     and_then (nodeDualChannelPipelinedPostProcess (node S1)) (\<lambda>n'.
     let dma = (case txPtr of
           Some p \<Rightarrow> TransmitReceive_DMA p rxMem ((MB_PACKET_SIZE - 1) div 2)
         | None \<Rightarrow> Receive_DMA rxMem ((MB_PACKET_SIZE - 1) div 2)) in
     Inr ([Clear_Error_Code, Clear_Crc_Flag] @ pin @ [dma], S1\<lparr>goodCycles := goodCycles S1 + 1, node := n'\<rparr>)))))"

definition protocol_GPIO_EXTI_Rising_Callback ::
    "bool \<Rightarrow> gpio_hal \<Rightarrow> tSpiStatus \<Rightarrow> tSpiNode \<Rightarrow> (tSpiAction list \<times> tSpiNode) res" where
  "protocol_GPIO_EXTI_Rising_Callback f1 gpio_init st S =
     (if \<not> spiStarted S then Inr ([], S)
      else
        let S1 = S\<lparr>totalCycles := totalCycles S + 1\<rparr> in
        if waitCycles S1 > 0 then Inr ([], S1\<lparr>waitCycles := waitCycles S1 - 1\<rparr>)
        else if \<not> spi_ready st \<or> \<not> dmatx_ready st \<or> \<not> dmarx_ready st \<or>
            spi_error st \<noteq> HAL_SPI_ERROR_NONE \<and> spi_error st \<noteq> HAL_SPI_ERROR_CRC
        then abortTransaction f1 gpio_init st S1
        else nextTransaction f1 gpio_init st S1)"

definition protocol_TIM_PeriodElapsedCallback :: "tSpiNode \<Rightarrow> tSpiNode" where
  "protocol_TIM_PeriodElapsedCallback S = S\<lparr>node := nodeUpdateTimeUs (node S) 200\<rparr>"

abbreviation (input) MAX_MICROBUS_TX_PACKETS :: u8 where "MAX_MICROBUS_TX_PACKETS \<equiv> 4"
abbreviation (input) MAX_MICROBUS_RX_PACKETS :: u8 where "MAX_MICROBUS_RX_PACKETS \<equiv> 4"

definition protocolInit ::
    "bool \<Rightarrow> gpio_hal \<Rightarrow> tGpio \<Rightarrow> bool \<Rightarrow> u64 \<Rightarrow> tPacketEntry list \<Rightarrow> nat \<Rightarrow> u32 \<Rightarrow> u16 \<Rightarrow> nat \<Rightarrow> u16 \<Rightarrow> (tSpiAction list \<times> tSpiNode) res" where
  "protocolInit f1 gpio_init port tim_ok uid txPacketEntries spi index misoPin tim psPin =
     and_then (getGPIOAlternateFunction f1 port misoPin) (\<lambda>af.
     and_then (nodeInit uid MAX_MICROBUS_TX_PACKETS txPacketEntries MAX_MICROBUS_RX_PACKETS) (\<lambda>n.
     let S = \<lparr>spiStarted = False, hspi = spi, spiIndex = index, misoGpioPin = misoPin, htim = tim, psGpioPin = psPin,
         savedSpiGpioAlternate = ucast af, numSpiResets = 0, goodCycles = 0, totalCycles = 0, waitCycles = 10,
         miso_port = port, node = n\<rparr> in
     and_then (microbusAssert tim_ok) (\<lambda>_.
     and_then (setMisoPinMode f1 gpio_init True (S\<lparr>spiStarted := True\<rparr>)) (\<lambda>(pin, S1).
     Inr (Tim_Start # pin, S1\<lparr>node := (node S1)\<lparr>initialised := True, nodeId := 1\<rparr>\<rparr>)))))"

text \<open>The HAL's callbacks pass on what is for this driver.\<close>

definition HAL_GPIO_EXTI_Callback :: "bool \<Rightarrow> gpio_hal \<Rightarrow> tSpiStatus \<Rightarrow> u16 \<Rightarrow> tSpiNode \<Rightarrow> (tSpiAction list \<times> tSpiNode) res" where
  "HAL_GPIO_EXTI_Callback f1 gpio_init st GPIO_Pin S =
     (if GPIO_Pin = psGpioPin S then protocol_GPIO_EXTI_Rising_Callback f1 gpio_init st S else Inr ([], S))"

definition HAL_TIM_PeriodElapsedCallback :: "nat \<Rightarrow> tSpiNode \<Rightarrow> tSpiNode" where
  "HAL_TIM_PeriodElapsedCallback tim S = (if tim = htim S then protocol_TIM_PeriodElapsedCallback S else S)"

section \<open>The pin's configuration\<close>

lemma top_bit: "0 < n \<Longrightarrow> n < 2 ^ k \<Longrightarrow> \<exists>i<k. n div 2 ^ i = (1::nat)"
proof (induction k)
  case (Suc k)
  show ?case
  proof (cases "n < 2 ^ k")
    case True
    then show ?thesis using Suc less_SucI by blast
  next
    case False
    then have "n div 2 ^ k = 1" using Suc.prems(2) by (simp add: div_nat_eqI)
    then show ?thesis by blast
  qed
qed simp

lemma pinIndexLoop_finds:
  "\<exists>i. j \<le> i \<and> i < j + k \<and> drop_bit i pin = 1 \<Longrightarrow> \<exists>i. pinIndexLoop k pin j = Inr i \<and> i < j + k"
proof (induction k arbitrary: j)
  case (Suc k)
  show ?case
  proof (cases "drop_bit j pin = 1")
    case False
    then obtain i where "Suc j \<le> i" "i < Suc j + k" "drop_bit i pin = 1"
      using Suc.prems by (metis Suc_leI add_Suc_right add_Suc le_neq_implies_less)
    then show ?thesis using Suc.IH [of "Suc j"] False by auto
  qed simp
qed auto

lemma pinIndexOf_spec:
  assumes "pin \<noteq> 0"
  shows "\<exists>i<16. pinIndexOf pin = Inr i"
proof -
  have "unat pin < 2 ^ LENGTH(16)" by (rule unsigned_less)
  then have pin: "0 < unat pin" "unat pin < 2 ^ 16" using assms by (simp_all add: unat_gt_0)
  then obtain i where i: "i < 16" "unat pin div 2 ^ i = 1" using top_bit by blast
  have "unat (drop_bit i pin) = unat pin div 2 ^ i"
    unfolding unsigned_drop_bit_eq using pin(2) by (simp add: drop_bit_eq_div take_bit_nat_eq_self)
  then have "drop_bit i pin = 1" using i(2) by (intro unsigned_word_eqI [where ?'a = nat]) (simp del: drop_bit_eq_div)
  then show ?thesis using pinIndexLoop_finds [of 0 16 pin] i(1) by (auto simp: pinIndexOf_def)
qed

text \<open>Four bits of a register written and read again.\<close>

lemma nibble_write:
  fixes reg v :: u32
  assumes "i < 8"
  shows "drop_bit (i * 4) ((reg AND NOT (push_bit (i * 4) 0x0F)) OR push_bit (i * 4) v) AND 0x0F = v AND 0x0F"
    and "(reg AND NOT (push_bit (i * 4) 0x0F)) OR push_bit (i * 4) (drop_bit (i * 4) reg AND 0x0F) = reg"
proof -
  have m: "(0x0F :: u32) = mask 4" by (simp add: mask_eq_exp_minus_1)
  have "i * 4 + n < 32" if "n < 4" for n using assms that by simp
  then show "drop_bit (i * 4) ((reg AND NOT (push_bit (i * 4) 0x0F)) OR push_bit (i * 4) v) AND 0x0F = v AND 0x0F"
    unfolding m by (intro bit_word_eqI) (auto simp: bit_simps)
  show "(reg AND NOT (push_bit (i * 4) 0x0F)) OR push_bit (i * 4) (drop_bit (i * 4) reg AND 0x0F) = reg"
    unfolding m by (intro bit_word_eqI) (auto simp: bit_simps)
qed

lemma get_restore:
  assumes "pin \<noteq> 0"
  shows "\<exists>port'. restoreGPIOConfigSTM32F103 port pin v = Inr port' \<and> getGPIOAlternateFunction True port' pin = Inr (v AND 0x0F)"
proof -
  obtain i where i: "i < 16" "pinIndexOf pin = Inr i" using pinIndexOf_spec [OF assms] by blast
  have c: "ucast ((ucast v :: u32) AND 0x0F) = v AND 0x0F"
  proof -
    have m: "(0x0F :: u32) = mask 4" "(0x0F :: u8) = mask 4" by (simp_all add: mask_eq_exp_minus_1)
    show ?thesis unfolding m by (intro bit_word_eqI) (auto simp: bit_simps)
  qed
  define w where "w = (\<lambda>k (reg :: u32). (reg AND NOT (push_bit (k * 4) 0x0F)) OR push_bit (k * 4) (ucast v))"
  have get: "drop_bit (k * 4) (w k reg) AND 0x0F = ucast v AND 0x0F" if "k < 8" for k reg
    unfolding w_def by (rule nibble_write(1) [OF that])
  show ?thesis
  proof (cases "i < 8")
    case True
    have "restoreGPIOConfigSTM32F103 port pin v = Inr (port\<lparr>CRL := w i (CRL port)\<rparr>)"
      by (simp add: restoreGPIOConfigSTM32F103_def i(2) True Let_def w_def)
    moreover have "getGPIOAlternateFunction True (port\<lparr>CRL := w i (CRL port)\<rparr>) pin = Inr (ucast (drop_bit (i * 4) (w i (CRL port)) AND 0x0F))"
      by (simp add: getGPIOAlternateFunction_def i(2) True)
    ultimately show ?thesis unfolding get [OF True] c by blast
  next
    case False
    let ?k = "i - 8"
    have k: "?k < 8" using i(1) by simp
    have "restoreGPIOConfigSTM32F103 port pin v = Inr (port\<lparr>CRH := w ?k (CRH port)\<rparr>)"
      by (simp add: restoreGPIOConfigSTM32F103_def i(2) False Let_def w_def)
    moreover have "getGPIOAlternateFunction True (port\<lparr>CRH := w ?k (CRH port)\<rparr>) pin = Inr (ucast (drop_bit (?k * 4) (w ?k (CRH port)) AND 0x0F))"
      by (simp add: getGPIOAlternateFunction_def i(2) False)
    ultimately show ?thesis unfolding get [OF k] c by blast
  qed
qed

lemma setMiso_runs:
  assumes "f1 \<Longrightarrow> misoGpioPin S \<noteq> 0"
  shows "\<exists>S'. setMisoPinMode f1 gi h S = Inr ([Gpio_Init (misoConfig f1 S h)], S') \<and> (\<exists>port. S' = S\<lparr>miso_port := port\<rparr>)"
proof (cases f1)
  case True
  obtain port where "restoreGPIOConfigSTM32F103 (gi (misoConfig f1 S h) (miso_port S)) (misoGpioPin S) (ucast (savedSpiGpioAlternate S)) = Inr port"
    using get_restore assms True by blast
  then show ?thesis using True by (auto simp: setMisoPinMode_def Let_def)
qed (auto simp: setMisoPinMode_def Let_def)

section \<open>The driver and its node\<close>

text \<open>The mode the pin was last given.\<close>

definition pin_mode :: "tGpioMode \<Rightarrow> tSpiAction list \<Rightarrow> tGpioMode" where
  "pin_mode m acts = fold (\<lambda>a m. case a of Gpio_Init c \<Rightarrow> Mode c | _ \<Rightarrow> m) acts m"

definition app_call :: "node_call \<Rightarrow> bool" where
  "app_call c \<longleftrightarrow> \<not> schedule_call c \<and> \<not> receives c \<and> c \<notin> {Node_Post, Node_Single_Tx}"

text \<open>
  Interrupts of the PS line, the timer, the DMA's writing of a received packet and the calls of the
  application, after the start with a pin and the peripheral's number. The HAL's calls succeed.
\<close>

inductive driver_reach :: "bool \<Rightarrow> gpio_hal \<Rightarrow> tGpioMode \<Rightarrow> tSpiNode \<Rightarrow> bool" for f1 gi where
  Start: "protocolInit f1 gi port True uid ps spi index misoPin tim psPin = Inr (acts, S) \<Longrightarrow> node_config uid 4 ps 4 \<Longrightarrow>
    misoPin \<noteq> 0 \<Longrightarrow> index = 1 \<or> index = 2 \<Longrightarrow> driver_reach f1 gi (pin_mode m acts) S"
| Slot: "driver_reach f1 gi m S \<Longrightarrow> (spi_error st \<noteq> HAL_SPI_ERROR_CRC \<Longrightarrow> from_master (node_input (node S))) \<Longrightarrow>
    init_ok st \<Longrightarrow> dma_ok st \<Longrightarrow> protocol_GPIO_EXTI_Rising_Callback f1 gi st S = Inr (acts, S') \<Longrightarrow> driver_reach f1 gi (pin_mode m acts) S'"
| Timer: "driver_reach f1 gi m S \<Longrightarrow> driver_reach f1 gi m (protocol_TIM_PeriodElapsedCallback S)"
| Dma: "driver_reach f1 gi m S \<Longrightarrow> wf_packet p \<Longrightarrow> driver_reach f1 gi m (S\<lparr>node := node_receive p (node S)\<rparr>)"
| App: "driver_reach f1 gi m S \<Longrightarrow> app_call c \<Longrightarrow> node_allowed c (False, node S) \<Longrightarrow>
    node_do c (False, node S) = Inr (out, b, n) \<Longrightarrow> driver_reach f1 gi m (S\<lparr>node := n\<rparr>)"

definition driver_inv :: "tGpioMode \<Rightarrow> tSpiNode \<Rightarrow> bool" where
  "driver_inv m S \<longleftrightarrow> node_inv False (node S) \<and> spiStarted S \<and> misoGpioPin S \<noteq> 0 \<and> (spiIndex S = 1 \<or> spiIndex S = 2) \<and>
     (waitCycles S > 0 \<longrightarrow> m = GPIO_MODE_INPUT)"

lemma resetSpi_runs: "index = 1 \<or> index = 2 \<Longrightarrow> \<exists>k. resetSpi index True = Inr [Force_Reset k, Release_Reset k, Spi_Init]"
  by (auto simp: resetSpi_def)

lemma pre_runs:
  assumes inv: "node_inv False n" and ok: "\<not> crc \<Longrightarrow> from_master (node_input n)"
  obtains ptr mem n1 n2 where "nodeDualChannelPipelinedPreProcess n None None crc = Inr (ptr, mem, n1)"
    "nodeDualChannelPipelinedPostProcess n1 = Inr n2" "node_inv False n2"
proof -
  obtain ptr mem n1 where n1: "nodeDualChannelPipelinedPreProcess n None None crc = Inr (ptr, mem, n1)" "node_inv True n1"
    using preProcess_inv [OF inv ok] by blast
  from postProcess_inv [OF n1(2)] n1(1) that show thesis by blast
qed

lemma slot_runs:
  assumes inv: "driver_inv m S" and ok: "spi_error st \<noteq> HAL_SPI_ERROR_CRC \<Longrightarrow> from_master (node_input (node S))"
    and hal: "init_ok st" "dma_ok st"
  shows "\<exists>acts S'. protocol_GPIO_EXTI_Rising_Callback f1 gi st S = Inr (acts, S') \<and> driver_inv (pin_mode m acts) S' \<and>
    (pin_mode m acts = GPIO_MODE_AF_PP \<longleftrightarrow> (\<exists>p mem n. TransmitReceive_DMA p mem n \<in> set acts) \<or>
      m = GPIO_MODE_AF_PP \<and> waitCycles S > 0)"
proof -
  have i: "node_inv False (node S)" "spiStarted S" "misoGpioPin S \<noteq> 0" "spiIndex S = 1 \<or> spiIndex S = 2"
    using inv by (simp_all add: driver_inv_def)
  let ?S = "S\<lparr>totalCycles := totalCycles S + 1\<rparr>"
  show ?thesis
  proof (cases "waitCycles S > 0")
    case True
    then show ?thesis using inv i(2) by (simp add: protocol_GPIO_EXTI_Rising_Callback_def pin_mode_def driver_inv_def)
  next
    case go: False
    show ?thesis
    proof (cases "\<not> spi_ready st \<or> \<not> dmatx_ready st \<or> \<not> dmarx_ready st \<or>
        spi_error st \<noteq> HAL_SPI_ERROR_NONE \<and> spi_error st \<noteq> HAL_SPI_ERROR_CRC")
      case True
      obtain k where k: "resetSpi (spiIndex S) True = Inr [Force_Reset k, Release_Reset k, Spi_Init]" using resetSpi_runs i(4) by blast
      obtain port where p: "setMisoPinMode f1 gi True ?S = Inr ([Gpio_Init (misoConfig f1 ?S True)], ?S\<lparr>miso_port := port\<rparr>)"
        using setMiso_runs [of f1 ?S gi True] i(3) by auto
      show ?thesis using True go i k p hal(1)
        by (simp add: protocol_GPIO_EXTI_Rising_Callback_def abortTransaction_def Let_def pin_mode_def misoConfig_def driver_inv_def)
    next
      case False
      let ?crc = "spi_error st = HAL_SPI_ERROR_CRC"
      obtain ptr mem n1 n2 where n: "nodeDualChannelPipelinedPreProcess (node S) None None ?crc = Inr (ptr, mem, n1)"
        "nodeDualChannelPipelinedPostProcess n1 = Inr n2" "node_inv False n2"
        using pre_runs [where n = "node S" and crc = ?crc, OF i(1)] ok by blast
      let ?S1 = "?S\<lparr>node := n1\<rparr>"
      obtain port where p: "setMisoPinMode f1 gi (ptr = None) ?S1 = Inr ([Gpio_Init (misoConfig f1 ?S1 (ptr = None))], ?S1\<lparr>miso_port := port\<rparr>)"
        using setMiso_runs [of f1 ?S1 gi "ptr = None"] i(3) by auto
      have "protocol_GPIO_EXTI_Rising_Callback f1 gi st S = nextTransaction f1 gi st ?S"
        using False go i(2) by (auto simp: protocol_GPIO_EXTI_Rising_Callback_def Let_def)
      then show ?thesis using n p hal(2) i(2-4) go
        by (cases ptr) (simp_all add: nextTransaction_def Let_def pin_mode_def misoConfig_def driver_inv_def)
    qed
  qed
qed

lemma init_runs:
  assumes "protocolInit f1 gi port True uid ps spi index misoPin tim psPin = Inr (acts, S)" and "node_config uid 4 ps 4"
    and "misoPin \<noteq> 0" and "index = 1 \<or> index = 2"
  shows "driver_inv (pin_mode m acts) S"
proof -
  obtain n where n: "nodeInit uid 4 ps 4 = Inr n" "node_inv False n" using config_inv [OF assms(2)] by blast
  then have n1: "node_inv False (n\<lparr>initialised := True, nodeId := 1\<rparr>)"
    using node_invD(1) [OF n(2)] by (simp add: node_inv_def node_ok_def node_id_def)
  from assms(1) obtain af where af: "getGPIOAlternateFunction f1 port misoPin = Inr af"
    by (cases "getGPIOAlternateFunction f1 port misoPin") (auto simp: protocolInit_def)
  define T where "T = \<lparr>spiStarted = True, hspi = spi, spiIndex = index, misoGpioPin = misoPin, htim = tim, psGpioPin = psPin,
    savedSpiGpioAlternate = ucast af, numSpiResets = 0, goodCycles = 0, totalCycles = 0, waitCycles = 10, miso_port = port, node = n\<rparr>"
  obtain port' where pin: "setMisoPinMode f1 gi True T = Inr ([Gpio_Init (misoConfig f1 T True)], T\<lparr>miso_port := port'\<rparr>)"
    using setMiso_runs [of f1 T gi True] assms(3) by (auto simp: T_def)
  have t: "acts = [Tim_Start, Gpio_Init (misoConfig f1 T True)]"
    "S = T\<lparr>miso_port := port', node := n\<lparr>initialised := True, nodeId := 1\<rparr>\<rparr>"
    using assms(1) n(1) af pin [unfolded T_def] by (simp_all add: protocolInit_def T_def)
  have "pin_mode m acts = GPIO_MODE_INPUT" unfolding t(1) by (simp add: pin_mode_def misoConfig_def)
  then show ?thesis unfolding driver_inv_def using n1 assms(3,4) by (simp add: t(2) T_def)
qed

lemma driver_reach_inv: "driver_reach f1 gi m S \<Longrightarrow> driver_inv m S"
proof (induction rule: driver_reach.induct)
  case (Start port uid ps spi index misoPin tim psPin acts S m)
  then show ?case using init_runs by blast
next
  case (Slot m S st acts S')
  obtain acts' T where "protocol_GPIO_EXTI_Rising_Callback f1 gi st S = Inr (acts', T)" "driver_inv (pin_mode m acts') T"
    using slot_runs [where gi = gi and st = st, OF Slot.IH Slot.hyps(2-4)] by blast
  then show ?case using Slot.hyps(5) by simp
next
  case (Timer m S)
  have "node_inv False (nodeUpdateTimeUs (node S) 200)"
    using node_step [of "(False, node S)" "Node_Time 200"] Timer.IH by (simp add: driver_inv_def)
  then show ?case using Timer.IH by (simp add: driver_inv_def protocol_TIM_PeriodElapsedCallback_def)
next
  case (Dma m S p)
  then show ?case using receive_inv by (simp add: driver_inv_def)
next
  case (App m S c out b n)
  have "b = False" using node_keeps_phase [OF _ _ App.hyps(4)] App.hyps(2) by (simp add: app_call_def)
  then show ?case using node_step [of "(False, node S)" c] App.IH App.hyps(3,4) by (auto simp: driver_inv_def)
qed

section \<open>Properties\<close>


text \<open>
  Claim C39. On STM32F1 the driver never lets go of the bus: whatever mode is asked for, and
  whatever \<^verbatim>\<open>HAL_GPIO_Init\<close> writes, the four configuration bits of the pin end as those that were
  read at the start, since they are written back after every change of mode.
\<close>

theorem stm_f1_pin_never_released:
  assumes "misoGpioPin S \<noteq> 0"
  shows "\<exists>acts S'. setMisoPinMode True gi highImpedance S = Inr (acts, S') \<and>
    getGPIOAlternateFunction True (miso_port S') (misoGpioPin S) = Inr (ucast (savedSpiGpioAlternate S) AND 0x0F)"
proof -
  let ?c = "misoConfig True S highImpedance"
  obtain port where "restoreGPIOConfigSTM32F103 (gi ?c (miso_port S)) (misoGpioPin S) (ucast (savedSpiGpioAlternate S)) = Inr port"
    "getGPIOAlternateFunction True port (misoGpioPin S) = Inr (ucast (savedSpiGpioAlternate S) AND 0x0F)"
    using get_restore [OF assms] by blast
  then show ?thesis by (simp add: setMisoPinMode_def Let_def)
qed

text \<open>A driver on pin 6, saved as alternate function output, and a HAL that makes the pin a floating input.\<close>

definition demo_driver :: "tNode \<Rightarrow> tSpiNode" where
  "demo_driver n = \<lparr>spiStarted = True, hspi = 1, spiIndex = 1, misoGpioPin = 64, htim = 3, psGpioPin = 1,
     savedSpiGpioAlternate = 11, numSpiResets = 0, goodCycles = 0, totalCycles = 0, waitCycles = 0,
     miso_port = \<lparr>CRL = 0x0B000000, CRH = 0, AFR = [0, 0]\<rparr>, node = n\<rparr>"

definition demo_hal :: gpio_hal where
  "demo_hal c g = (if Mode c = GPIO_MODE_INPUT then g\<lparr>CRL := 0x04000000\<rparr> else g\<lparr>CRL := 0x0B000000\<rparr>)"

theorem stm_f1_pin_never_released_witness:
  "\<forall>n. \<exists>acts S'. setMisoPinMode True demo_hal True (demo_driver n) = Inr (acts, S') \<and>
     getGPIOAlternateFunction True (miso_port S') 64 = Inr 11"
proof
  fix n
  show "\<exists>acts S'. setMisoPinMode True demo_hal True (demo_driver n) = Inr (acts, S') \<and>
      getGPIOAlternateFunction True (miso_port S') 64 = Inr 11"
    using stm_f1_pin_never_released [of "demo_driver n" demo_hal True] by (simp add: demo_driver_def)
qed

text \<open>A run of interrupts.\<close>

fun driver_slots :: "bool \<Rightarrow> gpio_hal \<Rightarrow> tSpiStatus list \<Rightarrow> tSpiNode \<Rightarrow> tSpiNode res" where
  "driver_slots f1 gi [] S = Inr S"
| "driver_slots f1 gi (st # sts) S =
     and_then (protocol_GPIO_EXTI_Rising_Callback f1 gi st S) (\<lambda>(acts, S'). driver_slots f1 gi sts S')"

lemma waits:
  assumes "spiStarted S" and "unat (waitCycles S) = length sts"
  shows "\<exists>k. driver_slots f1 gi sts S = Inr (S\<lparr>totalCycles := k, waitCycles := 0\<rparr>)"
  using assms
proof (induction sts arbitrary: S)
  case Nil
  then have "waitCycles S = 0" by (simp add: unat_eq_zero)
  then have "S = S\<lparr>totalCycles := totalCycles S, waitCycles := 0\<rparr>" by simp
  then show ?case by (metis driver_slots.simps(1))
next
  case (Cons st sts)
  have pos: "waitCycles S > 0" using Cons.prems(2) by (simp add: word_gt_0 flip: unat_eq_zero)
  then have len: "unat (waitCycles S - 1) = length sts" using Cons.prems(2) by (simp add: unat_minus_one word_gt_0)
  let ?S = "S\<lparr>totalCycles := totalCycles S + 1, waitCycles := waitCycles S - 1\<rparr>"
  from Cons.IH [of ?S] obtain k where "driver_slots f1 gi sts ?S = Inr (?S\<lparr>totalCycles := k, waitCycles := 0\<rparr>)"
    using Cons.prems(1) len by auto
  then have "driver_slots f1 gi (st # sts) S = Inr (S\<lparr>totalCycles := k, waitCycles := 0\<rparr>)"
    using Cons.prems(1) pos by (simp add: protocol_GPIO_EXTI_Rising_Callback_def)
  then show ?case by blast
qed


text \<open>A node that is about to ask to join, and what the HAL reports.\<close>

lemma joining_node_ready:
  "\<exists>n p mem n1 n2. joining_node = Inr (False, n) \<and>
     nodeDualChannelPipelinedPreProcess n None None False = Inr (Some p, mem, n1) \<and>
     nodeDualChannelPipelinedPostProcess n1 = Inr n2"
proof -
  have c: "node_config 5 2 [zero_entry, zero_entry] 3" by (simp add: node_config_def zero_entry_def)
  obtain n0 where n0: "nodeInit 5 2 [zero_entry, zero_entry] 3 = Inr n0" "node_inv False n0" using config_inv [OF c] by blast
  let ?n = "node_receive joining_heard n0"
  have "wf_packet joining_heard"
    by (simp add: joining_heard_def wf_packet_def SET_PROTOCOL_VERSION_AND_PACKET_TYPE_def set_master_nextTxNodeId_def zero_packet_def)
  then have inv: "node_inv False ?n" using receive_inv n0(2) by blast
  have n: "joining_node = Inr (False, ?n)" using n0(1) by (simp add: joining_node_def)
  have "protocolVersionAndPacketType (node_input ?n) = 0x13" using joining_node_state unfolding n by simp
  then have "from_master (node_input ?n)" by (simp add: from_master_def GET_PACKET_TYPE_def)
  with inv obtain ptr mem n1 where pre: "nodeDualChannelPipelinedPreProcess ?n None None False = Inr (ptr, mem, n1)" "node_inv True n1"
    using preProcess_inv by blast
  obtain p where "node_do (Node_Pre False) (False, ?n) = Inr (Some p, True, n1)"
    using joining_node_run [OF n] node_invD(1) [OF inv] pre(1) by (auto simp: and_then_eq_Inr)
  then have "ptr \<noteq> None" using pre(1) by (cases ptr) (simp_all add: node_on_air_def)
  moreover obtain n2 where "nodeDualChannelPipelinedPostProcess n1 = Inr n2" using postProcess_inv [OF pre(2)] by blast
  ultimately show ?thesis using n pre(1) by blast
qed

definition demo_status :: "bool \<Rightarrow> tSpiError \<Rightarrow> tSpiStatus" where
  "demo_status ready err = \<lparr>spi_error = err, spi_ready = ready, dmatx_ready = True, dmarx_ready = True, init_ok = True, dma_ok = True\<rparr>"


text \<open>The driver from its start to the first interrupt at which it does not wait.\<close>

lemma reach_slots:
  assumes "driver_reach f1 gi m S" and "\<forall>st\<in>set sts. spi_error st = HAL_SPI_ERROR_CRC \<and> init_ok st \<and> dma_ok st"
    and "driver_slots f1 gi sts S = Inr S'"
  shows "\<exists>m'. driver_reach f1 gi m' S'"
  using assms
proof (induction sts arbitrary: m S)
  case (Cons st sts)
  from Cons.prems(3) obtain acts T where t: "protocol_GPIO_EXTI_Rising_Callback f1 gi st S = Inr (acts, T)" "driver_slots f1 gi sts T = Inr S'"
    by (auto simp: and_then_eq_Inr)
  have "driver_reach f1 gi (pin_mode m acts) T" using driver_reach.Slot [OF Cons.prems(1) _ _ _ t(1)] Cons.prems(2) by simp
  then show ?case using Cons.IH t(2) Cons.prems(2) by simp
qed auto


end
