(* ===== verification/Stm32Master.thy ===== *)
theory Stm32Master
  imports MasterProps
begin

text \<open>
  The master's driver for STM32 microcontrollers, \<^verbatim>\<open>example_usage/stm32_master.c\<close>. As in the
  node's driver, what the vendor's HAL reports is an input, what it is told to do a list of actions,
  and handles are numbers. The queue of active nodes that \<^verbatim>\<open>tMaster\<close> holds is the one its network
  manager works on.
\<close>

section \<open>The state of the driver\<close>

record tSpiMaster =
  master :: tMaster
  hspi :: nat
  spiIndex :: u32
  psGpioGroup :: nat
  psGpioPin :: u16
  usTimer :: nat
  countSinceHeardNode :: u32
  lastNumSpiCallbacks :: u32
  numSpiCallbacks :: u32
  resetSpiCount :: u32
  numSpiResets :: u32
  stateNotReadyCount :: u64

text \<open>\<open>crc_error\<close>: \<^verbatim>\<open>HAL_SPI_GetError\<close> is exactly the CRC error; \<open>hdmatx_ready\<close>: the transmit DMA's state.\<close>

record tMasterSpiStatus =
  crc_error :: bool
  hdmatx_ready :: bool
  spi_init_ok :: bool
  spi_start_ok :: bool

datatype tMasterAction =
    Spi_Force_Reset nat
  | Spi_Release_Reset nat
  | Spi_Reinit
  | Ps_Set
  | Ps_Reset
  | Delay_Us nat
  | Spi_Clear_Crc_Flag
  | Spi_TransmitReceive "tTxPtr option" nat nat
  | Spi_Restart

section \<open>The code\<close>

abbreviation (input) RESET_SPI_COUNT :: u32 where "RESET_SPI_COUNT \<equiv> 50"

text \<open>\<^verbatim>\<open>stateNotReadyCount\<close> is a variable of its own, which the initialisation does not reset.\<close>

definition hwMasterInit :: "u64 \<Rightarrow> tMaster \<Rightarrow> nat \<Rightarrow> u32 \<Rightarrow> nat \<Rightarrow> u16 \<Rightarrow> nat \<Rightarrow> tSpiMaster" where
  "hwMasterInit notReady m spi index gpioX pin timer =
     \<lparr>master = m, hspi = spi, spiIndex = index, psGpioGroup = gpioX, psGpioPin = pin, usTimer = timer,
      countSinceHeardNode = 0, lastNumSpiCallbacks = 0, numSpiCallbacks = 0, resetSpiCount = 0, numSpiResets = 0,
      stateNotReadyCount = notReady\<rparr>"

definition hwMasterStart :: "bool \<Rightarrow> tMasterAction list res" where
  "hwMasterStart ok = and_then (microbusAssert ok) (\<lambda>_. Inr [Spi_Restart])"

text \<open>No node heard for more than fifty slots: the SPI peripheral is reset.\<close>

definition resetIfSilent :: "tMasterSpiStatus \<Rightarrow> tSpiMaster \<Rightarrow> (tMasterAction list \<times> tSpiMaster) res" where
  "resetIfSilent st S =
     (if countSinceHeardNode S > RESET_SPI_COUNT then
        and_then (if spiIndex S = 1 then Inr [Spi_Force_Reset 1, Spi_Release_Reset 1]
                  else and_then (microbusAssert (spiIndex S = 2)) (\<lambda>_. Inr [Spi_Force_Reset 2, Spi_Release_Reset 2])) (\<lambda>acts.
        and_then (microbusAssert (spi_init_ok st)) (\<lambda>_.
        Inr (acts @ [Spi_Reinit], S\<lparr>countSinceHeardNode := 0\<rparr>)))
      else Inr ([], S))"

definition HAL_SPI_TxRxCpltCallback ::
    "(nat \<Rightarrow> u8) \<Rightarrow> nat \<Rightarrow> tMasterSpiStatus \<Rightarrow> tSpiMaster \<Rightarrow> (tMasterAction list \<times> tSpiMaster) res" where
  "HAL_SPI_TxRxCpltCallback beyond spi st S =
     and_then (microbusAssert (spi = hspi S)) (\<lambda>_.
     let S1 = S\<lparr>numSpiCallbacks := numSpiCallbacks S + 1\<rparr>;
         S2 = S1\<lparr>countSinceHeardNode := (if numNodes (activeNodes (nwManager (master S1))) > 0 then 0
           else countSinceHeardNode S1 + 1)\<rparr> in
     and_then (resetIfSilent st S2) (\<lambda>(acts, S3).
     and_then (masterDualChannelPipelinedPreProcess beyond (master S3) (crc_error st)) (\<lambda>(txPtr, rxMem, m).
     if \<not> hdmatx_ready st then
       and_then (masterDualChannelPipelinedPostProcess m) (\<lambda>(n, m').
       Inr (acts @ [Ps_Set, Delay_Us 40, Delay_Us 35, Ps_Reset], S3\<lparr>master := m'\<rparr>))
     else
       and_then (microbusAssert (spi_start_ok st)) (\<lambda>_.
       and_then (masterDualChannelPipelinedPostProcess m) (\<lambda>(n, m').
       Inr (acts @ [Ps_Set, Delay_Us 40, Spi_Clear_Crc_Flag,
           Spi_TransmitReceive txPtr rxMem ((MB_PACKET_SIZE - 1) div 2), Ps_Reset], S3\<lparr>master := m'\<rparr>))))))"

definition HAL_SPI_ErrorCallback ::
    "(nat \<Rightarrow> u8) \<Rightarrow> nat \<Rightarrow> tMasterSpiStatus \<Rightarrow> tSpiMaster \<Rightarrow> (tMasterAction list \<times> tSpiMaster) res" where
  "HAL_SPI_ErrorCallback = HAL_SPI_TxRxCpltCallback"

text \<open>The watchdog: after more than ten timer ticks without an SPI interrupt the transfer is restarted.\<close>

definition timerCallback :: "tMasterSpiStatus \<Rightarrow> tSpiMaster \<Rightarrow> (tMasterAction list \<times> tSpiMaster) res" where
  "timerCallback st S =
     and_then (masterUpdateTimeUs (master S) 200) (\<lambda>m.
     let S1 = S\<lparr>master := m\<rparr>;
         S2 = (if lastNumSpiCallbacks S1 = numSpiCallbacks S1 then S1\<lparr>resetSpiCount := resetSpiCount S1 + 1\<rparr>
           else S1\<lparr>resetSpiCount := 0, lastNumSpiCallbacks := numSpiCallbacks S1\<rparr>) in
     if resetSpiCount S2 > 10 then
       let S3 = S2\<lparr>resetSpiCount := 0, numSpiResets := numSpiResets S2 + 1\<rparr> in
       if hdmatx_ready st then
         and_then (microbusAssert (spi_start_ok st)) (\<lambda>_. Inr ([Spi_Restart], S3\<lparr>stateNotReadyCount := 0\<rparr>))
       else Inr ([], S3\<lparr>stateNotReadyCount := stateNotReadyCount S3 + 1\<rparr>)
     else Inr ([], S2))"

section \<open>Slots\<close>

text \<open>The actions that the nodes see: the PS line and the transfers.\<close>

fun on_bus :: "tMasterAction \<Rightarrow> bool" where
  "on_bus Ps_Set = True"
| "on_bus Ps_Reset = True"
| "on_bus (Spi_TransmitReceive p i n) = True"
| "on_bus a = False"

lemma resetIfSilent_runs:
  assumes "spiIndex S = 1 \<or> spiIndex S = 2" and "spi_init_ok st"
  shows "\<exists>acts c. resetIfSilent st S = Inr (acts, S\<lparr>countSinceHeardNode := c\<rparr>) \<and>
    set acts \<subseteq> {Spi_Force_Reset 1, Spi_Release_Reset 1, Spi_Force_Reset 2, Spi_Release_Reset 2, Spi_Reinit}"
proof (cases "countSinceHeardNode S > 50")
  case True
  with assms show ?thesis by (intro exI [of _ "if spiIndex S = 1 then [Spi_Force_Reset 1, Spi_Release_Reset 1, Spi_Reinit]
    else [Spi_Force_Reset 2, Spi_Release_Reset 2, Spi_Reinit]"] exI [of _ 0]) (auto simp: resetIfSilent_def)
next
  case False
  then have "resetIfSilent st S = Inr ([], S\<lparr>countSinceHeardNode := countSinceHeardNode S\<rparr>)" by (simp add: resetIfSilent_def)
  then show ?thesis by (intro exI [of _ "[]"] exI [of _ "countSinceHeardNode S"]) simp
qed

text \<open>The callback: a reset of the bus when it was silent, then the two halves of a slot around the transfer.\<close>

definition counted :: "tSpiMaster \<Rightarrow> tSpiMaster" where
  "counted S = S\<lparr>numSpiCallbacks := numSpiCallbacks S + 1, countSinceHeardNode :=
     if numNodes (activeNodes (nwManager (master S))) > 0 then 0
     else countSinceHeardNode (S\<lparr>numSpiCallbacks := numSpiCallbacks S + 1\<rparr>) + 1\<rparr>"

lemma callback_run:
  assumes "spiIndex S = 1 \<or> spiIndex S = 2" and "spi_init_ok st" and "spi_start_ok st"
    and pre: "masterDualChannelPipelinedPreProcess beyond (master S) (crc_error st) = Inr (ptr, mem, m)"
  shows "\<exists>acts c. filter on_bus acts = [] \<and> HAL_SPI_TxRxCpltCallback beyond (hspi S) st S =
    and_then (masterDualChannelPipelinedPostProcess m) (\<lambda>(_, m').
      Inr (acts @ (if hdmatx_ready st then [Ps_Set, Delay_Us 40, Spi_Clear_Crc_Flag, Spi_TransmitReceive ptr mem ((MB_PACKET_SIZE - 1) div 2), Ps_Reset]
        else [Ps_Set, Delay_Us 40, Delay_Us 35, Ps_Reset]), (counted S)\<lparr>countSinceHeardNode := c, master := m'\<rparr>))"
proof -
  from resetIfSilent_runs [of "counted S" st] assms(1,2) obtain acts c where
    a: "resetIfSilent st (counted S) = Inr (acts, (counted S)\<lparr>countSinceHeardNode := c\<rparr>)"
    "set acts \<subseteq> {Spi_Force_Reset 1, Spi_Release_Reset 1, Spi_Force_Reset 2, Spi_Release_Reset 2, Spi_Reinit}" by (auto simp: counted_def)
  have f: "filter on_bus acts = []" using a(2) by (auto simp: filter_empty_conv)
  have "HAL_SPI_TxRxCpltCallback beyond (hspi S) st S =
    and_then (masterDualChannelPipelinedPostProcess m) (\<lambda>(_, m').
      Inr (acts @ (if hdmatx_ready st then [Ps_Set, Delay_Us 40, Spi_Clear_Crc_Flag, Spi_TransmitReceive ptr mem ((MB_PACKET_SIZE - 1) div 2), Ps_Reset]
        else [Ps_Set, Delay_Us 40, Delay_Us 35, Ps_Reset]), (counted S)\<lparr>countSinceHeardNode := c, master := m'\<rparr>))"
    using a(1) pre assms(3)
    by (cases "hdmatx_ready st"; cases "masterDualChannelPipelinedPostProcess m")
      (auto simp: HAL_SPI_TxRxCpltCallback_def counted_def Let_def split del: if_split)
  then show ?thesis using f by blast
qed

text \<open>
  Claim C37. An SPI interrupt of the master's driver fails no assertion while the HAL's calls
  succeed: it runs one slot of the master, both halves of it, raises the PS line before and lowers it
  after, and starts exactly one transfer, of a packet the nodes can take, unless the transmit DMA is
  busy, when it starts none. Only the removal of a timed out node can keep it from returning.
\<close>

theorem stm_master_slot:
  assumes "master_reach beyond (master S)" and "master_allowed (Master_Pre (crc_error st)) (master S)"
    and post: "\<And>out m. master_do beyond (Master_Pre (crc_error st)) (master S) = Inr (out, m) \<Longrightarrow> master_allowed Master_Post m"
    and "spiIndex S = 1 \<or> spiIndex S = 2" and "spi_init_ok st" and "spi_start_ok st"
  shows "HAL_SPI_TxRxCpltCallback beyond (hspi S) st S = Inl No_Return \<and>
      (\<exists>out m. master_do beyond (Master_Pre (crc_error st)) (master S) = Inr (out, m) \<and> REMOVE_NODE_TTL \<in> set (masterNodeTimeToLive m)) \<or>
    (\<exists>acts S' ptr mem out m. HAL_SPI_TxRxCpltCallback beyond (hspi S) st S = Inr (acts, S') \<and>
      master_reach beyond (master S') \<and> \<not> validRxPacket (rx (master S')) \<and>
      master_do beyond (Master_Pre (crc_error st)) (master S) = Inr (out, m) \<and>
      master_do beyond Master_Post m = Inr (None, master S') \<and>
      masterDualChannelPipelinedPreProcess beyond (master S) (crc_error st) = Inr (ptr, mem, m) \<and>
      (\<forall>p. out = Some p \<longrightarrow> master_sends p) \<and>
      filter on_bus acts =
        (if hdmatx_ready st then [Ps_Set, Spi_TransmitReceive ptr mem ((MB_PACKET_SIZE - 1) div 2), Ps_Reset] else [Ps_Set, Ps_Reset]))"
proof -
  have inv: "master_inv (master S)" by (rule master_reach_inv [OF assms(1)])
  from masterPre_inv [OF inv, of "crc_error st" beyond] assms(2) obtain ptr mem m where
    pre: "masterDualChannelPipelinedPreProcess beyond (master S) (crc_error st) = Inr (ptr, mem, m)" "master_inv m" "ptr = nextTxPacket (tx m)"
    by auto
  obtain out where out: "master_on_air ptr m = Inr out" "\<forall>p. out = Some p \<longrightarrow> master_sends p" using master_air [OF pre(2,3)] by blast
  then have run: "master_do beyond (Master_Pre (crc_error st)) (master S) = Inr (out, m)" using pre(1) by simp
  obtain acts c where f: "filter on_bus acts = []" and call: "HAL_SPI_TxRxCpltCallback beyond (hspi S) st S =
    and_then (masterDualChannelPipelinedPostProcess m) (\<lambda>(_, m').
      Inr (acts @ (if hdmatx_ready st then [Ps_Set, Delay_Us 40, Spi_Clear_Crc_Flag, Spi_TransmitReceive ptr mem ((MB_PACKET_SIZE - 1) div 2), Ps_Reset]
        else [Ps_Set, Delay_Us 40, Delay_Us 35, Ps_Reset]), (counted S)\<lparr>countSinceHeardNode := c, master := m'\<rparr>))"
    using callback_run [OF assms(4-6) pre(1)] by blast
  show ?thesis
  proof (cases "masterDualChannelPipelinedPostProcess m")
    case (Inl e)
    then show ?thesis using masterPost_inv [OF pre(2)] post [OF run] call run by (auto simp: no_node_gone_def)
  next
    case (Inr r)
    then obtain k m' where p: "masterDualChannelPipelinedPostProcess m = Inr (k, m')" by (cases r) simp
    have v: "\<not> validRxPacket (rx m')" using masterPost_inv [OF pre(2)] post [OF run] p by auto
    have run': "master_do beyond Master_Post m = Inr (None, m')" using p by simp
    have r': "master_reach beyond m'"
      by (rule master_reach.Call [OF master_reach.Call [OF assms(1,2) run] post [OF run] run'])
    let ?tail = "if hdmatx_ready st then [Ps_Set, Delay_Us 40, Spi_Clear_Crc_Flag, Spi_TransmitReceive ptr mem ((MB_PACKET_SIZE - 1) div 2), Ps_Reset]
      else [Ps_Set, Delay_Us 40, Delay_Us 35, Ps_Reset]" and ?S' = "(counted S)\<lparr>countSinceHeardNode := c, master := m'\<rparr>"
    have "HAL_SPI_TxRxCpltCallback beyond (hspi S) st S = Inr (acts @ ?tail, ?S')" using call p by simp
    moreover have "filter on_bus (acts @ ?tail) =
        (if hdmatx_ready st then [Ps_Set, Spi_TransmitReceive ptr mem ((MB_PACKET_SIZE - 1) div 2), Ps_Reset] else [Ps_Set, Ps_Reset])"
      using f by simp
    moreover have "master ?S' = m'" by simp
    ultimately show ?thesis using r' v run run' pre(1) out(2) by metis
  qed
qed

section \<open>The watchdog\<close>

fun timer_ticks :: "tMasterSpiStatus list \<Rightarrow> tSpiMaster \<Rightarrow> (tMasterAction list \<times> tSpiMaster) res" where
  "timer_ticks [] S = Inr ([], S)"
| "timer_ticks (st # sts) S = and_then (timerCallback st S) (\<lambda>(acts, S1).
     and_then (timer_ticks sts S1) (\<lambda>(acts', S2). Inr (acts @ acts', S2)))"

lemma tick_reach:
  assumes "master_reach beyond m"
  shows "\<exists>m'. masterUpdateTimeUs m 200 = Inr m' \<and> master_reach beyond m'"
proof -
  obtain m' where m': "masterUpdateTimeUs m 200 = Inr m'" using masterTime_inv [OF master_reach_inv [OF assms]] by blast
  have "master_reach beyond m'" by (rule master_reach.Call [OF assms, of "Master_Time 200" None]) (simp_all add: m')
  then show ?thesis using m' by blast
qed

text \<open>Ticks before the eleventh only count.\<close>

lemma quiet_ticks:
  assumes "master_reach beyond (master S)" and "lastNumSpiCallbacks S = numSpiCallbacks S"
    and "unat (resetSpiCount S) + length sts \<le> 10"
  shows "\<exists>m. timer_ticks sts S = Inr ([], S\<lparr>master := m, resetSpiCount := resetSpiCount S + of_nat (length sts)\<rparr>) \<and> master_reach beyond m"
  using assms
proof (induction sts arbitrary: S)
  case Nil
  have "S\<lparr>master := master S, resetSpiCount := resetSpiCount S\<rparr> = S" by simp
  then show ?case using Nil by (intro exI [of _ "master S"]) simp
next
  case (Cons st sts)
  obtain m where m: "masterUpdateTimeUs (master S) 200 = Inr m" "master_reach beyond m" using tick_reach [OF Cons.prems(1)] by blast
  let ?S = "S\<lparr>master := m, resetSpiCount := resetSpiCount S + 1\<rparr>"
  have c: "unat (resetSpiCount S + 1) = unat (resetSpiCount S) + 1" using Cons.prems(3) by (simp add: unat_word_ariths)
  then have "timerCallback st S = Inr ([], ?S)"
    using m(1) Cons.prems(2,3) by (simp add: timerCallback_def Let_def word_less_nat_alt)
  moreover obtain m' where
    m': "timer_ticks sts ?S = Inr ([], ?S\<lparr>master := m', resetSpiCount := resetSpiCount ?S + of_nat (length sts)\<rparr>)" "master_reach beyond m'"
    using Cons.IH [of ?S] Cons.prems(2,3) m(2) c by auto
  ultimately have "timer_ticks (st # sts) S = Inr ([], S\<lparr>master := m', resetSpiCount := resetSpiCount S + of_nat (length (st # sts))\<rparr>)"
    by (simp add: add.assoc)
  then show ?case using m'(2) by blast
qed

text \<open>
  Claim C38. The watchdog of the master's driver: when the SPI interrupts stop, the timer restarts
  the transfer on its eleventh tick, not before, if the transmit DMA is ready, and starts counting
  again, so that it tries once in every eleven ticks until an interrupt comes.
\<close>

theorem stm_watchdog_restarts:
  assumes "master_reach beyond (master S)" and "lastNumSpiCallbacks S = numSpiCallbacks S" and "resetSpiCount S = 0"
    and "length sts = 10" and "hdmatx_ready st \<longrightarrow> spi_start_ok st"
  shows "\<exists>S1 S'. timer_ticks sts S = Inr ([], S1) \<and>
    timerCallback st S1 = Inr (if hdmatx_ready st then [Spi_Restart] else [], S') \<and> master_reach beyond (master S') \<and>
    numSpiCallbacks S' = numSpiCallbacks S \<and> lastNumSpiCallbacks S' = numSpiCallbacks S' \<and> resetSpiCount S' = 0 \<and>
    numSpiResets S' = numSpiResets S + 1 \<and>
    stateNotReadyCount S' = (if hdmatx_ready st then 0 else stateNotReadyCount S + 1)"
proof -
  from quiet_ticks [of beyond S sts] assms obtain m where
    t: "timer_ticks sts S = Inr ([], S\<lparr>master := m, resetSpiCount := 10\<rparr>)" "master_reach beyond m" by auto
  obtain m' where m': "masterUpdateTimeUs m 200 = Inr m'" "master_reach beyond m'" using tick_reach [OF t(2)] by blast
  show ?thesis using t m' assms(2,5) by (simp add: timerCallback_def Let_def)
qed

text \<open>A master just set up, and a transfer that ended with a CRC error.\<close>

definition demo_master_status :: "bool \<Rightarrow> tMasterSpiStatus" where
  "demo_master_status ready = \<lparr>crc_error = True, hdmatx_ready = ready, spi_init_ok = True, spi_start_ok = True\<rparr>"

lemma demo_master_pre:
  "case masterInit 4 2 [zero_entry, zero_entry] 3 of
     Inr m \<Rightarrow> (case masterDualChannelPipelinedPreProcess (\<lambda>_. 0) m True of
       Inr (ptr, mem, m') \<Rightarrow> allocatedPacket (txManager (tx m')) = None \<and> list_all (\<lambda>x. x \<noteq> REMOVE_NODE_TTL) (masterNodeTimeToLive m')
     | _ \<Rightarrow> False)
   | _ \<Rightarrow> False"
  by code_simp

theorem stm_master_slot_witness:
  "\<exists>m acts S'. masterInit 4 2 [zero_entry, zero_entry] 3 = Inr m \<and>
     HAL_SPI_TxRxCpltCallback (\<lambda>_. 0) 1 (demo_master_status False) (hwMasterInit 0 m 1 1 0 16 2) = Inr (acts, S') \<and>
     filter on_bus acts = [Ps_Set, Ps_Reset]"
proof -
  have c: "master_config 4 2 [zero_entry, zero_entry] 3" by (simp add: master_config_def zero_entry_def)
  from master_config_inv [OF c] obtain m where m: "masterInit 4 2 [zero_entry, zero_entry] 3 = Inr m" "\<not> validRxPacket (rx m)" by blast
  let ?S = "hwMasterInit 0 m 1 1 0 16 2" and ?st = "demo_master_status False"
  have h: "master ?S = m" "hspi ?S = 1" "spiIndex ?S = 1" by (simp_all add: hwMasterInit_def)
  have st: "crc_error ?st" "spi_init_ok ?st" "spi_start_ok ?st" "\<not> hdmatx_ready ?st" by (simp_all add: demo_master_status_def)
  have r: "master_reach (\<lambda>_. 0) (master ?S)" unfolding h by (rule master_reach.Init [OF m(1) c])
  have ok: "master_allowed (Master_Pre (crc_error ?st)) (master ?S)" using m(2) st(1) h(1) by (simp add: passes_def)
  have pre: "allocatedPacket (txManager (tx m')) = None" "REMOVE_NODE_TTL \<notin> set (masterNodeTimeToLive m')"
    if "master_do (\<lambda>_. 0) (Master_Pre (crc_error ?st)) (master ?S) = Inr (out, m')" for out m'
    using that st(1) h(1) m(1) demo_master_pre by (auto simp: and_then_eq_Inr list_all_iff)
  show ?thesis
    using stm_master_slot [OF r ok] pre h st m(1)
    by fastforce
qed

theorem stm_watchdog_restarts_witness:
  "\<exists>m S1 S'. masterInit 4 2 [zero_entry, zero_entry] 3 = Inr m \<and>
     timer_ticks (replicate 10 (demo_master_status True)) (hwMasterInit 0 m 1 1 0 16 2) = Inr ([], S1) \<and>
     timerCallback (demo_master_status True) S1 = Inr ([Spi_Restart], S') \<and> numSpiResets S' = 1"
proof -
  have c: "master_config 4 2 [zero_entry, zero_entry] 3" by (simp add: master_config_def zero_entry_def)
  from master_config_inv [OF c] obtain m where m: "masterInit 4 2 [zero_entry, zero_entry] 3 = Inr m" by blast
  have "master_reach (\<lambda>_. 0) (master (hwMasterInit 0 m 1 1 0 16 2))" using master_reach.Init [OF m c] by (simp add: hwMasterInit_def)
  from stm_watchdog_restarts [OF this, of "replicate 10 (demo_master_status True)" "demo_master_status True"] show ?thesis
    using m by (fastforce simp: hwMasterInit_def demo_master_status_def)
qed

end
